(* ===== verification/Prelude.thy ===== *)
theory Prelude
  imports Complex_Main "HOL-Library.Word" "HOL-Library.Log_Nat"
begin

text \<open>
  The prelude of the development: names for the C integer types, the collection
  \<open>unat_ops\<close> of rules that read machine-word operations as arithmetic on natural
  numbers, and the arithmetic facts about powers of two, masks and quotients that the
  component theories share.
\<close>

unbundle bit_operations_syntax

section \<open>C integer types\<close>

text \<open>
  The widths are those of the LP64 Linux targets the reference models are built for:
  \<open>uint_fast8_t\<close> is 8 bits wide, \<open>uint_fast16_t\<close>, \<open>uint_fast32_t\<close> and \<open>uint_fast64_t\<close>
  are 64 bits wide.  The signed fast types hold exponents only; they are \<^typ>\<open>int\<close>, and
  their casts to unsigned types are written out.
\<close>

type_synonym u8 = "8 word"
type_synonym u16 = "16 word"
type_synonym u32 = "32 word"
type_synonym u64 = "64 word"

named_theorems unat_ops \<open>word operations read as operations on natural numbers\<close>

section \<open>Words as natural numbers\<close>

lemma unat_drop_bit [unat_ops]: "unat (drop_bit n w) = unat w div 2 ^ n"
  by (simp only: unat_drop_bit_eq) (simp add: drop_bit_eq_div)

lemma unat_take_bit [unat_ops]: "unat (take_bit n w) = unat w mod 2 ^ n"
  by (simp only: unsigned_take_bit_eq) (simp add: take_bit_eq_mod)

lemma unat_and_mask: "unat (w AND mask n) = unat w mod 2 ^ n"
  by (simp only: take_bit_eq_mask [symmetric] unat_take_bit)

lemma unat_push_bit: "unat (push_bit n (w :: 'a::len word)) = unat w * 2 ^ n mod 2 ^ LENGTH('a)"
  by (simp only: unsigned_push_bit_eq) (simp add: take_bit_eq_mod push_bit_eq_mult)

lemma unat_push_bit_less:
  fixes w :: "'a::len word"
  assumes "unat w * 2 ^ n < 2 ^ LENGTH('a)"
  shows "unat (push_bit n w) = unat w * 2 ^ n"
  using assms by (simp add: unat_push_bit)

lemma unat_ucast: "unat (ucast w :: 'a::len word) = unat w mod 2 ^ LENGTH('a)"
  by (simp add: unsigned_ucast_eq take_bit_eq_mod)

lemma unat_ucast_less:
  "unat w < 2 ^ LENGTH('a) \<Longrightarrow> unat (ucast w :: 'a::len word) = unat w"
  by (simp add: unat_ucast)

lemma ucast_u8_u64_eq_0 [simp]: "(ucast w :: u64) = 0 \<longleftrightarrow> w = 0" for w :: u8
proof -
  have "unat (ucast w :: u64) = unat w"
    by (rule unat_ucast_less) (use unsigned_less [of w, where ?'a = nat] in simp)
  then show ?thesis by (simp only: word_unat_eq_iff unsigned_0)
qed

lemma unat_add_less:
  fixes a b :: "'a::len word"
  assumes "unat a + unat b < 2 ^ LENGTH('a)"
  shows "unat (a + b) = unat a + unat b"
  using assms by (simp add: unat_word_ariths)

lemma unat_mult_less:
  fixes a b :: "'a::len word"
  assumes "unat a * unat b < 2 ^ LENGTH('a)"
  shows "unat (a * b) = unat a * unat b"
  using assms by (simp add: unat_word_ariths)

lemma unat_minus:
  fixes w :: "'a::len word"
  assumes "w \<noteq> 0"
  shows "unat (- w) = 2 ^ LENGTH('a) - unat w"
proof -
  have "\<not> unat w \<le> unat (0 :: 'a word)" using assms by (simp add: unat_eq_0)
  then show ?thesis using unat_sub_if' [of 0 w] by simp
qed

lemma unat_word_of_int_nonneg:
  assumes "0 \<le> i" and "i < 2 ^ LENGTH('a)"
  shows "unat (word_of_int i :: 'a::len word) = nat i"
proof -
  have "take_bit LENGTH('a) i = i" using assms by (rule take_bit_int_eq_self)
  then show ?thesis by (simp only: unat_eq_nat_uint uint_word_of_int_eq)
qed

lemma unat_push_1: "n < LENGTH('a) \<Longrightarrow> unat (push_bit n 1 :: 'a::len word) = 2 ^ n"
  by (rule trans [OF unat_push_bit_less]) simp_all

lemma unat_lt_32 [simp]: "unat (w :: 32 word) < 4294967296"
  using unsigned_less [of w] by simp

lemma unat_lt_64 [simp]: "unat (w :: 64 word) < 18446744073709551616"
  using unsigned_less [of w] by simp

lemma unat_lt_16 [simp]: "unat (w :: 16 word) < 65536"
  using unsigned_less [of w] by simp

lemma unat_lt_8 [simp]: "unat (w :: 8 word) < 256"
  using unsigned_less [of w] by simp

lemma div_radix [simp]: "f < b \<Longrightarrow> (e * b + f) div b = (e :: nat)"
  by (cases "b = 0") (simp_all add: div_add1_eq)

lemma mod_radix [simp]: "f < b \<Longrightarrow> (e * b + f) mod b = (f :: nat)"
  by simp

text \<open>Disjoint bits: an OR of a multiple of \<open>2 ^ n\<close> with a number below \<open>2 ^ n\<close> is a sum.\<close>

lemma or_nat_disjoint:
  fixes a b :: nat
  assumes "2 ^ n dvd a" and "b < 2 ^ n"
  shows "a OR b = a + b"
proof -
  obtain q where q: "a = push_bit n q"
    using assms(1) by (elim dvdE) (simp add: push_bit_eq_mult mult.commute)
  have b: "take_bit n b = b" using assms(2) by (simp add: take_bit_nat_eq_self)
  have "push_bit n q AND take_bit n b = 0"
    by (rule bit_eqI) (auto simp: bit_simps)
  then show ?thesis by (simp add: q b disjunctive_add_eq_or)
qed

lemma unat_or_disjoint:
  assumes "2 ^ n dvd unat a" and "unat b < 2 ^ n"
  shows "unat (a OR b) = unat a + unat b"
  using assms by (simp add: unsigned_or_eq or_nat_disjoint)

lemma and_not_eq_diff: "w AND NOT v = w - (w AND v)" for w v :: "'a::len word"
proof -
  have "(w AND NOT v) + (w AND v) = (w AND NOT v) OR (w AND v)"
    by (rule disjunctive_add_eq_or) (auto intro!: bit_eqI simp: bit_simps)
  also have "\<dots> = w" by (auto intro!: bit_eqI simp: bit_simps)
  finally show ?thesis by (simp add: eq_diff_eq)
qed

lemma unat_and_one: "unat (w AND 1) = unat w mod 2" for w :: "'a::len word"
  by (subst unsigned_and_eq) (simp only: unsigned_1 and_one_eq)

lemma unat_andnot_bit:
  "unat (w AND NOT (of_bool b)) = unat w - of_bool (b \<and> odd (unat w))" for w :: "'a::len word"
proof (cases b)
  case True
  have "w AND 1 \<le> w" by (simp add: word_and_le2)
  then have "unat (w - (w AND 1)) = unat w - unat (w AND 1)" by (rule unat_sub)
  then have "unat (w AND NOT 1) = unat w - unat w mod 2"
    by (simp only: and_not_eq_diff unat_and_one)
  then show ?thesis using True by (simp add: mod2_eq_if)
qed simp

lemma unat_or_bit: "unat (w OR of_bool b) = unat w OR of_bool b"
  by (cases b) (simp_all add: unsigned_or_eq)

lemma unat_mask:
  assumes "n \<le> LENGTH('a)"
  shows "unat (mask n :: 'a::len word) = 2 ^ n - 1"
proof -
  have "uint (mask n :: 'a word) = 2 ^ n - 1"
    unfolding uint_mask_eq using assms by (simp add: mask_eq_exp_minus_1)
  then show ?thesis by (simp add: unat_eq_nat_uint nat_diff_distrib nat_power_eq)
qed

text \<open>The field masks of the program are masks in the sense of the word library.\<close>

lemma mask_literals:
  "(0x7F :: 'a::len word) = mask 7" "(0x1FF :: 'a word) = mask 9" "(0x3F :: 'a word) = mask 6"
  "(0xF :: 'a word) = mask 4" "(0xFF :: 'a word) = mask 8" "(0x7FF :: 'a word) = mask 11"
  "(0x7 :: 'a word) = mask 3" "(0x3FF :: 'a word) = mask 10" "(0x1F :: 'a word) = mask 5"
  "(0xFFFF :: 'a word) = mask 16" "(0x7FFF :: 'a word) = mask 15"
  "(0x7FFFFF :: 'a word) = mask 23" "(0x3FFFFF :: 'a word) = mask 22"
  "(0x7FFFFFFF :: 'a word) = mask 31" "(0xFFF :: 'a word) = mask 12"
  "(0xFFFFFFFFFFFFF :: 'a word) = mask 52"
  by (simp_all add: mask_eq_exp_minus_1)

lemma unat_and_literal [unat_ops]:
  "unat ((w :: 'a::len word) AND 0x7F) = unat w mod 2 ^ 7" "unat (w AND 0x1FF) = unat w mod 2 ^ 9"
  "unat (w AND 0x3F) = unat w mod 2 ^ 6" "unat (w AND 0xF) = unat w mod 2 ^ 4"
  "unat (w AND 0xFF) = unat w mod 2 ^ 8" "unat (w AND 0x7FF) = unat w mod 2 ^ 11"
  "unat (w AND 0x7) = unat w mod 2 ^ 3" "unat (w AND 0x3FF) = unat w mod 2 ^ 10"
  "unat (w AND 0x1F) = unat w mod 2 ^ 5" "unat (w AND 0xFFFF) = unat w mod 2 ^ 16"
  "unat (w AND 0x7FFF) = unat w mod 2 ^ 15" "unat (w AND 0x7FFFFF) = unat w mod 2 ^ 23"
  "unat (w AND 0x3FFFFF) = unat w mod 2 ^ 22" "unat (w AND 0x7FFFFFFF) = unat w mod 2 ^ 31"
  "unat (w AND 0xFFF) = unat w mod 2 ^ 12" "unat (w AND 0xFFFFFFFFFFFFF) = unat w mod 2 ^ 52"
  "unat (w AND 1) = unat w mod 2"
  by (simp_all only: mask_literals unat_and_mask unat_and_one)

text \<open>A field of \<open>n\<close> bits at position \<open>k\<close>.\<close>

lemma unat_and_field:
  fixes w :: "'a::len word"
  assumes "k + n \<le> LENGTH('a)"
  shows "unat (w AND push_bit k (mask n)) = (unat w div 2 ^ k mod 2 ^ n) * 2 ^ k"
proof -
  have "w AND push_bit k (mask n) = push_bit k (drop_bit k w AND mask n)"
    by (rule bit_word_eqI) (auto simp: bit_simps)
  moreover have "unat (drop_bit k w AND mask n) = unat w div 2 ^ k mod 2 ^ n"
    by (simp only: unat_and_mask unat_drop_bit)
  moreover have "(unat w div 2 ^ k mod 2 ^ n) * 2 ^ k < 2 ^ n * 2 ^ k" by simp
  moreover have "(2::nat) ^ n * 2 ^ k \<le> 2 ^ LENGTH('a)"
    using assms by (simp flip: power_add add: add.commute)
  ultimately show ?thesis by (simp only: unat_push_bit_less less_le_trans)
qed

lemma xor_eq_0_iff: "x XOR y = 0 \<longleftrightarrow> x = y" for x y :: "'a::len word"
  by (metis xor.assoc xor.left_neutral xor_self_eq xor.right_neutral)

lemma high_bits_zero:
  fixes x :: "'a::len word"
  shows "x AND NOT (mask k) = 0 \<longleftrightarrow> unat x < 2 ^ k"
proof -
  have "x AND NOT (mask k) = 0 \<longleftrightarrow> x AND mask k = x"
    by (auto simp: bit_eq_iff bit_simps)
  also have "\<dots> \<longleftrightarrow> unat x mod 2 ^ k = unat x" by (simp only: word_unat_eq_iff unat_and_mask)
  finally show ?thesis by (metis mod_less mod_less_divisor zero_less_numeral zero_less_power)
qed

lemma floorlog_le_width: "n < 2 ^ w \<Longrightarrow> floorlog 2 n \<le> w"
  by (rule floorlog_leI) auto

lemma floorlog_shift:
  "0 < n \<Longrightarrow> floorlog 2 (n * 2 ^ k) = floorlog 2 n + k"
  using floorlog_power [of n 2 k] by simp

text \<open>Shifting a number left until its top bit reaches position \<open>w - 1\<close>.\<close>

lemma normalize_bounds:
  assumes "0 < n" and "n < 2 ^ w"
  shows "2 ^ (w - 1) \<le> n * 2 ^ (w - floorlog 2 n)" and "n * 2 ^ (w - floorlog 2 n) < 2 ^ w"
proof -
  have fl: "2 ^ (floorlog 2 n - 1) \<le> n" "n < 2 ^ floorlog 2 n"
    using floorlog_bounds [of n 2] assms(1) by auto
  have f0: "0 < floorlog 2 n" using assms(1) by (simp add: floorlog_def)
  have fw: "floorlog 2 n \<le> w" using assms(2) by (rule floorlog_le_width)
  then have "w - 1 = floorlog 2 n - 1 + (w - floorlog 2 n)" "w = floorlog 2 n + (w - floorlog 2 n)"
    using f0 by linarith+
  then have p: "(2::nat) ^ (w - 1) = 2 ^ (floorlog 2 n - 1) * 2 ^ (w - floorlog 2 n)"
    "(2::nat) ^ w = 2 ^ floorlog 2 n * 2 ^ (w - floorlog 2 n)"
    by (metis power_add)+
  show "2 ^ (w - 1) \<le> n * 2 ^ (w - floorlog 2 n)" "n * 2 ^ (w - floorlog 2 n) < 2 ^ w"
    using fl by (simp_all only: p mult_le_mono1 mult_less_mono1 zero_less_power zero_less_numeral)
qed

end
