(* ===== verification/Float_Spec.thy ===== *)
theory Float_Spec
  imports Prelude
begin

text \<open>
  The abstract specification that every rounding routine of the program is measured
  against: the value of a binary floating-point magnitude code and the IEEE 754 rounding
  of a non-negative number to such a code, for any width of the fraction.

  A magnitude code is the encoding without its sign bit, read as a natural number.  All
  values are scaled by the smallest subnormal of the format, which makes the value of
  every code a natural number (\<open>ival\<close>) and removes the exponent bias from the
  specification.  The code one past the largest finite one is infinity; giving it the value
  the next finite number would have makes the IEEE overflow rules of every rounding mode
  fall out of the general definition.
\<close>

section \<open>The value of a code\<close>

definition ival :: "nat \<Rightarrow> nat \<Rightarrow> nat" where
  "ival fb c =
     (let e = c div 2 ^ fb; f = c mod 2 ^ fb
      in if e = 0 then f else (2 ^ fb + f) * 2 ^ (e - 1))"

definition spacing :: "nat \<Rightarrow> nat \<Rightarrow> nat" where
  "spacing fb c = 2 ^ (c div 2 ^ fb - 1)"

lemma spacing_pos [simp]: "0 < spacing fb c"
  by (simp add: spacing_def)

lemma ival_0 [simp]: "ival fb 0 = 0"
  by (simp add: ival_def)

lemma ival_small: "c < 2 ^ fb \<Longrightarrow> ival fb c = c"
  by (simp add: ival_def)

lemma ival_normal:
  "f < 2 ^ fb \<Longrightarrow> ival fb ((e + 1) * 2 ^ fb + f) = (2 ^ fb + f) * 2 ^ e"
  unfolding ival_def Let_def div_radix mod_radix by simp

text \<open>The packing identity: adding a significand with its hidden bit to an exponent field.\<close>

lemma ival_pack:
  assumes "2 ^ fb \<le> s" and "s < 2 * 2 ^ fb"
  shows "ival fb (e * 2 ^ fb + s) = s * 2 ^ e"
proof -
  obtain f where f: "s = 2 ^ fb + f" "f < 2 ^ fb"
    using assms by (metis add_less_cancel_left le_Suc_ex mult_2)
  have "e * 2 ^ fb + s = (e + 1) * 2 ^ fb + f" by (simp add: f)
  with f show ?thesis by (simp only: ival_normal)
qed

lemma ival_small2:
  assumes "c < 2 * 2 ^ fb"
  shows "ival fb c = c"
proof (cases "c < 2 ^ fb")
  case False
  with assms show ?thesis using ival_pack [of fb c 0] by simp
qed (rule ival_small)

lemma ival_Suc: "ival fb (Suc c) = ival fb c + spacing fb c"
proof -
  define e f where "e = c div 2 ^ fb" and "f = c mod 2 ^ fb"
  have c: "c = e * 2 ^ fb + f" and f: "f < 2 ^ fb"
    using div_mult_mod_eq [of c "2 ^ fb"] by (simp_all add: e_def f_def)
  have cdiv: "c div 2 ^ fb = e" by (simp add: e_def)
  show ?thesis
  proof (cases "Suc f < 2 ^ fb")
    case True
    then have "Suc c div 2 ^ fb = e" "Suc c mod 2 ^ fb = Suc f"
      by (simp_all add: c flip: add_Suc_right)
    then show ?thesis
      using f_def by (simp add: ival_def spacing_def Let_def cdiv)
  next
    case False
    with f have ff: "Suc f = 2 ^ fb" by simp
    have "Suc c = (e + 1) * 2 ^ fb"
      by (simp add: c ff algebra_simps flip: add_Suc_right)
    then have "Suc c div 2 ^ fb = Suc e" "Suc c mod 2 ^ fb = 0" by simp_all
    moreover have "2 ^ fb + f = 2 * 2 ^ fb - 1" using ff by simp
    ultimately show ?thesis
      using ff f_def
      by (cases e) (simp_all add: ival_def spacing_def Let_def cdiv algebra_simps diff_mult_distrib)
  qed
qed

lemma ival_strict_mono: "strict_mono (ival fb)"
  by (simp add: strict_mono_Suc_iff ival_Suc)

lemma ival_less_iff [simp]: "ival fb c < ival fb d \<longleftrightarrow> c < d"
  by (rule strict_mono_less [OF ival_strict_mono])

lemma ival_le_iff [simp]: "ival fb c \<le> ival fb d \<longleftrightarrow> c \<le> d"
  by (rule strict_mono_less_eq [OF ival_strict_mono])

lemma ival_eq_iff [simp]: "ival fb c = ival fb d \<longleftrightarrow> c = d"
  by (rule strict_mono_eq [OF ival_strict_mono])

lemma ival_eq_0_iff [simp]: "ival fb c = 0 \<longleftrightarrow> c = 0"
  by (metis ival_0 ival_eq_iff)

lemma ival_pos_iff [simp]: "0 < ival fb c \<longleftrightarrow> 0 < c"
  by (metis ival_0 ival_less_iff)

section \<open>The largest code whose value does not exceed a number\<close>

definition code_floor :: "nat \<Rightarrow> nat \<Rightarrow> nat" where
  "code_floor fb n =
     (if n < 2 ^ fb then n
      else let k = floorlog 2 n - 1 - fb in k * 2 ^ fb + n div 2 ^ k)"

lemma code_floor_bounds:
  "ival fb (code_floor fb n) \<le> n \<and> n < ival fb (Suc (code_floor fb n))"
proof (cases "n < 2 ^ fb")
  case True
  then show ?thesis by (auto simp: code_floor_def ival_small ival_Suc spacing_def)
next
  case False
  define k where "k = floorlog 2 n - 1 - fb"
  define q where "q = n div 2 ^ k"
  have n: "0 < n" using False by (cases n) auto
  have lo: "2 ^ (floorlog 2 n - 1) \<le> n" and hi: "n < 2 ^ floorlog 2 n"
    using floorlog_bounds [of n 2] n by auto
  have ge: "fb + 1 \<le> floorlog 2 n"
    using False floorlog_geI [of 2 "fb + 1" n] by simp
  then have fl: "floorlog 2 n = k + fb + 1" by (simp add: k_def)
  have q1: "2 ^ fb \<le> q"
    using lo by (simp add: q_def fl less_eq_div_iff_mult_less_eq power_add mult.commute)
  have q2: "q < 2 * 2 ^ fb"
    using hi by (simp add: q_def fl div_less_iff_less_mult power_add ac_simps)
  have cf: "code_floor fb n = k * 2 ^ fb + q"
    using False by (simp add: code_floor_def k_def q_def Let_def)
  have iv: "ival fb (code_floor fb n) = q * 2 ^ k"
    unfolding cf by (rule ival_pack [OF q1 q2])
  obtain f where f: "q = 2 ^ fb + f" "f < 2 ^ fb"
    using q1 q2 by (metis add_less_cancel_left le_Suc_ex mult_2)
  have "code_floor fb n = (k + 1) * 2 ^ fb + f" by (simp add: cf f)
  then have "code_floor fb n div 2 ^ fb = k + 1"
    using f(2) by (simp only: div_radix)
  then have sp: "spacing fb (code_floor fb n) = 2 ^ k" by (simp add: spacing_def)
  have "q * 2 ^ k \<le> n" "n < q * 2 ^ k + 2 ^ k"
    using div_mod_decomp [of n "2 ^ k"] mod_less_divisor [of "2 ^ k" n]
    by (simp_all add: q_def del: mod_less_divisor)
  then show ?thesis by (simp add: ival_Suc iv sp)
qed

lemma code_floor_unique:
  assumes "ival fb c \<le> n" and "n < ival fb (Suc c)"
  shows "code_floor fb n = c"
proof -
  have "ival fb (code_floor fb n) < ival fb (Suc c)" "ival fb c < ival fb (Suc (code_floor fb n))"
    using code_floor_bounds [of fb n] assms by linarith+
  then show ?thesis by simp
qed

lemma code_floor_ival [simp]: "code_floor fb (ival fb c) = c"
  by (rule code_floor_unique) (simp_all add: ival_Suc)

lemma code_floor_mono: "m \<le> n \<Longrightarrow> code_floor fb m \<le> code_floor fb n"
proof -
  assume "m \<le> n"
  then have "ival fb (code_floor fb m) < ival fb (Suc (code_floor fb n))"
    using code_floor_bounds [of fb m] code_floor_bounds [of fb n] by linarith
  then show ?thesis by simp
qed

text \<open>
  A code with \<open>g\<close> more fraction bits lies between two codes at distance \<open>r\<close> from the lower:
  truncating the encoding truncates the value.
\<close>

lemma ival_split:
  assumes "r < 2 ^ g"
  shows "ival (fb + g) (q * 2 ^ g + r) = 2 ^ g * ival fb q + r * spacing fb q"
proof -
  define e f where "e = q div 2 ^ fb" and "f = q mod 2 ^ fb"
  have q: "q = e * 2 ^ fb + f" and f: "f < 2 ^ fb" by (simp_all only: e_def f_def div_mult_mod_eq) simp
  have fr: "f * 2 ^ g + r < 2 ^ (fb + g)"
  proof -
    have "(f + 1) * 2 ^ g \<le> 2 ^ fb * 2 ^ g" using f by (intro mult_right_mono) simp_all
    then show ?thesis using assms by (simp add: power_add)
  qed
  have c: "q * 2 ^ g + r = e * 2 ^ (fb + g) + (f * 2 ^ g + r)"
    by (simp add: q power_add algebra_simps)
  have d: "(q * 2 ^ g + r) div 2 ^ (fb + g) = e" "(q * 2 ^ g + r) mod 2 ^ (fb + g) = f * 2 ^ g + r"
    unfolding c using fr by (simp_all only: div_radix mod_radix)
  show ?thesis
    unfolding ival_def Let_def d spacing_def e_def [symmetric] f_def [symmetric]
    by (simp add: power_add algebra_simps)
qed

section \<open>Encodings as words\<close>

text \<open>An encoding is a sign and a magnitude code, in a word of any width.\<close>

definition fneg :: "'a::len word \<Rightarrow> bool" where
  "fneg w \<longleftrightarrow> 2 ^ (LENGTH('a) - 1) \<le> unat w"

definition fmag :: "'a::len word \<Rightarrow> nat" where
  "fmag w = unat w mod 2 ^ (LENGTH('a) - 1)"

definition fpack :: "bool \<Rightarrow> nat \<Rightarrow> 'a::len word" where
  "fpack neg c = word_of_nat (of_bool neg * 2 ^ (LENGTH('a) - 1) + c)"

text \<open>The value of a finite encoding, in units of the smallest subnormal.\<close>

definition sval :: "nat \<Rightarrow> 'a::len word \<Rightarrow> int" where
  "sval fb w = (if fneg w then - int (ival fb (fmag w)) else int (ival fb (fmag w)))"

lemma fmag_less: "fmag (w :: 'a::len word) < 2 ^ (LENGTH('a) - 1)"
  by (simp add: fmag_def)

lemma word_len_double: "(2::nat) ^ LENGTH('a::len) = 2 * 2 ^ (LENGTH('a) - 1)"
  by (cases "LENGTH('a)") auto

lemma unat_eq_fneg_fmag:
  "unat (w :: 'a::len word) = of_bool (fneg w) * 2 ^ (LENGTH('a) - 1) + fmag w"
proof (cases "fneg w")
  case True
  have "unat w < 2 * 2 ^ (LENGTH('a) - 1)"
    using unsigned_less [of w, where ?'a = nat] by (simp only: word_len_double)
  with True have "unat w div 2 ^ (LENGTH('a) - 1) = 1"
    by (intro div_nat_eqI) (auto simp: fneg_def)
  then show ?thesis
    using True div_mult_mod_eq [of "unat w" "2 ^ (LENGTH('a) - 1)"] by (simp add: fmag_def)
next
  case False
  then show ?thesis by (simp add: fneg_def fmag_def)
qed

lemma unat_fpack:
  assumes "c < 2 ^ (LENGTH('a) - 1)"
  shows "unat (fpack neg c :: 'a::len word) = of_bool neg * 2 ^ (LENGTH('a) - 1) + c"
proof -
  have "of_bool neg * 2 ^ (LENGTH('a) - 1) + c < 2 ^ LENGTH('a)"
    using assms by (cases neg) (simp_all only: word_len_double, simp_all)
  then show ?thesis by (simp only: fpack_def unat_of_nat mod_less)
qed

lemma fneg_fpack [simp]:
  "c < 2 ^ (LENGTH('a) - 1) \<Longrightarrow> fneg (fpack neg c :: 'a::len word) = neg"
  by (cases neg) (simp_all add: fneg_def unat_fpack)

lemma fmag_fpack [simp]:
  "c < 2 ^ (LENGTH('a) - 1) \<Longrightarrow> fmag (fpack neg c :: 'a::len word) = c"
  by (cases neg) (simp_all add: fmag_def unat_fpack)

lemma fpack_fneg_fmag [simp]: "fpack (fneg w) (fmag w) = w"
  by (rule word_unat_eq_iff [THEN iffD2])
     (simp only: unat_fpack [OF fmag_less] unat_eq_fneg_fmag [symmetric])

lemma fneg_top_bit: "fneg w \<longleftrightarrow> bit w (LENGTH('a) - 1)" for w :: "'a::len word"
proof -
  have "bit w (LENGTH('a) - 1) \<longleftrightarrow> bit (unat w) (LENGTH('a) - 1)" by (simp add: bit_unsigned_iff)
  then have b: "bit w (LENGTH('a) - 1) \<longleftrightarrow> odd (unat w div 2 ^ (LENGTH('a) - 1))" by (simp only: bit_iff_odd)
  have "unat w < 2 * 2 ^ (LENGTH('a) - 1)" using unsigned_less [of w, where ?'a = nat] by (simp only: word_len_double)
  then have "unat w div 2 ^ (LENGTH('a) - 1) < 2" by (intro less_mult_imp_div_less) simp
  moreover have "2 ^ (LENGTH('a) - 1) \<le> unat w \<longleftrightarrow> unat w div 2 ^ (LENGTH('a) - 1) \<noteq> 0"
    by (simp only: div_eq_0_iff) (simp add: not_less)
  ultimately show ?thesis unfolding b fneg_def by (auto simp: less_2_cases_iff)
qed

lemma word_eq_fpackI:
  assumes "unat (w :: 'a::len word) = of_bool neg * 2 ^ (LENGTH('a) - 1) + c"
  shows "w = fpack neg c"
  using assms by (simp only: fpack_def assms [symmetric]) simp

section \<open>Rounding modes\<close>

text \<open>
  \<open>RNO\<close> rounds to nearest with ties to the odd code (mode 5 of the VU model), \<open>ROD\<close>
  rounds every inexact result to the odd code (mode 5 of SoftFloat).
\<close>

datatype rmode = RNE | RTZ | RDN | RUP | RMM | RNO | ROD

text \<open>
  The rounding decision: whether the magnitude moves up to the next code, from the sign, the
  parity of the code below, and where the exact value lies between the two neighbours.
\<close>

fun round_incr :: "rmode \<Rightarrow> bool \<Rightarrow> bool \<Rightarrow> bool \<Rightarrow> bool \<Rightarrow> bool \<Rightarrow> bool" where
  "round_incr RNE neg isodd inexact over half = (over \<or> half \<and> isodd)"
| "round_incr RTZ neg isodd inexact over half = False"
| "round_incr RDN neg isodd inexact over half = (neg \<and> inexact)"
| "round_incr RUP neg isodd inexact over half = (\<not> neg \<and> inexact)"
| "round_incr RMM neg isodd inexact over half = (over \<or> half)"
| "round_incr RNO neg isodd inexact over half = (over \<or> half \<and> \<not> isodd)"
| "round_incr ROD neg isodd inexact over half = (inexact \<and> \<not> isodd)"

definition round_code :: "nat \<Rightarrow> nat \<Rightarrow> rmode \<Rightarrow> bool \<Rightarrow> 'a::floor_ceiling \<Rightarrow> nat" where
  "round_code fb maxc m neg x =
     (let c = min maxc (code_floor fb (nat \<lfloor>x\<rfloor>));
          lo = of_nat (ival fb c); hi = of_nat (ival fb (Suc c))
      in c + of_bool (round_incr m neg (odd c) (lo < x) (lo + hi < 2 * x) (2 * x = lo + hi)))"

lemma round_codeI:
  fixes x :: "'a::floor_ceiling"
  assumes "c \<le> maxc" and "of_nat (ival fb c) \<le> x"
    and "c = maxc \<or> x < of_nat (ival fb (Suc c))"
  shows "round_code fb maxc m neg x =
    c + of_bool (round_incr m neg (odd c) (of_nat (ival fb c) < x)
      (of_nat (ival fb c) + of_nat (ival fb (Suc c)) < 2 * x)
      (2 * x = of_nat (ival fb c) + of_nat (ival fb (Suc c))))"
proof -
  have x0: "0 \<le> x" using assms(2) of_nat_0_le_iff order_trans by blast
  have le: "ival fb c \<le> nat \<lfloor>x\<rfloor>"
    using assms(2) by (metis floor_mono floor_of_nat nat_mono nat_int)
  have "min maxc (code_floor fb (nat \<lfloor>x\<rfloor>)) = c"
  proof (cases "x < of_nat (ival fb (Suc c))")
    case True
    then have "nat \<lfloor>x\<rfloor> < ival fb (Suc c)"
      using x0 by (metis floor_less_iff nat_less_iff of_int_of_nat_eq zero_le_floor)
    with le have "code_floor fb (nat \<lfloor>x\<rfloor>) = c" by (rule code_floor_unique)
    with assms(1) show ?thesis by simp
  next
    case False
    with assms(3) have "c = maxc" by simp
    moreover have "code_floor fb (ival fb c) \<le> code_floor fb (nat \<lfloor>x\<rfloor>)"
      by (rule code_floor_mono [OF le])
    ultimately show ?thesis by simp
  qed
  then show ?thesis by (simp add: round_code_def Let_def)
qed

text \<open>Every non-negative number has such a code.\<close>

lemma round_code_cases:
  fixes x :: "'a::floor_ceiling"
  assumes "0 \<le> x"
  obtains c where "c \<le> maxc" "of_nat (ival fb c) \<le> x" "c = maxc \<or> x < of_nat (ival fb (Suc c))"
proof -
  define d where "d = code_floor fb (nat \<lfloor>x\<rfloor>)"
  have b: "ival fb d \<le> nat \<lfloor>x\<rfloor>" "nat \<lfloor>x\<rfloor> < ival fb (Suc d)"
    using code_floor_bounds [of fb "nat \<lfloor>x\<rfloor>"] by (simp_all add: d_def)
  have d1: "of_nat (ival fb d) \<le> x"
    using b(1) assms by (metis of_nat_floor order_trans of_nat_mono)
  have d2: "x < of_nat (ival fb (Suc d))"
    using b(2) assms by (metis floor_less_iff nat_less_iff of_int_of_nat_eq zero_le_floor)
  show ?thesis
  proof (cases "d \<le> maxc")
    case True
    with d1 d2 show ?thesis by (intro that) auto
  next
    case False
    then have "ival fb maxc \<le> ival fb d" by simp
    with d1 have "of_nat (ival fb maxc) \<le> x"
      by (meson of_nat_mono order_trans)
    then show ?thesis by (intro that) auto
  qed
qed

lemma round_code_le: "round_code fb maxc m neg x \<le> Suc maxc"
proof -
  have "c \<le> maxc \<Longrightarrow> c + of_bool b \<le> Suc maxc" for c b by (cases b) auto
  then show ?thesis unfolding round_code_def Let_def by (meson min.cobounded1)
qed

lemma round_code_exact:
  "c \<le> maxc \<Longrightarrow> round_code fb maxc m neg (of_nat (ival fb c) :: 'a::floor_ceiling) = c"
  by (subst round_codeI [of c]) (cases m; simp add: ival_Suc)+

lemma round_code_overflow:
  fixes x :: "'a::floor_ceiling"
  assumes "of_nat (ival fb (Suc maxc)) \<le> x"
  shows "round_code fb maxc m neg x = maxc + of_bool (round_incr m neg (odd maxc) True True False)"
proof -
  have lt: "(of_nat (ival fb maxc) :: 'a) < of_nat (ival fb (Suc maxc))" by simp
  have lo: "(of_nat (ival fb maxc) :: 'a) < x" using lt assms by linarith
  have "of_nat (ival fb maxc) + of_nat (ival fb (Suc maxc)) < 2 * x" using lo assms by linarith
  then show ?thesis using lo by (subst round_codeI [of maxc]) auto
qed

lemma round_incr_mono:
  assumes "i \<longrightarrow> i'" "g \<longrightarrow> g'" "h \<longrightarrow> g' \<or> h'" "round_incr m neg d i g h"
  shows "round_incr m neg d i' g' h'"
  using assms by (cases m) auto

text \<open>Rounding is monotone: the fact behind every argument that squeezes an exact value.\<close>

lemma round_code_mono:
  fixes x y :: "'a::floor_ceiling"
  assumes "0 \<le> x" and "x \<le> y"
  shows "round_code fb maxc m neg x \<le> round_code fb maxc m neg y"
proof -
  obtain c where c: "c \<le> maxc" "of_nat (ival fb c) \<le> x" "c = maxc \<or> x < of_nat (ival fb (Suc c))"
    using round_code_cases [OF assms(1)] .
  obtain d where d: "d \<le> maxc" "of_nat (ival fb d) \<le> y" "d = maxc \<or> y < of_nat (ival fb (Suc d))"
    using assms round_code_cases [of y] order_trans by metis
  have cd: "c \<le> d"
  proof (cases "d = maxc")
    case False
    then have "(of_nat (ival fb c) :: 'a) < of_nat (ival fb (Suc d))"
      using c(2) d(3) assms(2) by linarith
    then show ?thesis by simp
  qed (use c in simp)
  show ?thesis
  proof (cases "c = d")
    case True
    have "round_incr m neg (odd c) (of_nat (ival fb c) < x)
        (of_nat (ival fb c) + of_nat (ival fb (Suc c)) < 2 * x)
        (2 * x = of_nat (ival fb c) + of_nat (ival fb (Suc c)))
      \<Longrightarrow> round_incr m neg (odd c) (of_nat (ival fb c) < y)
        (of_nat (ival fb c) + of_nat (ival fb (Suc c)) < 2 * y)
        (2 * y = of_nat (ival fb c) + of_nat (ival fb (Suc c)))"
      by (erule round_incr_mono [rotated 3]) (use assms(2) in auto)
    then show ?thesis
      by (simp only: round_codeI [OF c] round_codeI [OF d] True) simp
  next
    case False
    with cd have "Suc c \<le> d" by simp
    then show ?thesis
      by (simp only: round_codeI [OF c] round_codeI [OF d]) (auto simp: of_bool_def)
  qed
qed

text \<open>Rounding by looking at the truncated bits of a wider code.\<close>

lemma round_code_truncate:
  assumes r: "r < 2 ^ g" and q: "q \<le> maxc"
  shows "round_code fb maxc m neg (of_nat (ival (fb + g) (q * 2 ^ g + r)) / 2 ^ g :: 'a::floor_ceiling) =
    q + of_bool (round_incr m neg (odd q) (r \<noteq> 0) (2 ^ g < 2 * r) (2 * r = 2 ^ g))"
proof -
  define u :: 'a where "u = of_nat (spacing fb q)"
  have u: "0 < u" by (simp add: u_def)
  define x :: 'a where "x = of_nat (ival fb q) + of_nat r * u / 2 ^ g"
  have x: "of_nat (ival (fb + g) (q * 2 ^ g + r)) / 2 ^ g = x"
    unfolding ival_split [OF r] by (simp add: x_def u_def add_divide_distrib)
  have S: "of_nat (ival fb (Suc q)) = of_nat (ival fb q) + u" by (simp add: ival_Suc u_def)
  have rg: "(of_nat r :: 'a) < 2 ^ g"
    using r of_nat_less_iff [of r "2 ^ g", where ?'a = 'a] by simp
  have hi: "x < of_nat (ival fb (Suc q))"
    unfolding S x_def using rg u by (simp add: divide_less_eq)
  have lo: "of_nat (ival fb q) < x \<longleftrightarrow> r \<noteq> 0"
    unfolding x_def using u by (simp add: zero_less_divide_iff zero_less_mult_iff)
  have p: "(2::'a) ^ g < 2 * of_nat r \<longleftrightarrow> 2 ^ g < 2 * r" "2 * of_nat r = (2::'a) ^ g \<longleftrightarrow> 2 * r = 2 ^ g"
    using of_nat_less_iff [of "2 ^ g" "2 * r", where ?'a = 'a] of_nat_eq_iff [of "2 * r" "2 ^ g", where ?'a = 'a]
    by simp_all
  have e: "2 * x - (of_nat (ival fb q) + of_nat (ival fb (Suc q))) = u * (2 * of_nat r - 2 ^ g) / 2 ^ g"
    unfolding S x_def by (simp add: field_simps)
  have over: "of_nat (ival fb q) + of_nat (ival fb (Suc q)) < 2 * x \<longleftrightarrow> 2 ^ g < 2 * r"
  proof -
    have "of_nat (ival fb q) + of_nat (ival fb (Suc q)) < 2 * x \<longleftrightarrow> 0 < u * (2 * of_nat r - 2 ^ g) / 2 ^ g"
      unfolding e [symmetric] by simp
    then show ?thesis using u p(1) by (simp add: zero_less_divide_iff zero_less_mult_iff)
  qed
  have half: "2 * x = of_nat (ival fb q) + of_nat (ival fb (Suc q)) \<longleftrightarrow> 2 * r = 2 ^ g"
  proof -
    have "2 * x = of_nat (ival fb q) + of_nat (ival fb (Suc q)) \<longleftrightarrow> u * (2 * of_nat r - 2 ^ g) / 2 ^ g = 0"
      unfolding e [symmetric] by simp
    then show ?thesis using u p(2) by simp
  qed
  have le: "of_nat (ival fb q) \<le> x" using u by (simp add: x_def)
  show ?thesis
    unfolding x using round_codeI [OF q le disjI2 [OF hi], of m neg] by (simp only: lo over half)
qed

section \<open>Approximations that round alike\<close>

text \<open>
  \<open>agrees h s n\<close>: the natural number \<open>n\<close> compares with every multiple of \<open>h\<close> as the exact
  quantity \<open>s\<close> does.  A sticky bit ("jamming") keeps this relation with \<open>h = 2\<close>, and a
  significand that agrees with the exact one at the midpoints of the result format rounds
  to the same code.
\<close>

definition agrees :: "nat \<Rightarrow> 'a::floor_ceiling \<Rightarrow> nat \<Rightarrow> bool" where
  "agrees h s n \<longleftrightarrow>
     (\<forall>k. (of_nat (k * h) < s \<longleftrightarrow> k * h < n) \<and> (s < of_nat (k * h) \<longleftrightarrow> n < k * h))"

lemma agreesD:
  assumes "agrees h s n" and "h dvd a"
  shows "of_nat a < s \<longleftrightarrow> a < n" "s < of_nat a \<longleftrightarrow> n < a" "of_nat a \<le> s \<longleftrightarrow> a \<le> n"
    "s \<le> of_nat a \<longleftrightarrow> n \<le> a" "s = of_nat a \<longleftrightarrow> n = a"
proof -
  obtain k where k: "a = k * h" using assms(2) by (metis dvdE mult.commute)
  show l: "of_nat a < s \<longleftrightarrow> a < n" and g: "s < of_nat a \<longleftrightarrow> n < a"
    using assms(1) by (auto simp: agrees_def k)
  from l g show "of_nat a \<le> s \<longleftrightarrow> a \<le> n" "s \<le> of_nat a \<longleftrightarrow> n \<le> a" by (auto simp: not_less [symmetric])
  have "s = of_nat a \<longleftrightarrow> \<not> of_nat a < s \<and> \<not> s < of_nat a" by auto
  then show "s = of_nat a \<longleftrightarrow> n = a" using l g by auto
qed

lemma agreesI:
  assumes "\<And>a. h dvd a \<Longrightarrow> of_nat a < s \<longleftrightarrow> a < n"
    and "\<And>a. h dvd a \<Longrightarrow> s < of_nat a \<longleftrightarrow> n < a"
  shows "agrees h s n"
  using assms by (simp add: agrees_def del: of_nat_mult)

lemma agrees_refl [intro, simp]: "agrees h (of_nat n) n"
  by (simp add: agrees_def del: of_nat_mult)

lemma agrees_weaken: "agrees h s n \<Longrightarrow> h dvd h' \<Longrightarrow> agrees h' s n"
  by (rule agreesI) (auto dest: agreesD dvd_trans)

lemma agrees_double:
  fixes s :: "'a::floor_ceiling"
  assumes "agrees h s n"
  shows "agrees (2 * h) (2 * s) (2 * n)"
proof (rule agreesI)
  fix a assume "2 * h dvd a"
  then obtain b where b: "a = 2 * b" "h dvd b" by (auto elim!: dvdE)
  have "(of_nat a :: 'a) = 2 * of_nat b" by (simp add: b)
  then show "of_nat a < 2 * s \<longleftrightarrow> a < 2 * n" "2 * s < of_nat a \<longleftrightarrow> 2 * n < a"
    using agreesD(1,2) [OF assms b(2)] by (simp_all add: b)
qed

lemma agrees_add:
  fixes s :: "'a::floor_ceiling"
  assumes "agrees h s n" and "h dvd b" and "0 \<le> s"
  shows "agrees h (of_nat b + s) (b + n)"
proof (rule agreesI)
  fix a assume a: "h dvd a"
  show "of_nat a < of_nat b + s \<longleftrightarrow> a < b + n"
  proof (cases "a < b")
    case True
    then have "(of_nat a :: 'a) < of_nat b" by simp
    with True assms(3) show ?thesis by linarith
  next
    case False
    then have "h dvd a - b" "a = b + (a - b)" using a assms(2) by (simp_all add: dvd_diff_nat)
    then show ?thesis
      using agreesD(1) [OF assms(1), of "a - b"] by (metis add_less_cancel_left of_nat_add)
  qed
  show "of_nat b + s < of_nat a \<longleftrightarrow> b + n < a"
  proof (cases "a < b")
    case True
    then have "(of_nat a :: 'a) < of_nat b" by simp
    with True assms(3) show ?thesis by linarith
  next
    case False
    then have "h dvd a - b" "a = b + (a - b)" using a assms(2) by (simp_all add: dvd_diff_nat)
    then show ?thesis
      using agreesD(2) [OF assms(1), of "a - b"] by (metis add_less_cancel_left of_nat_add)
  qed
qed

lemma agrees_diff:
  fixes s :: "'a::floor_ceiling"
  assumes "agrees h s n" and "h dvd b" and "n \<le> b"
  shows "agrees h (of_nat b - s) (b - n)"
proof (rule agreesI)
  fix a assume a: "h dvd a"
  have sb: "s \<le> of_nat b" using agreesD(4) [OF assms(1,2)] assms(3) by simp
  show "of_nat a < of_nat b - s \<longleftrightarrow> a < b - n"
  proof (cases "a \<le> b")
    case True
    then have "h dvd b - a" using a assms(2) by (simp add: dvd_diff_nat)
    from agreesD(2) [OF assms(1) this] True show ?thesis by (auto simp: of_nat_diff algebra_simps)
  next
    case False
    have "\<not> (of_nat a :: 'a) < of_nat b - s"
    proof
      assume "(of_nat a :: 'a) < of_nat b - s"
      moreover have "0 \<le> s" using agreesD(3) [OF assms(1), of 0] by simp
      moreover have "(of_nat b :: 'a) \<le> of_nat a" using False by simp
      ultimately show False by linarith
    qed
    with False show ?thesis by simp
  qed
  show "of_nat b - s < of_nat a \<longleftrightarrow> b - n < a"
  proof (cases "a \<le> b")
    case True
    then have "h dvd b - a" using a assms(2) by (simp add: dvd_diff_nat)
    from agreesD(1) [OF assms(1) this] True assms(3) show ?thesis
      by (auto simp: of_nat_diff algebra_simps)
  next
    case False
    then have "(of_nat b :: 'a) < of_nat a" by simp
    moreover have "0 \<le> s" using agreesD(3) [OF assms(1), of 0] by simp
    ultimately show ?thesis using False by (auto simp: diff_less_eq intro: less_le_trans [of _ "of_nat a"])
  qed
qed

text \<open>The shift right that jams the lost bits into the lowest bit.\<close>

definition jam_shift :: "nat \<Rightarrow> nat \<Rightarrow> nat" where
  "jam_shift n d = (n div 2 ^ d) OR of_bool (n mod 2 ^ d \<noteq> 0)"

lemma jam_shift_0 [simp]: "jam_shift n 0 = n"
  by (simp add: jam_shift_def)

lemma or_of_bool: "n OR of_bool b = n + of_bool (b \<and> even n)" for n :: nat
  by (cases b) (simp_all add: or_Suc_0_eq)

lemma agrees_jam_shift:
  fixes s :: "'a::floor_ceiling"
  assumes ag: "agrees h s n" and h: "even h"
  shows "agrees h (s / 2 ^ d) (jam_shift n d)"
proof (rule agreesI)
  fix a assume a: "h dvd a"
  define q r where "q = n div 2 ^ d" and "r = n mod 2 ^ d"
  have n: "n = q * 2 ^ d + r" and r: "r < 2 ^ d"
    using div_mult_mod_eq [of n "2 ^ d"] by (simp_all add: q_def r_def)
  have ea: "even a" using a h by (meson dvd_trans)
  have js: "jam_shift (q * 2 ^ d + r) d = q + of_bool (r \<noteq> 0 \<and> even q)"
    unfolding n [symmetric]

    by (simp only: jam_shift_def or_of_bool q_def r_def)
  have ha: "h dvd a * 2 ^ d" using a by simp
  have lt: "(x < y) = (x * 2 ^ d < y * 2 ^ d)" for x y :: nat by simp
  have 1: "a * 2 ^ d < n \<longleftrightarrow> a < jam_shift n d"
  proof (cases "a < q")
    case True
    then have "a * 2 ^ d < q * 2 ^ d" by simp
    then have "a * 2 ^ d < n" unfolding n by linarith
    moreover have "a < jam_shift n d" using True by (simp add: n js)
    ultimately show ?thesis by simp
  next
    case False
    then show ?thesis
    proof (cases "a = q")
      case True then show ?thesis using ea by (auto simp: n js)
    next
      case False
      with \<open>\<not> a < q\<close> have "(q + 1) * 2 ^ d \<le> a * 2 ^ d" by (intro mult_right_mono) auto
      with False \<open>\<not> a < q\<close> r show ?thesis by (auto simp: n js)
    qed
  qed
  have 2: "n < a * 2 ^ d \<longleftrightarrow> jam_shift n d < a"
  proof (cases "a \<le> q")
    case True
    then have "a * 2 ^ d \<le> q * 2 ^ d" by simp
    then have "\<not> n < a * 2 ^ d" unfolding n by linarith
    moreover have "\<not> jam_shift n d < a" using True by (simp add: n js)
    ultimately show ?thesis by simp
  next
    case False
    then have "(q + 1) * 2 ^ d \<le> a * 2 ^ d" by (intro mult_right_mono) auto
    then have "n < a * 2 ^ d" using r by (simp add: n)
    moreover have "jam_shift n d < a"
      using False ea by (cases "a = Suc q") (auto simp: n js of_bool_def)
    ultimately show ?thesis by simp
  qed
  have "of_nat a < s / 2 ^ d \<longleftrightarrow> of_nat (a * 2 ^ d) < s"
    by (simp add: pos_less_divide_eq)
  with 1 show "of_nat a < s / 2 ^ d \<longleftrightarrow> a < jam_shift n d"
    using agreesD(1) [OF ag ha] by simp
  have "s / 2 ^ d < of_nat a \<longleftrightarrow> s < of_nat (a * 2 ^ d)"
    by (simp add: pos_divide_less_eq)
  with 2 show "s / 2 ^ d < of_nat a \<longleftrightarrow> jam_shift n d < a"
    using agreesD(2) [OF ag ha] by simp
qed

text \<open>A truncated quotient with a sticky bit where its guard bits vanish.\<close>

lemma agrees_div:
  fixes x y :: nat
  assumes y: "0 < y" and h: "even h" "0 < h"
    and n: "n = (if x div y mod h = 0 then x div y OR of_bool (y * (x div y) \<noteq> x) else x div y)"
  shows "agrees h (of_nat x / of_nat y :: 'a::floor_ceiling) n"
proof (rule agreesI)
  fix a assume a: "h dvd a"
  define q r where "q = x div y" and "r = x mod y"
  have x: "x = q * y + r" and r: "r < y" using y by (simp_all add: q_def r_def)
  have nq: "n = q + of_bool (h dvd q \<and> r \<noteq> 0)"
  proof -
    have "y * q \<noteq> x \<longleftrightarrow> r \<noteq> 0" using x by (simp add: mult.commute)
    then have "y * (x div y) \<noteq> x \<longleftrightarrow> r \<noteq> 0" by (simp only: q_def)
    moreover have "even q" if "h dvd q" using dvd_trans [OF h(1) that] .
    ultimately show ?thesis
      unfolding n by (auto simp: q_def [symmetric] or_of_bool dvd_eq_mod_eq_0)
  qed
  have eq: "of_nat a < (of_nat x / of_nat y :: 'a) \<longleftrightarrow> a * y < x"
    "(of_nat x / of_nat y :: 'a) < of_nat a \<longleftrightarrow> x < a * y"
    using y by (simp_all add: pos_less_divide_eq pos_divide_less_eq flip: of_nat_mult)
  have ay: "a * y < q * y + r \<longleftrightarrow> a < q \<or> a = q \<and> 0 < r"
  proof (cases "a < q")
    case True
    then have "a * y < q * y" using y by simp
    with True show ?thesis by linarith
  next
    case False
    then have "q * y \<le> a * y" by simp
    moreover have "(q + 1) * y \<le> a * y" if "a \<noteq> q" using False that by (intro mult_right_mono) simp_all
    ultimately show ?thesis using False r by (cases "a = q") auto
  qed
  have ya: "q * y + r < a * y \<longleftrightarrow> q < a"
  proof (cases "q < a")
    case True
    then have "(q + 1) * y \<le> a * y" by (intro mult_right_mono) simp_all
    with True r show ?thesis by simp
  next
    case False
    then have "a * y \<le> q * y" by simp
    with False show ?thesis by linarith
  qed
  show "of_nat a < (of_nat x / of_nat y :: 'a) \<longleftrightarrow> a < n"
    unfolding eq ay [folded x] nq using a by (auto simp: of_bool_def)
  have "n < a \<longleftrightarrow> q < a"
  proof (cases "h dvd q \<and> r \<noteq> 0")
    case True
    then have "q < a \<longleftrightarrow> q + h \<le> a"
      using a h(2) by (metis dvd_diff_nat dvd_imp_le le_add_diff_inverse less_imp_le_nat add_le_cancel_left
          less_le_trans less_add_same_cancel1 zero_less_diff)
    moreover have "1 < h" using h by (cases "h = 1") auto
    ultimately show ?thesis using True by (auto simp: nq)
  qed (auto simp: nq)
  then show "(of_nat x / of_nat y :: 'a) < of_nat a \<longleftrightarrow> n < a"
    unfolding eq ya [folded x] by simp
qed

text \<open>
  Rounding a significand \<open>n\<close> with \<open>g\<close> guard bits at exponent \<open>e\<close>: the code is the packed
  quotient plus the rounding increment read off the guard bits.
\<close>

definition guard_incr :: "rmode \<Rightarrow> bool \<Rightarrow> nat \<Rightarrow> nat \<Rightarrow> bool" where
  "guard_incr m neg g n =
     round_incr m neg (odd (n div 2 ^ g)) (n mod 2 ^ g \<noteq> 0) (2 ^ g < 2 * (n mod 2 ^ g))
       (2 * (n mod 2 ^ g) = 2 ^ g)"

lemma round_code_guard:
  fixes s :: "'a::floor_ceiling"
  assumes g: "0 < g" and fb: "0 < fb" and ag: "agrees (2 ^ (g - 1)) s n"
    and hi: "n < 2 ^ (fb + 1 + g)" and lo: "e = 0 \<or> 2 ^ (fb + g) \<le> n"
    and c: "e * 2 ^ fb + n div 2 ^ g \<le> maxc"
  shows "round_code fb maxc m neg (s * 2 ^ e / 2 ^ g) =
    e * 2 ^ fb + n div 2 ^ g + of_bool (guard_incr m neg g n)"
proof -
  define q r where "q = n div 2 ^ g" and "r = n mod 2 ^ g"
  have n: "n = q * 2 ^ g + r" and r: "r < 2 ^ g"
    using div_mult_mod_eq [of n "2 ^ g"] by (simp_all add: q_def r_def)
  have q2: "q < 2 * 2 ^ fb"
    using hi by (simp add: q_def div_less_iff_less_mult power_add ac_simps)
  have q1: "e = 0 \<or> 2 ^ fb \<le> q"
    using lo by (simp add: q_def less_eq_div_iff_mult_less_eq power_add)
  let ?c = "e * 2 ^ fb + q"
  have iv: "ival fb ?c = q * 2 ^ e"
    using q1 q2 by (cases "2 ^ fb \<le> q") (auto simp: ival_pack ival_small)
  have sp: "spacing fb ?c = 2 ^ e"
  proof (cases "2 ^ fb \<le> q")
    case True
    then obtain f where f: "q = 2 ^ fb + f" "f < 2 ^ fb"
      using q2 by (metis add_less_cancel_left le_Suc_ex mult_2)
    have "?c = (e + 1) * 2 ^ fb + f" by (simp add: f)
    then have "?c div 2 ^ fb = e + 1" using f(2) by (simp only: div_radix)
    then show ?thesis by (simp add: spacing_def)
  qed (use q1 in \<open>auto simp: spacing_def\<close>)
  let ?x = "s * 2 ^ e / 2 ^ g"
  have g2: "(2::nat) ^ g = 2 * 2 ^ (g - 1)" using g by (cases g) auto
  have d1: "2 ^ (g - 1) dvd q * 2 ^ g" "2 ^ (g - 1) dvd (q + 1) * 2 ^ g"
    "2 ^ (g - 1) dvd (2 * q + 1) * 2 ^ (g - 1)"
    by (simp_all add: g2)
  have scale: "of_nat a * 2 ^ e < ?x \<longleftrightarrow> of_nat (a * 2 ^ g) < s"
    "?x < of_nat a * 2 ^ e \<longleftrightarrow> s < of_nat (a * 2 ^ g)" for a
    by (simp_all add: field_simps)
  have lo': "of_nat (ival fb ?c) < ?x \<longleftrightarrow> r \<noteq> 0"
    using scale(1) [of q] agreesD(1) [OF ag d1(1)] by (simp add: iv n)
  have le: "of_nat (ival fb ?c) \<le> ?x"
    using scale(2) [of q] agreesD(2) [OF ag d1(1)] by (simp add: iv n not_less [symmetric])
  have hi': "?x < of_nat (ival fb (Suc ?c))"
    using scale(2) [of "q + 1"] agreesD(2) [OF ag d1(2)] r 
    by (simp only: ival_Suc iv sp) (simp add: n algebra_simps)
  have mid: "of_nat (ival fb ?c) + of_nat (ival fb (Suc ?c)) = (2 * of_nat q + 1) * (2 ^ e :: 'a)"
    by (simp only: ival_Suc iv sp) (simp add: algebra_simps)
  have dx: "2 * ?x = s * 2 ^ e / 2 ^ (g - 1)" using g by (cases g) simp_all
  have gen: "A * 2 ^ e < s * 2 ^ e / 2 ^ (g - 1) \<longleftrightarrow> A * 2 ^ (g - 1) < s"
    "s * 2 ^ e / 2 ^ (g - 1) = A * 2 ^ e \<longleftrightarrow> s = A * 2 ^ (g - 1)" for A :: 'a
    by (simp_all add: pos_less_divide_eq nonzero_divide_eq_eq mult.assoc mult.left_commute [of _ "2 ^ e"])
  have two: "(2 * of_nat q + 1) * (2 ^ e :: 'a) < 2 * ?x
      \<longleftrightarrow> of_nat ((2 * q + 1) * 2 ^ (g - 1)) < s"
    "2 * ?x = (2 * of_nat q + 1) * (2 ^ e :: 'a)
      \<longleftrightarrow> s = of_nat ((2 * q + 1) * 2 ^ (g - 1))"
    unfolding dx gen by (simp_all add: algebra_simps)
  have nm: "(2 * q + 1) * 2 ^ (g - 1) < n \<longleftrightarrow> 2 ^ g < 2 * r"
    "n = (2 * q + 1) * 2 ^ (g - 1) \<longleftrightarrow> 2 * r = 2 ^ g"
    unfolding n g2 by (auto simp: algebra_simps)
  have over: "of_nat (ival fb ?c) + of_nat (ival fb (Suc ?c)) < 2 * ?x \<longleftrightarrow> 2 ^ g < 2 * r"
    unfolding mid two agreesD(1) [OF ag d1(3)] by (simp only: nm)
  have half: "2 * ?x = of_nat (ival fb ?c) + of_nat (ival fb (Suc ?c)) \<longleftrightarrow> 2 * r = 2 ^ g"
    unfolding mid two agreesD(5) [OF ag d1(3)] by (simp only: nm)
  have odd: "odd ?c \<longleftrightarrow> odd q" using fb by simp
  have "round_code fb maxc m neg ?x =
      ?c + of_bool (round_incr m neg (odd ?c) (of_nat (ival fb ?c) < ?x)
        (of_nat (ival fb ?c) + of_nat (ival fb (Suc ?c)) < 2 * ?x)
        (2 * ?x = of_nat (ival fb ?c) + of_nat (ival fb (Suc ?c))))"
    by (rule round_codeI) (use c le hi' in \<open>auto simp: q_def\<close>)
  then show ?thesis
    unfolding lo' over half odd by (simp only: guard_incr_def q_def r_def)
qed

lemma powi_shift:
  fixes i j :: int
  shows "(2::rat) powi (i - int k) = 2 powi i / 2 ^ k"
    and "(2::rat) powi (i + int k) = 2 powi i * 2 ^ k"
    and "(2::rat) powi (i + j) = 2 powi i * 2 powi j"
    and "(2::rat) powi (i - j) = 2 powi i / 2 powi j"
  by (subst power_int_diff, simp, simp only: power_int_of_nat)
     (subst power_int_add, simp, simp only: power_int_of_nat,
      subst power_int_add, simp, simp, subst power_int_diff, simp, simp)

section \<open>Formats\<close>

text \<open>
  A format: its fraction width, its largest finite magnitude code, and the exponent of its
  smallest subnormal \<open>2 ^ - ulp0\<close>.
\<close>

record fmt =
  fbits :: nat
  maxfin :: nat
  ulp0 :: nat

definition F32 :: fmt where "F32 = \<lparr>fbits = 23, maxfin = 0x7F7FFFFF, ulp0 = 149\<rparr>"
definition BF16 :: fmt where "BF16 = \<lparr>fbits = 7, maxfin = 0x7F7F, ulp0 = 133\<rparr>"
definition F16 :: fmt where "F16 = \<lparr>fbits = 10, maxfin = 0x7BFF, ulp0 = 24\<rparr>"
definition F64 :: fmt where "F64 = \<lparr>fbits = 52, maxfin = 0x7FEFFFFFFFFFFFFF, ulp0 = 1074\<rparr>"
definition E4M3 :: fmt where "E4M3 = \<lparr>fbits = 3, maxfin = 0x7E, ulp0 = 9\<rparr>"
definition E5M2 :: fmt where "E5M2 = \<lparr>fbits = 2, maxfin = 0x7B, ulp0 = 16\<rparr>"

lemmas formats = F32_def BF16_def F16_def F64_def E4M3_def E5M2_def

text \<open>The value of an encoding, and the encoding a number is rounded to.\<close>

definition fval :: "fmt \<Rightarrow> 'a::len word \<Rightarrow> rat" where
  "fval F w = of_int (sval (fbits F) w) / 2 ^ ulp0 F"

definition fround :: "fmt \<Rightarrow> rmode \<Rightarrow> bool \<Rightarrow> rat \<Rightarrow> 'a::len word" where
  "fround F m neg x = fpack neg (round_code (fbits F) (maxfin F) m neg (\<bar>x\<bar> * 2 ^ ulp0 F))"

text \<open>Rounding that saturates at the largest finite magnitude.\<close>

definition fsat :: "fmt \<Rightarrow> rmode \<Rightarrow> bool \<Rightarrow> rat \<Rightarrow> 'a::len word" where
  "fsat F m neg x =
     fpack neg (min (maxfin F) (round_code (fbits F) (maxfin F) m neg (\<bar>x\<bar> * 2 ^ ulp0 F)))"

definition ffinite :: "fmt \<Rightarrow> 'a::len word \<Rightarrow> bool" where
  "ffinite F w \<longleftrightarrow> fmag w \<le> maxfin F"

definition finf :: "fmt \<Rightarrow> 'a::len word \<Rightarrow> bool" where
  "finf F w \<longleftrightarrow> fmag w = maxfin F + 1"

definition fnan :: "fmt \<Rightarrow> 'a::len word \<Rightarrow> bool" where
  "fnan F w \<longleftrightarrow> maxfin F + 1 < fmag w"

lemma fmt_cases:
  obtains "ffinite F w" | "finf F w" | "fnan F w"
  unfolding ffinite_def finf_def fnan_def by linarith

lemma fval_fpack:
  "c < 2 ^ (LENGTH('a) - 1) \<Longrightarrow>
    fval F (fpack neg c :: 'a::len word) = (if neg then - 1 else 1) * of_nat (ival (fbits F) c) / 2 ^ ulp0 F"
  by (simp add: fval_def sval_def)

lemma fval_eq:
  "fval F w = (if fneg w then - 1 else 1) * of_nat (ival (fbits F) (fmag w)) / 2 ^ ulp0 F"
  by (simp add: fval_def sval_def)

lemma abs_fval: "\<bar>fval F w\<bar> = of_nat (ival (fbits F) (fmag w)) / 2 ^ ulp0 F"
  by (simp add: fval_eq abs_mult)

lemma fval_eq_0_iff: "fval F w = 0 \<longleftrightarrow> fmag w = 0"
  by (auto simp: fval_eq)

lemma fval_less_0_iff: "fval F w < 0 \<longleftrightarrow> fneg w \<and> fmag w \<noteq> 0"
  by (auto simp: fval_eq divide_less_0_iff)

text \<open>Rounding a representable number returns it.\<close>

lemma fround_fval:
  assumes "ffinite F w"
  shows "fround F m (fneg w) (fval F w) = w"
  using assms by (simp add: fround_def abs_fval round_code_exact ffinite_def)

text \<open>The result of a sum: the sign of an exact zero is chosen separately.\<close>

definition fresult :: "fmt \<Rightarrow> rmode \<Rightarrow> bool \<Rightarrow> rat \<Rightarrow> 'a::len word" where
  "fresult F m zsign x = (if x = 0 then fpack zsign 0 else fround F m (x < 0) x)"

lemma fround_cong: "\<bar>x\<bar> = \<bar>y\<bar> \<Longrightarrow> fround F m neg x = fround F m neg y"
  by (simp add: fround_def)

lemma fround_0 [simp]: "fround F m neg 0 = fpack neg 0"
  using round_code_exact [of 0 "maxfin F" "fbits F" m neg, where ?'a = rat] by (simp add: fround_def)

lemma fround_exact:
  assumes "c \<le> maxfin F" and "\<bar>x\<bar> * 2 ^ ulp0 F = of_nat (ival (fbits F) c)"
  shows "fround F m neg x = fpack neg c"
  using assms by (simp add: fround_def round_code_exact)

text \<open>The significand an addition aligns: doubled where the hidden bit is absent.\<close>

definition align_sig :: "nat \<Rightarrow> nat \<Rightarrow> nat" where
  "align_sig fb c = (if c div 2 ^ fb = 0 then 2 * (c mod 2 ^ fb) else 2 ^ fb + c mod 2 ^ fb)"

lemma ival_align_sig:
  "(of_nat (ival fb c) :: rat) = of_nat (align_sig fb c) * 2 powi (int (c div 2 ^ fb) - 1)"
  by (cases "c div 2 ^ fb") (simp_all add: align_sig_def ival_def Let_def power_int_minus)

lemma align_sig_less: "align_sig fb c < 2 * 2 ^ fb"
  by (simp add: align_sig_def)

text \<open>An operand in scientific form: a significand with its hidden bit and an exponent.\<close>

definition parts :: "nat \<Rightarrow> nat \<Rightarrow> int \<Rightarrow> nat \<Rightarrow> bool" where
  "parts fb c e s \<longleftrightarrow> 2 ^ fb \<le> s \<and> s < 2 * 2 ^ fb \<and>
     (of_nat (ival fb c) :: rat) = of_nat s * 2 powi (e - 1)"

lemma parts_normal:
  assumes "0 < c div 2 ^ fb"
  shows "parts fb c (int (c div 2 ^ fb)) (2 ^ fb + c mod 2 ^ fb)"
  using assms by (auto simp: parts_def ival_def Let_def power_int_def nat_diff_distrib)

lemma parts_subnormal:
  assumes "0 < c" "c < 2 ^ fb" and k: "k = fb + 1 - floorlog 2 c"
  shows "parts fb c (1 - int k) (c * 2 ^ k)"
proof -
  have "2 ^ fb \<le> c * 2 ^ k" "c * 2 ^ k < 2 * 2 ^ fb"
    using normalize_bounds [of c "fb + 1"] assms by simp_all
  moreover have "(of_nat (c * 2 ^ k) :: rat) * 2 powi (1 - int k - 1) = of_nat c"
    by (simp add: power_int_minus field_simps)
  ultimately show ?thesis using assms(2) by (simp add: parts_def ival_small)
qed

section \<open>Representable numbers\<close>

definition representable :: "fmt \<Rightarrow> rat \<Rightarrow> bool" where
  "representable F x \<longleftrightarrow> (\<exists>c\<le>maxfin F. \<bar>x\<bar> * 2 ^ ulp0 F = of_nat (ival (fbits F) c))"

lemma ival_code_floor_shift:
  assumes "n < 2 * 2 ^ fb"
  shows "ival fb (code_floor fb (n * 2 ^ k)) = n * 2 ^ k"
proof (cases "n * 2 ^ k < 2 ^ fb")
  case True
  then show ?thesis by (simp add: code_floor_def ival_small)
next
  case False
  then have n: "0 < n" by (cases n) auto
  define m where "m = fb + 1 - floorlog 2 n"
  have fw: "floorlog 2 n \<le> fb + 1" using assms by (intro floorlog_le_width) simp
  have nb: "2 ^ fb \<le> n * 2 ^ m" "n * 2 ^ m < 2 * 2 ^ fb"
    using normalize_bounds [of n "fb + 1"] n assms by (simp_all add: m_def)
  have mk: "m \<le> k"
  proof (rule ccontr)
    assume "\<not> m \<le> k"
    then have "n * 2 ^ (k + 1) \<le> n * 2 ^ m" by (intro mult_left_mono power_increasing) simp_all
    moreover have "n * 2 ^ (k + 1) = 2 * (n * 2 ^ k)" by simp
    ultimately show False using False nb(2) by linarith
  qed
  then have e: "n * 2 ^ k = n * 2 ^ m * 2 ^ (k - m)" by (simp flip: power_add)
  have "ival fb ((k - m) * 2 ^ fb + n * 2 ^ m) = n * 2 ^ k" unfolding e by (rule ival_pack [OF nb])
  then show ?thesis by (metis code_floor_ival)
qed

lemma representableI:
  assumes "\<bar>x\<bar> * 2 ^ ulp0 F = of_nat (n * 2 ^ k)" and "n < 2 * 2 ^ fbits F"
    and "n * 2 ^ k \<le> ival (fbits F) (maxfin F)"
  shows "representable F x"
proof -
  have "code_floor (fbits F) (n * 2 ^ k) \<le> maxfin F"
    using code_floor_mono [OF assms(3), of "fbits F"] by simp
  then show ?thesis
    using assms(1) ival_code_floor_shift [OF assms(2), of k] unfolding representable_def by metis
qed

lemma representable_fval: "ffinite F w \<Longrightarrow> representable F (fval F w)"
  unfolding representable_def ffinite_def by (intro exI [of _ "fmag w"]) (simp add: abs_fval)

lemma fround_representable:
  assumes "representable F x" and "maxfin F < 2 ^ (LENGTH('a) - 1)"
  shows "fval F (fround F m neg x :: 'a::len word) = (if neg then - \<bar>x\<bar> else \<bar>x\<bar>)"
    and "fneg (fround F m neg x :: 'a word) = neg"
    and "ffinite F (fround F m neg x :: 'a word)"
proof -
  obtain c where c: "c \<le> maxfin F" "\<bar>x\<bar> * 2 ^ ulp0 F = of_nat (ival (fbits F) c)"
    using assms(1) by (auto simp: representable_def)
  have f: "fround F m neg x = (fpack neg c :: 'a word)" by (rule fround_exact [OF c])
  have l: "c < 2 ^ (LENGTH('a) - 1)" using c(1) assms(2) by simp
  have x: "\<bar>x\<bar> = of_nat (ival (fbits F) c) / 2 ^ ulp0 F" by (simp add: c(2) [symmetric])
  show "fval F (fround F m neg x :: 'a word) = (if neg then - \<bar>x\<bar> else \<bar>x\<bar>)"
    unfolding f using l by (simp add: fval_fpack x)
  show "fneg (fround F m neg x :: 'a word) = neg" "ffinite F (fround F m neg x :: 'a word)"
    unfolding f using l c(1) by (simp_all add: ffinite_def)
qed

text \<open>A word is determined by its sign and its value.\<close>

lemma fval_inj:
  fixes a b :: "'a::len word"
  assumes "fneg a = fneg b" "fval F a = fval F b"
  shows "a = b"
proof -
  have "ival (fbits F) (fmag a) = ival (fbits F) (fmag b)"
    using assms by (auto simp: fval_eq split: if_splits)
  then have "fmag a = fmag b" by simp
  with assms(1) have "fpack (fneg a) (fmag a) = (fpack (fneg b) (fmag b) :: 'a word)" by simp
  then show ?thesis by (simp only: fpack_fneg_fmag)
qed

lemma fresult_representable:
  assumes "representable F x" and "maxfin F < 2 ^ (LENGTH('a) - 1)"
  shows "fval F (fresult F m zs x :: 'a::len word) = x"
    and "fneg (fresult F m zs x :: 'a word) = (if x = 0 then zs else x < 0)"
    and "ffinite F (fresult F m zs x :: 'a word)"
proof -
  have z: "(0::nat) < 2 ^ (LENGTH('a) - 1)" by simp
  show "fval F (fresult F m zs x :: 'a::len word) = x"
    using fround_representable(1) [OF assms, of m "x < 0"] fval_fpack [OF z, of F zs]
    by (auto simp: fresult_def)
  show "fneg (fresult F m zs x :: 'a word) = (if x = 0 then zs else x < 0)"
    "ffinite F (fresult F m zs x :: 'a word)"
    using fround_representable(2,3) [OF assms, of m "x < 0"] z by (auto simp: fresult_def ffinite_def)
qed

text \<open>The significand and exponent of a value.\<close>

lemma ival_scientific:
  obtains s k where "ival fb c = s * 2 ^ k" "s < 2 * 2 ^ fb" "k = 0 \<or> 2 ^ fb \<le> s"
proof (cases "c div 2 ^ fb = 0")
  case True
  then show ?thesis
    using that [of "c mod 2 ^ fb" 0] mod_less_divisor [of "2 ^ fb" c]
    by (simp add: ival_def trans_less_add1 del: mod_less_divisor)
next
  case False
  then show ?thesis using that [of "2 ^ fb + c mod 2 ^ fb" "c div 2 ^ fb - 1"] by (simp add: ival_def Let_def)
qed

end
