(* ===== verification/Ieee_Ops.thy ===== *)
theory Ieee_Ops
  imports Float_Spec
begin

text \<open>
  The abstract specification of the arithmetic: the IEEE 754 operations on the encodings of a
  format, every result being the exact value rounded once, with the NaN, infinity and zero
  rules written out.  Every NaN result is the canonical quiet NaN, as RISC-V prescribes.
\<close>

section \<open>Special values\<close>

lemma div_mod_between:
  fixes c :: nat
  assumes "0 < b"
  shows "c div b = q \<and> c mod b \<noteq> 0 \<longleftrightarrow> q * b < c \<and> c < q * b + b"
proof
  assume a: "c div b = q \<and> c mod b \<noteq> 0"
  then have "c = q * b + c mod b" by (metis div_mult_mod_eq)
  then show "q * b < c \<and> c < q * b + b" using a mod_less_divisor [OF assms, of c] by linarith
next
  assume a: "q * b < c \<and> c < q * b + b"
  then have "c div b = q" by (intro div_nat_eqI) (simp_all add: mult.commute)
  moreover have "c = c div b * b + c mod b" by simp
  ultimately show "c div b = q \<and> c mod b \<noteq> 0" using a by (metis add_0_right less_irrefl)
qed

definition qnan :: "fmt \<Rightarrow> 'a::len word" where
  "qnan F = fpack False (maxfin F + 1 + 2 ^ (fbits F - 1))"

definition infty :: "fmt \<Rightarrow> bool \<Rightarrow> 'a::len word" where
  "infty F neg = fpack neg (maxfin F + 1)"

lemma qnan_code [simp]: "(qnan F32 :: u32) = 0x7FC00000" "(qnan F16 :: u16) = 0x7E00"
  "(qnan BF16 :: u16) = 0x7FC0" "(qnan F64 :: u64) = 0x7FF8000000000000"
  by (simp_all add: qnan_def fpack_def formats)

section \<open>Arithmetic\<close>

definition fneg_of :: "'a::len word \<Rightarrow> 'a word" where
  "fneg_of a = fpack (\<not> fneg a) (fmag a)"

definition ieee_add :: "fmt \<Rightarrow> rmode \<Rightarrow> 'a::len word \<Rightarrow> 'a word \<Rightarrow> 'a word" where
  "ieee_add F m a b =
     (if fnan F a \<or> fnan F b \<or> finf F a \<and> finf F b \<and> fneg a \<noteq> fneg b then qnan F
      else if finf F a then a
      else if finf F b then b
      else fresult F m (if fneg a = fneg b then fneg a else m = RDN) (fval F a + fval F b))"

definition ieee_sub :: "fmt \<Rightarrow> rmode \<Rightarrow> 'a::len word \<Rightarrow> 'a word \<Rightarrow> 'a word" where
  "ieee_sub F m a b =
     (if fnan F a \<or> fnan F b \<or> finf F a \<and> finf F b \<and> fneg a = fneg b then qnan F
      else if finf F a then a
      else if finf F b then fneg_of b
      else fresult F m (if fneg a \<noteq> fneg b then fneg a else m = RDN) (fval F a - fval F b))"

definition ieee_mul :: "fmt \<Rightarrow> rmode \<Rightarrow> 'a::len word \<Rightarrow> 'a word \<Rightarrow> 'a word" where
  "ieee_mul F m a b =
     (if fnan F a \<or> fnan F b \<or> finf F a \<and> fmag b = 0 \<or> fmag a = 0 \<and> finf F b then qnan F
      else if finf F a \<or> finf F b then infty F (fneg a \<noteq> fneg b)
      else fround F m (fneg a \<noteq> fneg b) (fval F a * fval F b))"

definition ieee_div :: "fmt \<Rightarrow> rmode \<Rightarrow> 'a::len word \<Rightarrow> 'a word \<Rightarrow> 'a word" where
  "ieee_div F m a b =
     (if fnan F a \<or> fnan F b \<or> finf F a \<and> finf F b \<or> fmag a = 0 \<and> fmag b = 0 then qnan F
      else if finf F a \<or> fmag b = 0 then infty F (fneg a \<noteq> fneg b)
      else if finf F b then fpack (fneg a \<noteq> fneg b) 0
      else fround F m (fneg a \<noteq> fneg b) (fval F a / fval F b))"

text \<open>The product and the sum of it with the third operand, rounded once.\<close>

definition ieee_fma :: "fmt \<Rightarrow> rmode \<Rightarrow> 'a::len word \<Rightarrow> 'a word \<Rightarrow> 'a word \<Rightarrow> 'a word" where
  "ieee_fma F m a b c =
     (if fnan F a \<or> fnan F b \<or> fnan F c \<or> finf F a \<and> fmag b = 0 \<or> fmag a = 0 \<and> finf F b \<or>
         (finf F a \<or> finf F b) \<and> finf F c \<and> (fneg a \<noteq> fneg b) \<noteq> fneg c then qnan F
      else if finf F a \<or> finf F b then infty F (fneg a \<noteq> fneg b)
      else if finf F c then c
      else fresult F m (if (fneg a \<noteq> fneg b) = fneg c then fneg c else m = RDN) (fval F a * fval F b + fval F c))"

section \<open>Comparison\<close>

text \<open>The order of the encodings: sign and magnitude, the two zeros equal.\<close>

definition fkey :: "'a::len word \<Rightarrow> int" where
  "fkey a = (if fneg a then - int (fmag a) else int (fmag a))"

definition ieee_eq :: "fmt \<Rightarrow> 'a::len word \<Rightarrow> 'a word \<Rightarrow> bool" where
  "ieee_eq F a b \<longleftrightarrow> \<not> fnan F a \<and> \<not> fnan F b \<and> fkey a = fkey b"

definition ieee_less :: "fmt \<Rightarrow> 'a::len word \<Rightarrow> 'a word \<Rightarrow> bool" where
  "ieee_less F a b \<longleftrightarrow> \<not> fnan F a \<and> \<not> fnan F b \<and> fkey a < fkey b"

definition ieee_le :: "fmt \<Rightarrow> 'a::len word \<Rightarrow> 'a word \<Rightarrow> bool" where
  "ieee_le F a b \<longleftrightarrow> \<not> fnan F a \<and> \<not> fnan F b \<and> fkey a \<le> fkey b"

lemma fkey_fval:
  fixes a b :: "'a::len word"
  shows "fkey a < fkey b \<longleftrightarrow> fval F a < fval F b" "fkey a \<le> fkey b \<longleftrightarrow> fval F a \<le> fval F b"
  "fkey a = fkey b \<longleftrightarrow> fval F a = fval F b"
proof -
  have d: "fval F a < fval F b \<longleftrightarrow> sval (fbits F) a < sval (fbits F) b" for a b :: "'a word"
    by (simp add: fval_def divide_less_cancel)
  have p: "- int m < int n \<longleftrightarrow> 0 < m \<or> 0 < n" "\<not> int m < - int n" for m n by linarith+
  have k: "fkey a < fkey b \<longleftrightarrow> sval (fbits F) a < sval (fbits F) b" for a b :: "'a word"
    by (cases "fneg a"; cases "fneg b") (simp_all only: fkey_def sval_def if_True if_False p
        neg_less_iff_less of_nat_less_iff ival_less_iff ival_pos_iff)
  show "fkey a < fkey b \<longleftrightarrow> fval F a < fval F b" by (simp only: k d)
  show "fkey a \<le> fkey b \<longleftrightarrow> fval F a \<le> fval F b" by (simp only: k d not_less [symmetric])
  show "fkey a = fkey b \<longleftrightarrow> fval F a = fval F b"
  proof -
    have e: "x = y \<longleftrightarrow> \<not> x < y \<and> \<not> y < x" for x y :: "'b::linorder" by auto
    show ?thesis by (simp only: e [of "fkey a"] e [of "fval F a"] k d)
  qed
qed

section \<open>Classes\<close>

text \<open>
  The ten classes of RISC-V's \<open>fclass\<close>, by bit number: negative infinity, normal, subnormal
  and zero, then positive zero, subnormal, normal and infinity, then signalling and quiet NaN.
\<close>

definition ieee_class :: "fmt \<Rightarrow> 'a::len word \<Rightarrow> nat" where
  "ieee_class F w =
     (if fnan F w then (if maxfin F + 1 + 2 ^ (fbits F - 1) \<le> fmag w then 9 else 8)
      else if finf F w then (if fneg w then 0 else 7)
      else if fmag w = 0 then (if fneg w then 3 else 4)
      else if fmag w < 2 ^ fbits F then (if fneg w then 2 else 5)
      else (if fneg w then 1 else 6))"

section \<open>Maximum and minimum\<close>

text \<open>The total order of the numbers in which -0 is below +0.\<close>

definition tkey :: "'a::len word \<Rightarrow> int" where
  "tkey a = (if fneg a then - int (fmag a) - 1 else int (fmag a))"

lemma eq_same_sign:
  fixes a b :: "'a::len word"
  assumes "fneg a = fneg b"
  shows "a = b \<longleftrightarrow> fmag a = fmag b"
proof
  assume "fmag a = fmag b"
  then have "fpack (fneg a) (fmag a) = (fpack (fneg b) (fmag b) :: 'a word)" using assms by simp
  then show "a = b" by (simp only: fpack_fneg_fmag)
qed simp

text \<open>Flipping the top bit negates.\<close>

lemma fneg_of_flip: "w XOR push_bit (LENGTH('a) - 1) 1 = fneg_of w" for w :: "'a::len word"
proof -
  let ?v = "w XOR push_bit (LENGTH('a) - 1) 1"
  have sign: "fneg ?v \<longleftrightarrow> \<not> fneg w" by (simp add: fneg_top_bit bit_simps)
  have "take_bit (LENGTH('a) - 1) ?v = take_bit (LENGTH('a) - 1) w"
    by (rule bit_word_eqI) (auto simp: bit_simps)
  then have "fmag ?v = fmag w" by (metis fmag_def take_bit_eq_mod unsigned_take_bit_eq)
  moreover have "?v = fpack (fneg ?v) (fmag ?v)" by simp
  ultimately show ?thesis using sign by (simp only: fneg_of_def)
qed

lemma tkey_inj: "tkey a = tkey b \<longleftrightarrow> a = b"
proof
  assume "tkey a = tkey b"
  then have "fneg a = fneg b" "fmag a = fmag b" by (auto simp: tkey_def split: if_splits)
  then show "a = b" by (simp add: eq_same_sign)
qed simp

lemma tkey_less: "tkey a < tkey b \<longleftrightarrow> fkey a < fkey b \<or> fkey a = fkey b \<and> fneg a \<and> \<not> fneg b"
  by (auto simp: tkey_def fkey_def)

text \<open>RISC-V's maximum and minimum: a NaN operand is ignored unless both are NaN.\<close>

definition ieee_max :: "fmt \<Rightarrow> 'a::len word \<Rightarrow> 'a word \<Rightarrow> 'a word" where
  "ieee_max F a b =
     (if fnan F a \<and> fnan F b then qnan F else if fnan F a then b else if fnan F b then a
      else if tkey a < tkey b then b else a)"

definition ieee_min :: "fmt \<Rightarrow> 'a::len word \<Rightarrow> 'a word \<Rightarrow> 'a word" where
  "ieee_min F a b =
     (if fnan F a \<and> fnan F b then qnan F else if fnan F a then b else if fnan F b then a
      else if tkey a < tkey b then a else b)"

end
