(* ===== verification/Vu_Float.thy ===== *)
theory Vu_Float
  imports Ieee_Ops
begin

text \<open>
  The C \<open>float\<close> arithmetic that \<open>vu_math.c\<close> uses (IEEE 754 binary32, round to nearest even,
  as Annex F of the C standard prescribes).  A \<open>float\<close> is its 32-bit encoding, so that
  \<open>vu_bits_to_fp32\<close> and \<open>vu_fp32_to_bits\<close>, which copy the bytes, are the identity.  The
  encoding of a NaN result is left to the implementation by the standard: it is the
  parameter \<open>qn\<close>.
\<close>

section \<open>Reinterpreting the bits\<close>

definition vu_bits_to_fp32 :: "u32 \<Rightarrow> u32" where
  "vu_bits_to_fp32 bits = bits"

definition vu_fp32_to_bits :: "u32 \<Rightarrow> u32" where
  "vu_fp32_to_bits value = value"

definition vu_fp32_is_nan_bits :: "u32 \<Rightarrow> bool" where
  "vu_fp32_is_nan_bits bits = (bits AND 0x7f800000 = 0x7f800000 \<and> bits AND 0x007fffff \<noteq> 0)"

section \<open>Operators of the language\<close>

type_synonym nan_choice = "u32 \<Rightarrow> u32 \<Rightarrow> u32"

definition c_mul :: "nan_choice \<Rightarrow> u32 \<Rightarrow> u32 \<Rightarrow> u32" where
  "c_mul qn a b =
     (if fnan F32 a \<or> fnan F32 b \<or> (finf F32 a \<and> fmag b = 0) \<or> (fmag a = 0 \<and> finf F32 b) then qn a b
      else if finf F32 a \<or> finf F32 b then fpack (fneg a \<noteq> fneg b) 0x7F800000
      else fround F32 RNE (fneg a \<noteq> fneg b) (fval F32 a * fval F32 b))"

definition c_div :: "nan_choice \<Rightarrow> u32 \<Rightarrow> u32 \<Rightarrow> u32" where
  "c_div qn a b =
     (if fnan F32 a \<or> fnan F32 b \<or> (finf F32 a \<and> finf F32 b) \<or> (fmag a = 0 \<and> fmag b = 0) then qn a b
      else if finf F32 a \<or> fmag b = 0 then fpack (fneg a \<noteq> fneg b) 0x7F800000
      else if finf F32 b then fpack (fneg a \<noteq> fneg b) 0
      else fround F32 RNE (fneg a \<noteq> fneg b) (fval F32 a / fval F32 b))"

text \<open>Sums and differences are used on finite operands only.\<close>

definition c_add :: "u32 \<Rightarrow> u32 \<Rightarrow> u32" where
  "c_add a b = fresult F32 RNE (fneg a \<and> fneg b) (fval F32 a + fval F32 b)"

definition c_sub :: "u32 \<Rightarrow> u32 \<Rightarrow> u32" where
  "c_sub a b = fresult F32 RNE (fneg a \<and> \<not> fneg b) (fval F32 a - fval F32 b)"

definition c_neg :: "u32 \<Rightarrow> u32" where
  "c_neg a = fpack (\<not> fneg a) (fmag a)"

definition fabsf :: "u32 \<Rightarrow> u32" where
  "fabsf a = fpack False (fmag a)"

definition isinf_c :: "u32 \<Rightarrow> bool" where
  "isinf_c a = finf F32 a"

text \<open>Comparisons: an infinity is beyond every finite value, a NaN is unordered.\<close>

definition c_less :: "u32 \<Rightarrow> u32 \<Rightarrow> bool" where
  "c_less a b = ieee_less F32 a b"

definition c_le :: "u32 \<Rightarrow> u32 \<Rightarrow> bool" where
  "c_le a b = ieee_le F32 a b"

definition c_eq :: "u32 \<Rightarrow> u32 \<Rightarrow> bool" where
  "c_eq a b = ieee_eq F32 a b"

section \<open>Library functions and conversions\<close>

definition ldexpf :: "u32 \<Rightarrow> int \<Rightarrow> u32" where
  "ldexpf a e = fround F32 RNE (fneg a) (fval F32 a * 2 powi e)"

definition floorf :: "u32 \<Rightarrow> u32" where
  "floorf a = fround F32 RNE (fneg a) (of_int \<lfloor>fval F32 a\<rfloor>)"

text \<open>
  The conversion of a \<open>float\<close> to \<open>uint32_t\<close> truncates; outside the range of the target it is
  undefined behaviour, which is the value \<open>None\<close>.
\<close>

definition c_uint32 :: "u32 \<Rightarrow> u32 option" where
  "c_uint32 a =
     (let t = (if fneg a then \<lceil>fval F32 a\<rceil> else \<lfloor>fval F32 a\<rfloor>)
      in if ffinite F32 a \<and> 0 \<le> t \<and> t < 2 ^ 32 then Some (word_of_int t) else None)"

definition c_int :: "u32 \<Rightarrow> int option" where
  "c_int a =
     (let t = (if fneg a then \<lceil>fval F32 a\<rceil> else \<lfloor>fval F32 a\<rfloor>)
      in if ffinite F32 a \<and> - (2 ^ 31) \<le> t \<and> t < 2 ^ 31 then Some t else None)"

definition c_float :: "int \<Rightarrow> u32" where
  "c_float i = fround F32 RNE (i < 0) (of_int i)"

end
