(* ===== verification/Vu_Convert.thy ===== *)
theory Vu_Convert
  imports Vu_Float
begin

text \<open>
  The format conversions of \<open>vu_math.c\<close>: binary32 to and from bfloat16 and FP8 E4M3, the
  load and store conversions, and the MXFP8 block scale.  \<open>log2f\<close> and \<open>exp2f\<close> of the C
  library are parameters.
\<close>

section \<open>bfloat16\<close>

definition vu_bf16_to_fp32 :: "u32 \<Rightarrow> u32" where
  "vu_bf16_to_fp32 value = push_bit 16 (value AND 0xffff)"

definition vu_fp32_to_bf16 :: "u32 \<Rightarrow> u32 \<Rightarrow> u32" where
  "vu_fp32_to_bf16 bits round_mode =
     (let upper = drop_bit 16 bits; lower = bits AND 0xffff; sign = drop_bit 31 bits
      in if vu_fp32_is_nan_bits bits then (upper OR 0x0040) AND 0xffff
         else let rm = round_mode AND 7;
                  rne = (lower > 0x8000 \<or> lower = 0x8000 \<and> upper AND 1 \<noteq> 0);
                  increment =
                    (if rm = 0 then rne
                     else if rm = 1 then False
                     else if rm = 2 then sign \<noteq> 0 \<and> lower \<noteq> 0
                     else if rm = 3 then sign = 0 \<and> lower \<noteq> 0
                     else if rm = 4 then lower \<ge> 0x8000
                     else if rm = 5 then lower > 0x8000 \<or> lower = 0x8000 \<and> upper AND 1 = 0
                     else rne)
              in (upper + of_bool increment) AND 0xffff)"

definition vu_fp32_to_bf16_memory :: "u32 \<Rightarrow> u32 \<Rightarrow> u32" where
  "vu_fp32_to_bf16_memory bits round_mode =
     (let result = vu_fp32_to_bf16 bits round_mode
      in if bits AND 0x7f800000 \<noteq> 0x7f800000 \<and> result AND 0x7fff = 0x7f80
         then (result AND 0x8000) OR 0x7f7f else result)"

section \<open>FP8 E4M3\<close>

definition f0 :: u32 where "f0 = 0x00000000"
definition f0_5 :: u32 where "f0_5 = 0x3f000000"
definition f1 :: u32 where "f1 = 0x3f800000"
definition f8 :: u32 where "f8 = 0x41000000"
definition f448 :: u32 where "f448 = 0x43e00000"

definition vu_round_magnitude :: "u32 \<Rightarrow> u32 \<Rightarrow> bool \<Rightarrow> u32 option" where
  "vu_round_magnitude value round_mode negative =
     (let floor_value = floorf value; frac = c_sub value floor_value; rm = round_mode AND 7;
          up = (\<lambda>b. if b then c_add floor_value f1 else floor_value)
      in case c_uint32 floor_value of
           None \<Rightarrow> None
         | Some i \<Rightarrow> Some
             (if rm = 1 then floor_value
              else if rm = 2 then up (negative \<and> \<not> c_eq frac f0)
              else if rm = 3 then up (\<not> negative \<and> \<not> c_eq frac f0)
              else if rm = 4 then up (c_le f0_5 frac)
              else if rm = 5 then up (c_less f0_5 frac \<or> c_eq frac f0_5 \<and> i AND 1 = 0)
              else up (c_less f0_5 frac \<or> c_eq frac f0_5 \<and> i AND 1 \<noteq> 0)))"

definition vu_fp8e4m3_to_fp32 :: "nan_choice \<Rightarrow> u32 \<Rightarrow> u32" where
  "vu_fp8e4m3_to_fp32 qn raw =
     (let raw = raw AND 0xff; sign = drop_bit 7 raw;
          exponent = drop_bit 3 raw AND 0xf; mantissa = raw AND 7
      in if exponent = 0xf \<and> mantissa = 7 then 0x7fc00000
         else let value = (if exponent = 0 then ldexpf (c_div qn (c_float (uint mantissa)) f8) (-6)
                           else ldexpf (c_add f1 (c_div qn (c_float (uint mantissa)) f8)) (uint exponent - 7));
                  value = (if sign \<noteq> 0 then c_neg value else value)
              in vu_fp32_to_bits value)"

definition vu_fp32_to_fp8e4m3 :: "nan_choice \<Rightarrow> (u32 \<Rightarrow> u32) \<Rightarrow> u32 \<Rightarrow> u32 \<Rightarrow> u32 option" where
  "vu_fp32_to_fp8e4m3 qn log2f bits round_mode =
     (let sign = drop_bit 31 bits
      in if vu_fp32_is_nan_bits bits then Some (push_bit 7 sign OR 0x7f)
         else let value = vu_bits_to_fp32 bits; magnitude = fabsf value
              in if isinf_c magnitude \<or> c_less f448 magnitude then Some (push_bit 7 sign OR 0x7e)
                 else if c_eq magnitude f0 then Some (push_bit 7 sign)
                 else if c_less magnitude (ldexpf f1 (-6))
                 then case vu_round_magnitude (c_div qn magnitude (ldexpf f1 (-9))) round_mode (sign \<noteq> 0) of
                        None \<Rightarrow> None
                      | Some rounded \<Rightarrow>
                          (case c_uint32 rounded of
                             None \<Rightarrow> None
                           | Some mantissa \<Rightarrow> Some
                               (if mantissa = 0 then push_bit 7 sign
                                else if mantissa \<ge> 8 then push_bit 7 sign OR 0x08
                                else push_bit 7 sign OR mantissa))
                 else case c_int (floorf (log2f magnitude)) of
                        None \<Rightarrow> None
                      | Some exponent \<Rightarrow>
                          (let exponent = (if exponent < -6 then -6 else exponent)
                           in case vu_round_magnitude
                                     (c_mul qn (c_sub (c_div qn magnitude (ldexpf f1 exponent)) f1) f8)
                                     round_mode (sign \<noteq> 0) of
                                None \<Rightarrow> None
                              | Some rounded \<Rightarrow>
                                  (case c_uint32 rounded of
                                     None \<Rightarrow> None
                                   | Some mantissa \<Rightarrow>
                                       (let (mantissa, exponent) =
                                              (if mantissa \<ge> 8 then (0, exponent + 1) else (mantissa, exponent))
                                        in if exponent > 8 then Some (push_bit 7 sign OR 0x7e)
                                           else let exp_field = word_of_int (exponent + 7);
                                                    mantissa = (if exp_field = 0xf \<and> mantissa = 7 then 6
                                                                else mantissa)
                                                in Some (push_bit 7 sign OR push_bit 3 exp_field OR mantissa)))))"

section \<open>Loads and stores\<close>

definition vu_value_to_fp32 :: "u32 \<Rightarrow> u32 \<Rightarrow> u32" where
  "vu_value_to_fp32 value data_type = (if data_type \<noteq> 0 then vu_bf16_to_fp32 value else value)"

definition vu_load_convert :: "nan_choice \<Rightarrow> u32 \<Rightarrow> u32 \<Rightarrow> u32 \<Rightarrow> u32 \<Rightarrow> u32" where
  "vu_load_convert qn opcode raw data_type round_mode =
     (let op8 = opcode AND 0xff;
          narrow = (\<lambda>fp32_bits. if data_type \<noteq> 0 then vu_fp32_to_bf16 fp32_bits round_mode else fp32_bits)
      in if op8 = 0x01 \<or> op8 = 0x02 then narrow (vu_fp8e4m3_to_fp32 qn raw)
         else if op8 = 0x03 then narrow (vu_bf16_to_fp32 raw)
         else if op8 = 0x04
         then if data_type \<noteq> 0 then vu_fp32_to_bf16_memory raw round_mode else narrow raw
         else raw)"

definition vu_store_convert ::
  "nan_choice \<Rightarrow> (u32 \<Rightarrow> u32) \<Rightarrow> u32 \<Rightarrow> u32 \<Rightarrow> u32 \<Rightarrow> u32 \<Rightarrow> u32 option" where
  "vu_store_convert qn log2f opcode value data_type round_mode =
     (let fp32_bits = vu_value_to_fp32 value data_type; op8 = opcode AND 0xff
      in if op8 = 0x01 \<or> op8 = 0x02 then vu_fp32_to_fp8e4m3 qn log2f fp32_bits round_mode
         else if op8 = 0x03
         then Some (if data_type \<noteq> 0 then value AND 0xffff else vu_fp32_to_bf16_memory fp32_bits round_mode)
         else if op8 = 0x04 then Some fp32_bits
         else Some value)"

section \<open>The MXFP8 block scale\<close>

definition vu_e8m0_to_float :: "(u32 \<Rightarrow> u32) \<Rightarrow> u32 \<Rightarrow> u32" where
  "vu_e8m0_to_float exp2f scale =
     (if scale AND 0xff = 0xff then 0x7fc00000
      else exp2f (c_float (uint (scale AND 0xff) - 127)))"

text \<open>The search for the leading bit of a subnormal: \<open>while(msb > 0 && !((fraction >> msb) & 1U)) msb--\<close>.\<close>

fun msb_search :: "u32 \<Rightarrow> nat \<Rightarrow> nat" where
  "msb_search fraction 0 = 0"
| "msb_search fraction (Suc m) =
     (if drop_bit (Suc m) fraction AND 1 = 0 then msb_search fraction m else Suc m)"

definition vu_mxfp8_scale_encode :: "u32 \<Rightarrow> u32 \<Rightarrow> u32" where
  "vu_mxfp8_scale_encode max_abs_bits round_up =
     (let max_abs_bits = max_abs_bits AND 0x7fffffff
      in if max_abs_bits = 0 \<or> vu_fp32_is_nan_bits max_abs_bits then 127
         else let exponent = uint (drop_bit 23 max_abs_bits AND 0xff);
                  fraction = max_abs_bits AND 0x007fffff;
                  log2_max =
                    (if exponent = 0
                     then let msb = msb_search fraction 22; log2_max = int msb - 149
                          in if round_up \<noteq> 0 \<and> fraction \<noteq> push_bit msb 1 then log2_max + 1 else log2_max
                     else let log2_max = exponent - 127
                          in if round_up \<noteq> 0 \<and> fraction \<noteq> 0 then log2_max + 1 else log2_max);
                  scale_biased = log2_max - 8 + 127;
                  scale_biased = (if scale_biased < 0 then 0 else scale_biased);
                  scale_biased = (if scale_biased > 254 then 254 else scale_biased)
              in word_of_int scale_biased)"

definition vu_mxfp8_load_convert ::
  "nan_choice \<Rightarrow> (u32 \<Rightarrow> u32) \<Rightarrow> u32 \<Rightarrow> u32 \<Rightarrow> u32 \<Rightarrow> u32 \<Rightarrow> u32" where
  "vu_mxfp8_load_convert qn exp2f raw scale data_type round_mode =
     (let value = c_mul qn (vu_bits_to_fp32 (vu_fp8e4m3_to_fp32 qn raw)) (vu_e8m0_to_float exp2f scale);
          fp32_bits = vu_fp32_to_bits value
      in if data_type \<noteq> 0 then vu_fp32_to_bf16 fp32_bits round_mode else fp32_bits)"

definition vu_mxfp8_store_convert ::
  "nan_choice \<Rightarrow> (u32 \<Rightarrow> u32) \<Rightarrow> (u32 \<Rightarrow> u32) \<Rightarrow> u32 \<Rightarrow> u32 \<Rightarrow> u32 \<Rightarrow> u32 \<Rightarrow> u32 option" where
  "vu_mxfp8_store_convert qn log2f exp2f value scale data_type round_mode =
     (let scaled = c_div qn (vu_bits_to_fp32 (vu_value_to_fp32 value data_type)) (vu_e8m0_to_float exp2f scale)
      in vu_fp32_to_fp8e4m3 qn log2f (vu_fp32_to_bits scaled) round_mode)"

section \<open>Rounding to bfloat16\<close>

text \<open>The rounding mode a mode number selects; 6 and 7 fall back to nearest even.\<close>

definition vu_mode :: "u32 \<Rightarrow> rmode" where
  "vu_mode round_mode =
     (let rm = round_mode AND 7
      in if rm = 1 then RTZ else if rm = 2 then RDN else if rm = 3 then RUP
         else if rm = 4 then RMM else if rm = 5 then RNO else RNE)"

lemma vu_mode_cases:
  obtains (rtz) "rm AND 7 = 1" "vu_mode rm = RTZ" | (rdn) "rm AND 7 = 2" "vu_mode rm = RDN"
  | (rup) "rm AND 7 = 3" "vu_mode rm = RUP" | (rmm) "rm AND 7 = 4" "vu_mode rm = RMM"
  | (rno) "rm AND 7 = 5" "vu_mode rm = RNO"
  | (rne) "rm AND 7 \<noteq> 1" "rm AND 7 \<noteq> 2" "rm AND 7 \<noteq> 3" "rm AND 7 \<noteq> 4" "rm AND 7 \<noteq> 5" "vu_mode rm = RNE"
  by (cases "rm AND 7 = 1"; cases "rm AND 7 = 2"; cases "rm AND 7 = 3"; cases "rm AND 7 = 4";
      cases "rm AND 7 = 5") (auto simp: vu_mode_def Let_def)

lemma exp_field32: "bits AND 0x7f800000 = 0x7f800000 \<longleftrightarrow> fmag bits div 2 ^ 23 = 255" for bits :: u32
proof -
  have l: "(0x7f800000 :: u32) = push_bit 23 (mask 8)" by (simp add: mask_eq_exp_minus_1)
  have u: "unat (bits AND 0x7f800000) = (unat bits div 2 ^ 23 mod 2 ^ 8) * 2 ^ 23"
    unfolding l by (rule unat_and_field) simp
  have "unat bits div 2 ^ 23 mod 2 ^ 8 = fmag bits div 2 ^ 23"
    using mod_mult2_eq [of "unat bits" "2 ^ 23" "2 ^ 8"] by (simp add: fmag_def)
  then have "unat (bits AND 0x7f800000) = fmag bits div 2 ^ 23 * 2 ^ 23" using u by simp
  then show ?thesis by (auto simp: word_unat_eq_iff)
qed

lemma frac_field32: "unat (bits AND 0x007fffff) = fmag bits mod 2 ^ 23" for bits :: u32
  by (simp only: unat_ops fmag_def) (simp add: mod_mod_cancel)

lemma nan_bits_iff: "vu_fp32_is_nan_bits bits \<longleftrightarrow> fnan F32 bits"
proof -
  have "bits AND 0x007fffff \<noteq> 0 \<longleftrightarrow> fmag bits mod 2 ^ 23 \<noteq> 0" by (metis frac_field32 unat_eq_0)
  moreover have "fnan F32 bits \<longleftrightarrow> fmag bits div 2 ^ 23 = 255 \<and> fmag bits mod 2 ^ 23 \<noteq> 0"
  proof -
    obtain e f where c: "fmag bits = e * 2 ^ 23 + f" "f < 2 ^ 23"
      by (metis div_mult_mod_eq mod_less_divisor zero_less_numeral zero_less_power)
    have "e < 256" using c fmag_less [of bits] by simp
    moreover have "fmag bits div 2 ^ 23 = e" "fmag bits mod 2 ^ 23 = f"
      unfolding c(1) using c(2) by (simp_all only: div_radix mod_radix)
    ultimately show ?thesis using c by (cases "e = 255") (auto simp: fnan_def F32_def)
  qed
  ultimately show ?thesis by (simp add: vu_fp32_is_nan_bits_def exp_field32)
qed

lemma unat_u16_u32 [simp]: "unat (ucast (a :: u16) :: u32) = unat a"
  by (rule unat_ucast_less) (rule less_trans [OF unsigned_less], simp)

lemma vu_fp32_to_bf16_code:
  assumes "\<not> fnan F32 bits"
  shows "vu_fp32_to_bf16 bits round_mode =
    ucast (fpack (fneg bits) (fmag bits div 2 ^ 16 +
      of_bool (round_incr (vu_mode round_mode) (fneg bits) (odd (fmag bits div 2 ^ 16)) (fmag bits mod 2 ^ 16 \<noteq> 0)
        (2 ^ 16 < 2 * (fmag bits mod 2 ^ 16)) (2 * (fmag bits mod 2 ^ 16) = 2 ^ 16))) :: u16)"
proof -
  define q r where "q = fmag bits div 2 ^ 16" and "r = fmag bits mod 2 ^ 16"
  have "fmag bits \<le> 0x7F800000" using assms by (simp add: fnan_def F32_def)
  then have ql: "q \<le> 0x7F80" unfolding q_def using div_le_mono [of "fmag bits" "0x7F800000" "2 ^ 16"] by simp
  define upper lower where "upper = drop_bit 16 bits" and "lower = bits AND 0xffff"
  have up: "unat upper = of_bool (fneg bits) * 2 ^ 15 + q"
    unfolding upper_def unat_drop_bit unat_eq_fneg_fmag [of bits] q_def by (cases "fneg bits") simp_all
  have lo: "unat lower = r"
  proof -
    have "unat bits = (of_bool (fneg bits) * 2 ^ 15) * 2 ^ 16 + fmag bits"
      using unat_eq_fneg_fmag [of bits] by (cases "fneg bits") simp_all
    then show ?thesis unfolding lower_def unat_ops r_def by (simp only: mod_mult_self3)
  qed
  have sg: "drop_bit 31 bits = 0 \<longleftrightarrow> \<not> fneg bits"
  proof -
    have "unat (drop_bit 31 bits) \<noteq> 0 \<longleftrightarrow> fneg bits"
      unfolding unat_drop_bit by (simp add: fneg_def div_eq_0_iff not_less)
    then show ?thesis unfolding unat_eq_0 by blast
  qed
  have od: "upper AND 1 = 0 \<longleftrightarrow> even q"
  proof -
    have "unat (upper AND 1) = (of_bool (fneg bits) * 2 ^ 15 + q) mod 2" by (simp only: unat_and_one up)
    moreover have "even (of_bool (fneg bits) * 2 ^ 15 :: nat)" by simp
    ultimately show ?thesis by (metis even_add even_iff_mod_2_eq_zero unat_eq_0)
  qed
  have lw: "lower > 0x8000 \<longleftrightarrow> 2 ^ 16 < 2 * r" "lower = 0x8000 \<longleftrightarrow> 2 * r = 2 ^ 16"
    "lower \<ge> 0x8000 \<longleftrightarrow> 2 ^ 16 < 2 * r \<or> 2 * r = 2 ^ 16" "lower = 0 \<longleftrightarrow> r = 0"
    by (auto simp: word_less_nat_alt word_le_nat_alt word_unat_eq_iff lo)
  define inc where "inc = round_incr (vu_mode round_mode) (fneg bits) (odd q) (r \<noteq> 0) (2 ^ 16 < 2 * r) (2 * r = 2 ^ 16)"
  have "vu_fp32_to_bf16 bits round_mode = (upper + of_bool inc) AND 0xffff"
    unfolding vu_fp32_to_bf16_def nan_bits_iff if_not_P [OF assms] Let_def upper_def [symmetric]
      lower_def [symmetric] lw od
    by (simp add: inc_def vu_mode_def Let_def sg)
  moreover have "unat (upper + of_bool inc) = of_bool (fneg bits) * 2 ^ 15 + (q + of_bool inc)"
    using ql by (subst unat_add_less) (auto simp: up of_bool_def)
  moreover have "of_bool (fneg bits) * 2 ^ 15 + (q + of_bool inc) < 2 ^ 16"
    using ql by (auto simp: of_bool_def)
  moreover have "unat (fpack (fneg bits) (q + of_bool inc) :: u16) = of_bool (fneg bits) * 2 ^ 15 + (q + of_bool inc)"
    using ql by (subst unat_fpack) (auto simp: of_bool_def)
  ultimately have "unat (vu_fp32_to_bf16 bits round_mode) = unat (ucast (fpack (fneg bits) (q + of_bool inc) :: u16) :: u32)"
    by (simp only: unat_ops mod_less unat_u16_u32)
  then show ?thesis by (simp only: word_unat_eq_iff q_def r_def inc_def)
qed

text \<open>The narrowing of a finite value rounds correctly in all eight modes.\<close>

lemma vu_fp32_to_bf16_rounds:
  assumes "ffinite F32 bits"
  shows "vu_fp32_to_bf16 bits round_mode =
    ucast (fround BF16 (vu_mode round_mode) (fneg bits) (fval F32 bits) :: u16)"
proof -
  define q r where "q = fmag bits div 2 ^ 16" and "r = fmag bits mod 2 ^ 16"
  have c: "fmag bits = q * 2 ^ 16 + r" "r < 2 ^ 16" by (simp_all only: q_def r_def div_mult_mod_eq) simp
  have "fmag bits \<le> 0x7F7FFFFF" using assms by (simp add: ffinite_def F32_def)
  then have ql: "q \<le> 0x7F7F" unfolding q_def using div_le_mono [of "fmag bits" "0x7F7FFFFF" "2 ^ 16"] by simp
  have "\<bar>fval F32 bits\<bar> * 2 ^ 133 = of_nat (ival (7 + 16) (q * 2 ^ 16 + r)) / 2 ^ 16"
    unfolding abs_fval c(1) by (simp add: F32_def)
  then have "fround BF16 (vu_mode round_mode) (fneg bits) (fval F32 bits) =
      (fpack (fneg bits) (q + of_bool (round_incr (vu_mode round_mode) (fneg bits) (odd q) (r \<noteq> 0)
        (2 ^ 16 < 2 * r) (2 * r = 2 ^ 16))) :: u16)"
    unfolding fround_def BF16_def fmt.simps by (simp only: round_code_truncate [OF c(2) ql])
  moreover have nn: "\<not> fnan F32 bits" using assms by (simp add: ffinite_def fnan_def)
  ultimately show ?thesis unfolding q_def r_def by (simp only: vu_fp32_to_bf16_code [OF nn])
qed

lemma vu_fp32_to_bf16_inf:
  assumes "finf F32 bits"
  shows "vu_fp32_to_bf16 bits round_mode = ucast (infty BF16 (fneg bits) :: u16)"
proof -
  have n: "\<not> fnan F32 bits" and m: "fmag bits = 0x7F800000"
    using assms by (simp_all add: fnan_def finf_def F32_def)
  have i: "round_incr m neg d False False False = False" for m neg d by (cases m) simp_all
  show ?thesis unfolding vu_fp32_to_bf16_code [OF n] m by (simp add: i infty_def BF16_def)
qed

lemma fp32_to_bf16_ieee:
  "vu_fp32_to_bf16 bits round_mode =
    (if fnan F32 bits then drop_bit 16 bits OR 0x40
     else ucast (if finf F32 bits then infty BF16 (fneg bits)
                 else fround BF16 (vu_mode round_mode) (fneg bits) (fval F32 bits) :: u16))"
proof (cases rule: fmt_cases [of F32 bits])
  case 1
  then show ?thesis
    using vu_fp32_to_bf16_rounds [OF 1] by (auto simp: ffinite_def fnan_def finf_def)
next
  case 2
  then show ?thesis using vu_fp32_to_bf16_inf [OF 2] by (auto simp: fnan_def finf_def)
next
  case 3
  have "(0xffff :: u32) = mask 16" by (simp add: mask_eq_exp_minus_1)
  moreover have "drop_bit 16 bits AND mask 16 = drop_bit 16 bits"
    by (rule bit_word_eqI) (auto simp: bit_simps dest: bit_imp_le_length)
  moreover have "(0x40 :: u32) AND mask 16 = 0x40" by (simp add: mask_eq_exp_minus_1)
  ultimately have "(drop_bit 16 bits OR 0x40) AND 0xffff = drop_bit 16 bits OR 0x40"
    by (simp only: bit.conj_disj_distrib2)
  then show ?thesis using 3 by (simp add: vu_fp32_to_bf16_def Let_def nan_bits_iff)
qed

text \<open>
  C20: The narrowing to bfloat16 is correct on every encoding and in all eight rounding modes:
  a NaN keeps its upper half and becomes quiet, an infinity stays one, and a finite value is
  rounded once to the nearest encoding the mode asks for, subnormal results and overflow included.
\<close>

theorem vu_fp32_to_bf16_correct:
  "vu_fp32_to_bf16 bits round_mode =
    (if fnan F32 bits then drop_bit 16 bits OR 0x40
     else ucast (if finf F32 bits then infty BF16 (fneg bits)
                 else fround BF16 (vu_mode round_mode) (fneg bits) (fval F32 bits) :: u16))"
  by (rule fp32_to_bf16_ieee)

section \<open>Widening from bfloat16\<close>

lemma ucast_u32_u16: "unat (ucast (v :: u32) :: u16) = unat v mod 2 ^ 16"
  by (simp add: unat_ucast)

lemma vu_bf16_to_fp32_fields:
  shows "fneg (vu_bf16_to_fp32 v) = fneg (ucast v :: u16)"
    and "fmag (vu_bf16_to_fp32 v) = fmag (ucast v :: u16) * 2 ^ 16"
proof -
  define w where "w = (ucast v :: u16)"
  have m: "unat (v AND 0xffff) = unat w" by (simp only: w_def ucast_u32_u16 unat_ops)
  have wl: "unat w < 2 ^ 16" using unsigned_less [of w, where ?'a = nat] by simp
  have u: "unat (vu_bf16_to_fp32 v) = unat w * 2 ^ 16"
    unfolding vu_bf16_to_fp32_def
    by (rule trans [OF unat_push_bit_less]) (use wl in \<open>simp_all only: m, simp\<close>)
  have "fmag w < 2 ^ 15" using fmag_less [of w] by simp
  then have "vu_bf16_to_fp32 v = fpack (fneg w) (fmag w * 2 ^ 16)"
    unfolding word_unat_eq_iff u by (cases "fneg w") (simp_all add: unat_eq_fneg_fmag [of w] unat_fpack)
  then show "fneg (vu_bf16_to_fp32 v) = fneg (ucast v :: u16)"
    "fmag (vu_bf16_to_fp32 v) = fmag (ucast v :: u16) * 2 ^ 16"
    using \<open>fmag w < 2 ^ 15\<close> by (simp_all add: w_def)
qed

lemma bf16_fval: "fval F32 (vu_bf16_to_fp32 v) = fval BF16 (ucast v :: u16)"
proof -
  have "ival (7 + 16) (fmag (ucast v :: u16) * 2 ^ 16 + 0) = 2 ^ 16 * ival 7 (fmag (ucast v :: u16))"
    by (subst ival_split) simp_all
  then show ?thesis by (simp add: fval_eq vu_bf16_to_fp32_fields F32_def BF16_def)
qed

text \<open>
  Widening from bfloat16 is exact: the class of the encoding (finite, infinite, NaN), its
  sign and its value are kept, for subnormal numbers too.
\<close>

theorem vu_bf16_to_fp32_exact:
  fixes v :: u32
  defines "w \<equiv> (ucast v :: u16)"
  shows "fval F32 (vu_bf16_to_fp32 v) = fval BF16 w \<and> fneg (vu_bf16_to_fp32 v) = fneg w \<and>
    ieee_class F32 (vu_bf16_to_fp32 v) = ieee_class BF16 w"
  unfolding w_def
proof (intro conjI)
  show "fval F32 (vu_bf16_to_fp32 v) = fval BF16 (ucast v :: u16)" by (rule bf16_fval)
  have "c * 65536 < 8388608 \<longleftrightarrow> c < 128" "0x7F800000 < c * 65536 \<longleftrightarrow> 0x7F80 < c"
    "c * 65536 = 0x7F800000 \<longleftrightarrow> c = 0x7F80" "0x7FC00000 \<le> c * 65536 \<longleftrightarrow> 0x7FC0 \<le> c" for c :: nat by auto
  then show "ieee_class F32 (vu_bf16_to_fp32 v) = ieee_class BF16 (ucast v :: u16)"
    by (simp add: ieee_class_def vu_bf16_to_fp32_fields fnan_def finf_def F32_def BF16_def)
qed (rule vu_bf16_to_fp32_fields)

text \<open>
  Narrowing a widened bfloat16 value returns the same sixteen bits in every rounding mode;
  a signalling NaN becomes quiet.
\<close>

theorem vu_bf16_round_trip:
  "vu_fp32_to_bf16 (vu_bf16_to_fp32 v) round_mode =
    (if fnan BF16 (ucast v :: u16) then (v AND 0xffff) OR 0x0040 else v AND 0xffff)"
proof (cases "fnan BF16 (ucast v :: u16)")
  case True
  then have n: "vu_fp32_is_nan_bits (vu_bf16_to_fp32 v)"
    by (simp add: nan_bits_iff fnan_def vu_bf16_to_fp32_fields F32_def BF16_def)
  have "drop_bit 16 (push_bit 16 (v AND 0xffff)) = v AND 0xffff"
    unfolding mask_literals by (rule bit_word_eqI) (auto simp: bit_simps)
  moreover have "((v AND 0xffff) OR 0x0040) AND 0xffff = (v AND 0xffff) OR (0x0040 :: u32)"
  proof -
    have "(0x40 :: u32) AND 0xffff = 0x40" by simp
    then show ?thesis by (simp add: bit.conj_disj_distrib2 and.assoc)
  qed
  ultimately show ?thesis
    unfolding vu_fp32_to_bf16_def Let_def if_P [OF n] using True
    by (simp only: vu_bf16_to_fp32_def if_True)
next
  case False
  then have n: "\<not> fnan F32 (vu_bf16_to_fp32 v)"
    by (simp add: fnan_def vu_bf16_to_fp32_fields F32_def BF16_def)
  have m: "fmag (vu_bf16_to_fp32 v) div 2 ^ 16 = fmag (ucast v :: u16)" "fmag (vu_bf16_to_fp32 v) mod 2 ^ 16 = 0"
    by (simp_all add: vu_bf16_to_fp32_fields)
  have i: "round_incr m n d False False False = False" for m n d by (cases m) simp_all
  have "vu_fp32_to_bf16 (vu_bf16_to_fp32 v) round_mode = ucast (ucast v :: u16)"
    unfolding vu_fp32_to_bf16_code [OF n] m vu_bf16_to_fp32_fields by (simp add: i)
  also have "\<dots> = v AND 0xffff"
    by (simp add: word_unat_eq_iff unat_ops ucast_u32_u16)
  finally show ?thesis using False by simp
qed

section \<open>The saturating memory narrowing\<close>

lemma vu_fp32_to_bf16_u16:
  "unat (vu_fp32_to_bf16 bits rm AND 0x7fff) = fmag (ucast (vu_fp32_to_bf16 bits rm) :: u16)"
  by (simp only: unat_ops fmag_def ucast_u32_u16) (simp add: mod_mod_cancel)

lemma memory_finite:
  assumes "ffinite F32 bits"
  shows "vu_fp32_to_bf16_memory bits round_mode =
    ucast (fsat BF16 (vu_mode round_mode) (fneg bits) (fval F32 bits) :: u16)"
proof -
  define w where "w = (fround BF16 (vu_mode round_mode) (fneg bits) (fval F32 bits) :: u16)"
  have r: "vu_fp32_to_bf16 bits round_mode = ucast w"
    by (simp only: w_def vu_fp32_to_bf16_rounds [OF assms])
  have e: "bits AND 0x7f800000 \<noteq> 0x7f800000"
  proof -
    have "fmag bits \<le> 0x7F7FFFFF" using assms by (simp add: ffinite_def F32_def)
    then have "fmag bits div 2 ^ 23 \<le> 254" using div_le_mono [of "fmag bits" "0x7F7FFFFF" "2 ^ 23"] by simp
    then show ?thesis by (simp only: exp_field32)
  qed
  have uw: "unat (ucast w AND 0x7fff :: u32) = fmag w"
    by (simp only: unat_ops fmag_def unat_u16_u32) simp
  have "unat (0x7f80 :: u32) = 0x7f80" by simp
  then have i: "(ucast w :: u32) AND 0x7fff = 0x7f80 \<longleftrightarrow> finf BF16 w"
    using uw by (simp add: word_unat_eq_iff finf_def BF16_def)
  have "round_code 7 0x7F7F (vu_mode round_mode) (fneg bits) (\<bar>fval F32 bits\<bar> * 2 ^ 133) \<le> 0x7F80"
    using round_code_le [of 7 "0x7F7F"] by simp
  then have nw: "fneg w = fneg bits" unfolding w_def fround_def BF16_def by simp
  have s: "(ucast w AND 0x8000) OR 0x7f7f = (ucast (fpack (fneg bits) 0x7F7F :: u16) :: u32)"
  proof -
    have f: "(0x8000 :: u32) = push_bit 15 (mask 1)" by (simp add: mask_eq_exp_minus_1)
    have "fmag w < 2 ^ 15" using fmag_less [of w] by simp
    then have "unat w div 2 ^ 15 mod 2 ^ 1 = of_bool (fneg w)"
      unfolding unat_eq_fneg_fmag [of w] by (cases "fneg w") (simp_all add: div_add1_eq)
    then have a: "unat (ucast w AND 0x8000 :: u32) = of_bool (fneg w) * 2 ^ 15"
      unfolding f by (subst unat_and_field) (simp_all only: unat_u16_u32, simp)
    have "unat ((ucast w AND 0x8000) OR 0x7f7f :: u32) = of_bool (fneg w) * 2 ^ 15 + 0x7f7f"
      by (subst unat_or_disjoint [of 15]) (use a in simp_all)
    then show ?thesis by (simp only: word_unat_eq_iff unat_u16_u32 nw unat_fpack) (simp add: unat_fpack)
  qed
  have f: "fsat BF16 (vu_mode round_mode) (fneg bits) (fval F32 bits) =
      (if finf BF16 w then fpack (fneg bits) 0x7F7F else w)"
  proof -
    have g: "min 0x7F7F c = (if c = 0x7F80 then 0x7F7F else c)" if "c \<le> 0x7F80" for c :: nat
      using that by (simp add: min_def)
    define c where "c = round_code 7 0x7F7F (vu_mode round_mode) (fneg bits) (\<bar>fval F32 bits\<bar> * 2 ^ 133)"
    have "c \<le> 0x7F80" using round_code_le [of 7 "0x7F7F"] by (simp add: c_def)
    then show ?thesis
      by (simp add: w_def fround_def fsat_def finf_def BF16_def c_def [simplified, symmetric] g)
  qed
  show ?thesis
    unfolding vu_fp32_to_bf16_memory_def Let_def r i s f using e by simp
qed

text \<open>
  The memory narrowing rounds like the general one but saturates: a finite value never
  becomes an infinity, it stops at the largest finite bfloat16 of its sign; infinities and
  NaNs are narrowed as usual.
\<close>

theorem vu_fp32_to_bf16_memory_saturates:
  "vu_fp32_to_bf16_memory bits round_mode =
    (if ffinite F32 bits then ucast (fsat BF16 (vu_mode round_mode) (fneg bits) (fval F32 bits) :: u16)
     else vu_fp32_to_bf16 bits round_mode)"
proof (cases "ffinite F32 bits")
  case True
  then show ?thesis by (simp add: memory_finite)
next
  case False
  have "fmag bits div 2 ^ 23 \<ge> 255"
    using div_le_mono [of "0x7F800000" "fmag bits" "2 ^ 23"] False by (simp add: ffinite_def F32_def)
  moreover have "fmag bits div 2 ^ 23 < 256"
    using fmag_less [of bits] by (intro less_mult_imp_div_less) simp
  ultimately show ?thesis using False by (simp add: vu_fp32_to_bf16_memory_def Let_def exp_field32)
qed

end
