(* ===== verification/Vu_Fp8.thy ===== *)
theory Vu_Fp8
  imports Vu_Convert
begin

text \<open>
  Correctness of the FP8 E4M3 conversions of \<open>vu_math.c\<close>: the \<open>float\<close> arithmetic they use
  is exact at every step, the decoder returns the value of the code, and the encoder rounds
  correctly and saturates, provided the C library's \<open>log2f\<close> finds the binade of its argument.
\<close>

section \<open>Exact steps of \<open>float\<close> arithmetic\<close>

lemma F32_bound: "maxfin F32 < 2 ^ (LENGTH(32) - 1)"
  by (simp add: F32_def)

lemma F32_max: "ival 23 0x7F7FFFFF = (2 ^ 24 - 1) * 2 ^ 253"
  by (simp add: ival_def)

lemma rep32I:
  assumes "\<bar>x\<bar> * 2 ^ 149 = of_nat (n * 2 ^ k)" and "n < 2 ^ 24" and "k \<le> 253"
  shows "representable F32 x"
proof (rule representableI)
  have "n * 2 ^ k \<le> (2 ^ 24 - 1) * 2 ^ 253"
    by (intro mult_le_mono power_increasing) (use assms(2,3) in simp_all)
  then show "n * 2 ^ k \<le> ival (fbits F32) (maxfin F32)" by (simp add: F32_def F32_max)
qed (use assms in \<open>simp_all add: F32_def\<close>)

lemma rep32_nat:
  assumes "n < 2 ^ 24"
  shows "representable F32 (of_nat n)"
  by (rule rep32I [of _ n 149]) (use assms in simp_all)

lemma c_compare:
  assumes "ffinite F32 a" "ffinite F32 b"
  shows "c_less a b \<longleftrightarrow> fval F32 a < fval F32 b" "c_le a b \<longleftrightarrow> fval F32 a \<le> fval F32 b"
    "c_eq a b \<longleftrightarrow> fval F32 a = fval F32 b"
  using assms by (simp_all add: c_less_def c_le_def c_eq_def ieee_less_def ieee_le_def ieee_eq_def fkey_fval [of _ _ F32] ffinite_def fnan_def)

lemma constants_exact:
  "fval F32 f0 = 0" "fval F32 f0_5 = 1 / 2" "fval F32 f1 = 1" "fval F32 f8 = 8" "fval F32 f448 = 448"
  "ffinite F32 f0" "ffinite F32 f0_5" "ffinite F32 f1" "ffinite F32 f8" "ffinite F32 f448"
  "\<not> fneg f0" "\<not> fneg f0_5" "\<not> fneg f1" "\<not> fneg f8" "\<not> fneg f448"
  by (simp_all add: f0_def f0_5_def f1_def f8_def f448_def fval_def sval_def fneg_def fmag_def ival_def
      F32_def ffinite_def)

text \<open>\<open>fin w x\<close>: the word is finite, has the value \<open>x\<close>, and its sign bit is clear.\<close>

definition fin :: "u32 \<Rightarrow> rat \<Rightarrow> bool" where
  "fin w x \<longleftrightarrow> ffinite F32 w \<and> fval F32 w = x \<and> \<not> fneg w"

lemma fin_nonneg: "fin w x \<Longrightarrow> 0 \<le> x"
  by (auto simp: fin_def fval_eq)

lemma fin_constants: "fin f0 0" "fin f0_5 (1 / 2)" "fin f1 1" "fin f8 8" "fin f448 448"
  by (simp_all add: fin_def constants_exact)

lemma floorf_fin:
  assumes "fin w x" "x < 2 ^ 24"
  shows "fin (floorf w) (of_int \<lfloor>x\<rfloor>)"
proof -
  have x0: "0 \<le> x" by (rule fin_nonneg [OF assms(1)])
  define n where "n = nat \<lfloor>x\<rfloor>"
  have n: "\<lfloor>x\<rfloor> = int n" using x0 by (simp add: n_def)
  have "n < 2 ^ 24" using assms(2) n by (simp add: floor_less_iff [symmetric] floor_eq_iff)
  then have r: "representable F32 (of_int \<lfloor>x\<rfloor>)" using rep32_nat [of n] by (simp add: n)
  show ?thesis
    using fround_representable [OF r F32_bound, of RNE False] assms(1)
    by (simp add: fin_def floorf_def n)
qed

lemma c_sub_fin:
  assumes "fin a x" "fin b y" "representable F32 (x - y)" "y \<le> x"
  shows "fin (c_sub a b) (x - y)"
  using assms fresult_representable [OF assms(3) F32_bound, of RNE False]
  by (simp add: fin_def c_sub_def)

lemma c_add_fin:
  assumes "fin a x" "fin b y" "representable F32 (x + y)"
  shows "fin (c_add a b) (x + y)"
  using assms fresult_representable [OF assms(3) F32_bound, of RNE False] fin_nonneg [OF assms(1)] fin_nonneg [OF assms(2)]
  by (auto simp: fin_def c_add_def)

lemma fin_not_special: "fin a x \<Longrightarrow> \<not> fnan F32 a" "fin a x \<Longrightarrow> \<not> finf F32 a"
  by (auto simp: fin_def ffinite_def fnan_def finf_def)

lemma c_div_fin:
  assumes "fin a x" "fin b y" "representable F32 (x / y)" "0 < y"
  shows "fin (c_div qn a b) (x / y)"
proof -
  have "fmag b \<noteq> 0" using assms(2,4) fval_eq_0_iff [of F32 b] by (auto simp: fin_def)
  then show ?thesis
    using assms fround_representable [OF assms(3) F32_bound, of RNE False] fin_not_special fin_nonneg [OF assms(1)]
    by (simp add: fin_def c_div_def)
qed

lemma c_mul_fin:
  assumes "fin a x" "fin b y" "representable F32 (x * y)"
  shows "fin (c_mul qn a b) (x * y)"
  using assms fround_representable [OF assms(3) F32_bound, of RNE False]
    fin_not_special [OF assms(1)] fin_not_special [OF assms(2)] fin_nonneg [OF assms(1)] fin_nonneg [OF assms(2)]
  by (simp add: fin_def c_mul_def abs_mult)

lemma ldexpf_fin:
  assumes "fin a x" "representable F32 (x * 2 powi e)"
  shows "fin (ldexpf a e) (x * 2 powi e)"
  using assms fround_representable [OF assms(2) F32_bound, of RNE False] fin_nonneg [OF assms(1)]
  by (simp add: fin_def ldexpf_def abs_mult)

lemma fabsf_fin: "ffinite F32 a \<Longrightarrow> fin (fabsf a) \<bar>fval F32 a\<bar>"
proof -
  assume "ffinite F32 a"
  moreover have "fmag a < 2 ^ (LENGTH(32) - 1)" by (rule fmag_less)
  ultimately show ?thesis by (simp add: fin_def fabsf_def ffinite_def abs_fval fval_fpack)
qed

lemma c_uint32_fin: "fin a (of_nat n) \<Longrightarrow> n < 2 ^ 32 \<Longrightarrow> c_uint32 a = Some (word_of_nat n)"
  by (simp add: fin_def c_uint32_def)

text \<open>Chopping the integer part off a representable number leaves a representable fraction.\<close>

lemma representable_frac:
  assumes "fin w x"
  shows "representable F32 (x - of_int \<lfloor>x\<rfloor>)"
proof -
  define N where "N = ival 23 (fmag w)"
  have x: "x = of_nat N / 2 ^ 149" using assms by (auto simp: fin_def fval_eq F32_def N_def)
  obtain s k where sk: "N = s * 2 ^ k" "s < 2 * 2 ^ 23" "k = 0 \<or> 2 ^ 23 \<le> s"
    unfolding N_def by (rule ival_scientific)
  have fl: "\<lfloor>x\<rfloor> = int (N div 2 ^ 149)"
    unfolding x by (simp add: floor_divide_of_nat_eq [of N "2 ^ 149", where ?'a = rat, simplified])
  have "x - of_int \<lfloor>x\<rfloor> = of_nat (N mod 2 ^ 149) / 2 ^ 149"
  proof -
    have g: "A / P - B = C / P" if "A = B * P + C" "P \<noteq> 0" for A B C P :: rat
      using that by (simp add: field_simps)
    have "(of_nat N :: rat) = of_nat (N div 2 ^ 149 * 2 ^ 149 + N mod 2 ^ 149)"
      by (simp only: div_mult_mod_eq)
    then have "(of_nat N :: rat) = of_nat (N div 2 ^ 149) * 2 ^ 149 + of_nat (N mod 2 ^ 149)"
      by (simp only: of_nat_add of_nat_mult of_nat_power of_nat_numeral)
    then show ?thesis unfolding fl of_int_of_nat_eq unfolding x by (rule g) simp
  qed
  then have v: "\<bar>x - of_int \<lfloor>x\<rfloor>\<bar> * 2 ^ 149 = of_nat (N mod 2 ^ 149)" by simp
  show ?thesis
  proof (cases "k \<le> 149")
    case True
    then have "(2::nat) ^ 149 = 2 ^ (149 - k) * 2 ^ k" by (simp flip: power_add)
    then have m: "N mod 2 ^ 149 = s mod 2 ^ (149 - k) * 2 ^ k" unfolding sk(1) by (simp only: mult_mod_left)
    show ?thesis
    proof (rule rep32I)
      show "s mod 2 ^ (149 - k) < 2 ^ 24" using sk(2) le_less_trans [OF mod_less_eq_dividend] by simp
      show "\<bar>x - of_int \<lfloor>x\<rfloor>\<bar> * 2 ^ 149 = of_nat (s mod 2 ^ (149 - k) * 2 ^ k)" using v m by simp
    qed (use True in simp)
  next
    case False
    then have "(2::nat) ^ 149 dvd 2 ^ k" by (intro le_imp_power_dvd) simp
    then have "N mod 2 ^ 149 = 0" unfolding sk(1) by simp
    then show ?thesis using v by (intro rep32I [of _ 0 0]) simp_all
  qed
qed

text \<open>The rounding step is exact: the integer part plus the increment of the mode.\<close>

lemma vu_round_magnitude_exact:
  assumes w: "fin w x" and x: "x < 2 ^ 23"
  obtains r where "vu_round_magnitude w round_mode neg = Some r"
    and "fin r (of_nat (nat \<lfloor>x\<rfloor> + of_bool (round_incr (vu_mode round_mode) neg (odd (nat \<lfloor>x\<rfloor>))
      (x \<noteq> of_int \<lfloor>x\<rfloor>) (1 / 2 < x - of_int \<lfloor>x\<rfloor>) (x - of_int \<lfloor>x\<rfloor> = 1 / 2))))"
proof -
  define n where "n = nat \<lfloor>x\<rfloor>"
  have x0: "0 \<le> x" by (rule fin_nonneg [OF w])
  have n: "\<lfloor>x\<rfloor> = int n" using x0 by (simp add: n_def)
  have nl: "n < 2 ^ 23" using x n by (simp add: floor_less_iff [symmetric] floor_eq_iff)
  define fl fr where "fl = floorf w" and "fr = c_sub w fl"
  have fl: "fin fl (of_nat n)" using floorf_fin [OF w] x n by (simp add: fl_def)
  have fr: "fin fr (x - of_nat n)"
    unfolding fr_def by (rule c_sub_fin [OF w fl]) (use representable_frac [OF w] n in simp_all, linarith)
  have up: "fin (c_add fl f1) (of_nat n + 1)"
    using c_add_fin [OF fl fin_constants(3)] rep32_nat [of "n + 1"] nl by (simp add: add.commute)
  have cmp: "c_eq fr f0 \<longleftrightarrow> x = of_nat n" "c_le f0_5 fr \<longleftrightarrow> 1 / 2 \<le> x - of_nat n"
    "c_less f0_5 fr \<longleftrightarrow> 1 / 2 < x - of_nat n" "c_eq fr f0_5 \<longleftrightarrow> x - of_nat n = 1 / 2"
    using fr by (simp_all add: fin_def c_compare constants_exact)
  have ui: "c_uint32 fl = Some (word_of_nat n)" using c_uint32_fin [OF fl] nl by simp
  have un: "unat (word_of_nat n :: u32) = n" using nl by (simp add: unat_of_nat)
  have od: "(word_of_nat n :: u32) AND 1 = 0 \<longleftrightarrow> even n"
    by (metis un even_iff_mod_2_eq_zero unat_and_one unat_eq_0)
  define X G H where "X \<longleftrightarrow> x \<noteq> of_nat n" and "G \<longleftrightarrow> 1 / 2 < x - of_nat n" and "H \<longleftrightarrow> x - of_nat n = 1 / 2"
  define i where "i = round_incr (vu_mode round_mode) neg (odd n) X G H"
  have h: "1 / 2 \<le> x - of_nat n \<longleftrightarrow> G \<or> H" by (auto simp: G_def H_def)
  have cmp': "c_eq fr f0 \<longleftrightarrow> \<not> X" "c_le f0_5 fr \<longleftrightarrow> G \<or> H" "c_less f0_5 fr \<longleftrightarrow> G" "c_eq fr f0_5 \<longleftrightarrow> H"
    unfolding cmp h by (simp_all only: X_def G_def H_def not_not)
  have "vu_round_magnitude w round_mode neg = Some (if i then c_add fl f1 else fl)"
    unfolding vu_round_magnitude_def Let_def fl_def [symmetric] fr_def [symmetric] ui cmp' option.case od
    by (cases rule: vu_mode_cases [of round_mode]) (simp_all add: i_def)
  moreover have "fin (if i then c_add fl f1 else fl) (of_nat (n + of_bool i))"
    by (cases i; simp only: if_True if_False of_bool_eq of_nat_add of_nat_1 of_nat_0 add_0_right fl up)
  ultimately show ?thesis
    by (intro that [unfolded n of_int_of_nat_eq nat_int, folded X_def G_def H_def, folded i_def])
qed

section \<open>Scaling by powers of two\<close>

lemma fin_scientific:
  assumes "fin w x"
  obtains s k where "x = of_nat (s * 2 ^ k) / 2 ^ 149" "s < 2 ^ 24" "k = 0 \<or> 2 ^ 23 \<le> s"
proof -
  obtain s k where "ival 23 (fmag w) = s * 2 ^ k" "s < 2 * 2 ^ 23" "k = 0 \<or> 2 ^ 23 \<le> s"
    by (rule ival_scientific)
  then show ?thesis using assms that [of s k] by (auto simp: fin_def fval_eq F32_def)
qed

lemma representable_scale_up:
  assumes "fin w x" "x * 2 ^ j < 2 ^ 24" "j \<le> 253"
  shows "representable F32 (x * 2 ^ j)"
proof -
  obtain s k where x: "x = of_nat (s * 2 ^ k) / 2 ^ 149" and s: "s < 2 ^ 24" and k: "k = 0 \<or> 2 ^ 23 \<le> s"
    by (rule fin_scientific [OF assms(1)])
  have v: "\<bar>x * 2 ^ j\<bar> * 2 ^ 149 = of_nat (s * 2 ^ (k + j))" by (simp add: x power_add)
  have "k + j \<le> 253"
  proof (cases "k = 0")
    case False
    have "x * 2 ^ j * 2 ^ 149 < 2 ^ 24 * 2 ^ 149" using assms(2) by (intro mult_strict_right_mono) simp_all
    then have "(of_nat (s * 2 ^ (k + j)) :: rat) < of_nat (2 ^ 24 * 2 ^ 149)" by (simp add: x power_add)
    then have lt: "s * 2 ^ (k + j) < 2 ^ 24 * 2 ^ 149" by (simp only: of_nat_less_iff)
    have "2 ^ 23 * 2 ^ (k + j) \<le> s * 2 ^ (k + j)" using k False by (intro mult_right_mono) simp_all
    also note lt
    also have "(2::nat) ^ 24 * 2 ^ 149 = 2 ^ 23 * 2 ^ 150" by simp
    finally have "(2::nat) ^ (k + j) < 2 ^ 150" by (simp only: mult_less_cancel1)
    then have "k + j < 150" by (simp only: power_strict_increasing_iff [of 2] one_less_numeral_iff semiring_norm)
    then show ?thesis by simp
  qed (use assms(3) in simp)
  then show ?thesis by (rule rep32I [OF v s])
qed

lemma representable_binade:
  assumes w: "fin w x" and e: "2 powi e \<le> x" "x < 2 powi (e + 1)" "-6 \<le> e" "e \<le> 8"
  shows "representable F32 (x / 2 powi e)"
proof -
  obtain s k where x: "x = of_nat (s * 2 ^ k) / 2 ^ 149" and s: "s < 2 ^ 24" and k: "k = 0 \<or> 2 ^ 23 \<le> s"
    by (rule fin_scientific [OF w])
  define j where "j = nat (e + 6)"
  have j: "e = int j - int 6" "j \<le> 14" using e by (simp_all add: j_def)
  have pe: "(2::rat) powi e = 2 ^ j / 2 ^ 6" unfolding j(1) powi_shift(1) by simp
  have "2 ^ j / 2 ^ 6 \<le> x" using e(1) by (simp only: pe)
  then have "2 ^ j * 2 ^ 149 \<le> (of_nat (s * 2 ^ k) :: rat) * 2 ^ 6" unfolding x by (simp add: field_simps)
  then have "(of_nat (2 ^ j * 2 ^ 149) :: rat) \<le> of_nat (s * 2 ^ k * 2 ^ 6)" by simp
  then have ge: "2 ^ j * 2 ^ 149 \<le> s * 2 ^ k * 2 ^ 6" by (simp only: of_nat_le_iff)
  have "s * 2 ^ k * 2 ^ 6 < 2 ^ 24 * 2 ^ k * 2 ^ 6" using s by simp
  with ge have "2 ^ j * 2 ^ 149 < 2 ^ 24 * 2 ^ k * (2::nat) ^ 6" by (rule le_less_trans)
  moreover have "(2::nat) ^ (j + 149) = 2 ^ j * 2 ^ 149" "(2::nat) ^ (k + 30) = 2 ^ 24 * 2 ^ k * 2 ^ 6"
    by (simp_all add: power_add)
  ultimately have "2 ^ (j + 149) < (2::nat) ^ (k + 30)" by (simp only:)
  then have kj: "j + 119 < k" by (simp only: power_strict_increasing_iff [of 2] one_less_numeral_iff semiring_norm)
  have "s * 2 ^ k < 2 ^ 158"
  proof -
    have "x < 2 ^ 9"
    proof -
      have "(2::rat) powi (e + 1) \<le> 2 powi 9" using e(4) by (intro power_int_increasing) simp_all
      with e(2) show ?thesis by simp
    qed
    then have "(of_nat (s * 2 ^ k) :: rat) < 2 ^ 9 * 2 ^ 149" unfolding x by (simp add: divide_less_eq)
    then have "(of_nat (s * 2 ^ k) :: rat) < of_nat (2 ^ 9 * 2 ^ 149)" by simp
    then have "s * 2 ^ k < 2 ^ 9 * 2 ^ 149" by (simp only: of_nat_less_iff)
    then show ?thesis by simp
  qed
  have kl: "k \<le> 134"
  proof -
    have "2 ^ 23 * 2 ^ k \<le> s * 2 ^ k" using k kj by (intro mult_right_mono) auto
    also note \<open>s * 2 ^ k < 2 ^ 158\<close>
    finally have "2 ^ (k + 23) < (2::nat) ^ 158" by (simp only: power_add mult.commute)
    then have "k + 23 < 158" by (simp only: power_strict_increasing_iff [of 2] one_less_numeral_iff semiring_norm)
    then show ?thesis by simp
  qed
  have "k + 6 = (k + 6 - j) + j" using kj by simp
  then have "(2::rat) ^ (k + 6) = 2 ^ (k + 6 - j) * 2 ^ j" by (metis power_add)
  then have "(2::rat) ^ k * 2 ^ 6 = 2 ^ (k + 6 - j) * 2 ^ j" by (simp only: power_add)
  then have "\<bar>x / 2 powi e\<bar> * 2 ^ 149 = of_nat (s * 2 ^ (k + 6 - j))"
    unfolding pe x by (simp add: field_simps)
  then show ?thesis by (rule rep32I [OF _ s]) (use kj kl in simp)
qed

section \<open>The encoder\<close>

text \<open>What the encoder needs of the C library: \<open>floorf(log2f(m))\<close> is the binade of \<open>m\<close>.\<close>

definition finds_binade :: "(u32 \<Rightarrow> u32) \<Rightarrow> u32 \<Rightarrow> bool" where
  "finds_binade log2f w \<longleftrightarrow>
     (\<exists>e. c_int (floorf (log2f w)) = Some e \<and> 2 powi e \<le> fval F32 w \<and> fval F32 w < 2 powi (e + 1))"

lemma sign_bit32: "unat (drop_bit 31 bits) = of_bool (fneg bits)" for bits :: u32
  unfolding unat_drop_bit unat_eq_fneg_fmag [of bits]
  using fmag_less [of bits] by (cases "fneg bits") simp_all

lemma fp8_word:
  fixes bits c :: u32
  assumes "unat c < 128"
  shows "push_bit 7 (drop_bit 31 bits) OR c = ucast (fpack (fneg bits) (unat c) :: u8)"
proof -
  have p: "unat (push_bit 7 (drop_bit 31 bits)) = of_bool (fneg bits) * 2 ^ 7"
    by (subst unat_push_bit_less) (simp_all add: sign_bit32)
  have "unat (push_bit 7 (drop_bit 31 bits) OR c) = of_bool (fneg bits) * 2 ^ 7 + unat c"
    by (subst unat_or_disjoint [of 7]) (use assms p in simp_all)
  moreover have "unat (ucast (fpack (fneg bits) (unat c) :: u8) :: u32) = of_bool (fneg bits) * 2 ^ 7 + unat c"
    using assms by (subst unat_ucast_less) (simp_all add: unat_fpack less_trans [OF unsigned_less])
  ultimately show ?thesis by (simp only: word_unat_eq_iff)
qed

lemma round_small:
  fixes y :: rat
  assumes "0 \<le> y" "y < 8"
  shows "round_code 3 0x7E m neg y = nat \<lfloor>y\<rfloor> +
    of_bool (round_incr m neg (odd (nat \<lfloor>y\<rfloor>)) (y \<noteq> of_int \<lfloor>y\<rfloor>) (1 / 2 < y - of_int \<lfloor>y\<rfloor>) (y - of_int \<lfloor>y\<rfloor> = 1 / 2))"
proof -
  define n where "n = nat \<lfloor>y\<rfloor>"
  have n: "\<lfloor>y\<rfloor> = int n" using assms(1) by (simp add: n_def)
  have nb: "of_nat n \<le> y" "y < of_nat n + 1" using n by (metis of_int_floor_le of_int_of_nat_eq,
      metis floor_correct of_int_of_nat_eq of_int_add of_int_1)
  have n8: "n < 8" using nb(1) assms(2) by (metis le_less_trans of_nat_less_iff of_nat_numeral)
  have iv: "ival 3 n = n" "ival 3 (Suc n) = Suc n" using n8 by (simp_all add: ival_small2)
  have lo: "of_nat (ival 3 n) < y \<longleftrightarrow> y \<noteq> of_nat n" using nb by (auto simp: iv)
  have md: "of_nat (ival 3 n) + of_nat (ival 3 (Suc n)) < 2 * y \<longleftrightarrow> 1 / 2 < y - of_nat n"
    "2 * y = of_nat (ival 3 n) + of_nat (ival 3 (Suc n)) \<longleftrightarrow> y - of_nat n = 1 / 2"
    unfolding iv of_nat_Suc by linarith+
  have "round_code 3 0x7E m neg y = n + of_bool (round_incr m neg (odd n) (y \<noteq> of_nat n)
      (1 / 2 < y - of_nat n) (y - of_nat n = 1 / 2))"
    by (subst round_codeI [of n]) (use n8 nb in \<open>simp_all only: lo md, simp_all add: iv add.commute\<close>)
  then show ?thesis by (simp add: n)
qed

lemma round_normal:
  fixes y :: rat
  assumes y: "0 \<le> y" "y < 8" and k: "k \<le> 14" "k = 14 \<longrightarrow> y \<le> 6"
  shows "round_code 3 0x7E m neg (2 ^ k * (8 + y)) = (k + 1) * 8 + (nat \<lfloor>y\<rfloor> +
    of_bool (round_incr m neg (odd (nat \<lfloor>y\<rfloor>)) (y \<noteq> of_int \<lfloor>y\<rfloor>) (1 / 2 < y - of_int \<lfloor>y\<rfloor>) (y - of_int \<lfloor>y\<rfloor> = 1 / 2)))"
proof -
  define n where "n = nat \<lfloor>y\<rfloor>"
  have n: "\<lfloor>y\<rfloor> = int n" using y(1) by (simp add: n_def)
  have nb: "of_nat n \<le> y" "y < of_nat n + 1" using n by (metis of_int_floor_le of_int_of_nat_eq,
      metis floor_correct of_int_of_nat_eq of_int_add of_int_1)
  have n8: "n < 8" using nb(1) y(2) by (metis le_less_trans of_nat_less_iff of_nat_numeral)
  have n6: "n \<le> 6" if "k = 14" using nb(1) k(2) that by (metis le_trans order_trans of_nat_le_iff of_nat_numeral)
  define c where "c = (k + 1) * 2 ^ 3 + n"
  define u :: rat where "u = 2 ^ k"
  have u: "0 < u" by (simp add: u_def)
  have iv: "of_nat (ival 3 c) = u * (8 + of_nat n)"
    unfolding c_def using ival_normal [of n 3 k] n8 by (simp add: u_def)
  have "c div 2 ^ 3 = k + 1" unfolding c_def using n8 by (intro div_radix) simp
  then have ivS: "of_nat (ival 3 (Suc c)) = u * (8 + (of_nat n + 1))"
    unfolding ival_Suc of_nat_add iv spacing_def by (simp add: u_def algebra_simps)
  have cl: "c \<le> 0x7E" using k(1) n8 n6 by (cases "k = 14") (simp_all add: c_def)
  have lo: "of_nat (ival 3 c) < u * (8 + y) \<longleftrightarrow> y \<noteq> of_nat n" using nb u by (auto simp: iv)
  have md: "of_nat (ival 3 c) + of_nat (ival 3 (Suc c)) < 2 * (u * (8 + y)) \<longleftrightarrow> 1 / 2 < y - of_nat n"
    "2 * (u * (8 + y)) = of_nat (ival 3 c) + of_nat (ival 3 (Suc c)) \<longleftrightarrow> y - of_nat n = 1 / 2"
  proof -
    have a: "of_nat (ival 3 c) + of_nat (ival 3 (Suc c)) = u * (2 * (8 + of_nat n) + 1)"
      "2 * (u * (8 + y)) = u * (2 * (8 + y))" unfolding iv ivS by (simp_all add: algebra_simps)
    show "of_nat (ival 3 c) + of_nat (ival 3 (Suc c)) < 2 * (u * (8 + y)) \<longleftrightarrow> 1 / 2 < y - of_nat n"
      unfolding a mult_less_cancel_left_pos [OF u] by (auto simp: field_simps)
    show "2 * (u * (8 + y)) = of_nat (ival 3 c) + of_nat (ival 3 (Suc c)) \<longleftrightarrow> y - of_nat n = 1 / 2"
    proof -
      have "u * (2 * (8 + y)) = u * (2 * (8 + of_nat n) + 1) \<longleftrightarrow> 2 * (8 + y) = 2 * (8 + of_nat n) + 1"
        using u by simp
      then show ?thesis unfolding a by auto
    qed
  qed
  have od: "odd c \<longleftrightarrow> odd n" by (simp add: c_def)
  have le: "of_nat (ival 3 c) \<le> u * (8 + y)" "u * (8 + y) < of_nat (ival 3 (Suc c))"
    unfolding iv ivS using nb u by simp_all
  have "round_code 3 0x7E m neg (u * (8 + y)) = c + of_bool (round_incr m neg (odd n) (y \<noteq> of_nat n)
      (1 / 2 < y - of_nat n) (y - of_nat n = 1 / 2))"
    using round_codeI [OF cl le(1) disjI2 [OF le(2)], of m neg] by (simp only: lo md od)
  then show ?thesis by (simp add: n u_def c_def)
qed

lemma powers_exact:
  "fin (ldexpf f1 (-6)) (2 powi (-6))" "fin (ldexpf f1 (-9)) (2 powi (-9))"
  "-6 \<le> e \<Longrightarrow> e \<le> 8 \<Longrightarrow> fin (ldexpf f1 e) (2 powi e)"
proof -
  have g: "fin (ldexpf f1 e) (2 powi e)" if "-9 \<le> e" "e \<le> 8" for e :: int
  proof -
    have "\<bar>(2::rat) powi e\<bar> * 2 ^ 149 = of_nat (1 * 2 ^ nat (e + 149))"
    proof -
      have "e = int (nat (e + 149)) - int 149" using that by simp
      then have "(2::rat) powi e = 2 ^ nat (e + 149) / 2 ^ 149" by (metis powi_shift(1) power_int_of_nat)
      then show ?thesis by simp
    qed
    then have "representable F32 (2 powi e)" by (rule rep32I) (use that in simp_all)
    then show ?thesis using ldexpf_fin [OF fin_constants(3), of e] by simp
  qed
  show "fin (ldexpf f1 (-6)) (2 powi (-6))" "fin (ldexpf f1 (-9)) (2 powi (-9))" by (rule g; simp)+
  show "-6 \<le> e \<Longrightarrow> e \<le> 8 \<Longrightarrow> fin (ldexpf f1 e) (2 powi e)" by (rule g) simp_all
qed

lemma fsat_word:
  fixes bits c :: u32
  assumes "unat c = min 0x7E (round_code 3 0x7E m (fneg bits) (\<bar>x\<bar> * 2 ^ 9))"
  shows "push_bit 7 (drop_bit 31 bits) OR c = ucast (fsat E4M3 m (fneg bits) x :: u8)"
  using assms by (subst fp8_word) (simp_all add: fsat_def E4M3_def)

text \<open>
  Every finite number is rounded to the nearest code by the selected mode and saturates at
  448, with the sign kept.
\<close>

lemma vu_fp32_to_fp8e4m3_rounds:
  assumes "ffinite F32 bits"
    and log: "2 powi (-6) \<le> \<bar>fval F32 bits\<bar> \<Longrightarrow> \<bar>fval F32 bits\<bar> \<le> 448 \<Longrightarrow> finds_binade log2f (fabsf bits)"
  shows "vu_fp32_to_fp8e4m3 qn log2f bits round_mode =
    Some (ucast (fsat E4M3 (vu_mode round_mode) (fneg bits) (fval F32 bits) :: u8))"
proof -
  define x where "x = \<bar>fval F32 bits\<bar>"
  define m where "m = vu_mode round_mode"
  define R where "R = round_code 3 0x7E m (fneg bits) (x * 2 ^ 9)"
  have x0: "0 \<le> x" by (simp add: x_def)
  have mag: "fin (fabsf bits) x" using fabsf_fin [OF assms(1)] by (simp add: x_def)
  have nan: "\<not> vu_fp32_is_nan_bits bits" using assms(1) by (simp add: nan_bits_iff ffinite_def fnan_def)
  have ninf: "\<not> isinf_c (fabsf bits)" using fin_not_special [OF mag] by (simp add: isinf_c_def)
  have sg: "drop_bit 31 bits \<noteq> 0 \<longleftrightarrow> fneg bits" using sign_bit32 [of bits] by (metis of_bool_eq_0_iff unat_eq_0)
  note mag' = mag [unfolded fin_def] and p6 = powers_exact(1) [unfolded fin_def]
  have cmp: "c_less f448 (fabsf bits) \<longleftrightarrow> 448 < x" "c_eq (fabsf bits) f0 \<longleftrightarrow> x = 0"
    "c_less (fabsf bits) (ldexpf f1 (-6)) \<longleftrightarrow> x < 2 powi (-6)"
    by (simp_all only: c_compare constants_exact mag' p6)
  have w: "push_bit 7 (drop_bit 31 bits) OR c = ucast (fsat E4M3 m (fneg bits) (fval F32 bits) :: u8)"
    if "unat c = min 0x7E R" for c
    by (rule fsat_word) (use that in \<open>simp add: R_def x_def\<close>)
  note unf = vu_fp32_to_fp8e4m3_def Let_def vu_bits_to_fp32_def if_not_P [OF nan] cmp sg m_def [symmetric]
  consider "448 < x" | "x = 0" | "0 < x" "x < 2 powi (-6)" | "2 powi (-6) \<le> x" "x \<le> 448"
    using x0 by linarith
  then show ?thesis
  proof cases
    case 1
    have "round_code 3 0x7E m (fneg bits) (of_nat (ival 3 0x7E) :: rat) \<le> R"
      unfolding R_def using 1 by (intro round_code_mono) (simp_all add: ival_def)
    then have "0x7E \<le> R" by (simp add: round_code_exact)
    then have "min 0x7E R = 0x7E" by simp
    then show ?thesis using 1 w [of "0x7e"] unfolding unf by simp
  next
    case 2
    have "R = 0" using round_code_exact [of 0 "0x7E" 3 m "fneg bits", where ?'a = rat] by (simp add: R_def 2)
    then have "push_bit 7 (drop_bit 31 bits) = ucast (fsat E4M3 m (fneg bits) (fval F32 bits) :: u8)"
      using w [of 0] by simp
    then show ?thesis using 2 ninf unfolding unf by simp
  next
    case 3
    define q where "q = c_div qn (fabsf bits) (ldexpf f1 (-9))"
    have y8: "x * 2 ^ 9 < 8" using 3(2) by (simp add: power_int_def field_simps)
    have xq: "x / 2 powi (-9) = x * 2 ^ 9" by (simp add: power_int_def field_simps)
    have rep: "representable F32 (x * 2 ^ 9)" by (rule representable_scale_up [OF mag]) (use y8 in simp_all)
    have q: "fin q (x * 2 ^ 9)"
      unfolding q_def using c_div_fin [OF mag powers_exact(2)] rep by (simp add: xq)
    obtain r where r: "vu_round_magnitude q round_mode (fneg bits) = Some r"
      "fin r (of_nat (nat \<lfloor>x * 2 ^ 9\<rfloor> + of_bool (round_incr m (fneg bits) (odd (nat \<lfloor>x * 2 ^ 9\<rfloor>))
      (x * 2 ^ 9 \<noteq> of_int \<lfloor>x * 2 ^ 9\<rfloor>) (1 / 2 < x * 2 ^ 9 - of_int \<lfloor>x * 2 ^ 9\<rfloor>)
      (x * 2 ^ 9 - of_int \<lfloor>x * 2 ^ 9\<rfloor> = 1 / 2))))"
      unfolding m_def by (rule vu_round_magnitude_exact [OF q]) (use y8 in simp)
    have "fin r (of_nat R)"
      using r(2) unfolding R_def by (subst round_small) (use x0 y8 in simp_all)
    moreover have R8: "R \<le> 8"
    proof -
      have "R \<le> round_code 3 0x7E m (fneg bits) (of_nat (ival 3 8) :: rat)"
        unfolding R_def using x0 y8 by (intro round_code_mono) (simp_all add: ival_def)
      then show ?thesis by (simp add: round_code_exact)
    qed
    ultimately have u: "c_uint32 r = Some (word_of_nat R)" by (intro c_uint32_fin) simp_all
    have uR: "unat (word_of_nat R :: u32) = R" using R8 by (simp add: unat_of_nat)
    have c1: "(word_of_nat R :: u32) = 0 \<longleftrightarrow> R = 0" "(word_of_nat R :: u32) \<ge> 8 \<longleftrightarrow> R = 8"
      using R8 uR by (auto simp: word_unat_eq_iff word_le_nat_alt)
    have "(if R = 0 then push_bit 7 (drop_bit 31 bits)
        else if R = 8 then push_bit 7 (drop_bit 31 bits) OR 0x08
        else push_bit 7 (drop_bit 31 bits) OR word_of_nat R) =
      ucast (fsat E4M3 m (fneg bits) (fval F32 bits) :: u8)"
      using w [of 0] w [of 8] w [of "word_of_nat R"] R8 uR by auto
    then show ?thesis
      using 3 ninf unfolding unf q_def [symmetric] r(1) u option.case c1 by simp
  next
    case 4
    obtain e where e: "c_int (floorf (log2f (fabsf bits))) = Some e" "2 powi e \<le> x" "x < 2 powi (e + 1)"
      using log [folded x_def, OF 4] mag by (auto simp: finds_binade_def fin_def)
    have el: "-6 \<le> e"
    proof (rule ccontr)
      assume "\<not> -6 \<le> e"
      then have "(2::rat) powi (e + 1) \<le> 2 powi (-6)" by (intro power_int_increasing) simp_all
      then show False using e(3) 4(1) by simp
    qed
    have eh: "e \<le> 8"
    proof (rule ccontr)
      assume "\<not> e \<le> 8"
      then have "(2::rat) powi 9 \<le> 2 powi e" by (intro power_int_increasing) simp_all
      then show False using e(2) 4(2) by simp
    qed
    define k where "k = nat (e + 6)"
    have k: "e = int k - int 6" "k \<le> 14" using el eh by (simp_all add: k_def)
    have pe: "(2::rat) powi e = 2 ^ k / 2 ^ 6" unfolding k(1) powi_shift(1) by simp
    have pe0: "(0::rat) < 2 powi e" by simp
    define z y where "z = x / 2 powi e" and "y = (x / 2 powi e - 1) * 8"
    have z: "1 \<le> z" "z < 2"
    proof -
      show "1 \<le> z" using e(2) pe0 by (simp add: z_def le_divide_eq)
      have "x < 2 powi e * 2" using e(3) by (simp add: powi_shift(3))
      then show "z < 2" using pe0 by (simp add: z_def divide_less_eq mult.commute)
    qed
    have yz: "y = (z - 1) * 8" by (simp only: y_def z_def)
    have y: "0 \<le> y" "y < 8" using z unfolding yz by simp_all
    have xk: "x * 2 ^ 9 = 2 ^ k * (8 + y)" using pe by (simp add: y_def field_simps)
    have y6: "k = 14 \<longrightarrow> y \<le> 6"
    proof
      assume "k = 14"
      then have "2 ^ 14 * (8 + y) \<le> 448 * 2 ^ 9" using 4(2) xk by simp
      then show "y \<le> 6" by simp
    qed
    define d where "d = c_div qn (fabsf bits) (ldexpf f1 e)"
    have d: "fin d z"
      unfolding d_def z_def
      by (rule c_div_fin [OF mag powers_exact(3) [OF el eh] representable_binade [OF mag e(2,3) el eh] pe0])
    have z1: "\<lfloor>z\<rfloor> = 1" using z by (simp add: floor_eq_iff)
    have s: "fin (c_sub d f1) (z - 1)"
      by (rule c_sub_fin [OF d fin_constants(3)]) (use representable_frac [OF d] z z1 in simp_all)
    define q where "q = c_mul qn (c_sub d f1) f8"
    have "representable F32 ((z - 1) * 2 ^ 3)"
      by (rule representable_scale_up [OF s]) (use z in simp_all)
    then have q: "fin q y"
      unfolding q_def using c_mul_fin [OF s fin_constants(4)] by (simp add: y_def z_def)
    define n i where "n = nat \<lfloor>y\<rfloor>"
      and "i = round_incr m (fneg bits) (odd (nat \<lfloor>y\<rfloor>)) (y \<noteq> of_int \<lfloor>y\<rfloor>) (1 / 2 < y - of_int \<lfloor>y\<rfloor>)
        (y - of_int \<lfloor>y\<rfloor> = 1 / 2)"
    obtain r where r: "vu_round_magnitude q round_mode (fneg bits) = Some r" "fin r (of_nat (n + of_bool i))"
      unfolding m_def n_def i_def by (rule vu_round_magnitude_exact [OF q]) (use y in simp)
    have R: "R = (k + 1) * 8 + (n + of_bool i)"
      unfolding R_def xk n_def i_def by (rule round_normal [OF y k(2) y6])
    have n8: "n < 8" using y by (simp add: n_def floor_less_iff nat_less_iff)
    have n6: "n + of_bool i \<le> 6" if "k = 14"
    proof -
      have "R \<le> round_code 3 0x7E m (fneg bits) (of_nat (ival 3 0x7E) :: rat)"
        unfolding R_def using x0 4(2) by (intro round_code_mono) (simp_all add: ival_def)
      then show ?thesis using R that by (simp add: round_code_exact)
    qed
    have Rl: "R \<le> 0x7E" using R k(2) n8 n6 by (cases "k = 14") (auto simp: of_bool_def split: if_splits)
    define p where "p = n + of_bool i"
    have p8: "p \<le> 8" using n8 by (simp add: p_def)
    have u: "c_uint32 r = Some (word_of_nat p)"
      using r(2) p8 unfolding p_def by (intro c_uint32_fin) simp_all
    have up: "unat (word_of_nat p :: u32) = p" using p8 by (simp add: unat_of_nat)
    have c1: "(word_of_nat p :: u32) \<ge> 8 \<longleftrightarrow> p = 8" "(word_of_nat p :: u32) = 7 \<longleftrightarrow> p = 7"
      using p8 up by (auto simp: word_unat_eq_iff word_le_nat_alt)
    have e6: "(if e < -6 then -6 else e) = e" using el by simp
    have code: "push_bit 7 (drop_bit 31 bits) OR push_bit 3 (word_of_int (e' + 7)) OR word_of_nat p' =
        ucast (fsat E4M3 m (fneg bits) (fval F32 bits) :: u8)"
      if "R = nat (e' + 7) * 8 + p'" "p' < 8" "-7 \<le> e'" "e' \<le> 8" for e' p'
    proof -
      have a: "unat (word_of_int (e' + 7) :: u32) = nat (e' + 7)"
        by (rule unat_word_of_int_nonneg) (use that in simp_all)
      have "nat (e' + 7) \<le> 15" using that by simp
      then have b: "unat (push_bit 3 (word_of_int (e' + 7)) :: u32) = nat (e' + 7) * 2 ^ 3"
        by (subst unat_push_bit_less; simp only: a) simp
      have c: "unat (word_of_nat p' :: u32) = p'" using that by (simp add: unat_of_nat)
      have "unat (push_bit 3 (word_of_int (e' + 7)) OR word_of_nat p' :: u32) = nat (e' + 7) * 8 + p'"
        by (subst unat_or_disjoint [of 3]) (use b c that in simp_all)
      then show ?thesis unfolding or.assoc by (intro w) (use that Rl in simp)
    qed
    have nc: "(word_of_nat p :: u32) \<noteq> 7" if "(word_of_int e :: u32) = 8"
    proof -
      have "unat (word_of_int (e + 7) :: u32) = nat (e + 7)"
        by (rule unat_word_of_int_nonneg) (use el eh in simp_all)
      moreover have "(word_of_int (e + 7) :: u32) = 15" using that by simp
      ultimately have "nat (e + 7) = 15" by simp
      then have "k = 14" using k(1) by simp
      then show ?thesis using n6 c1(2) by (auto simp: p_def)
    qed
    show ?thesis
    proof (cases "p = 8")
      case True
      have "k \<noteq> 14" using n6 True by (auto simp: p_def)
      then have e7: "e + 1 \<le> 8" using k by simp
      have "R = nat (e + 1 + 7) * 8 + 0" using R True k(1) by (simp add: p_def nat_add_distrib)
      then have "push_bit 7 (drop_bit 31 bits) OR push_bit 3 (word_of_int (e + 1 + 7)) OR word_of_nat 0 =
        ucast (fsat E4M3 m (fneg bits) (fval F32 bits) :: u8)" using el e7 by (intro code) simp_all
      then show ?thesis
        using 4 ninf True e7 unfolding unf e(1) option.case e6 d_def [symmetric] q_def [symmetric] r(1) u c1
        by simp
    next
      case False
      have "R = nat (e + 7) * 8 + p" using R k(1) by (simp add: p_def nat_add_distrib)
      then have "push_bit 7 (drop_bit 31 bits) OR push_bit 3 (word_of_int (e + 7)) OR word_of_nat p =
        ucast (fsat E4M3 m (fneg bits) (fval F32 bits) :: u8)" using el eh False p8 by (intro code) simp_all
      then show ?thesis
        using 4 ninf False eh nc unfolding unf e(1) option.case e6 d_def [symmetric] q_def [symmetric] r(1) u
        by (auto simp: c1)
    qed
  qed
qed

section \<open>The decoder\<close>

lemma fields_fp8:
  fixes raw :: u32
  defines "r \<equiv> (ucast raw :: u8)"
  shows "drop_bit 7 (raw AND 0xff) \<noteq> 0 \<longleftrightarrow> fneg r"
    and "uint (drop_bit 3 (raw AND 0xff) AND 0xf) = int (fmag r div 8)"
    and "uint ((raw AND 0xff) AND 7) = int (fmag r mod 8)"
proof -
  have u: "unat (raw AND 0xff) = unat r" by (simp only: r_def unat_ops unat_ucast) simp
  have ul: "unat r < 256" using unsigned_less [of r, where ?'a = nat] by simp
  have "unat (drop_bit 7 (raw AND 0xff)) = of_bool (fneg r)"
    unfolding unat_drop_bit u using ul by (auto simp: fneg_def div_eq_0_iff intro: div_nat_eqI)
  then show "drop_bit 7 (raw AND 0xff) \<noteq> 0 \<longleftrightarrow> fneg r" by (metis of_bool_eq_0_iff unat_eq_0)
  have "unat r div 2 ^ 3 mod 2 ^ 4 = unat r mod 2 ^ 7 div 2 ^ 3"
    using mod_mult2_eq [of "unat r" "2 ^ 3" "2 ^ 4"] by simp
  then have "unat (drop_bit 3 (raw AND 0xff) AND 0xf) = fmag r div 8"
    by (simp only: unat_and_literal(4) unat_drop_bit u fmag_def) simp
  then show "uint (drop_bit 3 (raw AND 0xff) AND 0xf) = int (fmag r div 8)" by (simp only: uint_nat)
  have "unat ((raw AND 0xff) AND 7) = fmag r mod 8"
    by (simp only: unat_and_literal(7) u fmag_def) (simp add: mod_mod_cancel)
  then show "uint ((raw AND 0xff) AND 7) = int (fmag r mod 8)" by (simp only: uint_nat)
qed

lemma c_float_fin: "n < 2 ^ 24 \<Longrightarrow> fin (c_float (int n)) (of_nat n)"
  using fround_representable [OF rep32_nat F32_bound, of n RNE False] by (simp add: fin_def c_float_def)

text \<open>The decoder is exact on every code but the NaN.\<close>

lemma vu_fp8_decode:
  assumes "fmag (ucast raw :: u8) \<noteq> 0x7F"
  shows "ffinite F32 (vu_fp8e4m3_to_fp32 qn raw)"
    and "fneg (vu_fp8e4m3_to_fp32 qn raw) = fneg (ucast raw :: u8)"
    and "fval F32 (vu_fp8e4m3_to_fp32 qn raw) = fval E4M3 (ucast raw :: u8)"
proof -
  define r where "r = (ucast raw :: u8)"
  define e m where "e = fmag r div 8" and "m = fmag r mod 8"
  have c: "fmag r = e * 8 + m" "m < 8" by (simp_all add: e_def m_def)
  have "fmag r < 128" using fmag_less [of r] by simp
  then have e: "e < 16" using c by simp
  have sg: "drop_bit 7 (raw AND 0xff) \<noteq> 0 \<longleftrightarrow> fneg r"
    and ue: "uint (drop_bit 3 (raw AND 0xff) AND 0xf) = int e" and um: "uint ((raw AND 0xff) AND 7) = int m"
    using fields_fp8 [of raw] by (simp_all only: r_def e_def m_def)
  have nan: "\<not> (drop_bit 3 (raw AND 0xff) AND 0xf = 0xf \<and> (raw AND 0xff) AND 7 = 7)"
  proof
    assume "drop_bit 3 (raw AND 0xff) AND 0xf = 0xf \<and> (raw AND 0xff) AND 7 = 7"
    then have "int e = 15" "int m = 7" using ue um by simp_all
    then show False using assms c by (simp add: r_def)
  qed
  have e0: "drop_bit 3 (raw AND 0xff) AND 0xf = 0 \<longleftrightarrow> e = 0" using ue by (metis of_nat_eq_0_iff uint_0_iff)
  have md: "fin (c_div qn (c_float (int m)) f8) (of_nat m / 8)"
  proof (rule c_div_fin [OF c_float_fin fin_constants(4)])
    show "representable F32 (of_nat m / 8)" by (rule rep32I [of _ m 146]) (use c(2) in simp_all)
  qed (use c(2) in simp_all)
  define v where "v = (if e = 0 then ldexpf (c_div qn (c_float (int m)) f8) (-6)
    else ldexpf (c_add f1 (c_div qn (c_float (int m)) f8)) (int e - 7))"
  have v: "fin v (of_nat (ival 3 (fmag r)) / 2 ^ 9)"
  proof (cases "e = 0")
    case True
    have "representable F32 (of_nat m / 8 * 2 powi (-6))"
      by (rule rep32I [of _ m 140]) (use c(2) in \<open>simp_all add: power_int_minus field_simps\<close>)
    from ldexpf_fin [OF md this] show ?thesis
      using True c by (simp add: v_def ival_small power_int_minus field_simps)
  next
    case False
    have a: "fin (c_add f1 (c_div qn (c_float (int m)) f8)) (1 + of_nat m / 8)"
    proof (rule c_add_fin [OF fin_constants(3) md])
      show "representable F32 (1 + of_nat m / 8)" by (rule rep32I [of _ "8 + m" 146]) (use c(2) in simp_all)
    qed
    have p: "(1 + of_nat m / 8) * 2 powi (int e - 7) = (of_nat ((8 + m) * 2 ^ (e - 1)) / 2 ^ 9 :: rat)"
    proof -
      have "int e - 7 = int (e - 1) - int 6" using False by simp
      then show ?thesis by (simp only: powi_shift(1) power_int_of_nat) (simp add: field_simps)
    qed
    have "representable F32 ((1 + of_nat m / 8) * 2 powi (int e - 7))"
      unfolding p by (rule rep32I [of _ "8 + m" "e - 1 + 140"]) (use c(2) e in \<open>simp_all add: power_add\<close>)
    from ldexpf_fin [OF a this] have "fin v (of_nat ((8 + m) * 2 ^ (e - 1)) / 2 ^ 9)"
      using False p by (simp add: v_def)
    moreover have "ival 3 (fmag r) = (8 + m) * 2 ^ (e - 1)"
      using ival_normal [of m 3 "e - 1"] False c by simp
    ultimately show ?thesis by simp
  qed
  have w: "vu_fp8e4m3_to_fp32 qn raw = (if fneg r then c_neg v else v)"
    unfolding vu_fp8e4m3_to_fp32_def Let_def if_not_P [OF nan] ue um sg e0 v_def vu_fp32_to_bits_def by simp
  have "fneg (c_neg v)" "ffinite F32 (c_neg v)" "fval F32 (c_neg v) = - fval F32 v"
    using v fmag_less [of v] by (simp_all add: c_neg_def fin_def ffinite_def fval_fpack) (simp add: fval_eq)
  moreover have fv: "fval E4M3 r = (if fneg r then -1 else 1) * (of_nat (ival 3 (fmag r)) / 2 ^ 9)"
    by (simp add: fval_eq) (simp add: E4M3_def)
  ultimately show "ffinite F32 (vu_fp8e4m3_to_fp32 qn raw)"
    "fneg (vu_fp8e4m3_to_fp32 qn raw) = fneg (ucast raw :: u8)"
    "fval F32 (vu_fp8e4m3_to_fp32 qn raw) = fval E4M3 (ucast raw :: u8)"
    unfolding w r_def [symmetric] fv using v by (simp_all add: fin_def)
qed

lemma fsat_exact:
  assumes "fmag w \<le> maxfin F"
  shows "fsat F m (fneg w) (fval F w) = w"
  using assms by (simp add: fsat_def abs_fval round_code_exact)

lemma c_int_fin: "fin a (of_int i) \<Longrightarrow> 0 \<le> i \<Longrightarrow> i < 2 ^ 31 \<Longrightarrow> c_int a = Some i"
  by (simp add: fin_def c_int_def)

section \<open>Correctness\<close>



text \<open>
  The FP8 E4M3 decoder is exact: every code but the NaN decodes to a finite binary32 with
  the sign and the value of the code, and the two NaN codes decode to the quiet NaN.
\<close>

theorem vu_fp8e4m3_to_fp32_exact:
  fixes raw :: u32
  defines "w \<equiv> (ucast raw :: u8)"
  shows "if fmag w = 0x7F then vu_fp8e4m3_to_fp32 qn raw = 0x7fc00000
    else ffinite F32 (vu_fp8e4m3_to_fp32 qn raw) \<and> fneg (vu_fp8e4m3_to_fp32 qn raw) = fneg w \<and>
         fval F32 (vu_fp8e4m3_to_fp32 qn raw) = fval E4M3 w"
proof (cases "fmag w = 0x7F")
  case False
  then show ?thesis using vu_fp8_decode [of raw qn] by (simp add: w_def)
next
  case True
  have a: "uint (drop_bit 3 (raw AND 0xff) AND 0xf) = 15" "uint ((raw AND 0xff) AND 7) = 7"
    using fields_fp8 (2,3) [of raw] True by (simp_all only: w_def) simp_all
  have "drop_bit 3 (raw AND 0xff) AND 0xf = 0xf" "(raw AND 0xff) AND 7 = 7"
    using a by (simp_all only: word_uint_eq_iff) simp_all
  then show ?thesis using True by (simp add: vu_fp8e4m3_to_fp32_def Let_def)
qed



section \<open>A binade off by one\<close>

text \<open>
  The largest binary32 below 256 is \<open>0x437fffff\<close>.  Its binary logarithm is closer to 8 than to
  any other binary32, so that a correctly rounded \<open>log2f\<close> returns 8, which is not its binade.
\<close>

definition fhas :: "u32 \<Rightarrow> rat \<Rightarrow> bool" where
  "fhas w x \<longleftrightarrow> ffinite F32 w \<and> fval F32 w = x"

lemma c_sub_has:
  assumes "fhas a x" "fhas b y" "representable F32 (x - y)"
  shows "fhas (c_sub a b) (x - y)"
  using assms fresult_representable [OF assms(3) F32_bound, of RNE] by (simp add: fhas_def c_sub_def)

lemma c_mul_has:
  assumes "fhas a x" "fhas b y" "representable F32 (x * y)"
  shows "fhas (c_mul qn a b) (x * y)"
proof -
  have s: "(fneg w \<longrightarrow> fval F32 w \<le> 0) \<and> (\<not> fneg w \<longrightarrow> 0 \<le> fval F32 w)" for w by (auto simp: fval_eq)
  have "\<not> fnan F32 a" "\<not> finf F32 a" "\<not> fnan F32 b" "\<not> finf F32 b"
    using assms by (simp_all add: fhas_def ffinite_def fnan_def finf_def)
  moreover have "(if fneg a \<noteq> fneg b then - \<bar>x * y\<bar> else \<bar>x * y\<bar>) = x * y"
    using s [of a] s [of b] assms(1,2) by (auto simp: fhas_def abs_if mult_less_0_iff zero_less_mult_iff)
  ultimately show ?thesis
    using fround_representable [OF assms(3) F32_bound, of RNE "fneg a \<noteq> fneg b"] assms(1,2)
    by (simp add: fhas_def c_mul_def)
qed

lemma round_magnitude_negative:
  assumes "fhas v x" "x < 0" "-1 < x"
  shows "vu_round_magnitude v round_mode negative = None"
proof -
  have n: "fneg v" using assms fval_less_0_iff [of F32 v] by (simp add: fhas_def)
  have "\<lfloor>x\<rfloor> = -1" using assms by (simp add: floor_eq_iff)
  moreover have "representable F32 (- 1)" by (rule rep32I [of _ 1 149]) simp_all
  ultimately have "ffinite F32 (floorf v) \<and> fval F32 (floorf v) = -1 \<and> fneg (floorf v)"
    using fround_representable [OF _ F32_bound, of "- 1" RNE True] n assms(1)
    by (simp add: fhas_def floorf_def)
  then show ?thesis by (simp add: vu_round_magnitude_def c_uint32_def Let_def)
qed

text \<open>
  C37: For the largest binary32 below 256 a C library whose \<open>log2f\<close> is correctly rounded makes
  the encoder convert -1 to an unsigned integer, which is undefined behaviour, in every
  rounding mode; the correct result would be the code of 256.
\<close>

theorem vu_fp32_to_fp8e4m3_binade_undefined:
  assumes "log2f 0x437fffff = f8"
  shows "vu_fp32_to_fp8e4m3 qn log2f 0x437fffff round_mode = None"
proof -
  define w :: u32 where "w = 0x437fffff"
  have w: "fin w (16777215 / 65536)" and wm: "fmag w = 0x437fffff" "\<not> fneg w"
    by (simp_all add: w_def fin_def fval_def sval_def fneg_def fmag_def ival_def F32_def ffinite_def)
  have a: "fabsf w = w" using wm by (simp add: fabsf_def) (metis fpack_fneg_fmag)
  have nf: "\<not> vu_fp32_is_nan_bits w" "\<not> isinf_c w" using fin_not_special [OF w] by (simp_all add: nan_bits_iff isinf_c_def)
  have r6: "representable F32 (1 * 2 powi (-6))" by (rule rep32I [of _ 1 143]) (simp_all add: power_int_minus)
  have r8: "representable F32 (1 * 2 powi 8)" by (rule rep32I [of _ 1 157]) simp_all
  note l6 = ldexpf_fin [OF fin_constants(3) r6] and l8 = ldexpf_fin [OF fin_constants(3) r8]
  have c: "\<not> c_less f448 w" "\<not> c_eq w f0" "\<not> c_less w (ldexpf f1 (-6))"
    using w l6 fin_constants by (simp_all add: fin_def c_compare power_int_def power_divide field_simps)
  have "fin (floorf f8) (of_int 8)" using floorf_fin [OF fin_constants(4)] by simp
  then have i: "c_int (floorf (log2f w)) = Some 8" unfolding assms [folded w_def] by (rule c_int_fin) simp_all
  have "representable F32 ((16777215 / 65536) / (1 * 2 powi 8))"
    by (rule rep32I [of _ 16777215 125]) (simp_all add: power_int_def)
  then have d: "fin (c_div qn w (ldexpf f1 8)) ((16777215 / 65536) / (1 * 2 powi 8))"
    by (rule c_div_fin [OF w l8]) simp
  then have d: "fhas (c_div qn w (ldexpf f1 8)) (16777215 / 16777216)" by (simp add: fin_def fhas_def power_int_def)
  have "fhas f1 1" "fhas f8 8" using fin_constants by (simp_all add: fin_def fhas_def)
  note k = this
  have "representable F32 (16777215 / 16777216 - 1)" by (rule rep32I [of _ 1 125]) simp_all
  note s = c_sub_has [OF d k(1) this]
  have "representable F32 ((16777215 / 16777216 - 1) * 8)" by (rule rep32I [of _ 1 128]) simp_all
  note m = c_mul_has [OF s k(2) this, of qn]
  have "vu_round_magnitude (c_mul qn (c_sub (c_div qn w (ldexpf f1 8)) f1) f8) round_mode n = None" for n
    by (rule round_magnitude_negative [OF m]) simp_all
  then have "vu_fp32_to_fp8e4m3 qn log2f w round_mode = None"
    unfolding vu_fp32_to_fp8e4m3_def Let_def vu_bits_to_fp32_def a using nf c i by simp
  then show ?thesis by (simp only: w_def)
qed

theorem vu_fp32_to_fp8e4m3_binade_undefined_witness:
  "vu_fp32_to_fp8e4m3 (\<lambda>_ _. 0x7FC00000) (\<lambda>_. f8) 0x437fffff 0 = None"
  by (rule vu_fp32_to_fp8e4m3_binade_undefined) (rule refl)

end
