(* ===== verification/Mpfr.thy ===== *)
theory Mpfr
  imports Ieee_Ops Complex_Main
begin

text \<open>
  The interface of the multiple-precision library that \<open>vu_math.c\<close> calls.  The library is not
  part of the repository: its functions are the fields of a record \<open>'m mpfr\<close>, over an
  unspecified type \<open>'m\<close> of numbers, and the definitions of the program take that record as an
  argument.  A function that writes a number takes the precision of its target first and
  returns the number with the ternary value.

  What the program relies on is the predicate \<open>mpfr_ok\<close>, which states the documented
  behaviour: a number is a NaN, an infinity, a signed zero or a non-zero dyadic of its
  precision; every function returns the exact result rounded to the precision of the target in
  the given direction, the ternary value zero exactly when nothing was lost; special operands
  follow the tables of the manual.  Nothing is said of results beyond \<open>2 ^ mpfr_emax\<close> or below
  its inverse, bounds well inside the default exponent range of the library, or of precisions
  beyond \<open>2 ^ 28\<close> bits.
\<close>

section \<open>Numbers\<close>

datatype mval = MNan | MInf bool | MZero bool | MNum real

datatype mpfr_rnd = MPFR_RNDN | MPFR_RNDD | MPFR_RNDU

fun mreal :: "mval \<Rightarrow> real" where
  "mreal (MNum v) = v"
| "mreal _ = 0"

fun msign :: "mval \<Rightarrow> bool" where
  "msign MNan = False"
| "msign (MInf s) = s"
| "msign (MZero s) = s"
| "msign (MNum v) = (v < 0)"

text \<open>The numbers of \<open>p\<close> bits, and the correct rounding of \<open>v\<close> to one of them.\<close>

definition mrep :: "nat \<Rightarrow> real \<Rightarrow> bool" where
  "mrep p v \<longleftrightarrow> (\<exists>m e. v = of_int m * 2 powi e \<and> \<bar>m\<bar> < 2 ^ p)"

definition correct :: "nat \<Rightarrow> mpfr_rnd \<Rightarrow> real \<Rightarrow> real \<Rightarrow> int \<Rightarrow> bool" where
  "correct p r v w i \<longleftrightarrow> mrep p w \<and> (i = 0 \<longleftrightarrow> w = v) \<and>
     (case r of MPFR_RNDN \<Rightarrow> \<forall>u. mrep p u \<longrightarrow> \<bar>w - v\<bar> \<le> \<bar>u - v\<bar>
      | MPFR_RNDD \<Rightarrow> w \<le> v \<and> (\<forall>u. mrep p u \<longrightarrow> u \<le> v \<longrightarrow> u \<le> w)
      | MPFR_RNDU \<Rightarrow> v \<le> w \<and> (\<forall>u. mrep p u \<longrightarrow> v \<le> u \<longrightarrow> w \<le> u))"

definition mpfr_emax :: int where "mpfr_emax = 2 ^ 29"

definition mrange :: "real \<Rightarrow> bool" where
  "mrange v \<longleftrightarrow> 2 powi (- mpfr_emax) \<le> \<bar>v\<bar> \<and> \<bar>v\<bar> \<le> 2 powi mpfr_emax"

definition mprec_ok :: "nat \<Rightarrow> bool" where
  "mprec_ok p \<longleftrightarrow> 2 \<le> p \<and> p \<le> 2 ^ 28"

section \<open>The functions the program calls\<close>

record 'm mpfr =
  mpfr_nan_p :: "'m \<Rightarrow> bool"
  mpfr_inf_p :: "'m \<Rightarrow> bool"
  mpfr_zero_p :: "'m \<Rightarrow> bool"
  mpfr_number_p :: "'m \<Rightarrow> bool"
  mpfr_signbit :: "'m \<Rightarrow> bool"
  mpfr_get_prec :: "'m \<Rightarrow> nat"
  mpfr_get_exp :: "'m \<Rightarrow> int"
  mpfr_sgn :: "'m \<Rightarrow> int"
  mpfr_cmp_ui_2exp :: "'m \<Rightarrow> nat \<Rightarrow> int \<Rightarrow> int"
  mpfr_cmp_d :: "'m \<Rightarrow> u64 \<Rightarrow> int"
  mpfr_cmp_si :: "'m \<Rightarrow> int \<Rightarrow> int"
  mpfr_get_ui :: "'m \<Rightarrow> mpfr_rnd \<Rightarrow> u64"
  mpfr_set_d :: "nat \<Rightarrow> u64 \<Rightarrow> mpfr_rnd \<Rightarrow> 'm \<times> int"
  mpfr_set_si :: "nat \<Rightarrow> int \<Rightarrow> mpfr_rnd \<Rightarrow> 'm \<times> int"
  mpfr_set_ui :: "nat \<Rightarrow> nat \<Rightarrow> mpfr_rnd \<Rightarrow> 'm \<times> int"
  mpfr_set_ui_2exp :: "nat \<Rightarrow> nat \<Rightarrow> int \<Rightarrow> mpfr_rnd \<Rightarrow> 'm \<times> int"
  mpfr_set_zero :: "nat \<Rightarrow> int \<Rightarrow> 'm"
  mpfr_abs :: "nat \<Rightarrow> 'm \<Rightarrow> mpfr_rnd \<Rightarrow> 'm \<times> int"
  mpfr_neg :: "nat \<Rightarrow> 'm \<Rightarrow> mpfr_rnd \<Rightarrow> 'm \<times> int"
  mpfr_mul_2si :: "nat \<Rightarrow> 'm \<Rightarrow> int \<Rightarrow> mpfr_rnd \<Rightarrow> 'm \<times> int"
  mpfr_sub_ui :: "nat \<Rightarrow> 'm \<Rightarrow> nat \<Rightarrow> mpfr_rnd \<Rightarrow> 'm \<times> int"
  mpfr_add_ui :: "nat \<Rightarrow> 'm \<Rightarrow> nat \<Rightarrow> mpfr_rnd \<Rightarrow> 'm \<times> int"
  mpfr_ui_div :: "nat \<Rightarrow> nat \<Rightarrow> 'm \<Rightarrow> mpfr_rnd \<Rightarrow> 'm \<times> int"
  mpfr_add :: "nat \<Rightarrow> 'm \<Rightarrow> 'm \<Rightarrow> mpfr_rnd \<Rightarrow> 'm \<times> int"
  mpfr_sub :: "nat \<Rightarrow> 'm \<Rightarrow> 'm \<Rightarrow> mpfr_rnd \<Rightarrow> 'm \<times> int"
  mpfr_mul :: "nat \<Rightarrow> 'm \<Rightarrow> 'm \<Rightarrow> mpfr_rnd \<Rightarrow> 'm \<times> int"
  mpfr_div :: "nat \<Rightarrow> 'm \<Rightarrow> 'm \<Rightarrow> mpfr_rnd \<Rightarrow> 'm \<times> int"
  mpfr_fma :: "nat \<Rightarrow> 'm \<Rightarrow> 'm \<Rightarrow> 'm \<Rightarrow> mpfr_rnd \<Rightarrow> 'm \<times> int"
  mpfr_sin :: "nat \<Rightarrow> 'm \<Rightarrow> mpfr_rnd \<Rightarrow> 'm \<times> int"
  mpfr_cos :: "nat \<Rightarrow> 'm \<Rightarrow> mpfr_rnd \<Rightarrow> 'm \<times> int"
  mpfr_tanh :: "nat \<Rightarrow> 'm \<Rightarrow> mpfr_rnd \<Rightarrow> 'm \<times> int"
  mpfr_exp :: "nat \<Rightarrow> 'm \<Rightarrow> mpfr_rnd \<Rightarrow> 'm \<times> int"
  mpfr_exp2 :: "nat \<Rightarrow> 'm \<Rightarrow> mpfr_rnd \<Rightarrow> 'm \<times> int"
  mpfr_log :: "nat \<Rightarrow> 'm \<Rightarrow> mpfr_rnd \<Rightarrow> 'm \<times> int"
  mpfr_log2 :: "nat \<Rightarrow> 'm \<Rightarrow> mpfr_rnd \<Rightarrow> 'm \<times> int"
  mpfr_sqrt :: "nat \<Rightarrow> 'm \<Rightarrow> mpfr_rnd \<Rightarrow> 'm \<times> int"
  mpfr_rec_sqrt :: "nat \<Rightarrow> 'm \<Rightarrow> mpfr_rnd \<Rightarrow> 'm \<times> int"

section \<open>Exact results\<close>

text \<open>
  The exact result of each function on the numbers its operands stand for.  A sum that cancels
  is +0, or -0 when rounding downwards.
\<close>

definition mexact :: "mpfr_rnd \<Rightarrow> real \<Rightarrow> mval" where
  "mexact r v = (if v = 0 then MZero (r = MPFR_RNDD) else MNum v)"

fun ideal_neg :: "mval \<Rightarrow> mval" where
  "ideal_neg MNan = MNan"
| "ideal_neg (MInf s) = MInf (\<not> s)"
| "ideal_neg (MZero s) = MZero (\<not> s)"
| "ideal_neg (MNum v) = MNum (- v)"

fun ideal_abs :: "mval \<Rightarrow> mval" where
  "ideal_abs MNan = MNan"
| "ideal_abs (MInf s) = MInf False"
| "ideal_abs (MZero s) = MZero False"
| "ideal_abs (MNum v) = MNum \<bar>v\<bar>"

fun ideal_add :: "mpfr_rnd \<Rightarrow> mval \<Rightarrow> mval \<Rightarrow> mval" where
  "ideal_add r MNan y = MNan"
| "ideal_add r x MNan = MNan"
| "ideal_add r (MInf s) (MInf t) = (if s = t then MInf s else MNan)"
| "ideal_add r (MInf s) y = MInf s"
| "ideal_add r x (MInf t) = MInf t"
| "ideal_add r (MZero s) (MZero t) = MZero (if s = t then s else r = MPFR_RNDD)"
| "ideal_add r x y = mexact r (mreal x + mreal y)"

definition ideal_sub :: "mpfr_rnd \<Rightarrow> mval \<Rightarrow> mval \<Rightarrow> mval" where
  "ideal_sub r x y = ideal_add r x (ideal_neg y)"

fun ideal_mul :: "mval \<Rightarrow> mval \<Rightarrow> mval" where
  "ideal_mul MNan y = MNan"
| "ideal_mul x MNan = MNan"
| "ideal_mul (MInf s) (MZero t) = MNan"
| "ideal_mul (MZero s) (MInf t) = MNan"
| "ideal_mul (MInf s) y = MInf (s \<noteq> msign y)"
| "ideal_mul x (MInf t) = MInf (msign x \<noteq> t)"
| "ideal_mul (MNum v) (MNum w) = MNum (v * w)"
| "ideal_mul x y = MZero (msign x \<noteq> msign y)"

fun ideal_div :: "mval \<Rightarrow> mval \<Rightarrow> mval" where
  "ideal_div MNan y = MNan"
| "ideal_div x MNan = MNan"
| "ideal_div (MInf s) (MInf t) = MNan"
| "ideal_div (MZero s) (MZero t) = MNan"
| "ideal_div (MInf s) y = MInf (s \<noteq> msign y)"
| "ideal_div x (MZero t) = MInf (msign x \<noteq> t)"
| "ideal_div (MNum v) (MNum w) = MNum (v / w)"
| "ideal_div x y = MZero (msign x \<noteq> msign y)"

definition ideal_fma :: "mpfr_rnd \<Rightarrow> mval \<Rightarrow> mval \<Rightarrow> mval \<Rightarrow> mval" where
  "ideal_fma r x y z = ideal_add r (ideal_mul x y) z"

fun ideal_sin :: "mpfr_rnd \<Rightarrow> mval \<Rightarrow> mval" where
  "ideal_sin r (MZero s) = MZero s"
| "ideal_sin r (MNum v) = mexact r (sin v)"
| "ideal_sin r _ = MNan"

fun ideal_cos :: "mpfr_rnd \<Rightarrow> mval \<Rightarrow> mval" where
  "ideal_cos r (MZero s) = MNum 1"
| "ideal_cos r (MNum v) = mexact r (cos v)"
| "ideal_cos r _ = MNan"

fun ideal_tanh :: "mval \<Rightarrow> mval" where
  "ideal_tanh MNan = MNan"
| "ideal_tanh (MInf s) = MNum (if s then - 1 else 1)"
| "ideal_tanh (MZero s) = MZero s"
| "ideal_tanh (MNum v) = MNum (tanh v)"

fun ideal_exp :: "mval \<Rightarrow> mval" where
  "ideal_exp MNan = MNan"
| "ideal_exp (MInf s) = (if s then MZero False else MInf False)"
| "ideal_exp x = MNum (exp (mreal x))"

fun ideal_exp2 :: "mval \<Rightarrow> mval" where
  "ideal_exp2 MNan = MNan"
| "ideal_exp2 (MInf s) = (if s then MZero False else MInf False)"
| "ideal_exp2 x = MNum (2 powr mreal x)"

fun ideal_log :: "mval \<Rightarrow> mval" where
  "ideal_log MNan = MNan"
| "ideal_log (MInf s) = (if s then MNan else MInf False)"
| "ideal_log (MZero s) = MInf True"
| "ideal_log (MNum v) = (if v < 0 then MNan else if v = 1 then MZero False else MNum (ln v))"

fun ideal_log2 :: "mval \<Rightarrow> mval" where
  "ideal_log2 MNan = MNan"
| "ideal_log2 (MInf s) = (if s then MNan else MInf False)"
| "ideal_log2 (MZero s) = MInf True"
| "ideal_log2 (MNum v) = (if v < 0 then MNan else if v = 1 then MZero False else MNum (log 2 v))"

fun ideal_sqrt :: "mval \<Rightarrow> mval" where
  "ideal_sqrt MNan = MNan"
| "ideal_sqrt (MInf s) = (if s then MNan else MInf False)"
| "ideal_sqrt (MZero s) = MZero s"
| "ideal_sqrt (MNum v) = (if v < 0 then MNan else MNum (sqrt v))"

fun ideal_rec_sqrt :: "mval \<Rightarrow> mval" where
  "ideal_rec_sqrt MNan = MNan"
| "ideal_rec_sqrt (MInf s) = (if s then MNan else MZero False)"
| "ideal_rec_sqrt (MZero s) = MInf False"
| "ideal_rec_sqrt (MNum v) = (if v < 0 then MNan else MNum (1 / sqrt v))"

definition mnum :: "real \<Rightarrow> mval" where
  "mnum v = (if v = 0 then MZero False else MNum v)"

definition f64_val :: "u64 \<Rightarrow> mval" where
  "f64_val d =
     (if fnan F64 d then MNan else if finf F64 d then MInf (fneg d)
      else if fmag d = 0 then MZero (fneg d) else MNum (of_rat (fval F64 d)))"

section \<open>The contract\<close>

definition delivers :: "'m mpfr \<Rightarrow> ('m \<Rightarrow> mval) \<Rightarrow> nat \<Rightarrow> mpfr_rnd \<Rightarrow> mval \<Rightarrow> 'm \<times> int \<Rightarrow> bool" where
  "delivers M sem p r I y \<longleftrightarrow>
     (case I of MNum v \<Rightarrow> mrange v \<longrightarrow>
        mpfr_get_prec M (fst y) = p \<and> (\<exists>w. sem (fst y) = MNum w \<and> correct p r v w (snd y))
      | _ \<Rightarrow> mpfr_get_prec M (fst y) = p \<and> sem (fst y) = I \<and> snd y = 0)"

definition mpfr_queries :: "'m mpfr \<Rightarrow> ('m \<Rightarrow> mval) \<Rightarrow> bool" where
  "mpfr_queries M sem \<longleftrightarrow>
     (\<forall>x. (mpfr_nan_p M x \<longleftrightarrow> sem x = MNan) \<and> (mpfr_inf_p M x \<longleftrightarrow> (\<exists>s. sem x = MInf s)) \<and>
       (mpfr_zero_p M x \<longleftrightarrow> (\<exists>s. sem x = MZero s)) \<and>
       (mpfr_number_p M x \<longleftrightarrow> sem x \<noteq> MNan \<and> (\<forall>s. sem x \<noteq> MInf s)) \<and>
       (sem x \<noteq> MNan \<longrightarrow> mpfr_signbit M x = msign (sem x)) \<and>
       (\<forall>v. sem x = MNum v \<longrightarrow> v \<noteq> 0 \<and> mrep (mpfr_get_prec M x) v \<and>
         2 powi (mpfr_get_exp M x - 1) \<le> \<bar>v\<bar> \<and> \<bar>v\<bar> < 2 powi (mpfr_get_exp M x) \<and>
         (\<forall>n e. mpfr_cmp_ui_2exp M x n e = 0 \<longleftrightarrow> v = of_nat n * 2 powi e)))"

definition mpfr_comparisons :: "'m mpfr \<Rightarrow> ('m \<Rightarrow> mval) \<Rightarrow> bool" where
  "mpfr_comparisons M sem \<longleftrightarrow>
     (\<forall>x. sem x \<noteq> MNan \<longrightarrow> (\<forall>s. sem x \<noteq> MInf s) \<longrightarrow>
       (\<forall>d. ffinite F64 d \<longrightarrow> sgn (mpfr_cmp_d M x d) = \<lfloor>sgn (mreal (sem x) - of_rat (fval F64 d))\<rfloor>) \<and>
       (\<forall>i. sgn (mpfr_cmp_si M x i) = \<lfloor>sgn (mreal (sem x) - of_int i)\<rfloor>) \<and>
       sgn (mpfr_sgn M x) = \<lfloor>sgn (mreal (sem x))\<rfloor> \<and>
       (0 \<le> mreal (sem x) \<longrightarrow> mreal (sem x) < 2 ^ 64 \<longrightarrow>
         unat (mpfr_get_ui M x MPFR_RNDD) = nat \<lfloor>mreal (sem x)\<rfloor>))"

definition mpfr_arith :: "'m mpfr \<Rightarrow> ('m \<Rightarrow> mval) \<Rightarrow> bool" where
  "mpfr_arith M sem \<longleftrightarrow>
     (\<forall>p r. mprec_ok p \<longrightarrow>
       (\<forall>d. delivers M sem p r (f64_val d) (mpfr_set_d M p d r)) \<and>
       (\<forall>i. delivers M sem p r (mnum (of_int i)) (mpfr_set_si M p i r)) \<and>
       (\<forall>n. delivers M sem p r (mnum (of_nat n)) (mpfr_set_ui M p n r)) \<and>
       (\<forall>n e. delivers M sem p r (mnum (of_nat n * 2 powi e)) (mpfr_set_ui_2exp M p n e r)) \<and>
       (\<forall>s. sem (mpfr_set_zero M p s) = MZero (s < 0)) \<and>
       (\<forall>x. delivers M sem p r (ideal_abs (sem x)) (mpfr_abs M p x r)) \<and>
       (\<forall>x. delivers M sem p r (ideal_neg (sem x)) (mpfr_neg M p x r)) \<and>
       (\<forall>x k. delivers M sem p r (ideal_mul (sem x) (MNum (2 powi k))) (mpfr_mul_2si M p x k r)) \<and>
       (\<forall>x n. (\<forall>s. sem x \<noteq> MZero s) \<longrightarrow> delivers M sem p r (ideal_sub r (sem x) (mnum (of_nat n))) (mpfr_sub_ui M p x n r)) \<and>
       (\<forall>x n. 0 < n \<longrightarrow> delivers M sem p r (ideal_add r (sem x) (mnum (of_nat n))) (mpfr_add_ui M p x n r)) \<and>
       (\<forall>x n. 0 < n \<longrightarrow> delivers M sem p r (ideal_div (mnum (of_nat n)) (sem x)) (mpfr_ui_div M p n x r)) \<and>
       (\<forall>x y. delivers M sem p r (ideal_add r (sem x) (sem y)) (mpfr_add M p x y r)) \<and>
       (\<forall>x y. delivers M sem p r (ideal_sub r (sem x) (sem y)) (mpfr_sub M p x y r)) \<and>
       (\<forall>x y. delivers M sem p r (ideal_mul (sem x) (sem y)) (mpfr_mul M p x y r)) \<and>
       (\<forall>x y. delivers M sem p r (ideal_div (sem x) (sem y)) (mpfr_div M p x y r)) \<and>
       (\<forall>x y z. delivers M sem p r (ideal_fma r (sem x) (sem y) (sem z)) (mpfr_fma M p x y z r)))"

definition mpfr_functions :: "'m mpfr \<Rightarrow> ('m \<Rightarrow> mval) \<Rightarrow> bool" where
  "mpfr_functions M sem \<longleftrightarrow>
     (\<forall>p r x. mprec_ok p \<longrightarrow>
       delivers M sem p r (ideal_sin r (sem x)) (mpfr_sin M p x r) \<and>
       delivers M sem p r (ideal_cos r (sem x)) (mpfr_cos M p x r) \<and>
       delivers M sem p r (ideal_tanh (sem x)) (mpfr_tanh M p x r) \<and>
       delivers M sem p r (ideal_exp (sem x)) (mpfr_exp M p x r) \<and>
       delivers M sem p r (ideal_exp2 (sem x)) (mpfr_exp2 M p x r) \<and>
       delivers M sem p r (ideal_log (sem x)) (mpfr_log M p x r) \<and>
       delivers M sem p r (ideal_log2 (sem x)) (mpfr_log2 M p x r) \<and>
       delivers M sem p r (ideal_sqrt (sem x)) (mpfr_sqrt M p x r) \<and>
       delivers M sem p r (ideal_rec_sqrt (sem x)) (mpfr_rec_sqrt M p x r))"

definition mpfr_ok :: "'m mpfr \<Rightarrow> ('m \<Rightarrow> mval) \<Rightarrow> bool" where
  "mpfr_ok M sem \<longleftrightarrow> mpfr_queries M sem \<and> mpfr_comparisons M sem \<and> mpfr_arith M sem \<and> mpfr_functions M sem"

section \<open>What the contract gives\<close>

lemma mpfr_arithD:
  assumes "mpfr_ok M sem" "mprec_ok p"
  shows "delivers M sem p r (f64_val d) (mpfr_set_d M p d r)"
    and "delivers M sem p r (mnum (of_int i)) (mpfr_set_si M p i r)"
    and "delivers M sem p r (mnum (of_nat n)) (mpfr_set_ui M p n r)"
    and "delivers M sem p r (mnum (of_nat n * 2 powi e)) (mpfr_set_ui_2exp M p n e r)"
    and "sem (mpfr_set_zero M p s) = MZero (s < 0)"
    and "delivers M sem p r (ideal_abs (sem x)) (mpfr_abs M p x r)"
    and "delivers M sem p r (ideal_neg (sem x)) (mpfr_neg M p x r)"
    and "delivers M sem p r (ideal_mul (sem x) (MNum (2 powi k))) (mpfr_mul_2si M p x k r)"
    and "(\<forall>s. sem x \<noteq> MZero s) \<Longrightarrow> delivers M sem p r (ideal_sub r (sem x) (mnum (of_nat n))) (mpfr_sub_ui M p x n r)"
    and "0 < n \<Longrightarrow> delivers M sem p r (ideal_add r (sem x) (mnum (of_nat n))) (mpfr_add_ui M p x n r)"
    and "0 < n \<Longrightarrow> delivers M sem p r (ideal_div (mnum (of_nat n)) (sem x)) (mpfr_ui_div M p n x r)"
    and "delivers M sem p r (ideal_add r (sem x) (sem y)) (mpfr_add M p x y r)"
    and "delivers M sem p r (ideal_sub r (sem x) (sem y)) (mpfr_sub M p x y r)"
    and "delivers M sem p r (ideal_mul (sem x) (sem y)) (mpfr_mul M p x y r)"
    and "delivers M sem p r (ideal_div (sem x) (sem y)) (mpfr_div M p x y r)"
    and "delivers M sem p r (ideal_fma r (sem x) (sem y) (sem z)) (mpfr_fma M p x y z r)"
  using assms by (simp_all only: mpfr_ok_def mpfr_arith_def) blast+

lemma mpfr_functionsD:
  assumes "mpfr_ok M sem" "mprec_ok p"
  shows "delivers M sem p r (ideal_sin r (sem x)) (mpfr_sin M p x r)"
    and "delivers M sem p r (ideal_cos r (sem x)) (mpfr_cos M p x r)"
    and "delivers M sem p r (ideal_tanh (sem x)) (mpfr_tanh M p x r)"
    and "delivers M sem p r (ideal_exp (sem x)) (mpfr_exp M p x r)"
    and "delivers M sem p r (ideal_exp2 (sem x)) (mpfr_exp2 M p x r)"
    and "delivers M sem p r (ideal_log (sem x)) (mpfr_log M p x r)"
    and "delivers M sem p r (ideal_log2 (sem x)) (mpfr_log2 M p x r)"
    and "delivers M sem p r (ideal_sqrt (sem x)) (mpfr_sqrt M p x r)"
    and "delivers M sem p r (ideal_rec_sqrt (sem x)) (mpfr_rec_sqrt M p x r)"
  using assms by (simp_all only: mpfr_ok_def mpfr_functions_def)

lemma mpfr_queriesD:
  assumes "mpfr_ok M sem"
  shows "mpfr_nan_p M x \<longleftrightarrow> sem x = MNan" "mpfr_inf_p M x \<longleftrightarrow> (\<exists>s. sem x = MInf s)"
    "mpfr_zero_p M x \<longleftrightarrow> (\<exists>s. sem x = MZero s)"
    "mpfr_number_p M x \<longleftrightarrow> sem x \<noteq> MNan \<and> (\<forall>s. sem x \<noteq> MInf s)"
    "sem x \<noteq> MNan \<Longrightarrow> mpfr_signbit M x = msign (sem x)"
  using assms by (simp_all only: mpfr_ok_def mpfr_queries_def) blast+

lemma mpfr_numD:
  assumes "mpfr_ok M sem" "sem x = MNum v"
  shows "v \<noteq> 0" "mrep (mpfr_get_prec M x) v" "2 powi (mpfr_get_exp M x - 1) \<le> \<bar>v\<bar>" "\<bar>v\<bar> < 2 powi (mpfr_get_exp M x)"
    "mpfr_cmp_ui_2exp M x n e = 0 \<longleftrightarrow> v = of_nat n * 2 powi e"
  using assms by (simp_all only: mpfr_ok_def mpfr_queries_def) blast+

lemma mpfr_comparisonsD:
  assumes "mpfr_ok M sem" "sem x \<noteq> MNan" "\<forall>s. sem x \<noteq> MInf s"
  shows "ffinite F64 d \<Longrightarrow> sgn (mpfr_cmp_d M x d) = \<lfloor>sgn (mreal (sem x) - of_rat (fval F64 d))\<rfloor>"
    "sgn (mpfr_cmp_si M x i) = \<lfloor>sgn (mreal (sem x) - of_int i)\<rfloor>"
    "sgn (mpfr_sgn M x) = \<lfloor>sgn (mreal (sem x))\<rfloor>"
    "0 \<le> mreal (sem x) \<Longrightarrow> mreal (sem x) < 2 ^ 64 \<Longrightarrow> unat (mpfr_get_ui M x MPFR_RNDD) = nat \<lfloor>mreal (sem x)\<rfloor>"
  using assms by (simp_all only: mpfr_ok_def mpfr_comparisons_def) blast+

lemma correct_exact: "correct p r v w i \<Longrightarrow> mrep p v \<Longrightarrow> w = v \<and> i = 0"
  by (cases r) (force simp: correct_def)+

lemma correct_down: "correct p MPFR_RNDD v w i \<Longrightarrow> if i = 0 then w = v else w < v"
  by (auto simp: correct_def order_less_le)

lemma correct_up: "correct p MPFR_RNDU v w i \<Longrightarrow> if i = 0 then w = v else v < w"
  by (auto simp: correct_def order_less_le)

lemma mrep_power [simp]: "0 < p \<Longrightarrow> mrep p (2 powi e)" "0 < p \<Longrightarrow> mrep p (- (2 powi e))"
  unfolding mrep_def by (intro exI [of _ 1] exI [of _ e], simp) (intro exI [of _ "- 1"] exI [of _ e], simp)

lemma mrep_minus [simp]: "mrep p (- v) \<longleftrightarrow> mrep p v"
proof -
  have "mrep p (- v)" if "mrep p v" for v
  proof -
    from that obtain m e where "v = of_int m * 2 powi e" "\<bar>m\<bar> < 2 ^ p" by (auto simp: mrep_def)
    then show ?thesis unfolding mrep_def by (intro exI [of _ "- m"] exI [of _ e]) simp
  qed
  from this [of v] this [of "- v"] show ?thesis by auto
qed

lemma mrep_abs [simp]: "mrep p \<bar>v\<bar> \<longleftrightarrow> mrep p v"
  by (simp add: abs_if)

lemma mrep_scale: "mrep p v \<Longrightarrow> mrep p (v * 2 powi k)"
proof -
  assume "mrep p v"
  then obtain m e where "v = of_int m * 2 powi e" "\<bar>m\<bar> < 2 ^ p" by (auto simp: mrep_def)
  then show ?thesis unfolding mrep_def
    by (intro exI [of _ m] exI [of _ "e + k"]) (simp add: power_int_add)
qed

lemma mrep_mono: "mrep p v \<Longrightarrow> p \<le> q \<Longrightarrow> mrep q v"
proof -
  assume "mrep p v" and q: "p \<le> q"
  then obtain m e where m: "v = of_int m * 2 powi e" "\<bar>m\<bar> < 2 ^ p" by (auto simp: mrep_def)
  have "(2::int) ^ p \<le> 2 ^ q" using q by (intro power_increasing) simp_all
  with m(2) have "\<bar>m\<bar> < 2 ^ q" by linarith
  with m(1) show "mrep q v" unfolding mrep_def by (intro exI conjI)
qed

lemma mrep_int: "\<bar>i\<bar> < 2 ^ p \<Longrightarrow> mrep p (of_int i)"
  unfolding mrep_def by (intro exI [of _ i] exI [of _ 0]) simp

lemma div_frac:
  assumes "0 < (d :: int)"
  shows "real_of_int m / of_int d - of_int (m div d) = of_int (m mod d) / of_int d"
proof -
  have r: "real_of_int m = of_int d * of_int (m div d) + of_int (m mod d)"
    by (metis mult_div_mod_eq of_int_add of_int_mult)
  show ?thesis using assms by (subst r) (simp add: add_divide_distrib)
qed

text \<open>The fractional part of a number of \<open>p\<close> bits has at most \<open>p\<close> bits.\<close>

lemma frac_form:
  fixes v :: real
  assumes v: "v = of_int m * 2 powi e" and "0 \<le> v"
  obtains n where "v - of_int \<lfloor>v\<rfloor> = of_int n * 2 powi e" "0 \<le> n" "n \<le> m"
proof -
  have e0: "0 < (2::real) powi e" by simp
  then have "0 \<le> real_of_int m"
    using assms(2) zero_le_mult_iff [of "real_of_int m" "2 powi e"] unfolding v by linarith
  then have m0: "0 \<le> m" by simp
  show ?thesis
  proof (cases "0 \<le> e")
    case True
    then have "v = of_int (m * 2 ^ nat e)" by (simp add: v power_int_def)
    then have "v - of_int \<lfloor>v\<rfloor> = of_int 0 * 2 powi e" by simp
    then show ?thesis using m0 by (intro that) simp_all
  next
    case False
    define k where "k = nat (- e)"
    have e: "e = - int k" using False by (simp add: k_def)
    have pe: "(2::real) powi e = 1 / 2 ^ k" unfolding e by (simp only: power_int_minus power_int_of_nat inverse_eq_divide)
    have vk: "v = of_int m / of_int (2 ^ k)" unfolding v pe by simp
    have fl: "\<lfloor>v\<rfloor> = m div 2 ^ k" unfolding vk by (rule floor_divide_of_int_eq)
    have "v - of_int \<lfloor>v\<rfloor> = of_int (m mod 2 ^ k) / of_int (2 ^ k)"
      unfolding fl unfolding vk by (rule div_frac) simp
    then have "v - of_int \<lfloor>v\<rfloor> = of_int (m mod 2 ^ k) * 2 powi e" by (simp add: pe)
    moreover have "m mod 2 ^ k \<le> m" using m0 by (rule zmod_le_nonneg_dividend)
    moreover have "0 \<le> m mod 2 ^ k" by simp
    ultimately show ?thesis by (intro that)
  qed
qed

lemma mrep_frac:
  assumes "mrep p v" "0 \<le> v"
  shows "mrep p (v - of_int \<lfloor>v\<rfloor>)"
proof -
  from assms obtain m e where v: "v = of_int m * 2 powi e" and m: "\<bar>m\<bar> < 2 ^ p" by (auto simp: mrep_def)
  obtain n where "v - of_int \<lfloor>v\<rfloor> = of_int n * 2 powi e" "0 \<le> n" "n \<le> m"
    using frac_form [OF v assms(2)] .
  then show ?thesis using m unfolding mrep_def by (intro exI [of _ n] exI [of _ e]) simp
qed

lemma frac_range:
  assumes v: "mrep p v" "mprec_ok p" "2 powi (- mpfr_emax) \<le> v" and f: "v \<noteq> of_int \<lfloor>v\<rfloor>"
  shows "mrange (v - of_int \<lfloor>v\<rfloor>)"
proof -
  have emax: "0 \<le> mpfr_emax" "int p \<le> mpfr_emax" using v(2) by (simp_all add: mpfr_emax_def mprec_ok_def)
  have "0 < (2::real) powi (- mpfr_emax)" by simp
  with v(3) have v0: "0 < v" by linarith
  have b: "0 < v - of_int \<lfloor>v\<rfloor>" "v - of_int \<lfloor>v\<rfloor> < 1" using f by linarith+
  have "(2::real) powi 0 \<le> 2 powi mpfr_emax" using emax by (intro power_int_increasing) simp_all
  with b have up: "\<bar>v - of_int \<lfloor>v\<rfloor>\<bar> \<le> 2 powi mpfr_emax" by simp
  have "2 powi (- mpfr_emax) \<le> v - of_int \<lfloor>v\<rfloor>"
  proof (cases "v < 1")
    case True
    then have "\<lfloor>v\<rfloor> = 0" using v0 by linarith
    then show ?thesis using v(3) by simp
  next
    case False
    from v(1) obtain m e where ve: "v = of_int m * 2 powi e" and m: "\<bar>m\<bar> < 2 ^ p" by (auto simp: mrep_def)
    obtain n where n: "v - of_int \<lfloor>v\<rfloor> = of_int n * 2 powi e" "0 \<le> n" "n \<le> m"
      using frac_form [OF ve less_imp_le [OF v0]] .
    have "n \<noteq> 0" using n(1) b by auto
    then have "1 \<le> real_of_int n" using n(2) by linarith
    then have ge: "2 powi e \<le> v - of_int \<lfloor>v\<rfloor>" unfolding n(1) by simp
    have "- int p < e"
    proof (rule ccontr)
      assume "\<not> - int p < e"
      then have "(2::real) powi e \<le> 2 powi (- int p)" by (intro power_int_increasing) simp_all
      then have "of_int m * 2 powi e \<le> of_int m * (2::real) powi (- int p)"
        using n \<open>n \<noteq> 0\<close> by (intro mult_left_mono) simp_all
      also have "\<dots> < 2 ^ p * 2 powi (- int p)"
      proof (rule mult_strict_right_mono)
        have "m < 2 ^ p" using m by linarith
        then show "real_of_int m < 2 ^ p" by (metis of_int_less_iff of_int_numeral of_int_power)
      qed simp
      also have "\<dots> = 1" by (simp add: power_int_minus)
      finally show False using False unfolding ve by simp
    qed
    then have "(2::real) powi (- mpfr_emax) \<le> 2 powi e" using emax by (intro power_int_increasing) simp_all
    then show ?thesis using ge by simp
  qed
  then show ?thesis unfolding mrange_def using b up by simp
qed

text \<open>Rounding keeps a number within the range.\<close>

lemma correct_mono:
  assumes "correct p r v w i" "mrep p u"
  shows "u \<le> v \<Longrightarrow> u \<le> w" "v \<le> u \<Longrightarrow> w \<le> u"
  using assms by (cases r; force simp: correct_def)+

lemma correct_range:
  assumes c: "correct p r v w i" and v: "mrange v" and p: "0 < p"
  shows "mrange w" "w < 0 \<longleftrightarrow> v < 0" "w \<noteq> 0"
proof -
  define lo hi :: real where "lo = 2 powi (- mpfr_emax)" and "hi = 2 powi mpfr_emax"
  have r: "mrep p lo" "mrep p (- lo)" "mrep p hi" "mrep p (- hi)" using p by (simp_all add: lo_def hi_def)
  have lo0: "0 < lo" by (simp add: lo_def)
  have b: "lo \<le> \<bar>v\<bar>" "\<bar>v\<bar> \<le> hi" using v by (simp_all add: mrange_def lo_def hi_def)
  have s: "lo \<le> w \<and> w \<le> hi \<and> 0 < v \<or> w \<le> - lo \<and> - hi \<le> w \<and> v < 0"
    using b lo0 correct_mono [OF c r(1)] correct_mono [OF c r(2)] correct_mono [OF c r(3)] correct_mono [OF c r(4)]
    by (cases "0 < v") (auto simp: abs_if split: if_splits)
  then show "w < 0 \<longleftrightarrow> v < 0" "w \<noteq> 0" using lo0 by auto
  show "mrange w" using s lo0 unfolding mrange_def lo_def [symmetric] hi_def [symmetric] by linarith
qed

lemma delivers_num:
  assumes "delivers M sem p r (MNum v) y" "mrange v" "mrep p v"
  shows "sem (fst y) = MNum v \<and> snd y = 0 \<and> mpfr_get_prec M (fst y) = p"
  using assms correct_exact by (auto simp: delivers_def)

lemma delivers_special:
  assumes "delivers M sem p r I y" "\<forall>v. I \<noteq> MNum v"
  shows "sem (fst y) = I \<and> snd y = 0 \<and> mpfr_get_prec M (fst y) = p"
  using assms by (cases I) (auto simp: delivers_def)

end
