(* ===== verification/Vu_Mpfr.thy ===== *)
theory Vu_Mpfr
  imports Mpfr Vu_Convert
begin

text \<open>
  \<open>vu_mpfr_to_value\<close> of \<open>vu_math.c\<close>: rounding a multiple-precision number, or the numbers just
  above or just below it, to binary32 or bfloat16.  The parameter \<open>side\<close> says which: 0 for the
  number itself, 1 and -1 when the exact result is known to lie strictly above or below.
\<close>

section \<open>The code\<close>

definition vu_overflow_value :: "u32 \<Rightarrow> u32 \<Rightarrow> bool \<Rightarrow> u32" where
  "vu_overflow_value data_type round_mode negative =
     (let infinity = (if data_type \<noteq> 0 then 0x7f80 else 0x7f800000);
          sign = (if negative then (if data_type \<noteq> 0 then 0x8000 else 0x80000000) else 0);
          finite = (round_mode = 1 \<or> (round_mode = 2 \<and> \<not> negative) \<or> (round_mode = 3 \<and> negative))
      in sign OR (if finite then infinity - 1 else infinity))"

text \<open>The rounding decision, and the packing of the rounded significand.\<close>

definition vu_increment :: "u32 \<Rightarrow> bool \<Rightarrow> bool \<Rightarrow> int \<Rightarrow> u64 \<Rightarrow> bool" where
  "vu_increment round_mode negative fraction_nonzero halfway significand =
     (if round_mode = 1 then False
      else if round_mode = 2 then negative \<and> fraction_nonzero
      else if round_mode = 3 then \<not> negative \<and> fraction_nonzero
      else if round_mode = 4 then halfway \<ge> 0
      else if round_mode = 5 then halfway > 0 \<or> (halfway = 0 \<and> significand AND 1 = 0)
      else halfway > 0 \<or> (halfway = 0 \<and> significand AND 1 \<noteq> 0))"

definition vu_pack_significand :: "u32 \<Rightarrow> u32 \<Rightarrow> u64 \<Rightarrow> int \<Rightarrow> u32" where
  "vu_pack_significand data_type sign significand shift =
     (let fraction_bits = (if data_type \<noteq> 0 then 7 else 23); hidden = push_bit fraction_bits 1
      in if significand < hidden then sign OR ucast significand
         else let (significand, shift) =
                (if significand \<ge> 2 * hidden then (drop_bit 1 significand, shift + 1) else (significand, shift));
                exponent = shift + int fraction_bits + 127
              in if exponent \<ge> 255 then sign OR (if data_type \<noteq> 0 then 0x7f80 else 0x7f800000)
                 else sign OR push_bit fraction_bits (word_of_int exponent) OR ucast (significand - hidden))"

definition vu_mpfr_to_value :: "'m mpfr \<Rightarrow> 'm \<Rightarrow> u32 \<Rightarrow> u32 \<Rightarrow> int \<Rightarrow> u32" where
  "vu_mpfr_to_value M value data_type round_mode side =
     (if mpfr_nan_p M value then (if data_type \<noteq> 0 then 0x7fc0 else 0x7fc00000)
      else
        let fraction_bits = (if data_type \<noteq> 0 then 7 else 23);
            negative = (if mpfr_zero_p M value \<and> side \<noteq> 0 then side < 0 else mpfr_signbit M value);
            sign = (if negative then (if data_type \<noteq> 0 then 0x8000 else 0x80000000) else 0)
        in if mpfr_inf_p M value then sign OR (if data_type \<noteq> 0 then 0x7f80 else 0x7f800000)
           else if mpfr_zero_p M value
           then sign OR of_bool (side \<noteq> 0 \<and> ((round_mode = 2 \<and> negative) \<or> (round_mode = 3 \<and> \<not> negative)))
           else
             let prec = mpfr_get_prec M value;
                 scaled = fst (mpfr_abs M prec value MPFR_RNDN);
                 magnitude_side = (if negative then - side else side);
                 exponent = mpfr_get_exp M scaled;
                 exponent = (if magnitude_side < 0 \<and> mpfr_cmp_ui_2exp M scaled 1 (exponent - 1) = 0
                             then exponent - 1 else exponent)
             in if exponent > 128 then vu_overflow_value data_type round_mode negative
                else
                  let shift = exponent - int fraction_bits - 1;
                      shift = (if shift < - 126 - int fraction_bits then - 126 - int fraction_bits else shift);
                      scaled = fst (mpfr_mul_2si M prec scaled (- shift) MPFR_RNDN);
                      significand = mpfr_get_ui M scaled MPFR_RNDD;
                      scaled = fst (mpfr_sub_ui M prec scaled (unat significand) MPFR_RNDN);
                      fraction_nonzero = (\<not> mpfr_zero_p M scaled);
                      halfway = mpfr_cmp_d M scaled 0x3FE0000000000000;
                      (fraction_nonzero, significand, halfway) =
                        (if \<not> fraction_nonzero \<and> magnitude_side \<noteq> 0
                         then (if magnitude_side < 0 then (True, significand - 1, 1) else (True, significand, halfway))
                         else if halfway = 0 then (fraction_nonzero, significand, magnitude_side)
                         else (fraction_nonzero, significand, halfway));
                      increment = vu_increment round_mode negative fraction_nonzero halfway significand
                  in vu_pack_significand data_type sign (significand + of_bool increment) shift)"

section \<open>The encodings of the two data types\<close>

definition vu_fmt :: "u32 \<Rightarrow> fmt" where
  "vu_fmt data_type = (if data_type \<noteq> 0 then BF16 else F32)"

text \<open>The word with a given sign and magnitude code.\<close>

definition vu_word :: "u32 \<Rightarrow> bool \<Rightarrow> nat \<Rightarrow> u32" where
  "vu_word data_type neg c = word_of_nat (of_bool neg * (if data_type \<noteq> 0 then 2 ^ 15 else 2 ^ 31) + c)"

definition math_mode :: "u32 \<Rightarrow> rmode" where
  "math_mode round_mode =
     (if round_mode = 1 then RTZ else if round_mode = 2 then RDN else if round_mode = 3 then RUP
      else if round_mode = 4 then RMM else if round_mode = 5 then RNO else RNE)"

lemma vu_word_fpack:
  "vu_word 0 neg c = fpack neg c"
  "c < 2 ^ 15 \<Longrightarrow> data_type \<noteq> 0 \<Longrightarrow> vu_word data_type neg c = ucast (fpack neg c :: u16)"
proof -
  show "vu_word 0 neg c = fpack neg c" by (simp add: vu_word_def fpack_def)
  assume "c < 2 ^ 15" "data_type \<noteq> 0"
  moreover from this have "unat (vu_word data_type neg c) = of_bool neg * 2 ^ 15 + c"
    unfolding vu_word_def unat_of_nat by (cases neg) simp_all
  ultimately show "vu_word data_type neg c = ucast (fpack neg c :: u16)"
    by (simp add: word_unat_eq_iff unat_fpack)
qed

text \<open>The C expression \<open>sign | m\<close>.\<close>

lemma vu_word_or:
  assumes "unat m = c" "c < (if data_type \<noteq> 0 then 2 ^ 15 else 2 ^ 31)"
  shows "(if neg then (if data_type \<noteq> 0 then 0x8000 else 0x80000000) else 0) OR m = vu_word data_type neg c"
proof -
  define k :: nat where "k = (if data_type \<noteq> 0 then 15 else 31)"
  define s :: u32 where "s = (if neg then (if data_type \<noteq> 0 then 0x8000 else 0x80000000) else 0)"
  have u: "unat s = of_bool neg * 2 ^ k" by (simp add: s_def k_def)
  have c: "c < 2 ^ k" using assms(2) by (auto simp: k_def split: if_splits)
  have "(2::nat) ^ k \<le> 2 ^ 31" by (simp add: k_def)
  have "unat (s OR m) = unat s + unat m"
    by (rule unat_or_disjoint [of k]) (use c assms(1) in \<open>simp_all add: u\<close>)
  then have "unat (s OR m) = of_bool neg * 2 ^ k + c" using assms(1) u by simp
  then have "word_of_nat (unat (s OR m)) = (word_of_nat (of_bool neg * 2 ^ k + c) :: u32)" by simp
  then show ?thesis by (simp add: s_def vu_word_def k_def)
qed

lemma math_mode_incr:
  assumes "h1 \<longleftrightarrow> halfway > 0" "h0 \<longleftrightarrow> halfway = 0"
  shows "vu_increment rm neg nz halfway w = round_incr (math_mode rm) neg (odd (unat w)) nz h1 h0"
proof -
  have o: "w AND 1 = 0 \<longleftrightarrow> even (unat w)"
    by (simp only: word_unat_eq_iff unat_and_one) (simp add: even_iff_mod_2_eq_zero)
  show ?thesis using assms o by (auto simp: vu_increment_def math_mode_def)
qed

lemma vu_overflow_code:
  "vu_overflow_value data_type rm neg =
    vu_word data_type neg (maxfin (vu_fmt data_type) +
      of_bool (round_incr (math_mode rm) neg (odd (maxfin (vu_fmt data_type))) True True False))"
proof -
  have "vu_overflow_value data_type rm neg = vu_word data_type neg
      (if rm = 1 \<or> rm = 2 \<and> \<not> neg \<or> rm = 3 \<and> neg then maxfin (vu_fmt data_type) else maxfin (vu_fmt data_type) + 1)"
    unfolding vu_overflow_value_def Let_def by (rule vu_word_or) (auto simp: vu_fmt_def F32_def BF16_def)
  then show ?thesis by (simp add: math_mode_def)
qed

text \<open>
  A rounded significand \<open>n\<close> at position \<open>sh\<close> (in units of the smallest subnormal) packs to the
  code \<open>sh * 2 ^ fb + n\<close>, carries into the exponent included.
\<close>

lemma vu_pack_code:
  fixes sh :: nat and data_type :: u32
  assumes fb: "fb = fbits (vu_fmt data_type)"
    and n: "unat w \<le> 2 * 2 ^ fb" and sh: "sh \<le> 253" "sh = 0 \<or> 2 ^ fb \<le> unat w"
  shows "vu_pack_significand data_type (if neg then (if data_type \<noteq> 0 then 0x8000 else 0x80000000) else 0) w
      (int sh - 126 - int fb) = vu_word data_type neg (sh * 2 ^ fb + unat w)"
proof -
  have fbe: "fb = (if data_type \<noteq> 0 then 7 else 23)" by (simp add: fb vu_fmt_def F32_def BF16_def)
  have fb23: "fb \<le> 23" by (simp add: fbe)
  define hidden :: u64 where "hidden = push_bit fb 1"
  have h: "unat hidden = 2 ^ fb" unfolding hidden_def using fb23 by (intro unat_push_1) simp
  have p23: "(2::nat) ^ fb \<le> 2 ^ 23" using fb23 by (intro power_increasing) simp_all
  have h2: "unat (2 * hidden) = 2 * 2 ^ fb" using unat_mult_less [of 2 hidden] p23 by (simp add: h)
  have top: "c < 256 * 2 ^ fb \<Longrightarrow> c < (if data_type \<noteq> 0 then 2 ^ 15 else 2 ^ 31)" for c :: nat
    by (cases "data_type = 0") (simp_all add: fbe)
  have field: "unat (push_bit fb (word_of_int (int e)) OR ucast (v - hidden) :: u32) = e * 2 ^ fb + (unat v - 2 ^ fb)"
    if e: "e < 256" and v: "2 ^ fb \<le> unat v" "unat v < 2 * 2 ^ fb" for e :: nat and v :: u64
  proof -
    have ue: "unat (word_of_int (int e) :: u32) = e" using e by (simp add: unat_of_nat)
    have "e * 2 ^ fb < 256 * 2 ^ 23" by (rule mult_less_le_imp_less) (use e p23 in simp_all)
    then have a: "unat (push_bit fb (word_of_int (int e)) :: u32) = e * 2 ^ fb"
      by (subst unat_push_bit_less) (simp_all only: ue, simp)
    have "unat (v - hidden) = unat v - 2 ^ fb" using v by (simp add: unat_sub word_le_nat_alt h)
    moreover have b: "unat v - 2 ^ fb < 2 ^ fb" using v by linarith
    moreover have "(2::nat) ^ fb < 2 ^ LENGTH(32)" using p23 by simp
    ultimately have c: "unat (ucast (v - hidden) :: u32) = unat v - 2 ^ fb"
      by (subst unat_ucast_less) simp_all
    show ?thesis using a b c by (subst unat_or_disjoint [of fb]) simp_all
  qed
  have unfold: "vu_pack_significand data_type sg w (int sh - 126 - int fb) =
      (if unat w < 2 ^ fb then sg OR ucast w
       else if unat w \<ge> 2 * 2 ^ fb
       then (if sh + 2 \<ge> 255 then sg OR (if data_type \<noteq> 0 then 0x7f80 else 0x7f800000)
             else sg OR push_bit fb (word_of_int (int (sh + 2))) OR ucast (drop_bit 1 w - hidden))
       else (if sh + 1 \<ge> 255 then sg OR (if data_type \<noteq> 0 then 0x7f80 else 0x7f800000)
             else sg OR push_bit fb (word_of_int (int (sh + 1))) OR ucast (w - hidden)))" for sg
    unfolding vu_pack_significand_def Let_def fbe [symmetric] hidden_def [symmetric] word_less_nat_alt word_le_nat_alt h h2
    by (simp add: not_le algebra_simps)
  show ?thesis
  proof (cases "unat w < 2 ^ fb")
    case True
    then have "sh = 0" using sh by simp
    moreover have "unat (ucast w :: u32) = unat w" using True p23 by (intro unat_ucast_less) simp
    ultimately show ?thesis unfolding unfold using True top [of "unat w"] by (simp add: vu_word_or)
  next
    case ge: False
    show ?thesis
    proof (cases "2 * 2 ^ fb \<le> unat w")
      case True
      then have w: "unat w = 2 * 2 ^ fb" using n by simp
      then have d: "unat (drop_bit 1 w) = 2 ^ fb" by (simp add: unat_drop_bit)
      have c: "sh * 2 ^ fb + unat w = (sh + 2) * 2 ^ fb" using w by (simp add: algebra_simps)
      show ?thesis
      proof (cases "sh = 253")
        case True
        then have "unat (if data_type \<noteq> 0 then 0x7f80 else 0x7f800000 :: u32) = (sh + 2) * 2 ^ fb" by (simp add: fbe)
        then show ?thesis unfolding unfold c using True ge w by (simp add: vu_word_or fbe)
      next
        case False
        then have s: "sh + 2 < 255" using sh by simp
        then have "unat (push_bit fb (word_of_int (int (sh + 2))) OR ucast (drop_bit 1 w - hidden) :: u32) = (sh + 2) * 2 ^ fb"
          by (subst field) (simp_all only: d, simp_all)
        moreover have "(sh + 2) * 2 ^ fb < 256 * 2 ^ fb" using s by simp
        ultimately show ?thesis unfolding unfold c using s ge w vu_word_or top by (simp del: of_int_of_nat_eq of_nat_add)
      qed
    next
      case False
      have s: "sh + 1 < 255" using sh by simp
      have c: "(sh + 1) * 2 ^ fb + (unat w - 2 ^ fb) = sh * 2 ^ fb + unat w" using ge by simp
      have f: "unat (push_bit fb (word_of_int (int (sh + 1))) OR ucast (w - hidden) :: u32) = sh * 2 ^ fb + unat w"
        by (subst field) (use s ge False c in simp_all)
      have "(sh + 2) * 2 ^ fb \<le> 255 * 2 ^ fb" using sh by (intro mult_right_mono) simp_all
      then have "sh * 2 ^ fb + 2 * 2 ^ fb \<le> 255 * 2 ^ fb" by (simp only: add_mult_distrib)
      then have t: "sh * 2 ^ fb + unat w < 256 * 2 ^ fb" using False by linarith
      show ?thesis unfolding unfold using s ge False vu_word_or [OF f top [OF t]] by (simp del: of_int_of_nat_eq of_nat_add)
    qed
  qed
qed

section \<open>The calls to the library\<close>

lemma mpfr_steps:
  assumes ok: "mpfr_ok M sem" and num: "sem x = MNum v" and p: "mprec_ok (mpfr_get_prec M x)"
  shows "mrange v \<Longrightarrow> sem (fst (mpfr_abs M (mpfr_get_prec M x) x r)) = MNum \<bar>v\<bar> \<and>
      mpfr_get_prec M (fst (mpfr_abs M (mpfr_get_prec M x) x r)) = mpfr_get_prec M x"
    and "mrange (v * 2 powi k) \<Longrightarrow> sem (fst (mpfr_mul_2si M (mpfr_get_prec M x) x k r)) = MNum (v * 2 powi k) \<and>
      mpfr_get_prec M (fst (mpfr_mul_2si M (mpfr_get_prec M x) x k r)) = mpfr_get_prec M x"
    and "mrep (mpfr_get_prec M x) v" "v \<noteq> 0" "2 powi (mpfr_get_exp M x - 1) \<le> \<bar>v\<bar>" "\<bar>v\<bar> < 2 powi (mpfr_get_exp M x)"
    and "mpfr_cmp_ui_2exp M x n e = 0 \<longleftrightarrow> v = of_nat n * 2 powi e"
    and "0 \<le> v \<Longrightarrow> v < 2 ^ 64 \<Longrightarrow> unat (mpfr_get_ui M x MPFR_RNDD) = nat \<lfloor>v\<rfloor>"
proof -
  show rep: "mrep (mpfr_get_prec M x) v" "v \<noteq> 0" "2 powi (mpfr_get_exp M x - 1) \<le> \<bar>v\<bar>" "\<bar>v\<bar> < 2 powi (mpfr_get_exp M x)"
    and "mpfr_cmp_ui_2exp M x n e = 0 \<longleftrightarrow> v = of_nat n * 2 powi e"
    by (rule mpfr_numD [OF ok num])+
  show "unat (mpfr_get_ui M x MPFR_RNDD) = nat \<lfloor>v\<rfloor>" if "0 \<le> v" "v < 2 ^ 64"
    using mpfr_comparisonsD(4) [OF ok, of x] that by (simp add: num)
  note d = mpfr_arithD(6) [OF ok p, of r x, unfolded num ideal_abs.simps]
    mpfr_arithD(8) [OF ok p, of r x k, unfolded num ideal_mul.simps]
  show "sem (fst (mpfr_abs M (mpfr_get_prec M x) x r)) = MNum \<bar>v\<bar> \<and>
      mpfr_get_prec M (fst (mpfr_abs M (mpfr_get_prec M x) x r)) = mpfr_get_prec M x" if "mrange v"
    using delivers_num [OF d(1)] that rep by (simp add: mrange_def)
  show "sem (fst (mpfr_mul_2si M (mpfr_get_prec M x) x k r)) = MNum (v * 2 powi k) \<and>
      mpfr_get_prec M (fst (mpfr_mul_2si M (mpfr_get_prec M x) x k r)) = mpfr_get_prec M x" if "mrange (v * 2 powi k)"
    using delivers_num [OF d(2)] that mrep_scale [OF rep(1)] by simp
qed

text \<open>The fraction left after the significand is taken off, and its comparison with a half.\<close>

lemma mpfr_fraction:
  assumes ok: "mpfr_ok M sem" and num: "sem x = MNum v" and p: "mprec_ok (mpfr_get_prec M x)"
    and v: "2 powi (- mpfr_emax) \<le> v"
  defines "y \<equiv> fst (mpfr_sub_ui M (mpfr_get_prec M x) x (nat \<lfloor>v\<rfloor>) MPFR_RNDN)"
  shows "mpfr_zero_p M y \<longleftrightarrow> v = of_int \<lfloor>v\<rfloor>"
    "0 < mpfr_cmp_d M y 0x3FE0000000000000 \<longleftrightarrow> 1 < 2 * (v - of_int \<lfloor>v\<rfloor>)"
    "mpfr_cmp_d M y 0x3FE0000000000000 = 0 \<longleftrightarrow> 2 * (v - of_int \<lfloor>v\<rfloor>) = 1"
proof -
  have "0 < (2::real) powi (- mpfr_emax)" by simp
  with v have v0: "0 < v" by linarith
  have rep: "mrep (mpfr_get_prec M x) v" using mpfr_steps [OF ok num p] by blast
  have d: "delivers M sem (mpfr_get_prec M x) MPFR_RNDN (ideal_sub MPFR_RNDN (sem x) (mnum (of_nat (nat \<lfloor>v\<rfloor>))))
      (mpfr_sub_ui M (mpfr_get_prec M x) x (nat \<lfloor>v\<rfloor>) MPFR_RNDN)"
    by (rule mpfr_arithD(9) [OF ok p]) (simp add: num)
  have i: "ideal_sub MPFR_RNDN (sem x) (mnum (of_nat (nat \<lfloor>v\<rfloor>))) = mnum (v - of_int \<lfloor>v\<rfloor>)"
    using v0 by (auto simp: ideal_sub_def num mnum_def mexact_def)
  have s: "sem y = mnum (v - of_int \<lfloor>v\<rfloor>)"
  proof (cases "v = of_int \<lfloor>v\<rfloor>")
    case True
    then have "mnum (v - of_int \<lfloor>v\<rfloor>) = MZero False" unfolding mnum_def by simp
    then show ?thesis using delivers_special [OF d] unfolding i y_def by simp
  next
    case False
    then have "mnum (v - of_int \<lfloor>v\<rfloor>) = MNum (v - of_int \<lfloor>v\<rfloor>)" by (simp add: mnum_def)
    then show ?thesis
      using delivers_num [of M sem "mpfr_get_prec M x" MPFR_RNDN "v - of_int \<lfloor>v\<rfloor>"] d
        frac_range [OF rep p v False] mrep_frac [OF rep less_imp_le [OF v0]] unfolding i y_def by simp
  qed
  show "mpfr_zero_p M y \<longleftrightarrow> v = of_int \<lfloor>v\<rfloor>" unfolding mpfr_queriesD(3) [OF ok] s mnum_def by auto
  have half: "of_rat (fval F64 (0x3FE0000000000000 :: u64)) = (1/2 :: real)" "ffinite F64 (0x3FE0000000000000 :: u64)"
    by (simp_all add: fval_def sval_def fneg_def fmag_def ival_def ffinite_def F64_def of_rat_divide)
  have m: "mreal (sem y) = v - of_int \<lfloor>v\<rfloor>" "sem y \<noteq> MNan" "\<forall>s. sem y \<noteq> MInf s" by (auto simp: s mnum_def)
  have c: "sgn (mpfr_cmp_d M y 0x3FE0000000000000) = \<lfloor>sgn (v - of_int \<lfloor>v\<rfloor> - 1 / 2 :: real)\<rfloor>"
    using mpfr_comparisonsD(1) [OF ok m(2,3) half(2)] m(1) half(1) by simp
  have g: "(0 < i \<longleftrightarrow> 0 < w) \<and> (i = 0 \<longleftrightarrow> w = 0)" if "sgn i = \<lfloor>sgn w\<rfloor>" for i :: int and w :: real
  proof -
    have "\<lfloor>- 1 :: real\<rfloor> = - 1" by linarith
    then show ?thesis using that by (simp add: sgn_if split: if_splits)
  qed
  show "0 < mpfr_cmp_d M y 0x3FE0000000000000 \<longleftrightarrow> 1 < 2 * (v - of_int \<lfloor>v\<rfloor>)"
    "mpfr_cmp_d M y 0x3FE0000000000000 = 0 \<longleftrightarrow> 2 * (v - of_int \<lfloor>v\<rfloor>) = 1"
    using g [OF c] by auto
qed

section \<open>The code of a number and of its neighbourhood\<close>

text \<open>
  \<open>sided_code F m neg V ms d\<close>: the code \<open>d\<close> is that of the magnitude \<open>V\<close> (in units of the
  smallest subnormal), or, for a positive or negative \<open>ms\<close>, of the magnitudes just above or just
  below \<open>V\<close>, in the rounding mode \<open>m\<close>.
\<close>

definition sided_code :: "fmt \<Rightarrow> rmode \<Rightarrow> bool \<Rightarrow> real \<Rightarrow> int \<Rightarrow> nat \<Rightarrow> bool" where
  "sided_code F m neg V ms d \<longleftrightarrow>
     (\<exists>c\<le>maxfin F.
       let lo = of_nat (ival (fbits F) c); hi = of_nat (ival (fbits F) (Suc c))
       in d = c + of_bool (round_incr m neg (odd c) (ms \<noteq> 0 \<or> lo < V)
            (lo + hi < 2 * V \<or> 0 < ms \<and> 2 * V = lo + hi) (ms = 0 \<and> 2 * V = lo + hi)) \<and>
          (if ms < 0 then lo < V \<and> (c = maxfin F \<or> V \<le> hi) else lo \<le> V \<and> (c = maxfin F \<or> V < hi)))"

lemma sided_code_0: "sided_code F m neg V 0 d \<Longrightarrow> d = round_code (fbits F) (maxfin F) m neg V"
  unfolding sided_code_def Let_def by (elim exE conjE) (simp add: round_codeI)

text \<open>Every number above \<open>V\<close> rounds to a code at least that of the upper neighbourhood.\<close>

lemma sided_code_above:
  assumes d: "sided_code F m neg V 1 d" and X: "V < X"
  shows "d \<le> round_code (fbits F) (maxfin F) m neg X"
proof -
  from d obtain c where c: "c \<le> maxfin F" "of_nat (ival (fbits F) c) \<le> V" "c = maxfin F \<or> V < of_nat (ival (fbits F) (Suc c))"
    and de: "d = c + of_bool (round_incr m neg (odd c) True (of_nat (ival (fbits F) c) + of_nat (ival (fbits F) (Suc c)) \<le> 2 * V) False)"
    unfolding sided_code_def Let_def by (elim exE conjE) (simp add: le_less eq_commute)
  define lo hi :: real where "lo = of_nat (ival (fbits F) c)" and "hi = of_nat (ival (fbits F) (Suc c))"
  have lh: "lo < hi" by (simp add: lo_def hi_def)
  note c' = c [folded lo_def hi_def]
  define Y where "Y = (if lo + hi \<le> 2 * V then (if c = maxfin F then X else min X ((V + hi) / 2))
                       else min X ((2 * V + lo + hi) / 4))"
  have Y: "V < Y" "Y \<le> X" "c = maxfin F \<or> Y < hi" "lo + hi < 2 * Y \<longleftrightarrow> lo + hi \<le> 2 * V" "2 * Y \<noteq> lo + hi"
    using X c' lh by (auto simp: Y_def min_def)
  have "round_code (fbits F) (maxfin F) m neg Y = d"
    using Y c' by (subst round_codeI [of c]) (simp_all add: de flip: lo_def hi_def)
  moreover have "round_code (fbits F) (maxfin F) m neg Y \<le> round_code (fbits F) (maxfin F) m neg X"
    by (rule round_code_mono) (use Y c' in \<open>simp_all add: lo_def\<close>)
  ultimately show ?thesis by simp
qed

lemma sided_code_below:
  assumes d: "sided_code F m neg V (- 1) d" and X: "0 \<le> X" "X < V"
  shows "round_code (fbits F) (maxfin F) m neg X \<le> d"
proof -
  from d obtain c where c: "c \<le> maxfin F" "of_nat (ival (fbits F) c) < V" "c = maxfin F \<or> V \<le> of_nat (ival (fbits F) (Suc c))"
    and de: "d = c + of_bool (round_incr m neg (odd c) True (of_nat (ival (fbits F) c) + of_nat (ival (fbits F) (Suc c)) < 2 * V) False)"
    by (auto simp: sided_code_def Let_def)
  define lo hi :: real where "lo = of_nat (ival (fbits F) c)" and "hi = of_nat (ival (fbits F) (Suc c))"
  have lh: "lo < hi" by (simp add: lo_def hi_def)
  note c' = c [folded lo_def hi_def]
  define Y where "Y = (if lo + hi < 2 * V then max X ((2 * V + lo + hi) / 4) else max X ((V + lo) / 2))"
  have Y: "lo < Y" "Y < V" "X \<le> Y" "lo + hi < 2 * Y \<longleftrightarrow> lo + hi < 2 * V" "2 * Y \<noteq> lo + hi"
    using X c' lh by (auto simp: Y_def max_def)
  have "round_code (fbits F) (maxfin F) m neg Y = d"
    using Y c' by (subst round_codeI [of c]) (auto simp: de simp flip: lo_def hi_def)
  moreover have "round_code (fbits F) (maxfin F) m neg X \<le> round_code (fbits F) (maxfin F) m neg Y"
    by (rule round_code_mono) (use Y X in simp_all)
  ultimately show ?thesis by simp
qed

lemma scaled_sided:
  fixes S :: real
  assumes fb: "fb = fbits F" "0 < fb" and n: "n < 2 * 2 ^ fb" "sh = 0 \<or> 2 ^ fb \<le> n"
    and c: "sh * 2 ^ fb + n \<le> maxfin F"
    and S: "if ms < 0 then of_nat n < S \<and> S \<le> of_nat n + 1 else of_nat n \<le> S \<and> S < of_nat n + 1"
  shows "sided_code F m neg (S * 2 ^ sh) ms
    (sh * 2 ^ fb + n + of_bool (round_incr m neg (odd n) (ms \<noteq> 0 \<or> of_nat n < S)
      (2 * of_nat n + 1 < 2 * S \<or> 0 < ms \<and> 2 * S = 2 * of_nat n + 1) (ms = 0 \<and> 2 * S = 2 * of_nat n + 1)))"
proof -
  have i: "ival fb (sh * 2 ^ fb + n) = n * 2 ^ sh"
    using n by (cases "2 ^ fb \<le> n") (auto simp: ival_pack ival_small2)
  have "(sh * 2 ^ fb + n) div 2 ^ fb - 1 = sh"
  proof (cases "2 ^ fb \<le> n")
    case True
    then have "n div 2 ^ fb = 1" using n by (intro div_nat_eqI) simp_all
    then show ?thesis by simp
  qed (use n in simp)
  then have i': "ival fb (Suc (sh * 2 ^ fb + n)) = (n + 1) * 2 ^ sh" unfolding ival_Suc i spacing_def by simp
  have r: "real (ival fb (sh * 2 ^ fb + n)) = of_nat n * 2 ^ sh" "real (ival fb (Suc (sh * 2 ^ fb + n))) = (of_nat n + 1) * 2 ^ sh"
    unfolding i i' by (simp_all add: algebra_simps)
  have o: "odd (sh * 2 ^ fb + n) \<longleftrightarrow> odd n" using fb by simp
  have k: "x * 2 ^ sh < y * 2 ^ sh \<longleftrightarrow> x < y" "x * 2 ^ sh \<le> y * 2 ^ sh \<longleftrightarrow> x \<le> y" "x * 2 ^ sh = y * 2 ^ sh \<longleftrightarrow> x = y" for x y :: real
    by simp_all
  have t: "real n * 2 ^ sh + (of_nat n + 1) * 2 ^ sh = (2 * of_nat n + 1) * 2 ^ sh" "2 * (S * 2 ^ sh) = (2 * S) * 2 ^ sh" by (simp_all add: algebra_simps)
  show ?thesis
    unfolding sided_code_def Let_def fb(1) [symmetric]
    by (rule exI [of _ "sh * 2 ^ fb + n"]) (use c S in \<open>simp only: r o t k split: if_splits; simp\<close>)
qed

lemma overflow_sided:
  assumes "if ms < 0 then of_nat (ival (fbits F) (Suc (maxfin F))) < V else of_nat (ival (fbits F) (Suc (maxfin F))) \<le> V"
  shows "sided_code F m neg V ms (maxfin F + of_bool (round_incr m neg (odd (maxfin F)) True True False))"
proof -
  define lo hi :: real where "lo = of_nat (ival (fbits F) (maxfin F))" and "hi = of_nat (ival (fbits F) (Suc (maxfin F)))"
  have "lo < hi" by (simp add: lo_def hi_def)
  moreover have "hi \<le> V" using assms by (simp add: hi_def split: if_splits)
  ultimately have f: "lo < V" "lo + hi < 2 * V" "2 * V \<noteq> lo + hi" by linarith+
  then show ?thesis unfolding sided_code_def Let_def lo_def [symmetric] hi_def [symmetric]
    by (intro exI [of _ "maxfin F"]) (simp flip: lo_def hi_def)
qed

lemma vu_fmt_cases:
  obtains "data_type = 0" "vu_fmt data_type = F32" "fbits (vu_fmt data_type) = 23" "ulp0 (vu_fmt data_type) = 149"
      "maxfin (vu_fmt data_type) = 0x7F7FFFFF"
    | "data_type \<noteq> 0" "vu_fmt data_type = BF16" "fbits (vu_fmt data_type) = 7" "ulp0 (vu_fmt data_type) = 133"
      "maxfin (vu_fmt data_type) = 0x7F7F"
  by (cases "data_type = 0") (simp_all add: vu_fmt_def F32_def BF16_def)

lemma vu_fmt_facts:
  fixes data_type
  defines "F \<equiv> vu_fmt data_type"
  shows "ulp0 F = 126 + fbits F" "fbits F = 7 \<or> fbits F = 23" "maxfin F + 1 = 255 * 2 ^ fbits F"
    "fbits F = (if data_type \<noteq> 0 then 7 else 23)" "real (ival (fbits F) (Suc (maxfin F))) = 2 powi (128 + int (ulp0 F))"
proof -
  show m: "maxfin F + 1 = 255 * 2 ^ fbits F" and u: "ulp0 F = 126 + fbits F"
    and "fbits F = 7 \<or> fbits F = 23" "fbits F = (if data_type \<noteq> 0 then 7 else 23)"
    unfolding F_def by (rule vu_fmt_cases [of data_type]; simp)+
  have "Suc (maxfin F) = 254 * 2 ^ fbits F + 2 ^ fbits F" using m by simp
  then have "ival (fbits F) (Suc (maxfin F)) = 2 ^ fbits F * 2 ^ 254" by (simp only: ival_pack)
  then have "real (ival (fbits F) (Suc (maxfin F))) = 2 ^ (fbits F + 254)" by (simp add: power_add)
  also have "\<dots> = 2 powi (int (fbits F + 254))" by (simp only: power_int_of_nat)
  finally show "real (ival (fbits F) (Suc (maxfin F))) = 2 powi (128 + int (ulp0 F))" by (simp add: u add.commute)
qed

section \<open>Non-zero numbers\<close>

lemma to_value_num:
  fixes data_type rm :: u32 and side :: int
  assumes ok: "mpfr_ok M sem" and num: "sem x = MNum v" and p: "mprec_ok (mpfr_get_prec M x)"
    and range: "mrange v" and side: "side = 0 \<or> side = 1 \<or> side = - 1"
  defines "F \<equiv> vu_fmt data_type" and "ms \<equiv> if v < 0 then - side else side"
  obtains d where "vu_mpfr_to_value M x data_type rm side = vu_word data_type (v < 0) d"
    "sided_code F (math_mode rm) (v < 0) (\<bar>v\<bar> * 2 ^ ulp0 F) ms d"
proof -
  define fb where "fb = fbits F"
  define P where "P = mpfr_get_prec M x"
  define y where "y = fst (mpfr_abs M P x MPFR_RNDN)"
  define E where "E = (if ms < 0 \<and> mpfr_cmp_ui_2exp M y 1 (mpfr_get_exp M y - 1) = 0 then mpfr_get_exp M y - 1
    else mpfr_get_exp M y)"
  note F = vu_fmt_facts [of data_type, folded F_def fb_def]
  have y: "sem y = MNum \<bar>v\<bar>" "mpfr_get_prec M y = P"
    using mpfr_steps(1) [OF ok num p range] by (simp_all add: y_def P_def)
  have py: "mprec_ok (mpfr_get_prec M y)" using p y by (simp add: P_def)
  note ys = mpfr_steps [OF ok y(1) py]
  have E: "if ms < 0 then 2 powi (E - 1) < \<bar>v\<bar> \<and> \<bar>v\<bar> \<le> 2 powi E else 2 powi (E - 1) \<le> \<bar>v\<bar> \<and> \<bar>v\<bar> < 2 powi E"
  proof -
    have "(2::real) powi (mpfr_get_exp M y - 2) < 2 powi (mpfr_get_exp M y - 1)"
      by (rule power_int_strict_increasing) simp_all
    then show ?thesis using ys(5,6,7) unfolding E_def by auto
  qed
  have special: "\<not> mpfr_nan_p M x" "\<not> mpfr_inf_p M x" "\<not> mpfr_zero_p M x" "mpfr_signbit M x = (v < 0)"
    using mpfr_queriesD [OF ok, of x] num by auto
  have pa: "(2::real) powi i * 2 powi j = 2 powi (i + j)" for i j by (simp add: power_int_add)
  note unfold = vu_mpfr_to_value_def [of M x data_type rm side, unfolded Let_def, folded P_def, folded y_def]
  show thesis
  proof (cases "128 < E")
    case True
    have "sided_code F (math_mode rm) (v < 0) (\<bar>v\<bar> * 2 ^ ulp0 F) ms
        (maxfin F + of_bool (round_incr (math_mode rm) (v < 0) (odd (maxfin F)) True True False))"
    proof (rule overflow_sided)
      have "(2::real) powi 128 \<le> 2 powi (E - 1)" using True by (intro power_int_increasing) simp_all
      then have "if ms < 0 then 2 powi 128 < \<bar>v\<bar> else 2 powi 128 \<le> \<bar>v\<bar>" using E by (auto split: if_splits)
      moreover have "(2::real) powi (128 + int (ulp0 F)) = 2 powi 128 * 2 ^ ulp0 F"
        by (simp add: power_int_add)
      ultimately show "if ms < 0 then of_nat (ival (fbits F) (Suc (maxfin F))) < \<bar>v\<bar> * 2 ^ ulp0 F
          else of_nat (ival (fbits F) (Suc (maxfin F))) \<le> \<bar>v\<bar> * 2 ^ ulp0 F"
        unfolding F(5) [unfolded fb_def] by (auto split: if_splits)
    qed
    moreover have "vu_mpfr_to_value M x data_type rm side = vu_overflow_value data_type rm (v < 0)"
      using True special unfolding unfold by (simp add: E_def ms_def)
    ultimately show ?thesis using that unfolding vu_overflow_code F_def by blast
  next
    case False
    define sh where "sh = nat (E + 125)"
    define shift where "shift = int sh - 126 - int fb"
    define S where "S = \<bar>v\<bar> * 2 powi (- shift)"
    have shift_eq: "(if E - int fb - 1 < - 126 - int fb then - 126 - int fb else E - int fb - 1) = shift"
      by (simp add: shift_def sh_def)
    have sh: "sh \<le> 253" using False by (simp add: sh_def)
    have up: "\<bar>v\<bar> * 2 powi (- shift) \<le> 2 powi (int fb + 1)" "0 \<le> ms \<Longrightarrow> \<bar>v\<bar> * 2 powi (- shift) < 2 powi (int fb + 1)"
    proof -
      have le: "2 powi E * 2 powi (- shift) \<le> (2::real) powi (int fb + 1)"
        unfolding pa
        by (intro power_int_increasing) (simp_all add: shift_def sh_def)
      have "\<bar>v\<bar> \<le> 2 powi E" using E by (auto split: if_splits)
      then have "\<bar>v\<bar> * 2 powi (- shift) \<le> 2 powi E * 2 powi (- shift)" by (intro mult_right_mono) simp_all
      with le show "\<bar>v\<bar> * 2 powi (- shift) \<le> 2 powi (int fb + 1)" by linarith
      assume "0 \<le> ms"
      then have "\<bar>v\<bar> < 2 powi E" using E by simp
      then have "\<bar>v\<bar> * 2 powi (- shift) < 2 powi E * 2 powi (- shift)" by (intro mult_strict_right_mono) simp_all
      with le show "\<bar>v\<bar> * 2 powi (- shift) < 2 powi (int fb + 1)" by linarith
    qed
    have low: "if ms < 0 then 2 powi int fb < S else 2 powi int fb \<le> S" if "0 < sh"
    proof -
      have e: "2 powi (E - 1) * 2 powi (- shift) = (2::real) powi int fb"
        unfolding pa using that by (simp add: shift_def sh_def)
      have "x * 2 powi (- shift) \<le> y * 2 powi (- shift) \<longleftrightarrow> x \<le> y" "x * 2 powi (- shift) < y * 2 powi (- shift) \<longleftrightarrow> x < y" for x y :: real
        by simp_all
      then show ?thesis using E unfolding S_def e [symmetric] by simp
    qed
    have S0: "0 < S" unfolding S_def using mpfr_numD(1) [OF ok num] by simp
    have emax: "int fb + 1 \<le> mpfr_emax" "0 \<le> mpfr_emax" using F(2) by (auto simp: mpfr_emax_def)
    have S_range: "mrange S"
    proof -
      have "2 powi (int fb + 1) \<le> (2::real) powi mpfr_emax" using emax by (intro power_int_increasing) simp_all
      moreover have "2 powi (- mpfr_emax) \<le> S"
      proof (cases "0 < sh")
        case True
        have "2 powi (- mpfr_emax) \<le> (2::real) powi int fb" using emax by (intro power_int_increasing) simp_all
        then show ?thesis using low [OF True] by (auto split: if_splits)
      next
        case False
        have "(2::real) powi 0 \<le> 2 powi (- shift)" using False by (intro power_int_increasing) (simp_all add: shift_def)
        then have "\<bar>v\<bar> * 1 \<le> S" unfolding S_def by (intro mult_left_mono) simp_all
        then show ?thesis using range by (simp add: mrange_def)
      qed
      ultimately show ?thesis using up S0 by (simp add: mrange_def flip: S_def)
    qed
    define z where "z = fst (mpfr_mul_2si M P y (- shift) MPFR_RNDN)"
    have z: "sem z = MNum S" "mpfr_get_prec M z = P"
      using ys(2) [of "- shift" MPFR_RNDN] S_range by (simp_all add: z_def S_def y(2))
    have pz: "mprec_ok (mpfr_get_prec M z)" using py y z by simp
    define n0 where "n0 = nat \<lfloor>S\<rfloor>"
    have p24: "(2::real) powi (int fb + 1) \<le> 2 ^ 24" using F(2) by (auto simp: power_int_add)
    have n0: "unat (mpfr_get_ui M z MPFR_RNDD) = n0" "real n0 \<le> S" "S < real n0 + 1"
      using mpfr_steps(8) [OF ok z(1) pz] S0 up p24 unfolding n0_def by (simp_all flip: S_def)
    define u where "u = fst (mpfr_sub_ui M P z (unat (mpfr_get_ui M z MPFR_RNDD)) MPFR_RNDN)"
    have fr: "mpfr_zero_p M u \<longleftrightarrow> S = n0" "0 < mpfr_cmp_d M u 0x3FE0000000000000 \<longleftrightarrow> 2 * n0 + 1 < 2 * S"
        "mpfr_cmp_d M u 0x3FE0000000000000 = 0 \<longleftrightarrow> 2 * S = 2 * n0 + 1"
    proof -
      have "2 powi (- mpfr_emax) \<le> S" using S_range S0 by (simp add: mrange_def)
      note f = mpfr_fraction [OF ok z(1) pz this, unfolded z(2), folded n0_def, folded n0(1), folded u_def]
      have "of_int \<lfloor>S\<rfloor> = real n0" using S0 by (simp add: n0_def)
      then show "mpfr_zero_p M u \<longleftrightarrow> S = n0" "0 < mpfr_cmp_d M u 0x3FE0000000000000 \<longleftrightarrow> 2 * n0 + 1 < 2 * S"
        "mpfr_cmp_d M u 0x3FE0000000000000 = 0 \<longleftrightarrow> 2 * S = 2 * n0 + 1"
        using f by auto
    qed
    define n where "n = (if S = n0 \<and> ms < 0 then n0 - 1 else n0)"
    define w where "w = (if S = n0 \<and> ms < 0 then mpfr_get_ui M z MPFR_RNDD - 1 else mpfr_get_ui M z MPFR_RNDD)"
    have n01: "S = n0 \<Longrightarrow> 1 \<le> n0" using S0 by (cases n0) auto
    have wn: "unat w = n"
    proof (cases "S = n0 \<and> ms < 0")
      case True
      then have "mpfr_get_ui M z MPFR_RNDD \<noteq> 0" using n01 n0(1) by auto
      then show ?thesis using True n0(1) by (simp add: w_def n_def unat_minus_one)
    next
      case False
      then show ?thesis by (auto simp: w_def n_def n0(1))
    qed
    have nS: "if ms < 0 then real n < S \<and> S \<le> real n + 1 else real n \<le> S \<and> S < real n + 1"
      using n0 n01 by (auto simp: n_def of_nat_diff)
    have p2: "2 powi (int fb + 1) = real (2 * 2 ^ fb)" "2 powi int fb = real (2 ^ fb)" by (simp_all add: power_int_add)
    have n_up: "n < 2 * 2 ^ fb"
      using nS up unfolding S_def [symmetric] p2 by (auto simp: not_less simp flip: of_nat_less_iff [where ?'a = real] split: if_splits)
    have n_low: "sh = 0 \<or> 2 ^ fb \<le> n"
    proof (cases "0 < sh")
      case True
      then have "real (2 ^ fb) < real n + 1" using low nS unfolding p2 by (auto split: if_splits)
      then show ?thesis by linarith
    qed simp
    define half where "half = mpfr_cmp_d M u 0x3FE0000000000000"
    define nz where "nz = (S \<noteq> n0 \<or> ms \<noteq> 0)"
    define hw where "hw = (if S = n0 \<and> ms \<noteq> 0 then (if ms < 0 then 1 else half) else if half = 0 then ms else half)"
    note fr' = fr [folded half_def]
    have flags: "nz \<longleftrightarrow> ms \<noteq> 0 \<or> real n < S"
      "2 * real n + 1 < 2 * S \<or> 0 < ms \<and> 2 * S = 2 * real n + 1 \<longleftrightarrow> 0 < hw" "ms = 0 \<and> 2 * S = 2 * real n + 1 \<longleftrightarrow> hw = 0"
    proof -
      have h: "S = n0 \<Longrightarrow> half < 0" using fr'(2,3) by auto
      consider "S = n0" "ms < 0" | "S = n0" "0 \<le> ms" | "S \<noteq> n0" by linarith
      then show "nz \<longleftrightarrow> ms \<noteq> 0 \<or> real n < S"
        "2 * real n + 1 < 2 * S \<or> 0 < ms \<and> 2 * S = 2 * real n + 1 \<longleftrightarrow> 0 < hw" "ms = 0 \<and> 2 * S = 2 * real n + 1 \<longleftrightarrow> hw = 0"
        using n01 n0 h fr'(2,3) by (cases; auto simp: nz_def hw_def n_def of_nat_diff)+
    qed
    define inc where "inc = vu_increment rm (v < 0) nz hw w"
    have inc: "inc = round_incr (math_mode rm) (v < 0) (odd n) (ms \<noteq> 0 \<or> real n < S)
        (2 * real n + 1 < 2 * S \<or> 0 < ms \<and> 2 * S = 2 * real n + 1) (ms = 0 \<and> 2 * S = 2 * real n + 1)"
      unfolding inc_def wn [symmetric] flags(1) [unfolded wn [symmetric], symmetric]
      by (rule math_mode_incr) (simp_all only: flags wn)
    have c: "sh * 2 ^ fb + n \<le> maxfin F"
    proof -
      have "sh * 2 ^ fb \<le> 253 * 2 ^ fb" using sh by simp
      then show ?thesis using n_up F(3) by linarith
    qed
    have winc: "unat (w + of_bool inc) = n + of_bool inc"
    proof -
      have "2 * 2 ^ fb \<le> (2::nat) ^ 24" using F(2) by auto
      then show ?thesis using n_up by (subst unat_add_less) (simp_all add: wn)
    qed
    have V: "S * 2 ^ sh = \<bar>v\<bar> * 2 ^ ulp0 F"
    proof -
      have "S * 2 ^ sh = \<bar>v\<bar> * (2 powi (- shift) * 2 powi int sh)" by (simp add: S_def)
      also have "2 powi (- shift) * 2 powi int sh = (2::real) powi int (ulp0 F)" unfolding pa by (simp add: shift_def F(1) add.commute)
      finally show ?thesis by simp
    qed
    have "vu_mpfr_to_value M x data_type rm side =
        vu_pack_significand data_type (if v < 0 then (if data_type \<noteq> 0 then 0x8000 else 0x80000000) else 0) (w + of_bool inc) shift"
    proof -
      let ?sig = "mpfr_get_ui M z MPFR_RNDD"
      have tup: "(if \<not> \<not> mpfr_zero_p M u \<and> ms \<noteq> 0
             then (if ms < 0 then (True, ?sig - 1, 1) else (True, ?sig, half))
             else if half = 0 then (\<not> mpfr_zero_p M u, ?sig, ms) else (\<not> mpfr_zero_p M u, ?sig, half)) = (nz, w, hw)"
        using fr'(1) by (auto simp: nz_def w_def hw_def)
      have neg: "(if mpfr_zero_p M x \<and> side \<noteq> 0 then side < 0 else mpfr_signbit M x) = (v < 0)"
        using special by simp
      show ?thesis
        unfolding unfold neg F(4) [symmetric] ms_def [symmetric] E_def [symmetric] shift_eq z_def [symmetric]
          u_def [symmetric] half_def [symmetric] tup
        using special False by (simp add: inc_def)
    qed
    also have "\<dots> = vu_word data_type (v < 0) (sh * 2 ^ fb + n + of_bool inc)"
      unfolding shift_def add.assoc winc [symmetric]
      by (rule vu_pack_code) (use sh n_up n_low in \<open>auto simp: winc fb_def F_def\<close>)
    finally show ?thesis
      using that scaled_sided [OF fb_def _ n_up n_low c nS, of "math_mode rm" "v < 0"] F(2) unfolding V inc by auto
  qed
qed

lemma to_value_num_ex:
  assumes "mpfr_ok M sem" "sem x = MNum v" "mprec_ok (mpfr_get_prec M x)" "mrange v" "side = 0 \<or> side = 1 \<or> side = - 1"
  shows "\<exists>d. vu_mpfr_to_value M x data_type rm side = vu_word data_type (v < 0) d \<and>
    sided_code (vu_fmt data_type) (math_mode rm) (v < 0) (\<bar>v\<bar> * 2 ^ ulp0 (vu_fmt data_type)) (if v < 0 then - side else side) d"
  by (rule to_value_num [OF assms]) blast

section \<open>The specification\<close>

text \<open>
  The encoding a real number rounds to, and the order of the encodings, in which -0 is below +0.
\<close>

definition vu_round :: "u32 \<Rightarrow> u32 \<Rightarrow> real \<Rightarrow> u32" where
  "vu_round data_type round_mode v =
     (let F = vu_fmt data_type
      in vu_word data_type (v < 0)
           (round_code (fbits F) (maxfin F) (math_mode round_mode) (v < 0) (\<bar>v\<bar> * 2 ^ ulp0 F)))"

definition vu_key :: "u32 \<Rightarrow> u32 \<Rightarrow> int" where
  "vu_key data_type w = (if data_type \<noteq> 0 then tkey (ucast w :: u16) else tkey w)"

lemma vu_key_word:
  assumes "c \<le> maxfin (vu_fmt data_type) + 1"
  shows "vu_key data_type (vu_word data_type neg c) = (if neg then - int c - 1 else int c)"
proof (cases rule: vu_fmt_cases [of data_type])
  case 1
  then have "c < 2 ^ 31" using assms by simp
  then show ?thesis using 1 by (simp add: vu_key_def vu_word_fpack tkey_def)
next
  case 2
  then have c: "c < 2 ^ 15" using assms by simp
  have u: "ucast (ucast w :: u32) = w" for w :: u16 by (simp add: word_unat_eq_iff ucast_u32_u16)
  show ?thesis using 2 c by (simp add: vu_key_def vu_word_fpack tkey_def u)
qed

lemma vu_word_eq_iff:
  assumes "c \<le> maxfin (vu_fmt data_type) + 1" "d \<le> maxfin (vu_fmt data_type) + 1"
  shows "vu_word data_type s c = vu_word data_type t d \<longleftrightarrow> s = t \<and> c = d"
proof
  assume "vu_word data_type s c = vu_word data_type t d"
  then have "(if s then - int c - 1 else int c) = (if t then - int d - 1 else int d)"
    by (simp only: vu_key_word [OF assms(1), symmetric] vu_key_word [OF assms(2), symmetric])
  then show "s = t \<and> c = d" by (cases s; cases t) simp_all
qed simp

lemma sided_code_le: "sided_code F m neg V ms d \<Longrightarrow> d \<le> maxfin F + 1"
proof -
  have "c \<le> k \<Longrightarrow> c + of_bool b \<le> k + 1" for c b and k :: nat by (cases b) auto
  then show "sided_code F m neg V ms d \<Longrightarrow> d \<le> maxfin F + 1" unfolding sided_code_def Let_def by blast
qed

lemma vu_key_round:
  "vu_key data_type (vu_round data_type rm v) =
    (let F = vu_fmt data_type; c = round_code (fbits F) (maxfin F) (math_mode rm) (v < 0) (\<bar>v\<bar> * 2 ^ ulp0 F)
     in if v < 0 then - int c - 1 else int c)"
  unfolding vu_round_def Let_def by (rule vu_key_word) (use round_code_le in simp)

text \<open>Rounding is monotone.\<close>

lemma vu_round_mono: "v \<le> X \<Longrightarrow> vu_key data_type (vu_round data_type rm v) \<le> vu_key data_type (vu_round data_type rm X)"
proof -
  let ?F = "vu_fmt data_type"
  have "round_code (fbits ?F) (maxfin ?F) (math_mode rm) s (a * 2 ^ ulp0 ?F) \<le>
      round_code (fbits ?F) (maxfin ?F) (math_mode rm) s (b * 2 ^ ulp0 ?F)" if "0 \<le> a" "a \<le> b" for s and a b :: real
    using that by (intro round_code_mono mult_right_mono) simp_all
  from this [of "- X" "- v" True] this [of v X False] show "v \<le> X \<Longrightarrow> ?thesis"
    unfolding vu_key_round Let_def by (cases "v < 0"; cases "X < 0") auto
qed

text \<open>The same for the zeros: the sign of a zero next to which the result lies is that of the side.\<close>

lemma to_value_zero:
  assumes ok: "mpfr_ok M sem" and zero: "sem x = MZero s"
  shows "vu_mpfr_to_value M x data_type rm 0 = vu_word data_type s 0"
    and "vu_mpfr_to_value M x data_type rm 1 = vu_word data_type False (of_bool (rm = 3))"
    and "vu_mpfr_to_value M x data_type rm (- 1) = vu_word data_type True (of_bool (rm = 2))"
proof -
  have q: "\<not> mpfr_nan_p M x" "\<not> mpfr_inf_p M x" "mpfr_zero_p M x" "mpfr_signbit M x = s"
    using mpfr_queriesD [OF ok, of x] zero by auto
  note w = vu_word_or [where data_type = data_type]
  show "vu_mpfr_to_value M x data_type rm 0 = vu_word data_type s 0"
    using q w [of 0 0 s] by (simp add: vu_mpfr_to_value_def)
  show "vu_mpfr_to_value M x data_type rm 1 = vu_word data_type False (of_bool (rm = 3))"
    using q w [of "of_bool (rm = 3)" "of_bool (rm = 3)" False] by (auto simp: vu_mpfr_to_value_def)
  show "vu_mpfr_to_value M x data_type rm (- 1) = vu_word data_type True (of_bool (rm = 2))"
    using q w [of "of_bool (rm = 2)" "of_bool (rm = 2)" True] by (auto simp: vu_mpfr_to_value_def)
qed

lemma to_value_exact:
  assumes ok: "mpfr_ok M sem" and num: "sem x = MNum v" and p: "mprec_ok (mpfr_get_prec M x)" and range: "mrange v"
  shows "vu_mpfr_to_value M x data_type rm 0 = vu_round data_type rm v"
proof -
  have "(if v < 0 then - 0 else 0 :: int) = 0" by simp
  with to_value_num_ex [OF ok num p range, of 0 data_type rm]
  obtain d where d: "vu_mpfr_to_value M x data_type rm 0 = vu_word data_type (v < 0) d"
    "sided_code (vu_fmt data_type) (math_mode rm) (v < 0) (\<bar>v\<bar> * 2 ^ ulp0 (vu_fmt data_type)) 0 d" by auto
  show ?thesis unfolding d(1) vu_round_def Let_def by (simp only: sided_code_0 [OF d(2), symmetric])
qed

text \<open>A positive number rounded upwards is not zero.\<close>

lemma round_up_pos:
  assumes "0 < (x :: real)" and "\<not> neg \<and> m = RUP \<or> neg \<and> m = RDN"
  shows "1 \<le> round_code fb maxc m neg x"
proof -
  obtain c where c: "c \<le> maxc" "of_nat (ival fb c) \<le> x" "c = maxc \<or> x < of_nat (ival fb (Suc c))"
    using round_code_cases [of x maxc fb] assms(1) by auto
  show ?thesis unfolding round_codeI [OF c] using assms by (cases "c = 0") auto
qed

lemma to_value_above:
  assumes ok: "mpfr_ok M sem" and x: "sem x = MNum v \<and> mrange v \<or> sem x = MZero s \<and> v = 0"
    and p: "mprec_ok (mpfr_get_prec M x)" and X: "v < X"
  shows "vu_key data_type (vu_mpfr_to_value M x data_type rm 1) \<le> vu_key data_type (vu_round data_type rm X)"
proof (cases "v = 0")
  case True
  have "\<forall>v. sem x = MNum v \<longrightarrow> v \<noteq> 0" using mpfr_numD(1) [OF ok] by blast
  then have z: "sem x = MZero s" using x True by auto
  have "rm = 3 \<Longrightarrow> Suc 0 \<le> round_code (fbits (vu_fmt data_type)) (maxfin (vu_fmt data_type)) (math_mode rm) False
      (\<bar>X\<bar> * 2 ^ ulp0 (vu_fmt data_type))"
    unfolding One_nat_def [symmetric] using X True by (intro round_up_pos mult_pos_pos) (simp_all add: math_mode_def)
  then show ?thesis using X True
    unfolding to_value_zero [OF ok z] vu_key_round Let_def by (subst vu_key_word) auto
next
  case False
  then have num: "sem x = MNum v" "mrange v" using x by auto
  let ?F = "vu_fmt data_type"
  obtain d where d: "vu_mpfr_to_value M x data_type rm 1 = vu_word data_type (v < 0) d"
    "sided_code ?F (math_mode rm) (v < 0) (\<bar>v\<bar> * 2 ^ ulp0 ?F) (if v < 0 then - 1 else 1) d"
    using to_value_num_ex [OF ok num(1) p num(2), of 1 data_type rm] by auto
  note k = vu_key_word [OF sided_code_le [OF d(2)]]
  have sc: "a < b \<Longrightarrow> a * 2 ^ ulp0 ?F < b * 2 ^ ulp0 ?F" "0 \<le> \<bar>a\<bar> * 2 ^ ulp0 ?F" for a b :: real by simp_all
  show ?thesis
  proof (cases "v < 0")
    case True
    show ?thesis
    proof (cases "X < 0")
      case neg: True
      have tr: "(v < 0) = True" using True by simp
      have "round_code (fbits ?F) (maxfin ?F) (math_mode rm) True (\<bar>X\<bar> * 2 ^ ulp0 ?F) \<le> d"
        by (rule sided_code_below [OF d(2) [unfolded tr if_True] sc(2) sc(1)]) (use True X neg in simp)
      then show ?thesis using True neg by (simp add: d(1) k vu_key_round Let_def)
    next
      case False
      then show ?thesis using True by (simp add: d(1) k vu_key_round Let_def)
    qed
  next
    case pos: False
    have fa: "(v < 0) = False" using pos by simp
    have "d \<le> round_code (fbits ?F) (maxfin ?F) (math_mode rm) False (\<bar>X\<bar> * 2 ^ ulp0 ?F)"
      by (rule sided_code_above [OF d(2) [unfolded fa if_False] sc(1)]) (use pos X in simp)
    then show ?thesis using pos X by (simp add: d(1) k vu_key_round Let_def)
  qed
qed

lemma to_value_below:
  assumes ok: "mpfr_ok M sem" and x: "sem x = MNum v \<and> mrange v \<or> sem x = MZero s \<and> v = 0"
    and p: "mprec_ok (mpfr_get_prec M x)" and X: "X < v"
  shows "vu_key data_type (vu_round data_type rm X) \<le> vu_key data_type (vu_mpfr_to_value M x data_type rm (- 1))"
proof (cases "v = 0")
  case True
  have "\<forall>v. sem x = MNum v \<longrightarrow> v \<noteq> 0" using mpfr_numD(1) [OF ok] by blast
  then have z: "sem x = MZero s" using x True by auto
  have "rm = 2 \<Longrightarrow> Suc 0 \<le> round_code (fbits (vu_fmt data_type)) (maxfin (vu_fmt data_type)) (math_mode rm) True
      (\<bar>X\<bar> * 2 ^ ulp0 (vu_fmt data_type))"
    unfolding One_nat_def [symmetric] using X True by (intro round_up_pos mult_pos_pos) (simp_all add: math_mode_def)
  then show ?thesis using X True
    unfolding to_value_zero [OF ok z] vu_key_round Let_def by (subst vu_key_word) auto
next
  case False
  then have num: "sem x = MNum v" "mrange v" using x by auto
  let ?F = "vu_fmt data_type"
  obtain d where d: "vu_mpfr_to_value M x data_type rm (- 1) = vu_word data_type (v < 0) d"
    "sided_code ?F (math_mode rm) (v < 0) (\<bar>v\<bar> * 2 ^ ulp0 ?F) (if v < 0 then 1 else - 1) d"
    using to_value_num_ex [OF ok num(1) p num(2), of "- 1" data_type rm] unfolding minus_minus by auto
  note k = vu_key_word [OF sided_code_le [OF d(2)]]
  have sc: "a < b \<Longrightarrow> a * 2 ^ ulp0 ?F < b * 2 ^ ulp0 ?F" "0 \<le> \<bar>a\<bar> * 2 ^ ulp0 ?F" for a b :: real by simp_all
  show ?thesis
  proof (cases "v < 0")
    case True
    have tr: "(v < 0) = True" using True by simp
    have "d \<le> round_code (fbits ?F) (maxfin ?F) (math_mode rm) True (\<bar>X\<bar> * 2 ^ ulp0 ?F)"
      by (rule sided_code_above [OF d(2) [unfolded tr if_True] sc(1)]) (use True X in simp)
    then show ?thesis using True X by (simp add: d(1) k vu_key_round Let_def)
  next
    case pos: False
    show ?thesis
    proof (cases "X < 0")
      case neg: True
      then show ?thesis using pos by (simp add: d(1) k vu_key_round Let_def)
    next
      case False
      have fa: "(v < 0) = False" using pos by simp
      have "round_code (fbits ?F) (maxfin ?F) (math_mode rm) False (\<bar>X\<bar> * 2 ^ ulp0 ?F) \<le> d"
        by (rule sided_code_below [OF d(2) [unfolded fa if_False] sc(2) sc(1)]) (use pos X False in simp)
      then show ?thesis using pos False by (simp add: d(1) k vu_key_round Let_def)
    qed
  qed
qed

text \<open>
  C16: \<open>vu_mpfr_to_value\<close> rounds a number of the library correctly in every mode and both data
  types, overflow and subnormals included; with \<open>side\<close> 1 it gives a code that no number above
  the given one rounds below, with \<open>side\<close> -1 a code that no number below it rounds above.
\<close>

theorem vu_mpfr_to_value_correct:
  assumes "mpfr_ok M sem" and "sem x = MNum v" and "mrange v" and "mprec_ok (mpfr_get_prec M x)"
  shows "vu_mpfr_to_value M x data_type rm 0 = vu_round data_type rm v \<and>
    (\<forall>X>v. vu_key data_type (vu_mpfr_to_value M x data_type rm 1) \<le> vu_key data_type (vu_round data_type rm X)) \<and>
    (\<forall>X<v. vu_key data_type (vu_round data_type rm X) \<le> vu_key data_type (vu_mpfr_to_value M x data_type rm (- 1)))"
  using to_value_exact [OF assms(1,2,4,3)] to_value_above [OF assms(1) _ assms(4)] to_value_below [OF assms(1) _ assms(4)]
    assms(2,3) by blast

end
