(* ===== verification/Sf_Base.thy ===== *)
theory Sf_Base
  imports Ieee_Ops
begin

text \<open>
  SoftFloat, the floating-point arithmetic of the Spike instruction-set simulator
  (\<open>riscv-isa-sim/softfloat/\<close>): its global state, the exception flags, the rounding-mode
  numbers and the bit-level primitives every format shares (\<open>softfloat_state.c\<close>,
  \<open>softfloat_raiseFlags.c\<close>, \<open>s_shiftRightJam*.c\<close>, \<open>s_countLeadingZeros*.c\<close>).
  The lemmas say what the primitives compute on natural numbers.
\<close>

section \<open>State, modes and flags\<close>

text \<open>The three thread-local variables; every operation takes the state and returns it.\<close>

record sf_state =
  softfloat_roundingMode :: u8
  softfloat_detectTininess :: u8
  softfloat_exceptionFlags :: u8

definition softfloat_round_near_even :: u8 where "softfloat_round_near_even = 0"
definition softfloat_round_minMag :: u8 where "softfloat_round_minMag = 1"
definition softfloat_round_min :: u8 where "softfloat_round_min = 2"
definition softfloat_round_max :: u8 where "softfloat_round_max = 3"
definition softfloat_round_near_maxMag :: u8 where "softfloat_round_near_maxMag = 4"
definition softfloat_round_odd :: u8 where "softfloat_round_odd = 5"

definition softfloat_flag_inexact :: u8 where "softfloat_flag_inexact = 1"
definition softfloat_flag_underflow :: u8 where "softfloat_flag_underflow = 2"
definition softfloat_flag_overflow :: u8 where "softfloat_flag_overflow = 4"
definition softfloat_flag_infinite :: u8 where "softfloat_flag_infinite = 8"
definition softfloat_flag_invalid :: u8 where "softfloat_flag_invalid = 16"

definition softfloat_tininess_beforeRounding :: u8 where "softfloat_tininess_beforeRounding = 0"
definition softfloat_tininess_afterRounding :: u8 where "softfloat_tininess_afterRounding = 1"

lemmas sf_modes = softfloat_round_near_even_def softfloat_round_minMag_def
  softfloat_round_min_def softfloat_round_max_def softfloat_round_near_maxMag_def
  softfloat_round_odd_def

lemmas sf_flags = softfloat_flag_inexact_def softfloat_flag_underflow_def
  softfloat_flag_overflow_def softfloat_flag_infinite_def softfloat_flag_invalid_def

definition softfloat_init :: sf_state where
  "softfloat_init = \<lparr>softfloat_roundingMode = softfloat_round_near_even,
     softfloat_detectTininess = softfloat_tininess_afterRounding, softfloat_exceptionFlags = 0\<rparr>"

definition softfloat_raiseFlags :: "u8 \<Rightarrow> sf_state \<Rightarrow> sf_state" where
  "softfloat_raiseFlags flags st =
     st\<lparr>softfloat_exceptionFlags := softfloat_exceptionFlags st OR flags\<rparr>"

lemma raiseFlags_sel [simp]:
  "softfloat_roundingMode (softfloat_raiseFlags f st) = softfloat_roundingMode st"
  "softfloat_detectTininess (softfloat_raiseFlags f st) = softfloat_detectTininess st"
  "softfloat_exceptionFlags (softfloat_raiseFlags f st) = softfloat_exceptionFlags st OR f"
  by (simp_all add: softfloat_raiseFlags_def)

lemma raiseFlags_0 [simp]: "softfloat_raiseFlags 0 st = st"
  by (simp add: softfloat_raiseFlags_def)

text \<open>
  The abstract rounding mode a mode number selects.  The two numbers without a name (6 and
  7) match none of the comparisons in the packing routines and so truncate.
\<close>

definition sf_mode :: "u8 \<Rightarrow> rmode" where
  "sf_mode r =
     (if r = softfloat_round_near_even then RNE
      else if r = softfloat_round_min then RDN
      else if r = softfloat_round_max then RUP
      else if r = softfloat_round_near_maxMag then RMM
      else if r = softfloat_round_odd then ROD
      else RTZ)"

lemma sf_mode_not_RNO [simp]: "sf_mode r \<noteq> RNO"
  by (simp add: sf_mode_def)

lemma sf_mode_iff:
  "sf_mode r = RNE \<longleftrightarrow> r = softfloat_round_near_even"
  "sf_mode r = ROD \<longleftrightarrow> r = softfloat_round_odd"
  "sf_mode r = RDN \<longleftrightarrow> r = softfloat_round_min"
  "sf_mode r = RUP \<longleftrightarrow> r = softfloat_round_max"
  "sf_mode r = RMM \<longleftrightarrow> r = softfloat_round_near_maxMag"
  by (auto simp: sf_mode_def sf_modes)

section \<open>Casts\<close>

text \<open>\<open>(unsigned int) exp\<close> of a signed exponent.\<close>

definition cast_uint32 :: "int \<Rightarrow> int" where
  "cast_uint32 i = i mod 2 ^ 32"

lemma cast_uint32_id: "0 \<le> i \<Longrightarrow> i < 2 ^ 32 \<Longrightarrow> cast_uint32 i = i"
  by (simp add: cast_uint32_def)

lemma cast_uint32_neg: "i < 0 \<Longrightarrow> - (2 ^ 32) \<le> i \<Longrightarrow> cast_uint32 i = i + 2 ^ 32"
  using mod_add_self2 [of i "2 ^ 32"] mod_pos_pos_trivial [of "i + 2 ^ 32" "2 ^ 32"]
  by (simp add: cast_uint32_def)

section \<open>Shifts that jam the lost bits\<close>

definition softfloat_shiftRightJam32 :: "u32 \<Rightarrow> u64 \<Rightarrow> u32" where
  "softfloat_shiftRightJam32 a dst =
     (if dst < 31
      then drop_bit (unat dst) a OR of_bool (push_bit (unat (- dst AND 31)) a \<noteq> 0)
      else of_bool (a \<noteq> 0))"

definition softfloat_shiftRightJam64 :: "u64 \<Rightarrow> u64 \<Rightarrow> u64" where
  "softfloat_shiftRightJam64 a dst =
     (if dst < 63
      then drop_bit (unat dst) a OR of_bool (push_bit (unat (- dst AND 63)) a \<noteq> 0)
      else of_bool (a \<noteq> 0))"

definition softfloat_shortShiftRightJam64 :: "u64 \<Rightarrow> u8 \<Rightarrow> u64" where
  "softfloat_shortShiftRightJam64 a dst =
     drop_bit (unat dst) a OR of_bool (a AND (push_bit (unat dst) 1 - 1) \<noteq> 0)"

section \<open>Counting leading zeros\<close>

definition softfloat_countLeadingZeros8 :: "u8 list" where
  "softfloat_countLeadingZeros8 =
    [8, 7, 6, 6, 5, 5, 5, 5, 4, 4, 4, 4, 4, 4, 4, 4,
     3, 3, 3, 3, 3, 3, 3, 3, 3, 3, 3, 3, 3, 3, 3, 3,
     2, 2, 2, 2, 2, 2, 2, 2, 2, 2, 2, 2, 2, 2, 2, 2,
     2, 2, 2, 2, 2, 2, 2, 2, 2, 2, 2, 2, 2, 2, 2, 2,
     1, 1, 1, 1, 1, 1, 1, 1, 1, 1, 1, 1, 1, 1, 1, 1,
     1, 1, 1, 1, 1, 1, 1, 1, 1, 1, 1, 1, 1, 1, 1, 1,
     1, 1, 1, 1, 1, 1, 1, 1, 1, 1, 1, 1, 1, 1, 1, 1,
     1, 1, 1, 1, 1, 1, 1, 1, 1, 1, 1, 1, 1, 1, 1, 1,
     0, 0, 0, 0, 0, 0, 0, 0, 0, 0, 0, 0, 0, 0, 0, 0,
     0, 0, 0, 0, 0, 0, 0, 0, 0, 0, 0, 0, 0, 0, 0, 0,
     0, 0, 0, 0, 0, 0, 0, 0, 0, 0, 0, 0, 0, 0, 0, 0,
     0, 0, 0, 0, 0, 0, 0, 0, 0, 0, 0, 0, 0, 0, 0, 0,
     0, 0, 0, 0, 0, 0, 0, 0, 0, 0, 0, 0, 0, 0, 0, 0,
     0, 0, 0, 0, 0, 0, 0, 0, 0, 0, 0, 0, 0, 0, 0, 0,
     0, 0, 0, 0, 0, 0, 0, 0, 0, 0, 0, 0, 0, 0, 0, 0,
     0, 0, 0, 0, 0, 0, 0, 0, 0, 0, 0, 0, 0, 0, 0, 0]"

definition softfloat_countLeadingZeros16 :: "u16 \<Rightarrow> u8" where
  "softfloat_countLeadingZeros16 a =
     (let count = 8;
          (count, a) = (if 0x100 \<le> a then (0, drop_bit 8 a) else (count, a))
      in count + softfloat_countLeadingZeros8 ! unat a)"

definition softfloat_countLeadingZeros32 :: "u32 \<Rightarrow> u8" where
  "softfloat_countLeadingZeros32 a =
     (let count = 0;
          (count, a) = (if a < 0x10000 then (16, push_bit 16 a) else (count, a));
          (count, a) = (if a < 0x1000000 then (count + 8, push_bit 8 a) else (count, a))
      in count + softfloat_countLeadingZeros8 ! unat (drop_bit 24 a))"

definition softfloat_countLeadingZeros64 :: "u64 \<Rightarrow> u8" where
  "softfloat_countLeadingZeros64 a =
     (let count = 0;
          a32 = ucast (drop_bit 32 a) :: u32;
          (count, a32) = (if a32 = 0 then (32, ucast a) else (count, a32));
          (count, a32) = (if a32 < 0x10000 then (count + 16, push_bit 16 a32) else (count, a32));
          (count, a32) = (if a32 < 0x1000000 then (count + 8, push_bit 8 a32) else (count, a32))
      in count + softfloat_countLeadingZeros8 ! unat (drop_bit 24 a32))"

section \<open>What the shifts compute\<close>

lemma shift_out_nonzero:
  fixes a :: "'a::len word"
  assumes "d \<le> LENGTH('a)"
  shows "push_bit (LENGTH('a) - d) a \<noteq> 0 \<longleftrightarrow> unat a mod 2 ^ d \<noteq> 0"
proof -
  have p: "(2::nat) ^ LENGTH('a) = 2 ^ (LENGTH('a) - d) * 2 ^ d"
    using assms by (simp flip: power_add)
  have "push_bit (LENGTH('a) - d) a = 0 \<longleftrightarrow> unat (push_bit (LENGTH('a) - d) a) = 0"
    by (simp add: unat_eq_0)
  also have "\<dots> \<longleftrightarrow> unat a mod 2 ^ d = 0"
    by (simp add: unat_push_bit p mult.commute [of "unat a"] mod_mult_mult1 del: push_bit_eq_mult)
  finally show ?thesis by simp
qed

lemma unat_shiftRightJam32:
  assumes "0 < unat dst"
  shows "unat (softfloat_shiftRightJam32 a dst) = jam_shift (unat a) (unat dst)"
proof (cases "unat dst < 31")
  case True
  have "unat (- dst AND 31) = 32 - unat dst"
  proof -
    have "unat (- dst) = 2 ^ 64 - unat dst" using assms by (subst unat_minus) auto
    moreover have "(31 :: u64) = mask 5" by (simp add: mask_eq_exp_minus_1)
    ultimately have "unat (- dst AND 31) = (2 ^ 64 - unat dst) mod 2 ^ 5"
      by (simp only: unat_and_mask)
    moreover have "2 ^ 64 - unat dst = (2 ^ 59 - 1) * 2 ^ 5 + (32 - unat dst)"
      using True by simp
    moreover have "32 - unat dst < 2 ^ 5" using assms by simp
    ultimately show ?thesis by (simp only: mod_radix)
  qed
  then have "softfloat_shiftRightJam32 a dst =
      drop_bit (unat dst) a OR of_bool (unat a mod 2 ^ unat dst \<noteq> 0)"
    using True shift_out_nonzero [of "unat dst" a]
    by (simp add: softfloat_shiftRightJam32_def word_less_nat_alt)
  then show ?thesis by (simp only: unat_or_bit unat_drop_bit jam_shift_def)
next
  case False
  define d where "d = unat dst"
  have d: "31 \<le> d" using False by (simp add: d_def)
  have "jam_shift (unat a) d = of_bool (unat a \<noteq> 0)"
  proof (cases "d = 31")
    case True
    have "unat a div 2 ^ 31 < 2"
      by (rule less_mult_imp_div_less) (use unat_lt_32 [of a] in simp)
    then show ?thesis
      by (cases "unat a div 2 ^ 31 = 0") (auto simp: True jam_shift_def or_of_bool less_2_cases_iff)
  next
    case False
    then have "(4294967296::nat) \<le> 2 ^ d" using d power_increasing [of 32 d "2::nat"] by simp
    then have "unat a < 2 ^ d" using unat_lt_32 [of a] by linarith
    then show ?thesis by (simp add: jam_shift_def or_of_bool)
  qed
  then show ?thesis
    using False by (simp add: softfloat_shiftRightJam32_def word_less_nat_alt d_def unat_eq_0)
qed

lemma unat_shiftRightJam64:
  assumes "0 < unat dst"
  shows "unat (softfloat_shiftRightJam64 a dst) = jam_shift (unat a) (unat dst)"
proof (cases "unat dst < 63")
  case True
  have "unat (- dst AND 63) = 64 - unat dst"
  proof -
    have "unat (- dst) = 2 ^ 64 - unat dst" using assms by (subst unat_minus) auto
    moreover have "(63 :: u64) = mask 6" by (simp add: mask_eq_exp_minus_1)
    ultimately have "unat (- dst AND 63) = (2 ^ 64 - unat dst) mod 2 ^ 6"
      by (simp only: unat_and_mask)
    moreover have "2 ^ 64 - unat dst = (2 ^ 58 - 1) * 2 ^ 6 + (64 - unat dst)"
      using True by simp
    moreover have "64 - unat dst < 2 ^ 6" using assms by simp
    ultimately show ?thesis by (simp only: mod_radix)
  qed
  then have "softfloat_shiftRightJam64 a dst =
      drop_bit (unat dst) a OR of_bool (unat a mod 2 ^ unat dst \<noteq> 0)"
    using True shift_out_nonzero [of "unat dst" a]
    by (simp add: softfloat_shiftRightJam64_def word_less_nat_alt)
  then show ?thesis by (simp only: unat_or_bit unat_drop_bit jam_shift_def)
next
  case False
  define d where "d = unat dst"
  have d: "63 \<le> d" using False by (simp add: d_def)
  have "jam_shift (unat a) d = of_bool (unat a \<noteq> 0)"
  proof (cases "d = 63")
    case True
    have "unat a div 2 ^ 63 < 2"
      by (rule less_mult_imp_div_less) (use unat_lt_64 [of a] in simp)
    then show ?thesis
      by (cases "unat a div 2 ^ 63 = 0") (auto simp: True jam_shift_def or_of_bool less_2_cases_iff)
  next
    case False
    then have "(18446744073709551616::nat) \<le> 2 ^ d" using d power_increasing [of 64 d "2::nat"] by simp
    then have "unat a < 2 ^ d" using unat_lt_64 [of a] by linarith
    then show ?thesis by (simp add: jam_shift_def or_of_bool)
  qed
  then show ?thesis
    using False by (simp add: softfloat_shiftRightJam64_def word_less_nat_alt d_def unat_eq_0)
qed

lemma unat_shortShiftRightJam64:
  "unat (softfloat_shortShiftRightJam64 a dst) = jam_shift (unat a) (unat dst)"
proof -
  have "push_bit (unat dst) 1 - 1 = (mask (unat dst) :: u64)"
    by (simp add: mask_eq_exp_minus_1)
  then have "a AND (push_bit (unat dst) 1 - 1) \<noteq> 0 \<longleftrightarrow> unat a mod 2 ^ unat dst \<noteq> 0"
    by (metis unat_and_mask unat_eq_0)
  then show ?thesis
    by (simp only: softfloat_shortShiftRightJam64_def unat_or_bit unat_drop_bit jam_shift_def)
qed

section \<open>What the leading-zero counts compute\<close>

lemma clz8_table:
  "softfloat_countLeadingZeros8 = map (\<lambda>i. word_of_nat (8 - floorlog 2 i)) [0..<256]"
  by code_simp

lemma clz8: "i < 256 \<Longrightarrow> unat (softfloat_countLeadingZeros8 ! i) = 8 - floorlog 2 i"
  by (simp add: clz8_table unat_of_nat)


text \<open>A leading-zero count on \<open>w\<close> bits is \<open>w\<close> minus the bit length of the argument.\<close>

lemma floorlog_div_power:
  assumes "2 ^ k \<le> n"
  shows "floorlog 2 n = floorlog 2 (n div 2 ^ k) + k"
proof (rule antisym)
  define q where "q = n div 2 ^ k"
  have q: "0 < q" using assms by (simp add: q_def div_greater_zero_iff)
  have b: "2 ^ (floorlog 2 q - 1) \<le> q" "q < 2 ^ floorlog 2 q"
    using floorlog_bounds [of q 2] q by auto
  have f: "floorlog 2 q \<noteq> 0" using q by (simp only: floorlog_eq_zero_iff) simp
  have "n < 2 ^ (floorlog 2 q + k)"
    using b(2) by (simp add: q_def div_less_iff_less_mult power_add)
  then show "floorlog 2 n \<le> floorlog 2 (n div 2 ^ k) + k"
    by (intro floorlog_leI) (simp_all add: q_def)
  have "2 ^ (floorlog 2 q - 1) * 2 ^ k \<le> n"
    using b(1) by (simp add: q_def less_eq_div_iff_mult_less_eq)
  then have "2 ^ (floorlog 2 q + k - 1) \<le> n"
    using f by (simp flip: power_add)
  then show "floorlog 2 (n div 2 ^ k) + k \<le> floorlog 2 n"
    by (intro floorlog_geI) (simp_all add: q_def)
qed

lemma floorlog_times:
  "0 < n \<Longrightarrow> floorlog 2 (n * 256) = floorlog 2 n + 8"
  "0 < n \<Longrightarrow> floorlog 2 (n * 65536) = floorlog 2 n + 16"
  using floorlog_power [of n 2 8] floorlog_power [of n 2 16] by simp_all

lemma clz_top_byte:
  assumes "2 ^ 24 \<le> unat (a :: u32)"
  shows "unat (softfloat_countLeadingZeros8 ! unat (drop_bit 24 a)) = 32 - floorlog 2 (unat a)"
proof -
  have "unat (drop_bit 24 a) < 256"
    by (simp only: unat_drop_bit) (rule less_mult_imp_div_less, use unat_lt_32 [of a] in simp)
  then have "unat (softfloat_countLeadingZeros8 ! unat (drop_bit 24 a))
      = 8 - floorlog 2 (unat a div 2 ^ 24)"
    by (simp only: clz8 unat_drop_bit)
  then show ?thesis using floorlog_div_power [OF assms] by simp
qed

lemma unat_count_add: "unat c + unat t < 256 \<Longrightarrow> unat (c + t :: u8) = unat c + unat t"
  by (rule unat_add_less) simp

lemma clz_tail:
  fixes a :: u32
  assumes "a \<noteq> 0" and "unat c \<le> 32"
  shows "unat (let (count, a) = (if a < 0x10000 then (c + 16, push_bit 16 a) else (c, a));
          (count, a) = (if a < 0x1000000 then (count + 8, push_bit 8 a) else (count, a))
      in count + softfloat_countLeadingZeros8 ! unat (drop_bit 24 a)) =
    unat c + (32 - floorlog 2 (unat a))"
proof -
  define a1 c1 where "a1 = (if a < 0x10000 then push_bit 16 a else a)"
    and "c1 = (if a < 0x10000 then c + 16 else c)"
  define a2 c2 where "a2 = (if a1 < 0x1000000 then push_bit 8 a1 else a1)"
    and "c2 = (if a1 < 0x1000000 then c1 + 8 else c1)"
  have a0: "0 < unat a" using assms(1) by (simp add: unat_gt_0)
  have c1: "unat c1 + (32 - floorlog 2 (unat a1)) = unat c + (32 - floorlog 2 (unat a))"
    and a1: "2 ^ 16 \<le> unat a1" and c1l: "unat c1 \<le> 48"
  proof -
    have u: "unat (c + 16) = unat c + 16" using assms(2) by (subst unat_count_add) auto
    have "unat (push_bit 16 a) = unat a * 2 ^ 16" if "a < 0x10000"
      using that by (intro unat_push_bit_less) (simp add: word_less_nat_alt)
    moreover have "floorlog 2 (unat a) \<le> 16" if "a < 0x10000"
      using that by (intro floorlog_le_width) (simp add: word_less_nat_alt)
    ultimately show "unat c1 + (32 - floorlog 2 (unat a1)) = unat c + (32 - floorlog 2 (unat a))"
      "2 ^ 16 \<le> unat a1" "unat c1 \<le> 48"
      using a0 assms(2) u
      by (auto simp: a1_def c1_def word_less_nat_alt floorlog_times)
  qed
  have c2: "unat c2 + (32 - floorlog 2 (unat a2)) = unat c1 + (32 - floorlog 2 (unat a1))"
    and a2: "2 ^ 24 \<le> unat a2" and c2l: "unat c2 \<le> 56"
  proof -
    have u: "unat (c1 + 8) = unat c1 + 8" using c1l by (subst unat_count_add) auto
    have "unat (push_bit 8 a1) = unat a1 * 2 ^ 8" if "a1 < 0x1000000"
      using that by (intro unat_push_bit_less) (simp add: word_less_nat_alt)
    moreover have "floorlog 2 (unat a1) \<le> 24" if "a1 < 0x1000000"
      using that by (intro floorlog_le_width) (simp add: word_less_nat_alt)
    ultimately show "unat c2 + (32 - floorlog 2 (unat a2)) = unat c1 + (32 - floorlog 2 (unat a1))"
      "2 ^ 24 \<le> unat a2" "unat c2 \<le> 56"
      using a1 c1l u
      by (auto simp: a2_def c2_def word_less_nat_alt floorlog_times)
  qed
  have t: "unat (softfloat_countLeadingZeros8 ! unat (drop_bit 24 a2)) = 32 - floorlog 2 (unat a2)"
    by (rule clz_top_byte [OF a2])
  have "unat (c2 + softfloat_countLeadingZeros8 ! unat (drop_bit 24 a2)) =
      unat c + (32 - floorlog 2 (unat a))"
    using c2l t c1 c2 by (subst unat_count_add) auto
  then show ?thesis by (auto simp: Let_def a1_def a2_def c1_def c2_def split: if_splits)
qed

lemma unat_clz32: "unat (softfloat_countLeadingZeros32 a) = 32 - floorlog 2 (unat a)"
proof (cases "a = 0")
  case True
  then show ?thesis by (simp add: softfloat_countLeadingZeros32_def clz8 floorlog_def)
    (simp add: softfloat_countLeadingZeros8_def)
next
  case False
  then show ?thesis
    using clz_tail [of a 0, unfolded Let_def]
    by (simp only: softfloat_countLeadingZeros32_def Let_def add_0 unsigned_0) simp
qed

lemma unat_clz64: "unat (softfloat_countLeadingZeros64 a) = 64 - floorlog 2 (unat a)"
proof (cases "ucast (drop_bit 32 a) = (0 :: u32)")
  case True
  have "unat (ucast (drop_bit 32 a) :: u32) = unat a div 2 ^ 32"
    by (subst unat_ucast_less; simp only: unat_drop_bit; rule less_mult_imp_div_less)
       (use unat_lt_64 [of a] in simp)
  with True have lt: "unat a < 2 ^ 32" by (simp add: div_eq_0_iff)
  then have u: "unat (ucast a :: u32) = unat a" by (subst unat_ucast_less) simp_all
  have fl: "floorlog 2 (unat a) \<le> 32" using lt by (rule floorlog_le_width)
  show ?thesis
  proof (cases "ucast a = (0 :: u32)")
    case True
    then have "unat a = 0" using u by simp
    then have "a = 0" by (simp add: unat_eq_0)
    then show ?thesis by (simp add: softfloat_countLeadingZeros64_def floorlog_def)
      (simp add: softfloat_countLeadingZeros8_def)
  next
    case False
    then show ?thesis
      using clz_tail [OF False, of 32, unfolded Let_def] True u fl
      by (simp only: softfloat_countLeadingZeros64_def Let_def if_True prod.case) simp
  qed
next
  case False
  have u: "unat (ucast (drop_bit 32 a) :: u32) = unat a div 2 ^ 32"
    by (subst unat_ucast_less; simp only: unat_drop_bit; rule less_mult_imp_div_less)
       (use unat_lt_64 [of a] in simp)
  have "unat a div 2 ^ 32 \<noteq> 0"
    using False u by (metis unat_eq_0)
  then have ge: "2 ^ 32 \<le> unat a" by (metis div_less not_less)
  show ?thesis
    using clz_tail [OF False, of 0, unfolded Let_def] False u floorlog_div_power [OF ge]
    by (simp only: softfloat_countLeadingZeros64_def Let_def if_False prod.case add_0 unsigned_0)
qed

lemma unat_clz16: "unat (softfloat_countLeadingZeros16 a) = 16 - floorlog 2 (unat a)"
proof (cases "0x100 \<le> a")
  case True
  then have ge: "2 ^ 8 \<le> unat a" by (simp add: word_le_nat_alt)
  have "unat (drop_bit 8 a) < 256"
    by (simp only: unat_drop_bit) (rule less_mult_imp_div_less, use unat_lt_16 [of a] in simp)
  then show ?thesis
    using True floorlog_div_power [OF ge]
    by (simp add: softfloat_countLeadingZeros16_def clz8 unat_drop_bit)
next
  case False
  then have lt: "unat a < 256" by (simp add: word_le_nat_alt)
  then have "floorlog 2 (unat a) \<le> 8" by (intro floorlog_le_width) simp
  with lt False clz8 [OF lt] show ?thesis
    by (simp add: softfloat_countLeadingZeros16_def unat_count_add)
qed

end
