(* ===== verification/Sf_Pack.thy ===== *)
theory Sf_Pack
  imports Sf_Base
begin

text \<open>
  The arithmetic shared by all \<open>softfloat_roundPackTo...\<close> routines, stated once on natural
  numbers for any fraction width \<open>fb\<close>, number of guard bits \<open>g\<close> and exponent limit \<open>E\<close>,
  with the proof that it implements the rounding specification.  Each format's word-level
  routine is shown elsewhere to compute this function.
\<close>

section \<open>Rounding increments\<close>

definition round_inc :: "rmode \<Rightarrow> bool \<Rightarrow> nat \<Rightarrow> nat" where
  "round_inc m neg g =
     (if m = RNE \<or> m = RMM then 2 ^ (g - 1)
      else if m = (if neg then RDN else RUP) then 2 ^ g - 1 else 0)"

definition pack_sig :: "rmode \<Rightarrow> bool \<Rightarrow> nat \<Rightarrow> nat \<Rightarrow> nat" where
  "pack_sig m neg g n =
     (let q = (n + round_inc m neg g) div 2 ^ g
      in if m = ROD \<and> n mod 2 ^ g \<noteq> 0 then q OR 1
         else q - of_bool (m = RNE \<and> n mod 2 ^ g = 2 ^ (g - 1) \<and> odd q))"

lemma add_div_radix:
  assumes "r < (b :: nat)" and "k \<le> b"
  shows "(q * b + r + k) div b = q + of_bool (b \<le> r + k)"
proof (cases "b \<le> r + k")
  case True
  then have "q * b + r + k = (q + 1) * b + (r + k - b)" by simp
  moreover have "r + k - b < b" using assms True by linarith
  ultimately show ?thesis using True by (simp only: div_radix) simp
next
  case False
  then have "(q * b + (r + k)) div b = q" by (intro div_radix) simp
  with False show ?thesis by (simp add: add.assoc)
qed

lemma pack_sig_incr:
  assumes g: "0 < g" and m: "m \<noteq> RNO"
  shows "pack_sig m neg g n = n div 2 ^ g + of_bool (guard_incr m neg g n)"
proof -
  define q r where "q = n div 2 ^ g" and "r = n mod 2 ^ g"
  have n: "n = q * 2 ^ g + r" and r: "r < 2 ^ g"
    using div_mult_mod_eq [of n "2 ^ g"] by (simp_all add: q_def r_def)
  obtain h where h: "(2::nat) ^ g = 2 * h" "2 ^ (g - 1) = h" "0 < h"
    using g by (cases g) auto
  have r': "r < 2 * h" using r h(1) by simp
  have rd: "(n + k) div (2 * h) = q + of_bool (2 * h \<le> r + k)" if "k \<le> 2 * h" for k
    unfolding n h(1) by (rule add_div_radix [OF r' that])
  have d: "n div (2 * h) = q" "n mod (2 * h) = r" by (simp_all add: q_def r_def flip: h(1))
  note ps = pack_sig_def round_inc_def guard_incr_def h Let_def d
  show ?thesis
  proof (cases m)
    case RNE
    show ?thesis
      unfolding ps using RNE rd [of h] r' h(3)
      by (cases "r = h"; cases "h < r") auto
  next
    case RMM
    show ?thesis
      unfolding ps using RMM rd [of h] r' h(3)
      by (cases "r = h"; cases "h < r") auto
  next
    case ROD
    show ?thesis
      unfolding ps using ROD rd [of 0] r'
      by (cases "r = 0") (auto simp: or_Suc_0_eq)
  next
    case RDN
    show ?thesis
      unfolding ps using RDN rd [of "2 * h - 1"] rd [of 0] r' h(3)
      by (cases "r = 0"; cases neg) auto
  next
    case RUP
    show ?thesis
      unfolding ps using RUP rd [of "2 * h - 1"] rd [of 0] r' h(3)
      by (cases "r = 0"; cases neg) auto
  next
    case RTZ
    show ?thesis
      unfolding ps using RTZ rd [of 0] r' by auto
  qed (use m in simp)
qed

lemma pack_sig_exact:
  assumes "0 < g" "m \<noteq> RNO"
  shows "pack_sig m neg g (q * 2 ^ g) = q"
  unfolding pack_sig_incr [OF assms] using assms(1) by (cases m) (simp_all add: guard_incr_def)

section \<open>The packed code\<close>

definition pack_code :: "nat \<Rightarrow> nat \<Rightarrow> nat \<Rightarrow> rmode \<Rightarrow> bool \<Rightarrow> int \<Rightarrow> nat \<Rightarrow> nat" where
  "pack_code fb g E m neg e n =
     (if e < 0 then pack_sig m neg g (jam_shift n (nat (- e)))
      else if int E < e \<or> e = int E \<and> 2 ^ (fb + 1 + g) \<le> n + round_inc m neg g
      then (E + 2) * 2 ^ fb - of_bool (round_inc m neg g = 0)
      else nat e * 2 ^ fb + pack_sig m neg g n)"

abbreviation max_code :: "nat \<Rightarrow> nat \<Rightarrow> nat" where
  "max_code fb E \<equiv> (E + 2) * 2 ^ fb - 1"

lemma jam_shift_le: "jam_shift n d \<le> max n 1"
proof -
  have "n div 2 ^ d \<le> n" by simp
  show ?thesis
  proof (cases "n mod 2 ^ d = 0")
    case False
    then have "d \<noteq> 0" "n \<noteq> 0" by (metis mod_by_1 power_0, metis mod_0)
    then have "n div 2 ^ d < n" by (intro div_less_dividend one_less_power) auto
    then show ?thesis by (simp add: jam_shift_def or_of_bool)
  qed (simp add: jam_shift_def le_max_iff_disj)
qed

lemma jam_shift_less: "n < b \<Longrightarrow> 1 < b \<Longrightarrow> jam_shift n d < b"
  using jam_shift_le [of n d] by (auto simp: le_max_iff_disj)

lemma or_bit_less: "n < 2 ^ k \<Longrightarrow> 0 < k \<Longrightarrow> n OR of_bool b < (2 ^ k :: nat)"
proof -
  assume n: "n < 2 ^ k" and "0 < k"
  then have "even ((2::nat) ^ k)" by simp
  then have "n + 1 < 2 ^ k" if "even n" using n that by (metis Suc_eq_plus1 Suc_lessI even_Suc)
  with n show ?thesis by (auto simp: or_of_bool)
qed

lemma jam_shift_less_quarter:
  assumes "n < 2 ^ (k + 2)" "2 \<le> d" "0 < k"
  shows "jam_shift n d < 2 ^ k"
proof -
  have "(2::nat) ^ 2 \<le> 2 ^ d" by (rule power_increasing) (use assms(2) in simp_all)
  then have "n div 2 ^ d \<le> n div 2 ^ 2" by (rule div_le_mono2 [rotated]) simp
  also have "\<dots> < 2 ^ k"
    using assms(1) by (intro less_mult_imp_div_less) (simp add: power_add)
  finally show ?thesis unfolding jam_shift_def by (rule or_bit_less [OF _ assms(3)])
qed

theorem pack_code_round:
  fixes s :: "'a::floor_ceiling"
  assumes g: "1 < g" and fb: "0 < fb" and m: "m \<noteq> RNO"
    and ag: "agrees (2 ^ (g - 1)) s n" and hi: "n < 2 ^ (fb + 1 + g)"
    and lo: "e \<le> 0 \<or> 2 ^ (fb + g) \<le> n"
  shows "pack_code fb g E m neg e n =
    round_code fb (max_code fb E) m neg (s * 2 powi e / 2 ^ g)"
proof -
  have g0: "0 < g" using g by simp
  have q2: "k div 2 ^ g < 2 * 2 ^ fb" if "k < 2 ^ (fb + 1 + g)" for k :: nat
    using that by (simp add: div_less_iff_less_mult power_add ac_simps)
  show ?thesis
  proof (cases "e < 0")
    case True
    define d where "d = nat (- e)"
    have ev: "even ((2::nat) ^ (g - 1))" using g by simp
    have n': "jam_shift n d < 2 ^ (fb + 1 + g)"
      using hi g by (intro jam_shift_less one_less_power) auto
    have "0 * 2 ^ fb + jam_shift n d div 2 ^ g \<le> max_code fb E"
      using q2 [OF n'] by (simp add: algebra_simps)
    then have "round_code fb (max_code fb E) m neg (s / 2 ^ d * 2 ^ 0 / 2 ^ g) =
        0 * 2 ^ fb + jam_shift n d div 2 ^ g + of_bool (guard_incr m neg g (jam_shift n d))"
      by (intro round_code_guard [OF g0 fb agrees_jam_shift [OF ag ev] n']) auto
    moreover have "s * 2 powi e / 2 ^ g = s / 2 ^ d * 2 ^ 0 / 2 ^ g"
      using True by (simp add: d_def power_int_def field_simps)
    ultimately show ?thesis
      using True pack_sig_incr [OF g0 m] by (simp add: pack_code_def d_def)
  next
    case False
    define k where "k = nat e"
    have e: "e = int k" using False by (simp add: k_def)
    have pw: "s * 2 powi e / 2 ^ g = s * 2 ^ k / 2 ^ g" by (simp add: e)
    have lo': "k = 0 \<or> 2 ^ (fb + g) \<le> n" using lo by (simp add: e)
    show ?thesis
    proof (cases "E < k")
      case True
      then have nl: "2 ^ (fb + g) \<le> n" using lo' by auto
      have "(2::nat) ^ (g - 1) dvd 2 ^ (fb + g)" by (rule le_imp_power_dvd) simp
      then have sl: "(2::'a) ^ (fb + g) \<le> s"
        using agreesD(3) [OF ag, of "2 ^ (fb + g)"] nl by simp
      have iv: "ival fb (Suc (max_code fb E)) = 2 ^ fb * 2 ^ (E + 1)"
        using ival_pack [of fb "2 ^ fb" "E + 1"] by (simp add: algebra_simps)
      have "(2::'a) ^ fb * 2 ^ (E + 1) \<le> 2 ^ fb * 2 ^ k"
        using True by (intro mult_left_mono power_increasing) auto
      also have "\<dots> = 2 ^ (fb + g) * 2 ^ k / 2 ^ g" by (simp add: power_add)
      also have "\<dots> \<le> s * 2 ^ k / 2 ^ g"
        using sl by (intro divide_right_mono mult_right_mono) auto
      finally have "of_nat (ival fb (Suc (max_code fb E))) \<le> s * 2 ^ k / 2 ^ g"
        unfolding iv by simp
      then have "round_code fb (max_code fb E) m neg (s * 2 ^ k / 2 ^ g) =
          max_code fb E + of_bool (round_incr m neg (odd (max_code fb E)) True True False)"
        by (rule round_code_overflow)
      moreover have "odd (max_code fb E)" using fb by simp
      moreover have "\<not> 2 ^ g \<le> Suc 0"
        using g one_less_power [of "2::nat" g] by (simp add: not_le)
      moreover have "0 < max_code fb E"
        using fb one_less_power [of "2::nat" fb] by (simp add: add_strict_increasing)
      ultimately show ?thesis
        using True m by (cases m) (auto simp: pack_code_def pw e round_inc_def)
    next
      case Ek: False
      have "k * 2 ^ fb \<le> E * 2 ^ fb" using Ek by simp
      then have c: "k * 2 ^ fb + n div 2 ^ g \<le> max_code fb E"
        unfolding distrib_right using q2 [OF hi] by linarith
      have rc: "round_code fb (max_code fb E) m neg (s * 2 ^ k / 2 ^ g) =
          k * 2 ^ fb + pack_sig m neg g n"
        unfolding pack_sig_incr [OF g0 m]
        using round_code_guard [OF g0 fb ag hi lo' c] by (simp add: add.assoc)
      show ?thesis
      proof (cases "k = E \<and> 2 ^ (fb + 1 + g) \<le> n + round_inc m neg g")
        case True
        have inc: "round_inc m neg g < 2 ^ g" "round_inc m neg g \<noteq> 0"
          using True hi g by (auto simp: round_inc_def)
        have "n + round_inc m neg g = 2 ^ (fb + 1) * 2 ^ g + (n + round_inc m neg g - 2 ^ (fb + 1 + g))"
          using True by (simp add: power_add)
        moreover have "n + round_inc m neg g - 2 ^ (fb + 1 + g) < 2 ^ g"
          using hi inc(1) by linarith
        ultimately have "(n + round_inc m neg g) div 2 ^ g = 2 ^ (fb + 1)"
          by (metis div_radix)
        then have "pack_sig m neg g n = 2 ^ (fb + 1)"
          using inc(2) by (auto simp: pack_sig_def round_inc_def split: if_splits)
        with rc True inc show ?thesis
          by (simp add: pack_code_def pw e algebra_simps)
      next
        case False
        with rc Ek show ?thesis by (auto simp: pack_code_def pw e)
      qed
    qed
  qed
qed

lemma pack_sig_le:
  assumes "0 < g" "m \<noteq> RNO" "n < 2 ^ k * 2 ^ g"
  shows "pack_sig m neg g n \<le> 2 ^ k"
proof -
  have "n div 2 ^ g < 2 ^ k" using assms(3) by (simp add: div_less_iff_less_mult)
  then show ?thesis using pack_sig_incr [OF assms(1,2), of neg n] by (simp add: of_bool_def)
qed

section \<open>The flags of a packing routine\<close>

definition pack_flags :: "nat \<Rightarrow> nat \<Rightarrow> nat \<Rightarrow> rmode \<Rightarrow> bool \<Rightarrow> bool \<Rightarrow> int \<Rightarrow> nat \<Rightarrow> u8" where
  "pack_flags fb g E m neg before e n =
     (if e < 0
      then if jam_shift n (nat (- e)) mod 2 ^ g = 0 then 0
           else if before \<or> e < -1 \<or> n + round_inc m neg g < 2 ^ (fb + 1 + g)
           then softfloat_flag_underflow OR softfloat_flag_inexact else softfloat_flag_inexact
      else if int E < e \<or> e = int E \<and> 2 ^ (fb + 1 + g) \<le> n + round_inc m neg g
      then softfloat_flag_overflow OR softfloat_flag_inexact
      else if n mod 2 ^ g = 0 then 0 else softfloat_flag_inexact)"

end
