(* ===== verification/Sf_Packer.thy ===== *)
theory Sf_Packer
  imports Sf_Pack
begin

text \<open>
  The interfaces of the \<open>softfloat_roundPackTo...\<close> routines.  \<open>round_packer\<close> is what the
  arithmetic operations rely on: the encoding and the flags are those of the shared packing
  functions.  \<open>word_packer\<close> is the common shape of the C bodies, from which the first
  contract is proved once for all formats.
\<close>

section \<open>What a packing routine promises\<close>

definition sf_before :: "sf_state \<Rightarrow> bool" where
  "sf_before st \<longleftrightarrow> softfloat_detectTininess st = softfloat_tininess_beforeRounding"

locale round_packer =
  fixes F :: fmt and fb g E :: nat and elo ehi :: int
    and rp :: "bool \<Rightarrow> int \<Rightarrow> u64 \<Rightarrow> sf_state \<Rightarrow> 'a::len word \<times> sf_state"
  assumes g: "2 < g" and fb: "0 < fb"
    and F: "fbits F = fb" "maxfin F = max_code fb E"
    and size: "(E + 3) * 2 ^ fb = 2 ^ (LENGTH('a) - 1)"
    and rp: "\<lbrakk>unat sig < 2 ^ (fb + 1 + g); e \<le> 0 \<or> 2 ^ (fb + g) \<le> unat sig; elo < e; e < ehi\<rbrakk> \<Longrightarrow>
      rp sign e sig st =
        (fpack sign (pack_code fb g E (sf_mode (softfloat_roundingMode st)) sign e (unat sig)),
         softfloat_raiseFlags (pack_flags fb g E (sf_mode (softfloat_roundingMode st)) sign
           (sf_before st) e (unat sig)) st)"
begin

text \<open>
  The result is the correctly rounded value of any number whose significand agrees with
  \<open>sig\<close>.
\<close>

lemma rp_fround:
  assumes ag: "agrees (2 ^ (g - 1)) s (unat sig)" and n: "unat sig < 2 ^ (fb + 1 + g)"
    "e \<le> 0 \<or> 2 ^ (fb + g) \<le> unat sig" "elo < e" "e < ehi"
    and x: "\<bar>x\<bar> * 2 ^ ulp0 F = s * 2 powi e / 2 ^ g"
  shows "fst (rp sign e sig st) = fround F (sf_mode (softfloat_roundingMode st)) sign x"
proof -
  have g1: "1 < g" using g by simp
  show ?thesis
    unfolding rp [OF n] fround_def F x
    using pack_code_round [OF g1 fb sf_mode_not_RNO ag n(1,2)] by simp
qed

lemma rp_mode: 
  assumes "unat sig < 2 ^ (fb + 1 + g)" "e \<le> 0 \<or> 2 ^ (fb + g) \<le> unat sig" "elo < e" "e < ehi"
  shows "softfloat_roundingMode (snd (rp sign e sig st)) = softfloat_roundingMode st"
  using rp [OF assms] by simp

text \<open>The form the arithmetic uses: a significand that may be one bit short.\<close>

lemma rp_short:
  assumes ag: "agrees 2 s (unat sig)" and n: "2 ^ (fb + g - 1) \<le> unat sig" "unat sig < 2 ^ (fb + 1 + g)"
    and e: "elo < e - 1" "e < ehi"
    and x: "\<bar>x\<bar> * 2 ^ ulp0 F = s * 2 powi e / 2 ^ g"
    and bnd: "bnd = 2 ^ (fb + g)" and wid: "fb + g < 63"
  shows "fst (let (e, sig) = (if sig < bnd then (e - 1, push_bit 1 sig) else (e, sig)) in rp sign e sig st) =
    fround F (sf_mode (softfloat_roundingMode st)) sign x"
proof -
  have "(2::nat) ^ (fb + g) < 2 ^ 63" using wid by (intro power_strict_increasing) auto
  then have "unat (push_bit (fb + g) 1 :: u64) = 2 ^ (fb + g)" by (intro unat_push_1) (use wid in simp)
  then have ul: "unat bnd = 2 ^ (fb + g)" by (simp add: bnd push_bit_eq_mult)
  have d2: "2 dvd (2::nat) ^ (g - 1)" "2 * 2 dvd (2::nat) ^ (g - 1)"
    using g le_imp_power_dvd [of 1 "g - 1" "2::nat"] le_imp_power_dvd [of 2 "g - 1" "2::nat"] by simp_all
  show ?thesis
  proof (cases "sig < bnd")
    case True
    then have lt: "unat sig < 2 ^ (fb + g)" by (simp only: word_less_nat_alt ul)
    have u: "unat (push_bit 1 sig) = 2 * unat sig"
      using lt \<open>2 ^ (fb + g) < 2 ^ 63\<close> by (subst unat_push_bit_less) auto
    have "(2::nat) ^ (fb + g) = 2 * 2 ^ (fb + g - 1)" using fb by (cases "fb + g") auto
    with n(1) have ge: "2 ^ (fb + g) \<le> unat (push_bit 1 sig)" unfolding u by linarith
    have pe: "2 * s * 2 powi (e - 1) = s * 2 powi e" by (simp add: power_int_diff)
    have "fst (rp sign (e - 1) (push_bit 1 sig) st) = fround F (sf_mode (softfloat_roundingMode st)) sign x"
    proof (rule rp_fround)
      show "agrees (2 ^ (g - 1)) (2 * s) (unat (push_bit 1 sig))"
        unfolding u by (rule agrees_weaken [OF agrees_double [OF ag] d2(2)])
      show "unat (push_bit 1 sig) < 2 ^ (fb + 1 + g)" unfolding u using lt by simp
      show "\<bar>x\<bar> * 2 ^ ulp0 F = 2 * s * 2 powi (e - 1) / 2 ^ g" unfolding pe by (rule x)
    qed (use ge e in auto)
    with True show ?thesis by simp
  next
    case False
    then have ge: "2 ^ (fb + g) \<le> unat sig" by (simp only: word_less_nat_alt ul not_less)
    have "fst (rp sign e sig st) = fround F (sf_mode (softfloat_roundingMode st)) sign x"
      by (rule rp_fround [OF agrees_weaken [OF ag d2(1)] n(2) _ _ e(2) x]) (use ge e in auto)
    with False show ?thesis by simp
  qed
qed

end

text \<open>A packing routine with one that normalises first.\<close>

locale norm_packer = round_packer F fb g E elo ehi rp
  for F :: fmt and fb g E :: nat and elo ehi :: int
    and rp :: "bool \<Rightarrow> int \<Rightarrow> u64 \<Rightarrow> sf_state \<Rightarrow> 'a::len word \<times> sf_state" +
  fixes nrp :: "bool \<Rightarrow> int \<Rightarrow> u64 \<Rightarrow> sf_state \<Rightarrow> 'a::len word \<times> sf_state"
  assumes nrp: "\<lbrakk>0 < unat sig; unat sig < 2 ^ (fb + 1 + g); elo + 64 < e; e < ehi;
       k = fb + 1 + g - floorlog 2 (unat sig)\<rbrakk> \<Longrightarrow>
      nrp sign e sig st =
        (fpack sign (pack_code fb g E (sf_mode (softfloat_roundingMode st)) sign (e - int k) (unat sig * 2 ^ k)),
         softfloat_raiseFlags (pack_flags fb g E (sf_mode (softfloat_roundingMode st)) sign
           (sf_before st) (e - int k) (unat sig * 2 ^ k)) st)"
begin

lemma nrp_fround:
  assumes ag: "agrees 2 s (unat sig)" and ex: "s = of_nat (unat sig) \<or> 2 ^ (fb + g - 1) \<le> unat sig"
    and n: "0 < unat sig" "unat sig < 2 ^ (fb + 1 + g)" and e: "elo + 64 < e" "e < ehi"
    and x: "\<bar>x\<bar> * 2 ^ ulp0 F = s * 2 powi e / 2 ^ g"
  shows "fst (nrp sign e sig st) = fround F (sf_mode (softfloat_roundingMode st)) sign x"
proof -
  define n' where "n' = unat sig"
  define k where "k = fb + 1 + g - floorlog 2 n'"
  have g1: "1 < g" using g by simp
  have nb: "2 ^ (fb + g) \<le> n' * 2 ^ k" "n' * 2 ^ k < 2 ^ (fb + 1 + g)"
    using normalize_bounds [of n' "fb + 1 + g"] n by (simp_all add: n'_def k_def)
  have ag': "agrees (2 ^ (g - 1)) (s * 2 ^ k) (n' * 2 ^ k)"
    using ex
  proof
    assume "s = of_nat (unat sig)"
    then have "s * 2 ^ k = of_nat (n' * 2 ^ k)" by (simp add: n'_def)
    then show ?thesis by (simp only: agrees_refl)
  next
    assume "2 ^ (fb + g - 1) \<le> unat sig"
    then have "fb + g - 1 + 1 \<le> floorlog 2 n'"
      using n(1) by (intro floorlog_geI) (simp_all add: n'_def)
    then have "k \<le> 1" using fb by (simp add: k_def)
    moreover have "2 dvd (2::nat) ^ (g - 1)" "2 * 2 dvd (2::nat) ^ (g - 1)"
      using g le_imp_power_dvd [of 1 "g - 1" "2::nat"] le_imp_power_dvd [of 2 "g - 1" "2::nat"] by simp_all
    ultimately consider "k = 0" | "k = 1" by linarith
    then show ?thesis
    proof cases
      case 1
      then show ?thesis using agrees_weaken [OF ag \<open>2 dvd 2 ^ (g - 1)\<close>] by (simp add: n'_def)
    next
      case 2
      then show ?thesis
        using agrees_weaken [OF agrees_double [OF ag] \<open>2 * 2 dvd 2 ^ (g - 1)\<close>]
        by (simp add: n'_def mult.commute)
    qed
  qed
  have pe: "s * 2 ^ k * 2 powi (e - int k) = s * 2 powi e" by (simp add: power_int_diff)
  show ?thesis
    unfolding nrp [OF n e k_def [unfolded n'_def]] fround_def F x n'_def [symmetric]
    using pack_code_round [OF g1 fb sf_mode_not_RNO ag' nb(2), of "e - int k" E "softfloat_roundingMode st" sign] nb(1)
    by (simp add: pe)
qed

end

section \<open>The common shape of the bodies\<close>

locale word_packer =
  fixes F :: fmt and fb g E :: nat and elo ehi :: int
    and incr :: "bool \<Rightarrow> u8 \<Rightarrow> u64"
    and packU :: "bool \<Rightarrow> int \<Rightarrow> u64 \<Rightarrow> u64"
    and shiftJam :: "u64 \<Rightarrow> int \<Rightarrow> u64"
    and ret rp :: "bool \<Rightarrow> int \<Rightarrow> u64 \<Rightarrow> sf_state \<Rightarrow> 'a::len word \<times> sf_state"
  assumes guard: "2 < g" and frac: "0 < fb"
    and fmt: "fbits F = fb" "maxfin F = max_code fb E" and width: "fb + 1 + g < 64"
    and codes: "(E + 3) * 2 ^ fb = 2 ^ (LENGTH('a) - 1)" and len: "LENGTH('a) \<le> 64"
    and incr: "unat (incr sign r) = round_inc (sf_mode r) sign g"
    and packU: "\<lbrakk>0 \<le> e; unat s \<le> 2 ^ (fb + 1); e \<le> int E \<or> e = int E + 2 \<and> s = 0\<rbrakk> \<Longrightarrow>
      unat (packU sign e s) = of_bool sign * 2 ^ (LENGTH('a) - 1) + (nat e * 2 ^ fb + unat s)"
    and shiftJam: "\<lbrakk>elo < e; e < 0; unat s < 2 ^ (fb + 1 + g)\<rbrakk> \<Longrightarrow>
      unat (shiftJam s (- e)) = jam_shift (unat s) (nat (- e))"
    and ret: "ret sign e sig st =
      (let r = softfloat_roundingMode st; s = drop_bit g (sig + incr sign r); rb = sig AND mask g;
           st = (if rb \<noteq> 0 then softfloat_raiseFlags softfloat_flag_inexact st else st)
       in if rb \<noteq> 0 \<and> r = softfloat_round_odd then (ucast (packU sign e (s OR 1)), st)
          else let s = s AND NOT (of_bool (rb = push_bit (g - 1) 1 \<and> r = softfloat_round_near_even))
               in (ucast (packU sign (if s = 0 then 0 else e) s), st))"
    and neg: "\<lbrakk>elo < e; e < 0\<rbrakk> \<Longrightarrow> rp sign e sig st =
      ret sign 0 (shiftJam sig (- e))
        (if (softfloat_detectTininess st = softfloat_tininess_beforeRounding \<or> e < -1 \<or>
             sig + incr sign (softfloat_roundingMode st) < push_bit (fb + 1 + g) 1) \<and>
            shiftJam sig (- e) AND mask g \<noteq> 0
         then softfloat_raiseFlags softfloat_flag_underflow st else st)"
    and over: "\<lbrakk>0 \<le> e; e < ehi\<rbrakk> \<Longrightarrow> rp sign e sig st =
      (if int E < e \<or> e = int E \<and> push_bit (fb + 1 + g) 1 \<le> sig + incr sign (softfloat_roundingMode st)
       then (ucast (packU sign (int E + 2) 0 - of_bool (incr sign (softfloat_roundingMode st) = 0)),
             softfloat_raiseFlags (softfloat_flag_overflow OR softfloat_flag_inexact) st)
       else ret sign e sig st)"
begin

lemma width_bounds: "(2::nat) ^ (fb + 1 + g) + 2 ^ g < 2 ^ 64" "(2::nat) ^ (fb + 1 + g) < 2 ^ 64"
proof -
  have a: "(2::nat) ^ (fb + 1 + g) \<le> 2 ^ 63" using width by (intro power_increasing) auto
  have b: "(2::nat) ^ g \<le> 2 ^ 61" using width frac by (intro power_increasing) auto
  show "(2::nat) ^ (fb + 1 + g) + 2 ^ g < 2 ^ 64" using add_mono [OF a b] by simp
  show "(2::nat) ^ (fb + 1 + g) < 2 ^ 64" using a by simp
qed

lemma inc_less: "round_inc m sign g < 2 ^ g"
  using guard by (auto simp: round_inc_def)

lemma unat_sum:
  assumes "unat sig < 2 ^ (fb + 1 + g)"
  shows "unat (sig + incr sign r) = unat sig + round_inc (sf_mode r) sign g"
  using assms width_bounds(1) inc_less [of "sf_mode r" sign]
  by (subst unat_add_less) (simp_all add: incr)

lemma unat_limit: "unat (push_bit (fb + 1 + g) 1 :: u64) = 2 ^ (fb + 1 + g)"
  using width by (intro unat_push_1) simp

lemma ret_value:
  assumes n: "unat sig < 2 ^ (fb + 1 + g)" and e: "0 \<le> e" "e \<le> int E"
    and nz: "0 < e \<longrightarrow> 2 ^ (fb + g) \<le> unat sig"
  shows "ret sign e sig st =
    (fpack sign (nat e * 2 ^ fb + pack_sig (sf_mode (softfloat_roundingMode st)) sign g (unat sig)),
     softfloat_raiseFlags (if unat sig mod 2 ^ g = 0 then 0 else softfloat_flag_inexact) st)"
proof -
  define r where "r = softfloat_roundingMode st"
  define m where "m = sf_mode r"
  define q where "q = drop_bit g (sig + incr sign r)"
  define rb where "rb = sig AND mask g"
  have g0: "0 < g" and m: "m \<noteq> RNO" using guard by (simp_all add: m_def)
  have uq: "unat q = (unat sig + round_inc m sign g) div 2 ^ g"
    by (simp only: q_def unat_drop_bit unat_sum [OF n] m_def)
  have urb: "unat rb = unat sig mod 2 ^ g" by (simp only: rb_def unat_and_mask)
  have le: "pack_sig m sign g (unat sig) \<le> 2 ^ (fb + 1)"
    by (rule pack_sig_le [OF g0 m]) (use n in \<open>simp add: power_add\<close>)
  have rb0: "rb \<noteq> 0 \<longleftrightarrow> unat sig mod 2 ^ g \<noteq> 0" by (metis urb unat_eq_0)
  have "unat (push_bit (g - 1) 1 :: u64) = 2 ^ (g - 1)"
    using width by (intro unat_push_1) simp
  then have rbh: "rb = push_bit (g - 1) 1 \<longleftrightarrow> unat sig mod 2 ^ g = 2 ^ (g - 1)"
    by (simp only: word_unat_eq_iff urb)
  have pk: "(ucast (packU sign e' s) :: 'a word) = fpack sign (nat e' * 2 ^ fb + unat s)"
    if "0 \<le> e'" "e' \<le> int E" "unat s \<le> 2 ^ (fb + 1)" for e' s
  proof (rule word_eq_fpackI)
    have "nat e' * 2 ^ fb \<le> E * 2 ^ fb" using that by (intro mult_right_mono) auto
    moreover have "E * 2 ^ fb + 2 ^ (fb + 1) < (E + 3) * 2 ^ fb" by (simp add: algebra_simps)
    ultimately have b: "nat e' * 2 ^ fb + unat s < 2 ^ (LENGTH('a) - 1)"
      using that(3) codes by linarith
    have u: "unat (packU sign e' s) = of_bool sign * 2 ^ (LENGTH('a) - 1) + (nat e' * 2 ^ fb + unat s)"
      using that by (intro packU) auto
    have "unat (packU sign e' s) < 2 ^ LENGTH('a)"
      unfolding u word_len_double using b by (cases sign) auto
    then show "unat (ucast (packU sign e' s) :: 'a word) =
        of_bool sign * 2 ^ (LENGTH('a) - 1) + (nat e' * 2 ^ fb + unat s)"
      using u by (simp only: unat_ucast_less)
  qed
  have fl: "(if rb \<noteq> 0 then softfloat_raiseFlags softfloat_flag_inexact st else st) =
      softfloat_raiseFlags (if unat sig mod 2 ^ g = 0 then 0 else softfloat_flag_inexact) st"
    by (simp add: rb0 softfloat_raiseFlags_def)
  show ?thesis
  proof (cases "rb \<noteq> 0 \<and> r = softfloat_round_odd")
    case True
    then have "pack_sig m sign g (unat sig) = unat (q OR 1)"
      using unat_or_bit [of q True] by (simp add: pack_sig_def m_def sf_mode_iff rb0 uq)
    then show ?thesis
      unfolding ret Let_def r_def [symmetric] q_def [symmetric] rb_def [symmetric] if_P [OF True] fl
      using pk [OF e, of "q OR 1"] le by (simp add: m_def)
  next
    case False
    define s' where "s' = q AND NOT (of_bool (rb = push_bit (g - 1) 1 \<and> r = softfloat_round_near_even))"
    have no: "\<not> (m = ROD \<and> unat sig mod 2 ^ g \<noteq> 0)"
      using False by (auto simp only: rb0 m_def sf_mode_iff)
    have us: "unat s' = pack_sig m sign g (unat sig)"
      unfolding s'_def unat_andnot_bit rbh pack_sig_def Let_def if_not_P [OF no] uq
      by (simp only: m_def sf_mode_iff conj_ac)
    have ez: "nat e = 0" if "s' = 0"
    proof (rule ccontr)
      assume "nat e \<noteq> 0"
      then have "2 ^ fb * 2 ^ g \<le> unat sig" using nz by (simp add: power_add)
      then have "2 ^ fb \<le> unat sig div 2 ^ g" by (simp add: less_eq_div_iff_mult_less_eq)
      moreover have "unat sig div 2 ^ g = 0"
        using that us pack_sig_incr [OF g0 m, of sign "unat sig"] by simp
      ultimately show False by simp
    qed
    have "(ucast (packU sign (if s' = 0 then 0 else e) s') :: 'a word) =
        fpack sign (nat e * 2 ^ fb + pack_sig m sign g (unat sig))"
      using pk [of "if s' = 0 then 0 else e" s'] le us e ez by (auto split: if_splits)
    then show ?thesis
      unfolding ret Let_def r_def [symmetric] q_def [symmetric] rb_def [symmetric] if_not_P [OF False] fl
        s'_def [symmetric]
      by (simp only: m_def)
  qed
qed

lemma rp_law:
  assumes n: "unat sig < 2 ^ (fb + 1 + g)" and nz: "e \<le> 0 \<or> 2 ^ (fb + g) \<le> unat sig"
    and e: "elo < e" "e < ehi"
  shows "rp sign e sig st =
    (fpack sign (pack_code fb g E (sf_mode (softfloat_roundingMode st)) sign e (unat sig)),
     softfloat_raiseFlags (pack_flags fb g E (sf_mode (softfloat_roundingMode st)) sign
       (sf_before st) e (unat sig)) st)"
proof (cases "e < 0")
  case True
  define s' where "s' = shiftJam sig (- e)"
  have us: "unat s' = jam_shift (unat sig) (nat (- e))"
    unfolding s'_def by (rule shiftJam [OF e(1) True n])
  have "1 < (2::nat) ^ (fb + 1 + g)" by (rule one_less_power) auto
  then have lt: "unat s' < 2 ^ (fb + 1 + g)" unfolding us by (rule jam_shift_less [OF n])
  have rb: "s' AND mask g = 0 \<longleftrightarrow> jam_shift (unat sig) (nat (- e)) mod 2 ^ g = 0"
    by (metis unat_and_mask unat_eq_0 us)
  have sm: "sig + incr sign (softfloat_roundingMode st) < push_bit (fb + 1 + g) 1 \<longleftrightarrow>
      unat sig + round_inc (sf_mode (softfloat_roundingMode st)) sign g < 2 ^ (fb + 1 + g)"
    by (simp only: word_less_nat_alt unat_sum [OF n] unat_limit)
  show ?thesis
    unfolding neg [OF e(1) True] s'_def [symmetric] sm
    by (subst ret_value [OF lt])
       (use True in \<open>auto simp: us rb pack_code_def pack_flags_def sf_before_def
         softfloat_raiseFlags_def or.assoc\<close>)
next
  case False
  then have e0: "0 \<le> e" by simp
  have sm: "push_bit (fb + 1 + g) 1 \<le> sig + incr sign (softfloat_roundingMode st) \<longleftrightarrow>
      2 ^ (fb + 1 + g) \<le> unat sig + round_inc (sf_mode (softfloat_roundingMode st)) sign g"
    by (simp only: word_le_nat_alt unat_sum [OF n] unat_limit)
  show ?thesis
  proof (cases "int E < e \<or> e = int E \<and>
      2 ^ (fb + 1 + g) \<le> unat sig + round_inc (sf_mode (softfloat_roundingMode st)) sign g")
    case True
    define z where "z \<longleftrightarrow> incr sign (softfloat_roundingMode st) = 0"
    have z: "z \<longleftrightarrow> round_inc (sf_mode (softfloat_roundingMode st)) sign g = 0"
      by (metis z_def incr unat_eq_0)
    have u: "unat (packU sign (int E + 2) 0) = of_bool sign * 2 ^ (LENGTH('a) - 1) + (E + 2) * 2 ^ fb"
      using packU [of "int E + 2" 0 sign] by (simp add: nat_add_distrib)
    have pos: "0 < (E + 2) * 2 ^ fb" by simp
    have one: "unat (of_bool z :: u64) = of_bool z" by simp
    have "of_bool z \<le> packU sign (int E + 2) 0"
      unfolding word_le_nat_alt u one using pos by (cases z; simp only: of_bool_eq; linarith)
    then have "unat (packU sign (int E + 2) 0 - of_bool z) =
        of_bool sign * 2 ^ (LENGTH('a) - 1) + (E + 2) * 2 ^ fb - of_bool z"
      by (simp only: unat_sub u one)
    then have v: "unat (packU sign (int E + 2) 0 - of_bool z) =
        of_bool sign * 2 ^ (LENGTH('a) - 1) + ((E + 2) * 2 ^ fb - of_bool z)"
      using pos by (cases z; simp only: of_bool_eq; linarith)
    have b: "(E + 2) * 2 ^ fb - of_bool z < 2 ^ (LENGTH('a) - 1)"
      unfolding codes [symmetric]
      by (rule le_less_trans [OF diff_le_self], rule mult_strict_right_mono) simp_all
    have "unat (packU sign (int E + 2) 0 - of_bool z) < 2 ^ LENGTH('a)"
      unfolding v word_len_double using b by (cases sign) simp_all
    then have "(ucast (packU sign (int E + 2) 0 - of_bool z) :: 'a word) =
        fpack sign ((E + 2) * 2 ^ fb - of_bool z)"
      by (intro word_eq_fpackI) (simp only: unat_ucast_less v)
    then show ?thesis
      unfolding over [OF e0 e(2)] sm if_P [OF True] z_def [symmetric]
      using True False by (simp add: pack_code_def pack_flags_def z)
  next
    case no: False
    have "ret sign e sig st =
      (fpack sign (nat e * 2 ^ fb + pack_sig (sf_mode (softfloat_roundingMode st)) sign g (unat sig)),
       softfloat_raiseFlags (if unat sig mod 2 ^ g = 0 then 0 else softfloat_flag_inexact) st)"
      by (rule ret_value [OF n e0]) (use no nz in auto)
    then show ?thesis
      unfolding over [OF e0 e(2)] sm if_not_P [OF no]
      using False no by (auto simp: pack_code_def pack_flags_def)
  qed
qed

end

sublocale word_packer \<subseteq> round_packer F fb g E elo ehi rp
  by unfold_locales (use guard frac fmt codes rp_law in auto)

end
