(* ===== verification/Sf_F32.thy ===== *)
theory Sf_F32
  imports Sf_Packer
begin

text \<open>
  SoftFloat's binary32 arithmetic (\<open>internals.h\<close>, \<open>specialize.h\<close>, \<open>s_roundPackToF32.c\<close>,
  \<open>s_normRoundPackToF32.c\<close>, \<open>s_normSubnormalF32Sig.c\<close>, \<open>s_propagateNaNF32UI.c\<close>,
  \<open>s_addMagsF32.c\<close>, \<open>s_subMagsF32.c\<close>, \<open>f32_add.c\<close>, \<open>f32_sub.c\<close>, \<open>f32_mul.c\<close>,
  \<open>f32_div.c\<close>).  The C unions that reinterpret a \<open>float32_t\<close> are the identity on its bits;
  the internal \<open>uint_fast32_t\<close> copy of the bits is a 64-bit word.
\<close>

section \<open>Field macros\<close>

definition signF32UI :: "u64 \<Rightarrow> bool" where
  "signF32UI a = (drop_bit 31 (ucast a :: u32) \<noteq> 0)"

definition expF32UI :: "u64 \<Rightarrow> int" where
  "expF32UI a = uint (drop_bit 23 a AND 0xFF)"

definition fracF32UI :: "u64 \<Rightarrow> u64" where
  "fracF32UI a = a AND 0x7FFFFF"

definition packToF32UI :: "bool \<Rightarrow> int \<Rightarrow> u64 \<Rightarrow> u64" where
  "packToF32UI sign e sig =
     ucast (push_bit 31 (of_bool sign :: u32)) + ucast (push_bit 23 (word_of_int e :: u32)) + sig"

definition isNaNF32UI :: "u64 \<Rightarrow> bool" where
  "isNaNF32UI a = (NOT a AND 0x7F800000 = 0 \<and> a AND 0x7FFFFF \<noteq> 0)"

definition defaultNaNF32UI :: u64 where "defaultNaNF32UI = 0x7FC00000"

definition softfloat_isSigNaNF32UI :: "u64 \<Rightarrow> bool" where
  "softfloat_isSigNaNF32UI a = (a AND 0x7FC00000 = 0x7F800000 \<and> a AND 0x3FFFFF \<noteq> 0)"

record exp16_sig32 =
  es_exp :: int
  es_sig :: u64

section \<open>Rounding and packing\<close>

definition roundIncrementF32 :: "bool \<Rightarrow> u8 \<Rightarrow> u8" where
  "roundIncrementF32 sign roundingMode =
     (let roundNearEven = (roundingMode = softfloat_round_near_even)
      in if \<not> roundNearEven \<and> roundingMode \<noteq> softfloat_round_near_maxMag
         then (if roundingMode = (if sign then softfloat_round_min else softfloat_round_max)
               then 0x7F else 0)
         else 0x40)"

definition roundPackF32_return ::
  "bool \<Rightarrow> int \<Rightarrow> u64 \<Rightarrow> u8 \<Rightarrow> u8 \<Rightarrow> sf_state \<Rightarrow> u32 \<times> sf_state" where
  "roundPackF32_return sign e sig roundIncrement roundBits st =
     (let roundingMode = softfloat_roundingMode st;
          roundNearEven = (roundingMode = softfloat_round_near_even);
          sig = drop_bit 7 (sig + ucast roundIncrement);
          st = (if roundBits \<noteq> 0 then softfloat_raiseFlags softfloat_flag_inexact st else st)
      in if roundBits \<noteq> 0 \<and> roundingMode = softfloat_round_odd
         then (ucast (packToF32UI sign e (sig OR 1)), st)
         else let sig = sig AND NOT (of_bool (roundBits XOR 0x40 = 0 \<and> roundNearEven));
                  e = (if sig = 0 then 0 else e)
              in (ucast (packToF32UI sign e sig), st))"

definition softfloat_roundPackToF32 :: "bool \<Rightarrow> int \<Rightarrow> u64 \<Rightarrow> sf_state \<Rightarrow> u32 \<times> sf_state" where
  "softfloat_roundPackToF32 sign e sig st =
     (let roundIncrement = roundIncrementF32 sign (softfloat_roundingMode st);
          roundBits = ucast (sig AND 0x7F) :: u8
      in if 0xFD \<le> cast_uint32 e
         then if e < 0
              then let isTiny = (softfloat_detectTininess st = softfloat_tininess_beforeRounding
                           \<or> e < -1 \<or> sig + ucast roundIncrement < 0x80000000);
                       sig = ucast (softfloat_shiftRightJam32 (ucast sig) (word_of_int (- e)));
                       roundBits = ucast (sig AND 0x7F);
                       st = (if isTiny \<and> roundBits \<noteq> 0
                             then softfloat_raiseFlags softfloat_flag_underflow st else st)
                   in roundPackF32_return sign 0 sig roundIncrement roundBits st
              else if 0xFD < e \<or> 0x80000000 \<le> sig + ucast roundIncrement
              then (ucast (packToF32UI sign 0xFF 0 - of_bool (roundIncrement = 0)),
                    softfloat_raiseFlags (softfloat_flag_overflow OR softfloat_flag_inexact) st)
              else roundPackF32_return sign e sig roundIncrement roundBits st
         else roundPackF32_return sign e sig roundIncrement roundBits st)"

definition softfloat_normRoundPackToF32 :: "bool \<Rightarrow> int \<Rightarrow> u64 \<Rightarrow> sf_state \<Rightarrow> u32 \<times> sf_state" where
  "softfloat_normRoundPackToF32 sign e sig st =
     (let shiftDist = int (unat (softfloat_countLeadingZeros32 (ucast sig))) - 1;
          e = e - shiftDist
      in if 7 \<le> shiftDist \<and> cast_uint32 e < 0xFD
         then (ucast (packToF32UI sign (if sig \<noteq> 0 then e else 0)
                 (push_bit (nat (shiftDist - 7)) sig)), st)
         else softfloat_roundPackToF32 sign e (push_bit (nat shiftDist) sig) st)"

definition softfloat_normSubnormalF32Sig :: "u64 \<Rightarrow> exp16_sig32" where
  "softfloat_normSubnormalF32Sig sig =
     (let shiftDist = int (unat (softfloat_countLeadingZeros32 (ucast sig))) - 8
      in \<lparr>es_exp = 1 - shiftDist, es_sig = push_bit (nat shiftDist) sig\<rparr>)"

definition softfloat_propagateNaNF32UI :: "u64 \<Rightarrow> u64 \<Rightarrow> sf_state \<Rightarrow> u64 \<times> sf_state" where
  "softfloat_propagateNaNF32UI uiA uiB st =
     (defaultNaNF32UI,
      if softfloat_isSigNaNF32UI uiA \<or> softfloat_isSigNaNF32UI uiB
      then softfloat_raiseFlags softfloat_flag_invalid st else st)"

section \<open>Fields as numbers\<close>

lemma unat_pack32:
  assumes "0 \<le> e" "e < 512" "of_bool sign * 2 ^ 31 + nat e * 2 ^ 23 + unat sig < 2 ^ 32"
  shows "unat (packToF32UI sign e sig) = of_bool sign * 2 ^ 31 + nat e * 2 ^ 23 + unat sig"
    and "unat (ucast (packToF32UI sign e sig) :: u32) =
      of_bool sign * 2 ^ 31 + nat e * 2 ^ 23 + unat sig"
proof -
  have s: "unat (push_bit 31 (of_bool sign :: u32)) = of_bool sign * 2 ^ 31"
    by (cases sign) simp_all
  have ee: "unat (word_of_int e :: u32) = nat e"
    by (rule unat_word_of_int_nonneg) (use assms(1,2) in simp_all)
  have ne: "nat e < 512" using assms(1,2) by linarith
  have e: "unat (push_bit 23 (word_of_int e :: u32)) = nat e * 2 ^ 23"
    by (rule trans [OF unat_push_bit_less]) (use ne in \<open>simp_all only: ee, simp\<close>)
  have s': "unat (ucast (push_bit 31 (of_bool sign :: u32)) :: u64) = of_bool sign * 2 ^ 31"
    by (rule trans [OF unat_ucast_less]) (simp_all only: s, simp)
  have e': "unat (ucast (push_bit 23 (word_of_int e :: u32)) :: u64) = nat e * 2 ^ 23"
    by (rule trans [OF unat_ucast_less]) (use ne in \<open>simp_all only: e, simp\<close>)
  have "unat (ucast (push_bit 31 (of_bool sign :: u32)) + ucast (push_bit 23 (word_of_int e :: u32)) :: u64)
      = of_bool sign * 2 ^ 31 + nat e * 2 ^ 23"
    by (rule trans [OF unat_add_less]) (use ne in \<open>simp_all only: s' e', simp\<close>)
  then show 1: "unat (packToF32UI sign e sig) = of_bool sign * 2 ^ 31 + nat e * 2 ^ 23 + unat sig"
    unfolding packToF32UI_def using assms(3) by (subst unat_add_less) simp_all
  show "unat (ucast (packToF32UI sign e sig) :: u32) =
      of_bool sign * 2 ^ 31 + nat e * 2 ^ 23 + unat sig"
    by (rule trans [OF unat_ucast_less]) (use assms(3) in \<open>simp_all only: 1, simp\<close>)
qed

lemma unat_roundIncrementF32:
  "unat (roundIncrementF32 sign r) = round_inc (sf_mode r) sign 7"
  by (auto simp: roundIncrementF32_def round_inc_def sf_mode_def sf_modes)

lemma round_bits32:
  "(ucast (sig AND 0x7F) :: u8) = 0 \<longleftrightarrow> sig AND mask 7 = (0 :: u64)"
  "(ucast (sig AND 0x7F) :: u8) XOR 0x40 = 0 \<longleftrightarrow> sig AND mask 7 = (push_bit 6 1 :: u64)"
proof -
  have u: "unat (ucast (sig AND 0x7F) :: u8) = unat sig mod 2 ^ 7"
    by (subst unat_ucast_less; simp only: unat_ops) (simp add: mod_less_divisor [THEN less_trans])
  show "(ucast (sig AND 0x7F) :: u8) = 0 \<longleftrightarrow> sig AND mask 7 = 0"
    by (simp only: word_unat_eq_iff u unat_and_mask unsigned_0)
  show "(ucast (sig AND 0x7F) :: u8) XOR 0x40 = 0 \<longleftrightarrow> sig AND mask 7 = push_bit 6 1"
    unfolding xor_eq_0_iff by (simp only: word_unat_eq_iff u unat_and_mask) simp
qed

text \<open>The binary32 packing routine is an instance of the shared shape.\<close>

interpretation f32p: word_packer F32 23 7 "0xFD" "- (2 ^ 31)" "2 ^ 31"
  "\<lambda>sign r. ucast (roundIncrementF32 sign r)" packToF32UI
  "\<lambda>s d. ucast (softfloat_shiftRightJam32 (ucast s) (word_of_int d))"
  "\<lambda>sign e sig st. roundPackF32_return sign e sig
     (roundIncrementF32 sign (softfloat_roundingMode st)) (ucast (sig AND 0x7F)) st"
  softfloat_roundPackToF32
proof (unfold_locales, goal_cases)
  case (8 sign r)
  show ?case
    using unat_lt_8 [of "roundIncrementF32 sign r"]
    by (subst unat_ucast_less; simp only: unat_roundIncrementF32) simp
next
  case (9 e s sign)
  have "nat e * 2 ^ 23 + unat s < 2 ^ 31"
  proof (cases "e \<le> 0xFD")
    case True
    then have "nat e \<le> 253" by simp
    with 9(2) show ?thesis by simp
  qed (use 9(3) in simp)
  then show ?case using 9(1,3) by (subst unat_pack32(1)) auto
next
  case (10 e s)
  have d: "unat (word_of_int (- e) :: u64) = nat (- e)"
    by (rule unat_word_of_int_nonneg) (use 10 in simp_all)
  have us: "unat (ucast s :: u32) = unat s" by (rule unat_ucast_less) (use 10(3) in simp)
  have "unat (softfloat_shiftRightJam32 (ucast s) (word_of_int (- e))) = jam_shift (unat s) (nat (- e))"
    using 10(1,2) by (subst unat_shiftRightJam32) (simp_all only: d us)
  with jam_shift_less [OF 10(3), of "nat (- e)"] show ?case
    by (subst unat_ucast_less) simp_all
next
  case (11 sign e sig st)
  show ?case by (simp add: roundPackF32_return_def Let_def round_bits32)
next
  case (12 e sign sig st)
  then have cast: "0xFD \<le> cast_uint32 e" by (simp add: cast_uint32_neg)
  show ?case
    unfolding softfloat_roundPackToF32_def Let_def if_P [OF cast] if_P [OF 12(2)]
    by (simp add: round_bits32)
next
  case (13 e sign sig st)
  then have "cast_uint32 e = e" "\<not> e < 0" by (simp_all add: cast_uint32_id)
  then show ?case by (simp add: softfloat_roundPackToF32_def Let_def)
qed (simp_all add: F32_def)

lemma unat_clz32_u64:
  "unat sig < 2 ^ 32 \<Longrightarrow> unat (softfloat_countLeadingZeros32 (ucast (sig :: u64))) = 32 - floorlog 2 (unat sig)"
  by (simp add: unat_clz32 unat_ucast_less)

interpretation f32n: norm_packer F32 23 7 "0xFD" "- (2 ^ 31)" "2 ^ 31" softfloat_roundPackToF32
  softfloat_normRoundPackToF32
proof (unfold_locales, goal_cases)
  case (1 sig e k sign st)
  define n where "n = unat sig"
  have n: "0 < n" "n < 2 ^ 31" using 1 by (simp_all add: n_def)
  have k: "k = 31 - floorlog 2 n" using 1 by (simp add: n_def)
  have fl: "0 < floorlog 2 n" "floorlog 2 n \<le> 31"
    using n floorlog_le_width [of n 31] by (simp_all add: floorlog_def)
  have "unat (softfloat_countLeadingZeros32 (ucast sig)) = 32 - floorlog 2 n"
    unfolding n_def by (rule unat_clz32_u64) (use n n_def in simp)
  then have sd: "int (unat (softfloat_countLeadingZeros32 (ucast sig))) - 1 = int k"
    using fl k by simp
  have nb: "2 ^ 30 \<le> n * 2 ^ k" "n * 2 ^ k < 2 ^ 31"
    using normalize_bounds [OF n] by (simp_all add: k)
  have us: "unat (push_bit k sig) = n * 2 ^ k"
    unfolding n_def by (rule unat_push_bit_less) (use nb n_def in simp)
  have sig0: "sig \<noteq> 0" using n by (auto simp: n_def)
  have kl: "k \<le> 30" using fl k by simp
  show ?case
  proof (cases "7 \<le> int k \<and> cast_uint32 (e - int k) < 0xFD")
    case True
    have ek: "0 \<le> e - int k" "e - int k < 0xFD"
    proof -
      show "0 \<le> e - int k"
        using True 1(3) kl cast_uint32_neg [of "e - int k"] by (cases "e - int k < 0") auto
      then show "e - int k < 0xFD" using True 1(4) cast_uint32_id [of "e - int k"] by simp
    qed
    have "k = (k - 7) + 7" using True by simp
    then have "(2::nat) ^ k = 2 ^ (k - 7) * 2 ^ 7" by (metis power_add)
    then have n7: "n * 2 ^ k = n * 2 ^ (k - 7) * 2 ^ 7" by (simp only: mult.assoc)
    have q: "n * 2 ^ (k - 7) < 2 ^ 24" using nb(2) unfolding n7 by simp
    have us: "unat (push_bit (k - 7) sig) = n * 2 ^ (k - 7)"
      unfolding n_def by (rule unat_push_bit_less) (use q n_def in simp)
    have "nat (e - int k) \<le> 252" using ek by linarith
    then have "unat (ucast (packToF32UI sign (e - int k) (push_bit (k - 7) sig)) :: u32) =
        of_bool sign * 2 ^ (LENGTH(32) - 1) + (nat (e - int k) * 2 ^ 23 + n * 2 ^ (k - 7))"
      using ek q us by (subst unat_pack32(2)) auto
    then have "ucast (packToF32UI sign (e - int k) (push_bit (k - 7) sig)) =
        (fpack sign (nat (e - int k) * 2 ^ 23 + n * 2 ^ (k - 7)) :: u32)"
      by (rule word_eq_fpackI)
    moreover have "pack_code 23 7 0xFD (sf_mode (softfloat_roundingMode st)) sign (e - int k) (n * 2 ^ k) =
        nat (e - int k) * 2 ^ 23 + n * 2 ^ (k - 7)"
      using ek pack_sig_exact [of 7 "sf_mode (softfloat_roundingMode st)" sign "n * 2 ^ (k - 7)"]
      by (simp add: pack_code_def n7)
    moreover have "pack_flags 23 7 0xFD (sf_mode (softfloat_roundingMode st)) sign (sf_before st)
        (e - int k) (n * 2 ^ k) = 0"
      using ek by (simp add: pack_flags_def n7)
    moreover have "nat (int k - 7) = k - 7" by simp
    ultimately show ?thesis
      unfolding softfloat_normRoundPackToF32_def Let_def sd if_P [OF True] n_def [symmetric]
      using sig0 by simp
  next
    case False
    have "softfloat_roundPackToF32 sign (e - int k) (push_bit k sig) st =
      (fpack sign (pack_code 23 7 0xFD (sf_mode (softfloat_roundingMode st)) sign (e - int k)
         (unat (push_bit k sig))),
       softfloat_raiseFlags (pack_flags 23 7 0xFD (sf_mode (softfloat_roundingMode st)) sign
         (sf_before st) (e - int k) (unat (push_bit k sig))) st)"
      by (rule f32p.rp) (use nb us kl 1(3,4) in auto)
    then show ?thesis
      unfolding softfloat_normRoundPackToF32_def Let_def sd if_not_P [OF False] us n_def [symmetric]
      by simp
  qed
qed

section \<open>Fields of an encoding\<close>

lemma unat_u32_u64 [simp]: "unat (ucast (a :: u32) :: u64) = unat a"
  by (rule unat_ucast_less) (rule less_trans [OF unsigned_less], simp)

lemma ucast_u32_u64_u32 [simp]: "(ucast (ucast (a :: u32) :: u64) :: u32) = a"
  by (rule word_unat_eq_iff [THEN iffD2])
     (use unsigned_less [of a, where ?'a = nat] in \<open>simp add: unat_ucast del: unat_lt_32\<close>)

lemma signF32UI_ucast [simp]: "signF32UI (ucast (a :: u32)) = fneg a"
proof -
  have "unat (drop_bit 31 a) = unat a div 2 ^ 31" by (rule unat_drop_bit)
  then have "drop_bit 31 a \<noteq> 0 \<longleftrightarrow> unat a div 2 ^ 31 \<noteq> 0" by (metis unat_eq_0)
  then show ?thesis by (simp add: signF32UI_def fneg_def div_eq_0_iff not_less)
qed

lemma expF32UI_ucast: "expF32UI (ucast (a :: u32)) = int (fmag a div 2 ^ 23)"
proof -
  have "unat a div 2 ^ 23 mod 2 ^ 8 = unat a mod 2 ^ 31 div 2 ^ 23"
    using mod_mult2_eq [of "unat a" "2 ^ 23" "2 ^ 8"] by simp
  then have "unat (drop_bit 23 (ucast a :: u64) AND 0xFF) = fmag a div 2 ^ 23"
    by (simp only: unat_ops unat_u32_u64 fmag_def) simp
  then show ?thesis by (simp only: expF32UI_def uint_nat)
qed

lemma fracF32UI_ucast: "unat (fracF32UI (ucast (a :: u32))) = fmag a mod 2 ^ 23"
  by (simp only: fracF32UI_def unat_ops unat_u32_u64 fmag_def) (simp add: mod_mod_cancel)

lemma signF32UI_xor: "signF32UI (ucast (a :: u32) XOR ucast (b :: u32)) = (fneg a \<noteq> fneg b)"
proof -
  have s: "fneg w = bit w 31" for w :: u32
  proof -
    have "bit w 31 \<longleftrightarrow> bit (unat w) 31" by (simp add: bit_unsigned_iff)
    then have "bit w 31 \<longleftrightarrow> odd (unat w div 2 ^ 31)" by (simp only: bit_iff_odd)
    moreover have "unat w div 2 ^ 31 < 2" using unsigned_less [of w, where ?'a = nat]
      by (intro less_mult_imp_div_less) simp
    ultimately show ?thesis by (auto simp: fneg_def less_2_cases_iff div_eq_0_iff)
  qed
  have "ucast (ucast a XOR ucast b :: u64) = a XOR b"
    by (rule bit_word_eqI) (simp add: bit_simps)
  then show ?thesis
    using signF32UI_ucast [of "a XOR b"] by (simp add: signF32UI_def s bit_xor_iff)
qed

lemma fmag32_bounds: "fmag (a :: u32) div 2 ^ 23 < 256" "fmag (a :: u32) mod 2 ^ 23 < 2 ^ 23"
  using fmag_less [of a] by (simp_all add: div_less_iff_less_mult)

lemma F32_fields: "fbits F32 = 23" "maxfin F32 = 255 * 2 ^ 23 - 1" "ulp0 F32 = 149"
  by (simp_all add: F32_def)

lemma finite32_iff: "ffinite F32 (a :: u32) \<longleftrightarrow> fmag a div 2 ^ 23 < 255"
  by (auto simp: ffinite_def F32_def div_less_iff_less_mult)

end
