(* ===== verification/Sf_Formats.thy ===== *)
theory Sf_Formats
  imports Sf_F32
begin

text \<open>
  The field macros of SoftFloat's formats (\<open>internals.h\<close>, \<open>specialize.h\<close>) and the interfaces the
  format-independent routines rely on: \<open>float_fields\<close> says how a format's macros take an
  encoding apart, \<open>float_macros\<close> adds the NaN tests of the formats with infinities; their
  lemmas say what the macros compute.
\<close>

section \<open>binary16\<close>

definition signF16UI :: "u64 \<Rightarrow> bool" where
  "signF16UI a = (drop_bit 15 (ucast a :: u16) \<noteq> 0)"

definition expF16UI :: "u64 \<Rightarrow> int" where
  "expF16UI a = uint (drop_bit 10 a AND 0x1F)"

definition fracF16UI :: "u64 \<Rightarrow> u64" where
  "fracF16UI a = a AND 0x3FF"

definition packToF16UI :: "bool \<Rightarrow> int \<Rightarrow> u64 \<Rightarrow> u64" where
  "packToF16UI sign e sig =
     push_bit 15 (of_bool sign) + push_bit 10 (ucast (word_of_int e :: u16)) + sig"

definition isNaNF16UI :: "u64 \<Rightarrow> bool" where
  "isNaNF16UI a = (NOT a AND 0x7C00 = 0 \<and> a AND 0x3FF \<noteq> 0)"

definition defaultNaNF16UI :: u64 where "defaultNaNF16UI = 0x7E00"

definition softfloat_isSigNaNF16UI :: "u64 \<Rightarrow> bool" where
  "softfloat_isSigNaNF16UI a = (a AND 0x7E00 = 0x7C00 \<and> a AND 0x1FF \<noteq> 0)"

section \<open>bfloat16\<close>

definition signBF16UI :: "u64 \<Rightarrow> bool" where
  "signBF16UI a = (drop_bit 15 (ucast a :: u16) \<noteq> 0)"

definition expBF16UI :: "u64 \<Rightarrow> int" where
  "expBF16UI a = uint (drop_bit 7 a AND 0xFF)"

definition fracBF16UI :: "u64 \<Rightarrow> u64" where
  "fracBF16UI a = a AND 0x7F"

definition packToBF16UI :: "bool \<Rightarrow> int \<Rightarrow> u64 \<Rightarrow> u64" where
  "packToBF16UI sign e sig =
     push_bit 15 (of_bool sign) + push_bit 7 (ucast (word_of_int e :: u16)) + sig"

definition isNaNBF16UI :: "u64 \<Rightarrow> bool" where
  "isNaNBF16UI a = (NOT a AND 0x7F80 = 0 \<and> a AND 0x7F \<noteq> 0)"

definition defaultNaNBF16UI :: u64 where "defaultNaNBF16UI = 0x7FC0"

definition softfloat_isSigNaNBF16UI :: "u64 \<Rightarrow> bool" where
  "softfloat_isSigNaNBF16UI a = (a AND 0x7FC0 = 0x7F80 \<and> a AND 0x7F \<noteq> 0)"

section \<open>binary64\<close>

definition signF64UI :: "u64 \<Rightarrow> bool" where
  "signF64UI a = (drop_bit 63 a \<noteq> 0)"

definition expF64UI :: "u64 \<Rightarrow> int" where
  "expF64UI a = uint (drop_bit 52 a AND 0x7FF)"

definition fracF64UI :: "u64 \<Rightarrow> u64" where
  "fracF64UI a = a AND 0xFFFFFFFFFFFFF"

definition packToF64UI :: "bool \<Rightarrow> int \<Rightarrow> u64 \<Rightarrow> u64" where
  "packToF64UI sign e sig = push_bit 63 (of_bool sign) + push_bit 52 (word_of_int e) + sig"

definition isNaNF64UI :: "u64 \<Rightarrow> bool" where
  "isNaNF64UI a = (NOT a AND 0x7FF0000000000000 = 0 \<and> a AND 0xFFFFFFFFFFFFF \<noteq> 0)"

definition defaultNaNF64UI :: u64 where "defaultNaNF64UI = 0x7FF8000000000000"

definition softfloat_isSigNaNF64UI :: "u64 \<Rightarrow> bool" where
  "softfloat_isSigNaNF64UI a =
     (a AND 0x7FF8000000000000 = 0x7FF0000000000000 \<and> a AND 0x7FFFFFFFFFFFF \<noteq> 0)"

section \<open>What the macros of a format promise\<close>

locale float_fields =
  fixes fb n :: nat and ty :: "'a::len itself"
    and signUI :: "u64 \<Rightarrow> bool" and expUI :: "u64 \<Rightarrow> int" and fracUI :: "u64 \<Rightarrow> u64"
  assumes bits: "fb + n + 1 = LENGTH('a)" "LENGTH('a) \<le> 64" "1 < fb" "1 < n"
    and signUI: "signUI w \<longleftrightarrow> bit w (fb + n)"
    and expUI: "expUI w = uint (drop_bit fb w AND mask n)"
    and fracUI: "fracUI w = w AND mask fb"
begin

lemma unat_widen [simp]: "unat (ucast (a :: 'a word) :: u64) = unat a"
proof (rule unat_ucast_less)
  have "(2::nat) ^ LENGTH('a) \<le> 2 ^ 64" using bits(2) by (intro power_increasing) simp_all
  from less_le_trans [OF unsigned_less this] show "unat a < 2 ^ LENGTH(64)" by simp
qed

lemma ucast_widen [simp]: "(ucast (ucast (a :: 'a word) :: u64) :: 'a word) = a"
  by (simp add: word_unat_eq_iff unat_ucast)

lemma widen_eq [simp]: "(ucast (a :: 'a word) :: u64) = ucast b \<longleftrightarrow> a = b"
  by (metis ucast_widen)

lemma fneg_bit: "fneg (a :: 'a word) \<longleftrightarrow> bit a (fb + n)"
proof -
  have l: "LENGTH('a) - 1 = fb + n" using bits(1) by simp
  have "unat a < 2 * 2 ^ (fb + n)" using unsigned_less [of a, where ?'a = nat] bits(1) by (simp flip: power_Suc)
  then have "unat a div 2 ^ (fb + n) < 2" by (intro less_mult_imp_div_less) (simp add: mult.commute)
  then have "odd (unat a div 2 ^ (fb + n)) \<longleftrightarrow> 2 ^ (fb + n) \<le> unat a"
    using less_eq_div_iff_mult_less_eq [of "2 ^ (fb + n)" 1 "unat a"]
    by (auto simp: less_2_cases_iff div_eq_0_iff)
  moreover have "bit a (fb + n) \<longleftrightarrow> bit (unat a) (fb + n)" by (simp add: bit_unsigned_iff)
  ultimately show ?thesis unfolding fneg_def l by (simp add: bit_iff_odd)
qed

lemma sign_eq [simp]: "signUI (ucast (a :: 'a word)) = fneg a"
  unfolding signUI fneg_bit using bits by (simp add: bit_simps)

lemma sign_xor: "signUI (ucast (a :: 'a word) XOR ucast b) = (fneg a \<noteq> fneg (b :: 'a word))"
  unfolding signUI fneg_bit using bits by (simp add: bit_simps)

lemma fmag_bound: "fmag (a :: 'a word) < 2 ^ n * 2 ^ fb"
proof -
  have "LENGTH('a) - 1 = n + fb" using bits(1) by simp
  then show ?thesis using fmag_less [of a] by (simp add: power_add)
qed

lemma fields: "unat (a :: 'a word) div 2 ^ fb mod 2 ^ n = fmag a div 2 ^ fb" "unat a mod 2 ^ fb = fmag a mod 2 ^ fb"
proof -
  have l: "(2::nat) ^ (LENGTH('a) - 1) = 2 ^ fb * 2 ^ n" using bits(1) by (simp flip: power_add)
  show "unat a div 2 ^ fb mod 2 ^ n = fmag a div 2 ^ fb" unfolding fmag_def l by (simp only: mod_mult2_eq) simp
  show "unat a mod 2 ^ fb = fmag a mod 2 ^ fb" unfolding fmag_def l by (simp add: mod_mod_cancel)
qed

lemma exp_eq: "expUI (ucast (a :: 'a word)) = int (fmag a div 2 ^ fb)"
  by (simp only: expUI uint_nat unat_and_mask unat_drop_bit unat_widen fields)

lemma frac_eq: "unat (fracUI (ucast (a :: 'a word))) = fmag a mod 2 ^ fb"
  by (simp only: fracUI unat_and_mask unat_widen fields)

lemma frac_zero: "fracUI (ucast (a :: 'a word)) = 0 \<longleftrightarrow> fmag a mod 2 ^ fb = 0"
  by (metis frac_eq unat_eq_0)

end

text \<open>A format with infinities and NaNs.\<close>

locale float_macros = float_fields fb n "TYPE('a::len)" signUI expUI fracUI
  for fb n signUI expUI fracUI +
  fixes F :: fmt and defNaN :: "'a::len word" and isNaNUI isSigUI :: "u64 \<Rightarrow> bool"
  assumes F: "fbits F = fb" "maxfin F + 1 = (2 ^ n - 1) * 2 ^ fb"
    and defNaN: "defNaN = qnan F"
    and isNaNUI: "isNaNUI w \<longleftrightarrow> NOT w AND push_bit fb (mask n) = 0 \<and> w AND mask fb \<noteq> 0"
    and isSigUI: "isSigUI w \<longleftrightarrow>
      w AND push_bit (fb - 1) (mask (n + 1)) = push_bit fb (mask n) \<and> w AND mask (fb - 1) \<noteq> 0"
begin

lemma exp_max: "fmag (a :: 'a word) div 2 ^ fb = 2 ^ n - 1 \<longleftrightarrow> (2 ^ n - 1) * 2 ^ fb \<le> fmag a"
proof -
  have "fmag a div 2 ^ fb < 2 ^ n" by (rule less_mult_imp_div_less) (rule fmag_bound)
  then have "fmag a div 2 ^ fb = 2 ^ n - 1 \<longleftrightarrow> 2 ^ n - 1 \<le> fmag a div 2 ^ fb" by linarith
  then show ?thesis by (simp add: less_eq_div_iff_mult_less_eq)
qed

lemma special_iff: "expUI (ucast (a :: 'a word)) = 2 ^ n - 1 \<longleftrightarrow> \<not> ffinite F a"
proof -
  have "expUI (ucast a) = 2 ^ n - 1 \<longleftrightarrow> int (fmag a div 2 ^ fb) = int (2 ^ n - 1)" by (simp add: exp_eq of_nat_diff)
  also have "\<dots> \<longleftrightarrow> (2 ^ n - 1) * 2 ^ fb \<le> fmag a" unfolding of_nat_eq_iff by (rule exp_max)
  finally show ?thesis using F(2) by (simp add: ffinite_def) linarith
qed

lemma nan_fields: "fnan F (a :: 'a word) \<longleftrightarrow> fmag a div 2 ^ fb = 2 ^ n - 1 \<and> fmag a mod 2 ^ fb \<noteq> 0"
proof -
  have "fmag a div 2 ^ fb = 2 ^ n - 1 \<and> fmag a mod 2 ^ fb \<noteq> 0 \<longleftrightarrow>
      (2 ^ n - 1) * 2 ^ fb < fmag a \<and> fmag a < (2 ^ n - 1) * 2 ^ fb + 2 ^ fb"
    by (rule div_mod_between) simp
  moreover have "(2 ^ n - 1) * 2 ^ fb + 2 ^ fb = (2 ^ n * 2 ^ fb :: nat)" by (simp add: diff_mult_distrib)
  ultimately show ?thesis using F(2) fmag_bound [of a] by (auto simp: fnan_def)
qed

lemma inf_fields: "finf F (a :: 'a word) \<longleftrightarrow> fmag a div 2 ^ fb = 2 ^ n - 1 \<and> fmag a mod 2 ^ fb = 0"
proof
  assume "finf F a"
  then have "fmag a = (2 ^ n - 1) * 2 ^ fb" using F(2) by (simp add: finf_def)
  then show "fmag a div 2 ^ fb = 2 ^ n - 1 \<and> fmag a mod 2 ^ fb = 0" by simp
next
  assume "fmag a div 2 ^ fb = 2 ^ n - 1 \<and> fmag a mod 2 ^ fb = 0"
  then have "fmag a = (2 ^ n - 1) * 2 ^ fb" by (metis add_0_right div_mult_mod_eq)
  then show "finf F a" using F(2) by (simp add: finf_def)
qed

lemma exp_mask: "unat (push_bit fb (mask n) :: u64) = (2 ^ n - 1) * 2 ^ fb"
proof -
  have mn: "unat (mask n :: u64) = 2 ^ n - 1" using bits by (intro unat_mask) simp
  have "((2::nat) ^ n - 1) * 2 ^ fb < 2 ^ n * 2 ^ fb" by simp
  also have "\<dots> = 2 ^ (n + fb)" by (simp only: power_add)
  also have "\<dots> \<le> 2 ^ 64" using bits by (intro power_increasing) simp_all
  finally show ?thesis unfolding mn [symmetric] by (intro unat_push_bit_less) simp
qed

lemma nan_eq [simp]: "isNaNUI (ucast (a :: 'a word)) \<longleftrightarrow> fnan F a"
proof -
  have "NOT w AND p = 0 \<longleftrightarrow> w AND p = p" for w p :: u64
    using and_not_eq_diff [of p w] by (auto simp: and.commute)
  then have "NOT (ucast a :: u64) AND push_bit fb (mask n) = 0 \<longleftrightarrow>
      unat ((ucast a :: u64) AND push_bit fb (mask n)) = unat (push_bit fb (mask n) :: u64)"
    by (simp only: word_unat_eq_iff)
  also have "\<dots> \<longleftrightarrow> fmag a div 2 ^ fb * 2 ^ fb = (2 ^ n - 1) * 2 ^ fb"
  proof -
    have "unat ((ucast a :: u64) AND push_bit fb (mask n)) = fmag a div 2 ^ fb * 2 ^ fb"
      by (subst unat_and_field) (use bits in \<open>simp_all only: unat_widen fields, simp\<close>)
    then show ?thesis by (simp only: exp_mask)
  qed
  finally show ?thesis
    unfolding isNaNUI nan_fields by (simp add: fracUI [symmetric] frac_zero)
qed

lemma sig_eq: "isSigUI (ucast (a :: 'a word)) \<longleftrightarrow> ieee_class F a = 8"
proof -
  have f1: "fb = Suc (fb - 1)" using bits by simp
  have p: "(2::nat) ^ fb = 2 * 2 ^ (fb - 1)" by (subst f1) simp
  have m: "(2 ^ n - 1) * 2 ^ fb = (2 * 2 ^ n - 2) * (2 ^ (fb - 1) :: nat)" unfolding p by (simp add: diff_mult_distrib)
  have u: "unat a div 2 ^ (fb - 1) mod 2 ^ (n + 1) = fmag a div 2 ^ (fb - 1)" "unat a mod 2 ^ (fb - 1) = fmag a mod 2 ^ (fb - 1)"
  proof -
    have "LENGTH('a) - 1 = (fb - 1) + (n + 1)" using bits(1,3) by simp
    then have l: "(2::nat) ^ (LENGTH('a) - 1) = 2 ^ (fb - 1) * 2 ^ (n + 1)" by (simp only: power_add)
    show "unat a div 2 ^ (fb - 1) mod 2 ^ (n + 1) = fmag a div 2 ^ (fb - 1)"
      unfolding fmag_def l by (simp only: mod_mult2_eq) simp
    show "unat a mod 2 ^ (fb - 1) = fmag a mod 2 ^ (fb - 1)"
      unfolding fmag_def l by (simp add: mod_mod_cancel)
  qed
  have "unat ((ucast a :: u64) AND push_bit (fb - 1) (mask (n + 1))) = fmag a div 2 ^ (fb - 1) * 2 ^ (fb - 1)"
    by (subst unat_and_field) (use bits in \<open>simp_all only: unat_widen u, simp\<close>)
  then have 1: "(ucast a :: u64) AND push_bit (fb - 1) (mask (n + 1)) = push_bit fb (mask n) \<longleftrightarrow>
      fmag a div 2 ^ (fb - 1) = 2 * 2 ^ n - 2"
    unfolding word_unat_eq_iff exp_mask m by simp
  have 2: "(ucast a :: u64) AND mask (fb - 1) \<noteq> 0 \<longleftrightarrow> fmag a mod 2 ^ (fb - 1) \<noteq> 0"
    unfolding word_unat_eq_iff unat_and_mask unat_widen u by simp
  have "fmag a div 2 ^ (fb - 1) = 2 * 2 ^ n - 2 \<and> fmag a mod 2 ^ (fb - 1) \<noteq> 0 \<longleftrightarrow>
      (2 * 2 ^ n - 2) * 2 ^ (fb - 1) < fmag a \<and> fmag a < (2 * 2 ^ n - 2) * 2 ^ (fb - 1) + 2 ^ (fb - 1)"
    by (rule div_mod_between) simp
  then show ?thesis
    unfolding isSigUI 1 2 m [symmetric] F(2) [symmetric] by (auto simp: ieee_class_def fnan_def F(1))
qed

end

lemma sign_macro:
  "drop_bit 31 (ucast w :: u32) \<noteq> 0 \<longleftrightarrow> bit w 31" "drop_bit 15 (ucast w :: u16) \<noteq> 0 \<longleftrightarrow> bit w 15"
  "drop_bit 63 w \<noteq> 0 \<longleftrightarrow> bit w 63" "drop_bit 7 (ucast w :: u8) \<noteq> 0 \<longleftrightarrow> bit w 7" for w :: u64
proof -
  have g: "drop_bit (LENGTH('b) - 1) x \<noteq> 0 \<longleftrightarrow> bit x (LENGTH('b) - 1)" for x :: "'b::len word"
  proof -
    have "bit (drop_bit (LENGTH('b) - 1) x) i \<longleftrightarrow> i = 0 \<and> bit x (LENGTH('b) - 1)" for i
      using bit_imp_le_length [of x "LENGTH('b) - 1 + i"] by (cases i) (auto simp: bit_drop_bit_eq)
    then show ?thesis by (auto simp: bit_eq_iff)
  qed
  show "drop_bit 31 (ucast w :: u32) \<noteq> 0 \<longleftrightarrow> bit w 31" using g [of "ucast w :: u32"] by (simp add: bit_simps)
  show "drop_bit 15 (ucast w :: u16) \<noteq> 0 \<longleftrightarrow> bit w 15" using g [of "ucast w :: u16"] by (simp add: bit_simps)
  show "drop_bit 63 w \<noteq> 0 \<longleftrightarrow> bit w 63" using g [of w] by simp
  show "drop_bit 7 (ucast w :: u8) \<noteq> 0 \<longleftrightarrow> bit w 7" using g [of "ucast w :: u8"] by (simp add: bit_simps)
qed

text \<open>\<open>softfloat_isSigNaNBF16UI\<close> tests the whole fraction, the quiet bit being known to be clear.\<close>

lemma sig_bf16: "softfloat_isSigNaNBF16UI w \<longleftrightarrow> w AND 0x7FC0 = 0x7F80 \<and> w AND 0x3F \<noteq> 0"
proof -
  have "w AND 0x7F = w AND 0x3F" if "w AND 0x7FC0 = 0x7F80"
  proof -
    have "bit (w AND 0x7FC0) 6 = bit (0x7F80 :: u64) 6" by (simp only: that)
    then have b: "\<not> bit w 6" by (simp add: bit_simps)
    show ?thesis unfolding mask_literals
      by (rule bit_word_eqI) (use b in \<open>auto simp: bit_simps less_Suc_eq numeral_eq_Suc\<close>)
  qed
  then show ?thesis unfolding softfloat_isSigNaNBF16UI_def by metis
qed

interpretation f32m: float_macros 23 8 signF32UI expF32UI fracF32UI F32 "ucast defaultNaNF32UI :: u32"
  isNaNF32UI softfloat_isSigNaNF32UI
  by unfold_locales (simp_all add: F32_def signF32UI_def sign_macro expF32UI_def fracF32UI_def
    isNaNF32UI_def softfloat_isSigNaNF32UI_def mask_eq_exp_minus_1 defaultNaNF32UI_def qnan_def fpack_def)

interpretation f16m: float_macros 10 5 signF16UI expF16UI fracF16UI F16 "ucast defaultNaNF16UI :: u16"
  isNaNF16UI softfloat_isSigNaNF16UI
  by unfold_locales (simp_all add: F16_def signF16UI_def sign_macro expF16UI_def fracF16UI_def
    isNaNF16UI_def softfloat_isSigNaNF16UI_def mask_eq_exp_minus_1 defaultNaNF16UI_def qnan_def fpack_def)

interpretation bf16m: float_macros 7 8 signBF16UI expBF16UI fracBF16UI BF16 "ucast defaultNaNBF16UI :: u16"
  isNaNBF16UI softfloat_isSigNaNBF16UI
  by unfold_locales (simp_all add: BF16_def signBF16UI_def sign_macro expBF16UI_def fracBF16UI_def
    isNaNBF16UI_def sig_bf16 mask_eq_exp_minus_1 defaultNaNBF16UI_def qnan_def fpack_def)

interpretation f64m: float_macros 52 11 signF64UI expF64UI fracF64UI F64 "defaultNaNF64UI :: u64"
  isNaNF64UI softfloat_isSigNaNF64UI
  by unfold_locales (simp_all add: F64_def signF64UI_def sign_macro expF64UI_def fracF64UI_def
    isNaNF64UI_def softfloat_isSigNaNF64UI_def mask_eq_exp_minus_1 defaultNaNF64UI_def qnan_def fpack_def)

end
