(* ===== verification/Sf_Compare.thy ===== *)
theory Sf_Compare
  imports Sf_Formats
begin

text \<open>
  SoftFloat's comparisons, signalling test, classification and minimum/maximum for binary16,
  binary32 and binary64 (\<open>f*_eq.c\<close>, \<open>f*_le.c\<close>, \<open>f*_lt.c\<close> with their quiet and signalling
  variants, \<open>f*_isSignalingNaN.c\<close>, \<open>f*_classify.c\<close>, \<open>fall_maxmin.c\<close>), and the bfloat16
  comparisons, which widen to binary32.  The state carries the exception flags.
\<close>

section \<open>binary16\<close>

definition f16_eq :: "u16 \<Rightarrow> u16 \<Rightarrow> sf_state \<Rightarrow> bool \<times> sf_state" where
  "f16_eq a b st =
     (let uiA = ucast a; uiB = ucast b
      in if isNaNF16UI uiA \<or> isNaNF16UI uiB
         then (False, (if softfloat_isSigNaNF16UI uiA \<or> softfloat_isSigNaNF16UI uiB then softfloat_raiseFlags softfloat_flag_invalid st else st))
         else (uiA = uiB \<or> (ucast (push_bit 1 (uiA OR uiB)) :: u16) = 0, st))"

definition f16_eq_signaling :: "u16 \<Rightarrow> u16 \<Rightarrow> sf_state \<Rightarrow> bool \<times> sf_state" where
  "f16_eq_signaling a b st =
     (let uiA = ucast a; uiB = ucast b
      in if isNaNF16UI uiA \<or> isNaNF16UI uiB
         then (False, softfloat_raiseFlags softfloat_flag_invalid st)
         else (uiA = uiB \<or> (ucast (push_bit 1 (uiA OR uiB)) :: u16) = 0, st))"

definition f16_le :: "u16 \<Rightarrow> u16 \<Rightarrow> sf_state \<Rightarrow> bool \<times> sf_state" where
  "f16_le a b st =
     (let uiA = ucast a; uiB = ucast b
      in if isNaNF16UI uiA \<or> isNaNF16UI uiB
         then (False, softfloat_raiseFlags softfloat_flag_invalid st)
         else let signA = signF16UI uiA; signB = signF16UI uiB
              in (if signA \<noteq> signB then signA \<or> (ucast (push_bit 1 (uiA OR uiB)) :: u16) = 0
                  else uiA = uiB \<or> signA \<noteq> (uiA < uiB), st))"

definition f16_le_quiet :: "u16 \<Rightarrow> u16 \<Rightarrow> sf_state \<Rightarrow> bool \<times> sf_state" where
  "f16_le_quiet a b st =
     (let uiA = ucast a; uiB = ucast b
      in if isNaNF16UI uiA \<or> isNaNF16UI uiB
         then (False, (if softfloat_isSigNaNF16UI uiA \<or> softfloat_isSigNaNF16UI uiB then softfloat_raiseFlags softfloat_flag_invalid st else st))
         else let signA = signF16UI uiA; signB = signF16UI uiB
              in (if signA \<noteq> signB then signA \<or> (ucast (push_bit 1 (uiA OR uiB)) :: u16) = 0
                  else uiA = uiB \<or> signA \<noteq> (uiA < uiB), st))"

definition f16_lt :: "u16 \<Rightarrow> u16 \<Rightarrow> sf_state \<Rightarrow> bool \<times> sf_state" where
  "f16_lt a b st =
     (let uiA = ucast a; uiB = ucast b
      in if isNaNF16UI uiA \<or> isNaNF16UI uiB
         then (False, softfloat_raiseFlags softfloat_flag_invalid st)
         else let signA = signF16UI uiA; signB = signF16UI uiB
              in (if signA \<noteq> signB then signA \<and> \<not> ((ucast (push_bit 1 (uiA OR uiB)) :: u16) = 0)
                  else uiA \<noteq> uiB \<and> signA \<noteq> (uiA < uiB), st))"

definition f16_lt_quiet :: "u16 \<Rightarrow> u16 \<Rightarrow> sf_state \<Rightarrow> bool \<times> sf_state" where
  "f16_lt_quiet a b st =
     (let uiA = ucast a; uiB = ucast b
      in if isNaNF16UI uiA \<or> isNaNF16UI uiB
         then (False, (if softfloat_isSigNaNF16UI uiA \<or> softfloat_isSigNaNF16UI uiB then softfloat_raiseFlags softfloat_flag_invalid st else st))
         else let signA = signF16UI uiA; signB = signF16UI uiB
              in (if signA \<noteq> signB then signA \<and> \<not> ((ucast (push_bit 1 (uiA OR uiB)) :: u16) = 0)
                  else uiA \<noteq> uiB \<and> signA \<noteq> (uiA < uiB), st))"

definition f16_isSignalingNaN :: "u16 \<Rightarrow> bool" where
  "f16_isSignalingNaN a = softfloat_isSigNaNF16UI (ucast a)"

definition f16_classify :: "u16 \<Rightarrow> u64" where
  "f16_classify a =
     (let uiA = ucast a;
          infOrNaN = (expF16UI uiA = 0x1F); subnormalOrZero = (expF16UI uiA = 0);
          sign = signF16UI uiA; fracZero = (fracF16UI uiA = 0);
          isNaN = isNaNF16UI uiA; isSNaN = softfloat_isSigNaNF16UI uiA
      in push_bit 0 (of_bool (sign \<and> infOrNaN \<and> fracZero)) OR
         push_bit 1 (of_bool (sign \<and> \<not> infOrNaN \<and> \<not> subnormalOrZero)) OR
         push_bit 2 (of_bool (sign \<and> subnormalOrZero \<and> \<not> fracZero)) OR
         push_bit 3 (of_bool (sign \<and> subnormalOrZero \<and> fracZero)) OR
         push_bit 7 (of_bool (\<not> sign \<and> infOrNaN \<and> fracZero)) OR
         push_bit 6 (of_bool (\<not> sign \<and> \<not> infOrNaN \<and> \<not> subnormalOrZero)) OR
         push_bit 5 (of_bool (\<not> sign \<and> subnormalOrZero \<and> \<not> fracZero)) OR
         push_bit 4 (of_bool (\<not> sign \<and> subnormalOrZero \<and> fracZero)) OR
         push_bit 8 (of_bool (isNaN \<and> isSNaN)) OR
         push_bit 9 (of_bool (isNaN \<and> \<not> isSNaN)))"

definition f16_max :: "u16 \<Rightarrow> u16 \<Rightarrow> sf_state \<Rightarrow> u16 \<times> sf_state" where
  "f16_max a b st =
     (let (lt, st) = f16_lt_quiet b a st;
          (greater, st) = (if lt then (True, st)
                           else let (eq, st) = f16_eq b a st in (eq \<and> signF16UI (ucast b), st))
      in if isNaNF16UI (ucast a) \<and> isNaNF16UI (ucast b) then (ucast defaultNaNF16UI, st)
         else (if greater \<or> isNaNF16UI (ucast b) then a else b, st))"

definition f16_min :: "u16 \<Rightarrow> u16 \<Rightarrow> sf_state \<Rightarrow> u16 \<times> sf_state" where
  "f16_min a b st =
     (let (lt, st) = f16_lt_quiet a b st;
          (less, st) = (if lt then (True, st)
                        else let (eq, st) = f16_eq a b st in (eq \<and> signF16UI (ucast a), st))
      in if isNaNF16UI (ucast a) \<and> isNaNF16UI (ucast b) then (ucast defaultNaNF16UI, st)
         else (if less \<or> isNaNF16UI (ucast b) then a else b, st))"

section \<open>binary32\<close>

definition f32_eq :: "u32 \<Rightarrow> u32 \<Rightarrow> sf_state \<Rightarrow> bool \<times> sf_state" where
  "f32_eq a b st =
     (let uiA = ucast a; uiB = ucast b
      in if isNaNF32UI uiA \<or> isNaNF32UI uiB
         then (False, (if softfloat_isSigNaNF32UI uiA \<or> softfloat_isSigNaNF32UI uiB then softfloat_raiseFlags softfloat_flag_invalid st else st))
         else (uiA = uiB \<or> (ucast (push_bit 1 (uiA OR uiB)) :: u32) = 0, st))"

definition f32_eq_signaling :: "u32 \<Rightarrow> u32 \<Rightarrow> sf_state \<Rightarrow> bool \<times> sf_state" where
  "f32_eq_signaling a b st =
     (let uiA = ucast a; uiB = ucast b
      in if isNaNF32UI uiA \<or> isNaNF32UI uiB
         then (False, softfloat_raiseFlags softfloat_flag_invalid st)
         else (uiA = uiB \<or> (ucast (push_bit 1 (uiA OR uiB)) :: u32) = 0, st))"

definition f32_le :: "u32 \<Rightarrow> u32 \<Rightarrow> sf_state \<Rightarrow> bool \<times> sf_state" where
  "f32_le a b st =
     (let uiA = ucast a; uiB = ucast b
      in if isNaNF32UI uiA \<or> isNaNF32UI uiB
         then (False, softfloat_raiseFlags softfloat_flag_invalid st)
         else let signA = signF32UI uiA; signB = signF32UI uiB
              in (if signA \<noteq> signB then signA \<or> (ucast (push_bit 1 (uiA OR uiB)) :: u32) = 0
                  else uiA = uiB \<or> signA \<noteq> (uiA < uiB), st))"

definition f32_le_quiet :: "u32 \<Rightarrow> u32 \<Rightarrow> sf_state \<Rightarrow> bool \<times> sf_state" where
  "f32_le_quiet a b st =
     (let uiA = ucast a; uiB = ucast b
      in if isNaNF32UI uiA \<or> isNaNF32UI uiB
         then (False, (if softfloat_isSigNaNF32UI uiA \<or> softfloat_isSigNaNF32UI uiB then softfloat_raiseFlags softfloat_flag_invalid st else st))
         else let signA = signF32UI uiA; signB = signF32UI uiB
              in (if signA \<noteq> signB then signA \<or> (ucast (push_bit 1 (uiA OR uiB)) :: u32) = 0
                  else uiA = uiB \<or> signA \<noteq> (uiA < uiB), st))"

definition f32_lt :: "u32 \<Rightarrow> u32 \<Rightarrow> sf_state \<Rightarrow> bool \<times> sf_state" where
  "f32_lt a b st =
     (let uiA = ucast a; uiB = ucast b
      in if isNaNF32UI uiA \<or> isNaNF32UI uiB
         then (False, softfloat_raiseFlags softfloat_flag_invalid st)
         else let signA = signF32UI uiA; signB = signF32UI uiB
              in (if signA \<noteq> signB then signA \<and> \<not> ((ucast (push_bit 1 (uiA OR uiB)) :: u32) = 0)
                  else uiA \<noteq> uiB \<and> signA \<noteq> (uiA < uiB), st))"

definition f32_lt_quiet :: "u32 \<Rightarrow> u32 \<Rightarrow> sf_state \<Rightarrow> bool \<times> sf_state" where
  "f32_lt_quiet a b st =
     (let uiA = ucast a; uiB = ucast b
      in if isNaNF32UI uiA \<or> isNaNF32UI uiB
         then (False, (if softfloat_isSigNaNF32UI uiA \<or> softfloat_isSigNaNF32UI uiB then softfloat_raiseFlags softfloat_flag_invalid st else st))
         else let signA = signF32UI uiA; signB = signF32UI uiB
              in (if signA \<noteq> signB then signA \<and> \<not> ((ucast (push_bit 1 (uiA OR uiB)) :: u32) = 0)
                  else uiA \<noteq> uiB \<and> signA \<noteq> (uiA < uiB), st))"

definition f32_isSignalingNaN :: "u32 \<Rightarrow> bool" where
  "f32_isSignalingNaN a = softfloat_isSigNaNF32UI (ucast a)"

definition f32_classify :: "u32 \<Rightarrow> u64" where
  "f32_classify a =
     (let uiA = ucast a;
          infOrNaN = (expF32UI uiA = 0xFF); subnormalOrZero = (expF32UI uiA = 0);
          sign = signF32UI uiA; fracZero = (fracF32UI uiA = 0);
          isNaN = isNaNF32UI uiA; isSNaN = softfloat_isSigNaNF32UI uiA
      in push_bit 0 (of_bool (sign \<and> infOrNaN \<and> fracZero)) OR
         push_bit 1 (of_bool (sign \<and> \<not> infOrNaN \<and> \<not> subnormalOrZero)) OR
         push_bit 2 (of_bool (sign \<and> subnormalOrZero \<and> \<not> fracZero)) OR
         push_bit 3 (of_bool (sign \<and> subnormalOrZero \<and> fracZero)) OR
         push_bit 7 (of_bool (\<not> sign \<and> infOrNaN \<and> fracZero)) OR
         push_bit 6 (of_bool (\<not> sign \<and> \<not> infOrNaN \<and> \<not> subnormalOrZero)) OR
         push_bit 5 (of_bool (\<not> sign \<and> subnormalOrZero \<and> \<not> fracZero)) OR
         push_bit 4 (of_bool (\<not> sign \<and> subnormalOrZero \<and> fracZero)) OR
         push_bit 8 (of_bool (isNaN \<and> isSNaN)) OR
         push_bit 9 (of_bool (isNaN \<and> \<not> isSNaN)))"

definition f32_max :: "u32 \<Rightarrow> u32 \<Rightarrow> sf_state \<Rightarrow> u32 \<times> sf_state" where
  "f32_max a b st =
     (let (lt, st) = f32_lt_quiet b a st;
          (greater, st) = (if lt then (True, st)
                           else let (eq, st) = f32_eq b a st in (eq \<and> signF32UI (ucast b), st))
      in if isNaNF32UI (ucast a) \<and> isNaNF32UI (ucast b) then (ucast defaultNaNF32UI, st)
         else (if greater \<or> isNaNF32UI (ucast b) then a else b, st))"

definition f32_min :: "u32 \<Rightarrow> u32 \<Rightarrow> sf_state \<Rightarrow> u32 \<times> sf_state" where
  "f32_min a b st =
     (let (lt, st) = f32_lt_quiet a b st;
          (less, st) = (if lt then (True, st)
                        else let (eq, st) = f32_eq a b st in (eq \<and> signF32UI (ucast a), st))
      in if isNaNF32UI (ucast a) \<and> isNaNF32UI (ucast b) then (ucast defaultNaNF32UI, st)
         else (if less \<or> isNaNF32UI (ucast b) then a else b, st))"

section \<open>binary64\<close>

definition f64_eq :: "u64 \<Rightarrow> u64 \<Rightarrow> sf_state \<Rightarrow> bool \<times> sf_state" where
  "f64_eq a b st =
     (let uiA = a; uiB = b
      in if isNaNF64UI uiA \<or> isNaNF64UI uiB
         then (False, (if softfloat_isSigNaNF64UI uiA \<or> softfloat_isSigNaNF64UI uiB then softfloat_raiseFlags softfloat_flag_invalid st else st))
         else (uiA = uiB \<or> (uiA OR uiB) AND 0x7FFFFFFFFFFFFFFF = 0, st))"

definition f64_eq_signaling :: "u64 \<Rightarrow> u64 \<Rightarrow> sf_state \<Rightarrow> bool \<times> sf_state" where
  "f64_eq_signaling a b st =
     (let uiA = a; uiB = b
      in if isNaNF64UI uiA \<or> isNaNF64UI uiB
         then (False, softfloat_raiseFlags softfloat_flag_invalid st)
         else (uiA = uiB \<or> (uiA OR uiB) AND 0x7FFFFFFFFFFFFFFF = 0, st))"

definition f64_le :: "u64 \<Rightarrow> u64 \<Rightarrow> sf_state \<Rightarrow> bool \<times> sf_state" where
  "f64_le a b st =
     (let uiA = a; uiB = b
      in if isNaNF64UI uiA \<or> isNaNF64UI uiB
         then (False, softfloat_raiseFlags softfloat_flag_invalid st)
         else let signA = signF64UI uiA; signB = signF64UI uiB
              in (if signA \<noteq> signB then signA \<or> (uiA OR uiB) AND 0x7FFFFFFFFFFFFFFF = 0
                  else uiA = uiB \<or> signA \<noteq> (uiA < uiB), st))"

definition f64_le_quiet :: "u64 \<Rightarrow> u64 \<Rightarrow> sf_state \<Rightarrow> bool \<times> sf_state" where
  "f64_le_quiet a b st =
     (let uiA = a; uiB = b
      in if isNaNF64UI uiA \<or> isNaNF64UI uiB
         then (False, (if softfloat_isSigNaNF64UI uiA \<or> softfloat_isSigNaNF64UI uiB then softfloat_raiseFlags softfloat_flag_invalid st else st))
         else let signA = signF64UI uiA; signB = signF64UI uiB
              in (if signA \<noteq> signB then signA \<or> (uiA OR uiB) AND 0x7FFFFFFFFFFFFFFF = 0
                  else uiA = uiB \<or> signA \<noteq> (uiA < uiB), st))"

definition f64_lt :: "u64 \<Rightarrow> u64 \<Rightarrow> sf_state \<Rightarrow> bool \<times> sf_state" where
  "f64_lt a b st =
     (let uiA = a; uiB = b
      in if isNaNF64UI uiA \<or> isNaNF64UI uiB
         then (False, softfloat_raiseFlags softfloat_flag_invalid st)
         else let signA = signF64UI uiA; signB = signF64UI uiB
              in (if signA \<noteq> signB then signA \<and> \<not> ((uiA OR uiB) AND 0x7FFFFFFFFFFFFFFF = 0)
                  else uiA \<noteq> uiB \<and> signA \<noteq> (uiA < uiB), st))"

definition f64_lt_quiet :: "u64 \<Rightarrow> u64 \<Rightarrow> sf_state \<Rightarrow> bool \<times> sf_state" where
  "f64_lt_quiet a b st =
     (let uiA = a; uiB = b
      in if isNaNF64UI uiA \<or> isNaNF64UI uiB
         then (False, (if softfloat_isSigNaNF64UI uiA \<or> softfloat_isSigNaNF64UI uiB then softfloat_raiseFlags softfloat_flag_invalid st else st))
         else let signA = signF64UI uiA; signB = signF64UI uiB
              in (if signA \<noteq> signB then signA \<and> \<not> ((uiA OR uiB) AND 0x7FFFFFFFFFFFFFFF = 0)
                  else uiA \<noteq> uiB \<and> signA \<noteq> (uiA < uiB), st))"

definition f64_isSignalingNaN :: "u64 \<Rightarrow> bool" where
  "f64_isSignalingNaN a = softfloat_isSigNaNF64UI (a)"

definition f64_classify :: "u64 \<Rightarrow> u64" where
  "f64_classify a =
     (let uiA = a;
          infOrNaN = (expF64UI uiA = 0x7FF); subnormalOrZero = (expF64UI uiA = 0);
          sign = signF64UI uiA; fracZero = (fracF64UI uiA = 0);
          isNaN = isNaNF64UI uiA; isSNaN = softfloat_isSigNaNF64UI uiA
      in push_bit 0 (of_bool (sign \<and> infOrNaN \<and> fracZero)) OR
         push_bit 1 (of_bool (sign \<and> \<not> infOrNaN \<and> \<not> subnormalOrZero)) OR
         push_bit 2 (of_bool (sign \<and> subnormalOrZero \<and> \<not> fracZero)) OR
         push_bit 3 (of_bool (sign \<and> subnormalOrZero \<and> fracZero)) OR
         push_bit 7 (of_bool (\<not> sign \<and> infOrNaN \<and> fracZero)) OR
         push_bit 6 (of_bool (\<not> sign \<and> \<not> infOrNaN \<and> \<not> subnormalOrZero)) OR
         push_bit 5 (of_bool (\<not> sign \<and> subnormalOrZero \<and> \<not> fracZero)) OR
         push_bit 4 (of_bool (\<not> sign \<and> subnormalOrZero \<and> fracZero)) OR
         push_bit 8 (of_bool (isNaN \<and> isSNaN)) OR
         push_bit 9 (of_bool (isNaN \<and> \<not> isSNaN)))"

definition f64_max :: "u64 \<Rightarrow> u64 \<Rightarrow> sf_state \<Rightarrow> u64 \<times> sf_state" where
  "f64_max a b st =
     (let (lt, st) = f64_lt_quiet b a st;
          (greater, st) = (if lt then (True, st)
                           else let (eq, st) = f64_eq b a st in (eq \<and> signF64UI (b), st))
      in if isNaNF64UI (a) \<and> isNaNF64UI (b) then (defaultNaNF64UI, st)
         else (if greater \<or> isNaNF64UI (b) then a else b, st))"

definition f64_min :: "u64 \<Rightarrow> u64 \<Rightarrow> sf_state \<Rightarrow> u64 \<times> sf_state" where
  "f64_min a b st =
     (let (lt, st) = f64_lt_quiet a b st;
          (less, st) = (if lt then (True, st)
                        else let (eq, st) = f64_eq a b st in (eq \<and> signF64UI (a), st))
      in if isNaNF64UI (a) \<and> isNaNF64UI (b) then (defaultNaNF64UI, st)
         else (if less \<or> isNaNF64UI (b) then a else b, st))"

section \<open>bfloat16\<close>

definition bf16_eq :: "u16 \<Rightarrow> u16 \<Rightarrow> sf_state \<Rightarrow> bool \<times> sf_state" where
  "bf16_eq a b st =
     (let f32A = push_bit 16 (ucast a); f32B = push_bit 16 (ucast b) in f32_eq f32A f32B st)"

definition bf16_le :: "u16 \<Rightarrow> u16 \<Rightarrow> sf_state \<Rightarrow> bool \<times> sf_state" where
  "bf16_le a b st =
     (let f32A = push_bit 16 (ucast a); f32B = push_bit 16 (ucast b) in f32_le f32A f32B st)"

definition bf16_lt :: "u16 \<Rightarrow> u16 \<Rightarrow> sf_state \<Rightarrow> bool \<times> sf_state" where
  "bf16_lt a b st =
     (let f32A = push_bit 16 (ucast a); f32B = push_bit 16 (ucast b) in f32_lt f32A f32B st)"

definition bf16_classify :: "u16 \<Rightarrow> u64" where
  "bf16_classify a =
     (let uiA = ucast a;
          infOrNaN = (expBF16UI uiA = 0xFF); subnormalOrZero = (expBF16UI uiA = 0);
          sign = signBF16UI uiA; fracZero = (fracBF16UI uiA = 0);
          isNaN = isNaNBF16UI uiA; isSNaN = softfloat_isSigNaNBF16UI uiA
      in push_bit 0 (of_bool (sign \<and> infOrNaN \<and> fracZero)) OR
         push_bit 1 (of_bool (sign \<and> \<not> infOrNaN \<and> \<not> subnormalOrZero)) OR
         push_bit 2 (of_bool (sign \<and> subnormalOrZero \<and> \<not> fracZero)) OR
         push_bit 3 (of_bool (sign \<and> subnormalOrZero \<and> fracZero)) OR
         push_bit 7 (of_bool (\<not> sign \<and> infOrNaN \<and> fracZero)) OR
         push_bit 6 (of_bool (\<not> sign \<and> \<not> infOrNaN \<and> \<not> subnormalOrZero)) OR
         push_bit 5 (of_bool (\<not> sign \<and> subnormalOrZero \<and> \<not> fracZero)) OR
         push_bit 4 (of_bool (\<not> sign \<and> subnormalOrZero \<and> fracZero)) OR
         push_bit 8 (of_bool (isNaN \<and> isSNaN)) OR
         push_bit 9 (of_bool (isNaN \<and> \<not> isSNaN)))"

section \<open>Orders on words\<close>

text \<open>The bit tests of the comparisons decide the order of the encodings.\<close>

lemma mag_zero: "fmag (a :: 'a::len word) = 0 \<longleftrightarrow> push_bit 1 a = 0"
proof -
  have "unat (push_bit 1 a) = 2 * (unat a mod 2 ^ (LENGTH('a) - 1))"
    unfolding unat_push_bit word_len_double by (simp only: power_one_right mult.commute [of _ 2] mod_mult_mult1)
  then show ?thesis by (metis fmag_def mult_eq_0_iff unat_eq_0 zero_neq_numeral)
qed

lemma both_zero:
  "push_bit 1 (a OR b) = 0 \<longleftrightarrow> fmag a = 0 \<and> fmag b = 0" for a b :: "'a::len word"
  by (simp only: mag_zero push_bit_or or_eq_0_iff)

lemma less_same_sign:
  fixes a b :: "'a::len word"
  assumes "fneg a = fneg b"
  shows "a < b \<longleftrightarrow> fmag a < fmag b"
  using assms unat_eq_fneg_fmag [of a] unat_eq_fneg_fmag [of b] by (cases "fneg b") (simp_all add: word_less_nat_alt)

lemma key_eq:
  fixes a b :: "'a::len word"
  shows "a = b \<or> fmag a = 0 \<and> fmag b = 0 \<longleftrightarrow> fkey a = fkey b"
  by (cases "fneg a = fneg b") (auto simp: fkey_def eq_same_sign)

lemma key_le:
  fixes a b :: "'a::len word"
  shows "(if fneg a \<noteq> fneg b then fneg a \<or> fmag a = 0 \<and> fmag b = 0
          else a = b \<or> fneg a \<noteq> (a < b)) \<longleftrightarrow> fkey a \<le> fkey b"
  by (cases "fneg a = fneg b") (auto simp: fkey_def eq_same_sign less_same_sign)

lemma key_less:
  fixes a b :: "'a::len word"
  shows "(if fneg a \<noteq> fneg b then fneg a \<and> \<not> (fmag a = 0 \<and> fmag b = 0)
          else a \<noteq> b \<and> fneg a \<noteq> (a < b)) \<longleftrightarrow> fkey a < fkey b"
  by (cases "fneg a = fneg b") (auto simp: fkey_def eq_same_sign less_same_sign)


context float_macros
begin

lemma widen_push: "(ucast (push_bit k (ucast a OR ucast b :: u64)) :: 'a word) = push_bit k (a OR b)"
  for a b :: "'a word"
  by (rule bit_word_eqI) (use bits(2) in \<open>auto simp: bit_simps\<close>)

lemma zero_test: "(ucast (push_bit 1 (ucast a OR ucast b :: u64)) :: 'a word) = 0 \<longleftrightarrow> fmag a = 0 \<and> fmag b = 0"
  for a b :: "'a word"
proof -
  have "(ucast (push_bit 1 (ucast a OR ucast b :: u64)) :: 'a word) = push_bit 1 (a OR b)"
    by (rule widen_push)
  then show ?thesis by (simp only: both_zero)
qed

lemma widen_less: "(ucast (a :: 'a word) :: u64) < ucast b \<longleftrightarrow> a < (b :: 'a word)"
  by (simp only: word_less_nat_alt unat_widen)

lemma sig_nan: "isSigUI (ucast (a :: 'a word)) \<Longrightarrow> fnan F a"
  by (simp add: sig_eq ieee_class_def split: if_splits)

lemmas compare_simps = nan_eq sign_eq widen_eq zero_test widen_less key_eq key_le key_less sig_eq

lemma exp_zero: "expUI (ucast (a :: 'a word)) = 0 \<longleftrightarrow> fmag a < 2 ^ fb"
  unfolding exp_eq by (simp add: div_eq_0_iff)

lemma class_bits:
  fixes a :: "'a word"
  defines "uiA \<equiv> (ucast a :: u64)"
  defines "infOrNaN \<equiv> expUI uiA = 2 ^ n - 1" and "sub \<equiv> expUI uiA = 0" and "sign \<equiv> signUI uiA"
    and "fracZero \<equiv> fracUI uiA = 0" and "isNaN \<equiv> isNaNUI uiA" and "isSNaN \<equiv> isSigUI uiA"
  shows "push_bit 0 (of_bool (sign \<and> infOrNaN \<and> fracZero)) OR
      push_bit 1 (of_bool (sign \<and> \<not> infOrNaN \<and> \<not> sub)) OR
      push_bit 2 (of_bool (sign \<and> sub \<and> \<not> fracZero)) OR
      push_bit 3 (of_bool (sign \<and> sub \<and> fracZero)) OR
      push_bit 7 (of_bool (\<not> sign \<and> infOrNaN \<and> fracZero)) OR
      push_bit 6 (of_bool (\<not> sign \<and> \<not> infOrNaN \<and> \<not> sub)) OR
      push_bit 5 (of_bool (\<not> sign \<and> sub \<and> \<not> fracZero)) OR
      push_bit 4 (of_bool (\<not> sign \<and> sub \<and> fracZero)) OR
      push_bit 8 (of_bool (isNaN \<and> isSNaN)) OR
      push_bit 9 (of_bool (isNaN \<and> \<not> isSNaN)) = (push_bit (ieee_class F a) 1 :: u64)"
proof -
  have z: "fmag a < 2 ^ fb \<and> fmag a mod 2 ^ fb = 0 \<longleftrightarrow> fmag a = 0" by auto
  have q: "isSNaN \<Longrightarrow> isNaN" by (simp add: isSNaN_def isNaN_def uiA_def sig_nan)
  have i: "infOrNaN \<and> fracZero \<longleftrightarrow> finf F a" "isNaN \<longleftrightarrow> fnan F a" "infOrNaN \<longleftrightarrow> \<not> ffinite F a"
    "sub \<longleftrightarrow> fmag a < 2 ^ fb" "sign \<longleftrightarrow> fneg a" "fracZero \<longleftrightarrow> fmag a mod 2 ^ fb = 0" "isSNaN \<longleftrightarrow> ieee_class F a = 8"
    using special_iff [of a] inf_fields [of a] exp_max [of a] F(2)
    by (auto simp: infOrNaN_def fracZero_def uiA_def frac_zero sub_def exp_zero isNaN_def isSNaN_def sig_eq
        sign_def ffinite_def finf_def)
  have fin: "ffinite F a" if "fmag a < 2 ^ fb"
  proof -
    have "(2::nat) ^ 1 \<le> 2 ^ n" using bits by (intro power_increasing) simp_all
    then have "(1::nat) * 2 ^ fb \<le> (2 ^ n - 1) * 2 ^ fb" by (intro mult_right_mono) simp_all
    then show ?thesis using that F(2) unfolding ffinite_def by linarith
  qed
  consider (nan) "fnan F a" | (inf) "finf F a" | (zero) "ffinite F a" "fmag a = 0"
    | (sub) "ffinite F a" "fmag a \<noteq> 0" "fmag a < 2 ^ fb" | (norm) "ffinite F a" "\<not> fmag a < 2 ^ fb"
    using fmt_cases [of F a] by metis
  then show ?thesis
  proof cases
    case nan
    then have x: "infOrNaN" "\<not> sub" "\<not> fracZero" "isNaN"
      using i fin by (auto simp: fnan_def ffinite_def finf_def)
    then show ?thesis using nan i(7) by (auto simp: ieee_class_def split: if_splits)
  next
    case inf
    then have x: "infOrNaN" "fracZero" "\<not> sub" "\<not> isNaN" "\<not> isSNaN"
      using i fin q by (auto simp: fnan_def ffinite_def finf_def)
    then show ?thesis using inf i(5) by (simp add: ieee_class_def fnan_def finf_def)
  next
    case zero
    then have x: "\<not> infOrNaN" "fracZero" "sub" "\<not> isNaN" "\<not> isSNaN"
      using i q by (auto simp: fnan_def ffinite_def)
    then show ?thesis using zero i(5) by (simp add: ieee_class_def fnan_def finf_def)
  next
    case sub
    then have x: "\<not> infOrNaN" "\<not> fracZero" "sub" "\<not> isNaN" "\<not> isSNaN"
      using i q z by (auto simp: fnan_def ffinite_def)
    then show ?thesis using sub i(5) F(1) by (simp add: ieee_class_def fnan_def finf_def ffinite_def)
  next
    case norm
    have "fmag a \<noteq> 0" using norm(2) by (metis zero_less_numeral zero_less_power)
    moreover have x: "\<not> infOrNaN" "\<not> sub" "\<not> isNaN" "\<not> isSNaN"
      using norm i q by (auto simp: fnan_def ffinite_def)
    ultimately show ?thesis using norm i(5) F(1) by (simp add: ieee_class_def fnan_def finf_def ffinite_def)
  qed
qed

end

section \<open>Correctness\<close>

lemma zero_test64: "(a OR b) AND 0x7FFFFFFFFFFFFFFF = 0 \<longleftrightarrow> fmag a = 0 \<and> fmag b = 0" for a b :: u64
proof -
  have m: "(0x7FFFFFFFFFFFFFFF :: u64) = mask 63" by (simp add: mask_eq_exp_minus_1)
  have z: "w AND mask 63 = 0 \<longleftrightarrow> fmag w = 0" for w :: u64
    unfolding word_unat_eq_iff unat_and_mask by (simp add: fmag_def)
  show ?thesis unfolding m bit.conj_disj_distrib2 or_eq_0_iff z by simp
qed

lemmas f64_simps = f64m.nan_eq [unfolded ucast_id] f64m.sign_eq [unfolded ucast_id] zero_test64 key_eq key_le key_less
  f64m.sig_eq [unfolded ucast_id]

text \<open>The flags of a quiet and of a signalling comparison.\<close>

definition quiet_flags :: "fmt \<Rightarrow> 'a::len word \<Rightarrow> 'a word \<Rightarrow> sf_state \<Rightarrow> sf_state" where
  "quiet_flags F a b st =
     (if ieee_class F a = 8 \<or> ieee_class F b = 8 then softfloat_raiseFlags softfloat_flag_invalid st else st)"

definition signaling_flags :: "fmt \<Rightarrow> 'a::len word \<Rightarrow> 'a word \<Rightarrow> sf_state \<Rightarrow> sf_state" where
  "signaling_flags F a b st =
     (if fnan F a \<or> fnan F b then softfloat_raiseFlags softfloat_flag_invalid st else st)"

lemma class_sig_nan: "ieee_class F a = 8 \<Longrightarrow> fnan F a"
  by (simp add: ieee_class_def split: if_splits)

lemmas compare_specs = ieee_eq_def ieee_le_def ieee_less_def quiet_flags_def signaling_flags_def

lemma f32_eq_spec: "f32_eq a b st = (ieee_eq F32 a b, quiet_flags F32 a b st)"
  unfolding f32_eq_def Let_def f32m.compare_simps
  by (auto simp: compare_specs dest: class_sig_nan)

lemma f32_eq_signaling_spec: "f32_eq_signaling a b st = (ieee_eq F32 a b, signaling_flags F32 a b st)"
  unfolding f32_eq_signaling_def Let_def f32m.compare_simps
  by (auto simp: compare_specs dest: class_sig_nan)

lemma f32_le_spec: "f32_le a b st = (ieee_le F32 a b, signaling_flags F32 a b st)"
  unfolding f32_le_def Let_def f32m.compare_simps
  by (auto simp: compare_specs dest: class_sig_nan)

lemma f32_le_quiet_spec: "f32_le_quiet a b st = (ieee_le F32 a b, quiet_flags F32 a b st)"
  unfolding f32_le_quiet_def Let_def f32m.compare_simps
  by (auto simp: compare_specs dest: class_sig_nan)

lemma f32_lt_spec: "f32_lt a b st = (ieee_less F32 a b, signaling_flags F32 a b st)"
  unfolding f32_lt_def Let_def f32m.compare_simps
  by (auto simp: compare_specs dest: class_sig_nan)

lemma f32_lt_quiet_spec: "f32_lt_quiet a b st = (ieee_less F32 a b, quiet_flags F32 a b st)"
  unfolding f32_lt_quiet_def Let_def f32m.compare_simps
  by (auto simp: compare_specs dest: class_sig_nan)

lemma f16_eq_spec: "f16_eq a b st = (ieee_eq F16 a b, quiet_flags F16 a b st)"
  unfolding f16_eq_def Let_def f16m.compare_simps
  by (auto simp: compare_specs dest: class_sig_nan)

lemma f16_eq_signaling_spec: "f16_eq_signaling a b st = (ieee_eq F16 a b, signaling_flags F16 a b st)"
  unfolding f16_eq_signaling_def Let_def f16m.compare_simps
  by (auto simp: compare_specs dest: class_sig_nan)

lemma f16_le_spec: "f16_le a b st = (ieee_le F16 a b, signaling_flags F16 a b st)"
  unfolding f16_le_def Let_def f16m.compare_simps
  by (auto simp: compare_specs dest: class_sig_nan)

lemma f16_le_quiet_spec: "f16_le_quiet a b st = (ieee_le F16 a b, quiet_flags F16 a b st)"
  unfolding f16_le_quiet_def Let_def f16m.compare_simps
  by (auto simp: compare_specs dest: class_sig_nan)

lemma f16_lt_spec: "f16_lt a b st = (ieee_less F16 a b, signaling_flags F16 a b st)"
  unfolding f16_lt_def Let_def f16m.compare_simps
  by (auto simp: compare_specs dest: class_sig_nan)

lemma f16_lt_quiet_spec: "f16_lt_quiet a b st = (ieee_less F16 a b, quiet_flags F16 a b st)"
  unfolding f16_lt_quiet_def Let_def f16m.compare_simps
  by (auto simp: compare_specs dest: class_sig_nan)

lemma f64_eq_spec: "f64_eq a b st = (ieee_eq F64 a b, quiet_flags F64 a b st)"
  unfolding f64_eq_def Let_def f64_simps
  by (auto simp: compare_specs dest: class_sig_nan)

lemma f64_eq_signaling_spec: "f64_eq_signaling a b st = (ieee_eq F64 a b, signaling_flags F64 a b st)"
  unfolding f64_eq_signaling_def Let_def f64_simps
  by (auto simp: compare_specs dest: class_sig_nan)

lemma f64_le_spec: "f64_le a b st = (ieee_le F64 a b, signaling_flags F64 a b st)"
  unfolding f64_le_def Let_def f64_simps
  by (auto simp: compare_specs dest: class_sig_nan)

lemma f64_le_quiet_spec: "f64_le_quiet a b st = (ieee_le F64 a b, quiet_flags F64 a b st)"
  unfolding f64_le_quiet_def Let_def f64_simps
  by (auto simp: compare_specs dest: class_sig_nan)

lemma f64_lt_spec: "f64_lt a b st = (ieee_less F64 a b, signaling_flags F64 a b st)"
  unfolding f64_lt_def Let_def f64_simps
  by (auto simp: compare_specs dest: class_sig_nan)

lemma f64_lt_quiet_spec: "f64_lt_quiet a b st = (ieee_less F64 a b, quiet_flags F64 a b st)"
  unfolding f64_lt_quiet_def Let_def f64_simps
  by (auto simp: compare_specs dest: class_sig_nan)



lemma raise_twice [simp]: "softfloat_raiseFlags f (softfloat_raiseFlags f st) = softfloat_raiseFlags f st"
  by (simp add: softfloat_raiseFlags_def or.assoc)

lemma quiet_flags_twice:
  "quiet_flags F b a (quiet_flags F b a st) = quiet_flags F a b st"
  "quiet_flags F a b (quiet_flags F a b st) = quiet_flags F a b st"
  by (auto simp: quiet_flags_def)

lemma quiet_flags_commute: "quiet_flags F b a st = quiet_flags F a b st"
  by (auto simp: quiet_flags_def)

lemma quiet_flags_ordered: "ieee_less F a b \<Longrightarrow> quiet_flags F a b st = st \<and> quiet_flags F b a st = st"
  by (auto simp: quiet_flags_def ieee_less_def dest: class_sig_nan)

lemma max_law:
  "(let (lt, st) = (ieee_less F b a, quiet_flags F b a st);
        (greater, st) = (if lt then (True, st)
                         else let (eq, st) = (ieee_eq F b a, quiet_flags F b a st) in (eq \<and> fneg b, st))
    in if fnan F a \<and> fnan F b then (qnan F, st) else (if greater \<or> fnan F b then a else b, st)) =
   (ieee_max F a b, quiet_flags F a b st)"
proof -
  have "a = b" if "fkey a = fkey b" "fneg a = fneg b"
    using that by (simp add: eq_same_sign fkey_def split: if_splits)
  then show ?thesis
    using quiet_flags_ordered [of F b a st]
    by (auto simp: Let_def quiet_flags_twice quiet_flags_commute ieee_max_def tkey_less ieee_less_def ieee_eq_def)
qed

lemma min_law:
  "(let (lt, st) = (ieee_less F a b, quiet_flags F a b st);
        (less, st) = (if lt then (True, st)
                      else let (eq, st) = (ieee_eq F a b, quiet_flags F a b st) in (eq \<and> fneg a, st))
    in if fnan F a \<and> fnan F b then (qnan F, st) else (if less \<or> fnan F b then a else b, st)) =
   (ieee_min F a b, quiet_flags F a b st)"
proof -
  have "a = b" if "fkey a = fkey b" "fneg a = fneg b"
    using that by (simp add: eq_same_sign fkey_def split: if_splits)
  then show ?thesis
    using quiet_flags_ordered [of F a b st]
    by (auto simp: Let_def quiet_flags_twice quiet_flags_commute ieee_min_def tkey_less ieee_less_def ieee_eq_def)
qed

text \<open>
  C38: The six binary32 comparisons decide the IEEE 754 order of the encodings (the two zeros
  equal, a NaN unordered); the quiet ones raise invalid for a signalling NaN only, the
  signalling ones for every NaN, and no flag is raised otherwise.
\<close>

theorem f32_comparisons_correct:
  "f32_eq a b st = (ieee_eq F32 a b, quiet_flags F32 a b st) \<and>
   f32_eq_signaling a b st = (ieee_eq F32 a b, signaling_flags F32 a b st) \<and>
   f32_le a b st = (ieee_le F32 a b, signaling_flags F32 a b st) \<and>
   f32_le_quiet a b st = (ieee_le F32 a b, quiet_flags F32 a b st) \<and>
   f32_lt a b st = (ieee_less F32 a b, signaling_flags F32 a b st) \<and>
   f32_lt_quiet a b st = (ieee_less F32 a b, quiet_flags F32 a b st)"
  by (simp only: f32_eq_spec f32_eq_signaling_spec f32_le_spec f32_le_quiet_spec f32_lt_spec f32_lt_quiet_spec)

text \<open>The same for the six comparisons of binary16 and the six of binary64.\<close>

theorem f16_f64_comparisons_correct:
  "(f16_eq h i st = (ieee_eq F16 h i, quiet_flags F16 h i st) \<and>
   f16_eq_signaling h i st = (ieee_eq F16 h i, signaling_flags F16 h i st) \<and>
   f16_le h i st = (ieee_le F16 h i, signaling_flags F16 h i st) \<and>
   f16_le_quiet h i st = (ieee_le F16 h i, quiet_flags F16 h i st) \<and>
   f16_lt h i st = (ieee_less F16 h i, signaling_flags F16 h i st) \<and>
   f16_lt_quiet h i st = (ieee_less F16 h i, quiet_flags F16 h i st)) \<and>
   (f64_eq d e st = (ieee_eq F64 d e, quiet_flags F64 d e st) \<and>
   f64_eq_signaling d e st = (ieee_eq F64 d e, signaling_flags F64 d e st) \<and>
   f64_le d e st = (ieee_le F64 d e, signaling_flags F64 d e st) \<and>
   f64_le_quiet d e st = (ieee_le F64 d e, quiet_flags F64 d e st) \<and>
   f64_lt d e st = (ieee_less F64 d e, signaling_flags F64 d e st) \<and>
   f64_lt_quiet d e st = (ieee_less F64 d e, quiet_flags F64 d e st))"
  by (simp only: f16_eq_spec f16_eq_signaling_spec f16_le_spec f16_le_quiet_spec f16_lt_spec f16_lt_quiet_spec
    f64_eq_spec f64_eq_signaling_spec f64_le_spec f64_le_quiet_spec f64_lt_spec f64_lt_quiet_spec)

lemma classify_ieee:
  "f16_classify h = push_bit (ieee_class F16 h) 1 \<and> bf16_classify b = push_bit (ieee_class BF16 b) 1 \<and>
   f32_classify s = push_bit (ieee_class F32 s) 1 \<and> f64_classify d = push_bit (ieee_class F64 d) 1"
  unfolding f16_classify_def bf16_classify_def f32_classify_def f64_classify_def Let_def
  using f16m.class_bits [of h] bf16m.class_bits [of b] f32m.class_bits [of s] f64m.class_bits [of d]
  by simp

text \<open>
  Each of the four \<open>classify\<close> routines returns the one-hot mask of the RISC-V class of its
  operand: exactly one of the ten bits is set, the one the encoding belongs to.
\<close>

theorem classify_correct:
  "f16_classify h = push_bit (ieee_class F16 h) 1 \<and> bf16_classify b = push_bit (ieee_class BF16 b) 1 \<and>
   f32_classify s = push_bit (ieee_class F32 s) 1 \<and> f64_classify d = push_bit (ieee_class F64 d) 1"
  by (rule classify_ieee)

lemma maxmin_ieee:
  "f32_max a b st = (ieee_max F32 a b, quiet_flags F32 a b st) \<and>
   f32_min a b st = (ieee_min F32 a b, quiet_flags F32 a b st) \<and>
   f16_max h i st = (ieee_max F16 h i, quiet_flags F16 h i st) \<and>
   f16_min h i st = (ieee_min F16 h i, quiet_flags F16 h i st) \<and>
   f64_max d e st = (ieee_max F64 d e, quiet_flags F64 d e st) \<and>
   f64_min d e st = (ieee_min F64 d e, quiet_flags F64 d e st)"
  unfolding f32_max_def f32_min_def f16_max_def f16_min_def f64_max_def f64_min_def
    f32_lt_quiet_spec f32_eq_spec f16_lt_quiet_spec f16_eq_spec f64_lt_quiet_spec f64_eq_spec
    f32m.nan_eq f32m.sign_eq f16m.nan_eq f16m.sign_eq f64m.nan_eq [unfolded ucast_id] f64m.sign_eq [unfolded ucast_id]
    f32m.defNaN f16m.defNaN f64m.defNaN max_law min_law
  by simp

text \<open>
  \<open>f16_max\<close>, \<open>f32_max\<close>, \<open>f64_max\<close> and their minima return the larger or smaller operand in
  the total order with -0 below +0, the other operand when one is a NaN, the canonical NaN
  when both are, and raise invalid exactly for a signalling NaN.
\<close>

theorem maxmin_correct:
  "f32_max a b st = (ieee_max F32 a b, quiet_flags F32 a b st) \<and>
   f32_min a b st = (ieee_min F32 a b, quiet_flags F32 a b st) \<and>
   f16_max h i st = (ieee_max F16 h i, quiet_flags F16 h i st) \<and>
   f16_min h i st = (ieee_min F16 h i, quiet_flags F16 h i st) \<and>
   f64_max d e st = (ieee_max F64 d e, quiet_flags F64 d e st) \<and>
   f64_min d e st = (ieee_min F64 d e, quiet_flags F64 d e st)"
  by (rule maxmin_ieee)

end
