(* ===== verification/Vu_Alu.thy ===== *)
theory Vu_Alu
  imports Vu_Convert Sf_Compare
begin

text \<open>
  The operations of the vector unit's reference model that do not round: maximum and minimum,
  comparison and classification (\<open>vu_math.c\<close>).  A \<open>data_type\<close> of 0 selects binary32 operands,
  any other bfloat16 operands in the low half of the word.
\<close>

section \<open>The code\<close>

definition vu_minmax :: "u32 \<Rightarrow> u32 \<Rightarrow> u32 \<Rightarrow> u32 \<Rightarrow> u32 \<Rightarrow> u32" where
  "vu_minmax src1 src2 data_type is_max round_mode =
     (let a_bits = vu_value_to_fp32 src1 data_type; b_bits = vu_value_to_fp32 src2 data_type
      in if vu_fp32_is_nan_bits a_bits \<and> vu_fp32_is_nan_bits b_bits
         then (if data_type \<noteq> 0 then 0x7fc0 else 0x7fc00000)
         else if vu_fp32_is_nan_bits a_bits then src2
         else if vu_fp32_is_nan_bits b_bits then src1
         else if a_bits AND 0x7fffffff = 0 \<and> b_bits AND 0x7fffffff = 0
         then let result_bits = (if is_max \<noteq> 0 then a_bits AND b_bits else a_bits OR b_bits)
              in (if data_type \<noteq> 0 then drop_bit 16 result_bits else result_bits)
         else let a = vu_bits_to_fp32 a_bits; b = vu_bits_to_fp32 b_bits
              in if is_max \<noteq> 0 then (if c_less b a then src1 else src2)
                 else (if c_less a b then src1 else src2))"

definition vu_fp_compare :: "u32 \<Rightarrow> u32 \<Rightarrow> u32 \<Rightarrow> u32 \<Rightarrow> u32" where
  "vu_fp_compare opcode src1 src2 data_type =
     (let a_bits = vu_value_to_fp32 src1 data_type; b_bits = vu_value_to_fp32 src2 data_type
      in if vu_fp32_is_nan_bits a_bits \<or> vu_fp32_is_nan_bits b_bits
         then (if opcode = 0x52 \<or> opcode = 0x53 then 1 else 0)
         else let a = vu_bits_to_fp32 a_bits; b = vu_bits_to_fp32 b_bits; op8 = opcode AND 0xff
              in if op8 = 0x50 \<or> op8 = 0x51 then of_bool (c_eq b a)
                 else if op8 = 0x52 \<or> op8 = 0x53 then of_bool (\<not> c_eq b a)
                 else if op8 = 0x54 \<or> op8 = 0x55 then of_bool (c_less b a)
                 else if op8 = 0x56 \<or> op8 = 0x57 then of_bool (c_le b a)
                 else if op8 = 0x58 then of_bool (c_less a b)
                 else if op8 = 0x59 then of_bool (c_le a b)
                 else 0)"

definition vu_fp_class :: "u32 \<Rightarrow> u32 \<Rightarrow> u32 \<Rightarrow> u32" where
  "vu_fp_class src data_type class_mask =
     (let sign = (if data_type \<noteq> 0 then drop_bit 15 src AND 1 else drop_bit 31 src);
          exp_mask = (if data_type \<noteq> 0 then 0x7f80 else 0x7f800000);
          frac_mask = (if data_type \<noteq> 0 then 0x007f else 0x007fffff);
          quiet_mask = (if data_type \<noteq> 0 then 0x0040 else 0x00400000);
          exponent = src AND exp_mask; fraction = src AND frac_mask;
          class_bit = (if exponent = exp_mask
                       then (if fraction = 0 then (if sign \<noteq> 0 then 0 else 7)
                             else (if fraction AND quiet_mask \<noteq> 0 then 9 else 8))
                       else if exponent = 0
                       then (if fraction = 0 then (if sign \<noteq> 0 then 3 else 4)
                             else (if sign \<noteq> 0 then 2 else 5))
                       else (if sign \<noteq> 0 then 1 else 6))
      in drop_bit class_bit class_mask AND 1)"

section \<open>Operands\<close>

text \<open>
  Widening a bfloat16 multiplies its magnitude code by \<open>2 ^ 16\<close>; it keeps the sign, the class
  and the order.
\<close>

lemma unat_low16: "unat (ucast (v :: u32) :: u16) = unat (v AND 0xffff)"
  using unat_and_mask [of v 16] by (simp add: mask_eq_exp_minus_1 ucast_u32_u16)

lemma bf16_key: "fkey (vu_bf16_to_fp32 v) = fkey (ucast v :: u16) * 2 ^ 16"
  by (simp add: fkey_def vu_bf16_to_fp32_fields)

lemma bf16_nan: "fnan F32 (vu_bf16_to_fp32 v) \<longleftrightarrow> fnan BF16 (ucast v :: u16)"
proof -
  have "0x7F7FFFFF + 1 < m * 2 ^ 16 \<longleftrightarrow> 0x7F7F + 1 < m" for m :: nat by auto
  then show ?thesis by (simp add: fnan_def vu_bf16_to_fp32_fields F32_def BF16_def)
qed

lemma bf16_orders:
  "ieee_eq F32 (vu_bf16_to_fp32 v) (vu_bf16_to_fp32 w) \<longleftrightarrow> ieee_eq BF16 (ucast v :: u16) (ucast w)"
  "ieee_less F32 (vu_bf16_to_fp32 v) (vu_bf16_to_fp32 w) \<longleftrightarrow> ieee_less BF16 (ucast v :: u16) (ucast w)"
  "ieee_le F32 (vu_bf16_to_fp32 v) (vu_bf16_to_fp32 w) \<longleftrightarrow> ieee_le BF16 (ucast v :: u16) (ucast w)"
  by (simp_all add: ieee_eq_def ieee_less_def ieee_le_def bf16_nan bf16_key)

lemma mag_mask32: "w AND 0x7fffffff = 0 \<longleftrightarrow> fmag w = 0" for w :: u32
proof -
  have m: "(0x7fffffff :: u32) = mask 31" by (simp add: mask_eq_exp_minus_1)
  show ?thesis unfolding m word_unat_eq_iff unat_and_mask by (simp add: fmag_def)
qed

lemma key_zero: "fmag a = 0 \<longleftrightarrow> fkey a = 0"
  by (simp add: fkey_def)

section \<open>Comparison\<close>

lemma compare_orders:
  fixes x y :: u32
  defines "a \<equiv> (ucast x :: u16)" and "b \<equiv> (ucast y :: u16)"
  shows "vu_fp_compare 0x50 x y 0 = of_bool (ieee_eq F32 y x) \<and> vu_fp_compare 0x50 x y 1 = of_bool (ieee_eq BF16 b a) \<and>
    vu_fp_compare 0x52 x y 0 = of_bool (\<not> ieee_eq F32 y x) \<and> vu_fp_compare 0x52 x y 1 = of_bool (\<not> ieee_eq BF16 b a) \<and>
    vu_fp_compare 0x54 x y 0 = of_bool (ieee_less F32 y x) \<and> vu_fp_compare 0x54 x y 1 = of_bool (ieee_less BF16 b a) \<and>
    vu_fp_compare 0x56 x y 0 = of_bool (ieee_le F32 y x) \<and> vu_fp_compare 0x56 x y 1 = of_bool (ieee_le BF16 b a) \<and>
    vu_fp_compare 0x58 x y 0 = of_bool (ieee_less F32 x y) \<and> vu_fp_compare 0x58 x y 1 = of_bool (ieee_less BF16 a b) \<and>
    vu_fp_compare 0x59 x y 0 = of_bool (ieee_le F32 x y) \<and> vu_fp_compare 0x59 x y 1 = of_bool (ieee_le BF16 a b)"
proof -
  have n: "\<not> ieee_eq F u v" "\<not> ieee_less F u v" "\<not> ieee_le F u v" if "fnan F u \<or> fnan F v"
    for F and u v :: "'a::len word"
    using that by (auto simp: ieee_eq_def ieee_less_def ieee_le_def)
  show ?thesis
    using n [of F32 x y] n [of F32 y x] n [of BF16 a b] n [of BF16 b a]
    by (simp add: vu_fp_compare_def Let_def vu_value_to_fp32_def nan_bits_iff vu_bits_to_fp32_def
        c_eq_def c_less_def c_le_def bf16_nan bf16_orders a_def b_def)
qed

text \<open>
  The comparison opcodes 0x50 to 0x59 of \<open>vu_fp_compare\<close> decide the IEEE relations between
  \<open>src2\<close> (on the left) and \<open>src1\<close>, in both data types: a NaN operand makes every relation false
  but the inequality, and the two zeros are equal.
\<close>

theorem vu_fp_compare_correct:
  fixes x y :: u32
  defines "a \<equiv> (ucast x :: u16)" and "b \<equiv> (ucast y :: u16)"
  shows "vu_fp_compare 0x50 x y 0 = of_bool (ieee_eq F32 y x) \<and> vu_fp_compare 0x50 x y 1 = of_bool (ieee_eq BF16 b a) \<and>
    vu_fp_compare 0x52 x y 0 = of_bool (\<not> ieee_eq F32 y x) \<and> vu_fp_compare 0x52 x y 1 = of_bool (\<not> ieee_eq BF16 b a) \<and>
    vu_fp_compare 0x54 x y 0 = of_bool (ieee_less F32 y x) \<and> vu_fp_compare 0x54 x y 1 = of_bool (ieee_less BF16 b a) \<and>
    vu_fp_compare 0x56 x y 0 = of_bool (ieee_le F32 y x) \<and> vu_fp_compare 0x56 x y 1 = of_bool (ieee_le BF16 b a) \<and>
    vu_fp_compare 0x58 x y 0 = of_bool (ieee_less F32 x y) \<and> vu_fp_compare 0x58 x y 1 = of_bool (ieee_less BF16 a b) \<and>
    vu_fp_compare 0x59 x y 0 = of_bool (ieee_le F32 x y) \<and> vu_fp_compare 0x59 x y 1 = of_bool (ieee_le BF16 a b)"
  unfolding a_def b_def by (rule compare_orders)

text \<open>
  The NaN test of \<open>vu_fp_compare\<close> looks at the whole opcode and not at its low byte: opcode
  0x152, whose low byte is the inequality, says that a NaN is not unequal to 1, while it does
  say that 2 is unequal to 1.
\<close>

theorem vu_fp_compare_opcode_unmasked:
  "vu_fp_compare 0x152 0x7FC00000 0x3F800000 0 = 0 \<and> vu_fp_compare 0x52 0x7FC00000 0x3F800000 0 = 1 \<and>
   vu_fp_compare 0x152 0x40000000 0x3F800000 0 = 1"
  by (simp add: vu_fp_compare_def vu_value_to_fp32_def vu_fp32_is_nan_bits_def vu_bits_to_fp32_def
      c_eq_def ieee_eq_def fkey_def fnan_def fneg_def fmag_def F32_def)

section \<open>Classification\<close>

context float_macros
begin

text \<open>The class of an encoding from its exponent and fraction fields.\<close>

lemma class_fields:
  fixes a :: "'a word"
  defines "e \<equiv> fmag a div 2 ^ fb" and "f \<equiv> fmag a mod 2 ^ fb"
  shows "ieee_class F a =
    (if e = 2 ^ n - 1 then (if f = 0 then (if fneg a then 0 else 7) else (if 2 ^ (fb - 1) \<le> f then 9 else 8))
     else if e = 0 then (if f = 0 then (if fneg a then 3 else 4) else (if fneg a then 2 else 5))
     else (if fneg a then 1 else 6))"
proof -
  have fm: "fmag a = e * 2 ^ fb + f" unfolding e_def f_def by (rule div_mult_mod_eq [symmetric])
  have fl: "f < 2 ^ fb" by (simp add: f_def)
  have el: "e < 2 ^ n" unfolding e_def by (rule less_mult_imp_div_less) (rule fmag_bound)
  have "(2::nat) ^ 1 \<le> 2 ^ n" using bits by (intro power_increasing) simp_all
  then have n1: "0 < (2::nat) ^ n - 1" by simp
  show ?thesis
  proof (cases "e = 2 ^ n - 1")
    case True
    then show ?thesis using fm F by (simp add: ieee_class_def fnan_def finf_def)
  next
    case False
    then have "e + 1 \<le> 2 ^ n - 1" using el by linarith
    then have "(e + 1) * 2 ^ fb \<le> (2 ^ n - 1) * 2 ^ fb" by (intro mult_right_mono) simp_all
    then have lt: "fmag a < (2 ^ n - 1) * 2 ^ fb" using fm fl by (simp add: algebra_simps)
    have z: "e = 0 \<longleftrightarrow> fmag a < 2 ^ fb" by (simp add: e_def div_eq_0_iff)
    have nf: "\<not> fnan F a" "\<not> finf F a" using lt F(2) by (simp_all add: fnan_def finf_def)
    have "fmag a = 0 \<longleftrightarrow> e = 0 \<and> f = 0" by (simp add: fm)
    then show ?thesis using False by (simp only: ieee_class_def nf F z [symmetric]) simp
  qed
qed

end

lemma bit_top_field:
  assumes "f < 2 ^ Suc k"
  shows "bit f k \<longleftrightarrow> 2 ^ k \<le> (f :: nat)"
proof -
  have "f div 2 ^ k = of_bool (2 ^ k \<le> f)"
    using assms by (cases "2 ^ k \<le> f") (simp_all add: div_nat_eqI)
  then show ?thesis by (simp add: bit_iff_odd)
qed

text \<open>The fields of the word that the code masks out.\<close>

lemma class_code:
  fixes src em fm qm :: u32 and a :: "'a::len word"
  assumes e: "unat (src AND em) = fmag a div 2 ^ fb * 2 ^ fb" "unat em = (2 ^ n - 1) * 2 ^ fb"
    and f: "unat (src AND fm) = fmag a mod 2 ^ fb" and q: "qm = push_bit (fb - 1) 1" "0 < fb" "fb \<le> 32"
  shows "src AND em = em \<longleftrightarrow> fmag a div 2 ^ fb = 2 ^ n - 1" "src AND em = 0 \<longleftrightarrow> fmag a div 2 ^ fb = 0"
    "src AND fm = 0 \<longleftrightarrow> fmag a mod 2 ^ fb = 0" "(src AND fm) AND qm \<noteq> 0 \<longleftrightarrow> 2 ^ (fb - 1) \<le> fmag a mod 2 ^ fb"
proof -
  show "src AND em = em \<longleftrightarrow> fmag a div 2 ^ fb = 2 ^ n - 1" by (simp add: word_unat_eq_iff e)
  show "src AND em = 0 \<longleftrightarrow> fmag a div 2 ^ fb = 0" by (simp only: word_unat_eq_iff e) simp
  show "src AND fm = 0 \<longleftrightarrow> fmag a mod 2 ^ fb = 0" by (simp only: word_unat_eq_iff f) simp
  have "(src AND fm) AND qm \<noteq> 0 \<longleftrightarrow> bit (src AND fm) (fb - 1)"
    by (simp add: q push_bit_of_1 and_exp_eq_0_iff_not_bit)
  also have "\<dots> \<longleftrightarrow> bit (fmag a mod 2 ^ fb) (fb - 1)" by (simp flip: f add: bit_unsigned_iff)
  also have "\<dots> \<longleftrightarrow> 2 ^ (fb - 1) \<le> fmag a mod 2 ^ fb"
    by (rule bit_top_field) (use q in simp)
  finally show "(src AND fm) AND qm \<noteq> 0 \<longleftrightarrow> 2 ^ (fb - 1) \<le> fmag a mod 2 ^ fb" .
qed

lemma field_of:
  assumes "em = push_bit fb (mask n)" "fb + n \<le> 32"
  shows "unat (src AND em) = unat (src :: u32) div 2 ^ fb mod 2 ^ n * 2 ^ fb"
  using assms unat_and_field [of fb n src] by simp

lemma bit_and_1: "(drop_bit c m AND 1 :: u32) = of_bool (bit m c)"
  by (rule bit_eqI) (auto simp: bit_simps)

lemma vu_class_ieee:
  "vu_fp_class src 0 class_mask = of_bool (bit class_mask (ieee_class F32 src)) \<and>
   vu_fp_class src 1 class_mask = of_bool (bit class_mask (ieee_class BF16 (ucast src :: u16)))"
proof
  have s32: "drop_bit 31 src \<noteq> 0 \<longleftrightarrow> fneg src"
    by (simp add: word_unat_eq_iff unat_drop_bit fneg_def div_eq_0_iff not_less)
  have d: "unat src div 2 ^ 23 mod 2 ^ 8 = fmag src div 2 ^ 23" "unat src mod 2 ^ 23 = fmag src mod 2 ^ 23"
    using f32m.fields [of src] by simp_all
  have e: "unat (src AND 0x7f800000) = fmag src div 2 ^ 23 * 2 ^ 23"
    using field_of [of "0x7f800000" 23 8 src] d by (simp add: mask_eq_exp_minus_1)
  have f: "unat (src AND 0x007fffff) = fmag src mod 2 ^ 23" by (rule frac_field32)
  note c = class_code [OF e _ f, of 8 "0x00400000"]
  show "vu_fp_class src 0 class_mask = of_bool (bit class_mask (ieee_class F32 src))"
    using c by (simp add: vu_fp_class_def Let_def s32 bit_and_1 f32m.class_fields push_bit_of_1)
next
  define w where "w = (ucast src :: u16)"
  have u: "unat w = unat src mod 2 ^ 16" by (simp add: w_def ucast_u32_u16)
  have s16: "bit src 15 \<longleftrightarrow> fneg w"
    by (simp add: bf16m.fneg_bit w_def bit_simps)
  have d: "unat w div 2 ^ 7 mod 2 ^ 8 = fmag w div 2 ^ 7" "unat w mod 2 ^ 7 = fmag w mod 2 ^ 7"
    using bf16m.fields [of w] by simp_all
  have r: "m mod 2 ^ 16 div 2 ^ 7 mod 2 ^ 8 = m div 2 ^ 7 mod 2 ^ 8" for m :: nat
  proof -
    have "m mod (2 ^ 7 * 2 ^ 9) div 2 ^ 7 = m div 2 ^ 7 mod 2 ^ 9" by (simp only: mod_mult2_eq) simp
    then show ?thesis by (simp add: mod_mod_cancel)
  qed
  have e: "unat (src AND 0x7f80) = fmag w div 2 ^ 7 * 2 ^ 7"
    using field_of [of "0x7f80" 7 8 src] d r [of "unat src"] by (simp add: u mask_eq_exp_minus_1)
  have f: "unat (src AND 0x7f) = fmag w mod 2 ^ 7"
    unfolding d(2) [symmetric] u by (simp add: unat_and_literal mod_mod_cancel)
  note c = class_code [OF e _ f, of 8 "0x40"]
  show "vu_fp_class src 1 class_mask = of_bool (bit class_mask (ieee_class BF16 (ucast src :: u16)))"
    using c by (simp add: vu_fp_class_def Let_def s16 bit_and_1 bf16m.class_fields push_bit_of_1 flip: w_def)
qed

text \<open>
  \<open>vu_fp_class\<close> returns the bit of \<open>class_mask\<close> that the RISC-V class number of the operand
  selects, in both data types.
\<close>

theorem vu_fp_class_correct:
  "vu_fp_class src 0 class_mask = of_bool (bit class_mask (ieee_class F32 src)) \<and>
   vu_fp_class src 1 class_mask = of_bool (bit class_mask (ieee_class BF16 (ucast src :: u16)))"
  by (rule vu_class_ieee)

section \<open>Maximum and minimum\<close>

lemma minmax_of_key:
  fixes a b :: "'a::len word"
  assumes "\<not> fnan F a" "\<not> fnan F b" "\<not> (fmag a = 0 \<and> fmag b = 0)"
  shows "(if fkey b < fkey a then a else b) = ieee_max F a b" "(if fkey a < fkey b then a else b) = ieee_min F a b"
  using assms key_eq [of a b] by (auto simp: ieee_max_def ieee_min_def tkey_less)

lemma zero_cases:
  assumes "fmag (a :: 'a::len word) = 0"
  obtains "a = fpack False 0" "\<not> fneg a" | "a = fpack True 0" "fneg a"
  using assms fpack_fneg_fmag [of a] by (metis (full_types))

lemma minmax_of_zeros:
  "fmag (a :: u32) = 0 \<Longrightarrow> fmag b = 0 \<Longrightarrow> ieee_max F32 a b = a AND b \<and> ieee_min F32 a b = a OR b"
  "fmag (c :: u16) = 0 \<Longrightarrow> fmag d = 0 \<Longrightarrow> ieee_max BF16 c d = c AND d \<and> ieee_min BF16 c d = c OR d"
  by (erule zero_cases; erule zero_cases; simp add: ieee_max_def ieee_min_def fnan_def tkey_def fpack_def fmag_def fneg_def F32_def BF16_def)+

lemma bf16_widen: "vu_bf16_to_fp32 (ucast a) = push_bit 16 (ucast (a :: u16))"
proof -
  have "unat (ucast a AND 0xffff :: u32) = unat a mod 2 ^ 16"
    using unat_and_mask [of "ucast a :: u32" 16] by (simp add: mask_eq_exp_minus_1)
  also have "\<dots> = unat (ucast a :: u32)" using unsigned_less [of a, where ?'a = nat] by simp
  finally show ?thesis unfolding vu_bf16_to_fp32_def by (simp only: word_unat_eq_iff [symmetric])
qed

lemma bf16_zero_bits:
  fixes a b :: u16
  shows "drop_bit 16 (vu_bf16_to_fp32 (ucast a) AND vu_bf16_to_fp32 (ucast b)) = ucast (a AND b)"
    "drop_bit 16 (vu_bf16_to_fp32 (ucast a) OR vu_bf16_to_fp32 (ucast b)) = ucast (a OR b)"
  by (rule bit_eqI; auto simp: bf16_widen bit_simps dest: bit_imp_le_length)+

lemma minmax_ieee:
  "vu_minmax x y 0 is_max rm = (if is_max \<noteq> 0 then ieee_max F32 x y else ieee_min F32 x y) \<and>
   vu_minmax (ucast a) (ucast b) 1 is_max rm = ucast (if is_max \<noteq> 0 then ieee_max BF16 a b else ieee_min BF16 a b :: u16)"
proof
  show "vu_minmax x y 0 is_max rm = (if is_max \<noteq> 0 then ieee_max F32 x y else ieee_min F32 x y)"
  proof -
    consider "fnan F32 x \<or> fnan F32 y" | (zeros) "fmag x = 0" "fmag y = 0" "\<not> fnan F32 x" "\<not> fnan F32 y"
      | (num) "\<not> fnan F32 x" "\<not> fnan F32 y" "\<not> (fmag x = 0 \<and> fmag y = 0)" by argo
    then show ?thesis
    proof cases
      case 1
      then show ?thesis
        by (auto simp: vu_minmax_def Let_def vu_value_to_fp32_def nan_bits_iff ieee_max_def ieee_min_def)
    next
      case zeros
      then show ?thesis using minmax_of_zeros(1) [of x y]
        by (simp add: vu_minmax_def Let_def vu_value_to_fp32_def nan_bits_iff mag_mask32)
    next
      case num
      then show ?thesis using minmax_of_key [of F32 x y]
        by (auto simp: vu_minmax_def Let_def vu_value_to_fp32_def nan_bits_iff mag_mask32 vu_bits_to_fp32_def c_less_def ieee_less_def)
    qed
  qed
next
  have u: "ucast (ucast v :: u32) = v" for v :: u16 by (simp add: word_unat_eq_iff ucast_u32_u16)
  have m: "fmag (vu_bf16_to_fp32 (ucast v)) = 0 \<longleftrightarrow> fmag v = 0" for v :: u16
    by (simp add: vu_bf16_to_fp32_fields u)
  show "vu_minmax (ucast a) (ucast b) 1 is_max rm = ucast (if is_max \<noteq> 0 then ieee_max BF16 a b else ieee_min BF16 a b :: u16)"
  proof -
    consider "fnan BF16 a \<or> fnan BF16 b" | (zeros) "fmag a = 0" "fmag b = 0" "\<not> fnan BF16 a" "\<not> fnan BF16 b"
      | (num) "\<not> fnan BF16 a" "\<not> fnan BF16 b" "\<not> (fmag a = 0 \<and> fmag b = 0)" by argo
    then show ?thesis
    proof cases
      case 1
      then show ?thesis
        by (auto simp: vu_minmax_def Let_def vu_value_to_fp32_def nan_bits_iff bf16_nan u ieee_max_def ieee_min_def)
    next
      case zeros
      then show ?thesis using minmax_of_zeros(2) [of a b]
        by (auto simp: vu_minmax_def Let_def vu_value_to_fp32_def nan_bits_iff bf16_nan mag_mask32 u m bf16_zero_bits [simplified])
    next
      case num
      then show ?thesis using minmax_of_key [of BF16 a b]
        by (auto simp: vu_minmax_def Let_def vu_value_to_fp32_def nan_bits_iff bf16_nan mag_mask32 u m vu_bits_to_fp32_def
            c_less_def bf16_key ieee_less_def)
    qed
  qed
qed

text \<open>
  \<open>vu_minmax\<close> computes the IEEE maximumNumber and minimumNumber of two binary32 and of two
  bfloat16 operands: one NaN is ignored, two NaNs give the canonical NaN, and -0 is below +0.
\<close>

theorem vu_minmax_correct:
  "vu_minmax x y 0 is_max rm = (if is_max \<noteq> 0 then ieee_max F32 x y else ieee_min F32 x y) \<and>
   vu_minmax (ucast a) (ucast b) 1 is_max rm = ucast (if is_max \<noteq> 0 then ieee_max BF16 a b else ieee_min BF16 a b :: u16)"
  by (rule minmax_ieee)

end
