(* ===== verification/Vu_Math.thy ===== *)
theory Vu_Math
  imports Vu_Mpfr Vu_Alu
begin

text \<open>
  The arithmetic of the vector unit's reference model (\<open>vu_math.c\<close>): the evaluation of an
  operation at a working precision, rounded down and up, the loop of \<open>vu_math_result\<close> that
  doubles the precision until both bounds round to the same encoding, and the operations
  \<open>vu_fp_alu\<close>, \<open>vu_fp_vsfu\<close>, \<open>vu_fp_sexe\<close> built on it.  The loop may run for ever, so its
  definition takes the number of rounds it may make and returns \<open>None\<close> when they do not suffice.
\<close>

section \<open>The code\<close>

datatype vu_math_operation =
  VU_ADD | VU_SUB | VU_MUL | VU_DIV | VU_FMA
| VU_SIN | VU_COS | VU_TANH | VU_SIGMOID | VU_EXP | VU_EXP2
| VU_LOG | VU_LOG2 | VU_SQRT | VU_RCP | VU_RSQRT

definition vu_mpfr_evaluate ::
  "'m mpfr \<Rightarrow> nat \<Rightarrow> vu_math_operation \<Rightarrow> 'm \<Rightarrow> 'm \<Rightarrow> 'm \<Rightarrow> mpfr_rnd \<Rightarrow> 'm \<times> int" where
  "vu_mpfr_evaluate M prec operation a b c rounding =
     (case operation of
        VU_ADD \<Rightarrow> mpfr_add M prec a b rounding
      | VU_SUB \<Rightarrow> mpfr_sub M prec a b rounding
      | VU_MUL \<Rightarrow> mpfr_mul M prec a b rounding
      | VU_DIV \<Rightarrow> mpfr_div M prec a b rounding
      | VU_FMA \<Rightarrow> mpfr_fma M prec a b c rounding
      | VU_SIN \<Rightarrow> mpfr_sin M prec a rounding
      | VU_COS \<Rightarrow> mpfr_cos M prec a rounding
      | VU_TANH \<Rightarrow> mpfr_tanh M prec a rounding
      | VU_EXP \<Rightarrow> mpfr_exp M prec a rounding
      | VU_EXP2 \<Rightarrow> mpfr_exp2 M prec a rounding
      | VU_LOG \<Rightarrow> mpfr_log M prec a rounding
      | VU_LOG2 \<Rightarrow> mpfr_log2 M prec a rounding
      | VU_SQRT \<Rightarrow> mpfr_sqrt M prec a rounding
      | VU_RCP \<Rightarrow> mpfr_ui_div M prec 1 a rounding
      | VU_RSQRT \<Rightarrow> mpfr_rec_sqrt M prec a rounding
      | VU_SIGMOID \<Rightarrow>
          let inverse = (if rounding = MPFR_RNDD then MPFR_RNDU else MPFR_RNDD);
              temporary = fst (mpfr_neg M prec a MPFR_RNDN);
              (temporary, inexact1) = mpfr_exp M prec temporary inverse;
              (temporary, inexact2) = mpfr_add_ui M prec temporary 1 inverse;
              (result, inexact3) = mpfr_ui_div M prec 1 temporary rounding
          in (result, of_bool (inexact1 \<noteq> 0 \<or> inexact2 \<noteq> 0 \<or> inexact3 \<noteq> 0)))"

text \<open>The conversion of a \<open>float\<close> to \<open>double\<close> is exact.\<close>

definition c_double :: "u32 \<Rightarrow> u64" where
  "c_double a = (if fnan F32 a then qnan F64 else if finf F32 a then infty F64 (fneg a)
                 else fround F64 RNE (fneg a) (fval F32 a))"

text \<open>The arguments of the exponential functions beyond 256 in magnitude.\<close>

definition vu_huge_p :: "'m mpfr \<Rightarrow> vu_math_operation \<Rightarrow> 'm \<Rightarrow> bool" where
  "vu_huge_p M operation a \<longleftrightarrow>
     mpfr_number_p M a \<and>
     (operation = VU_EXP \<or> operation = VU_EXP2 \<or> operation = VU_SIGMOID \<or> operation = VU_TANH) \<and>
     (mpfr_cmp_si M a 256 > 0 \<or> mpfr_cmp_si M a (- 256) < 0)"

definition vu_huge_result :: "'m mpfr \<Rightarrow> nat \<Rightarrow> vu_math_operation \<Rightarrow> 'm \<Rightarrow> u32 \<Rightarrow> u32 \<Rightarrow> u32" where
  "vu_huge_result M precision operation a data_type round_mode =
     (if operation = VU_TANH
      then let negative = mpfr_sgn M a < 0;
               lower = fst (mpfr_set_si M precision (if negative then - 1 else 1) MPFR_RNDN)
           in vu_mpfr_to_value M lower data_type round_mode (if negative then 1 else - 1)
      else if operation = VU_SIGMOID \<and> mpfr_sgn M a > 0
      then let lower = fst (mpfr_set_ui M precision 1 MPFR_RNDN)
           in vu_mpfr_to_value M lower data_type round_mode (- 1)
      else let lower = fst (mpfr_set_ui_2exp M precision 1 (if mpfr_sgn M a > 0 then 512 else - 512) MPFR_RNDN)
           in vu_mpfr_to_value M lower data_type round_mode 0)"

fun vu_math_loop ::
  "'m mpfr \<Rightarrow> vu_math_operation \<Rightarrow> 'm \<Rightarrow> 'm \<Rightarrow> 'm \<Rightarrow> u32 \<Rightarrow> u32 \<Rightarrow> nat \<Rightarrow> nat \<Rightarrow> u32 option" where
  "vu_math_loop M operation a b c data_type round_mode 0 precision = None"
| "vu_math_loop M operation a b c data_type round_mode (Suc fuel) precision =
     (let (lower, low_inexact) = vu_mpfr_evaluate M precision operation a b c MPFR_RNDD;
          (upper, high_inexact) = vu_mpfr_evaluate M precision operation a b c MPFR_RNDU
      in if mpfr_zero_p M lower \<and> mpfr_zero_p M upper \<and> low_inexact = 0 \<and> high_inexact = 0
         then Some (vu_mpfr_to_value M (if round_mode = 2 then lower else upper) data_type round_mode 0)
         else let low_bits = vu_mpfr_to_value M lower data_type round_mode (if low_inexact \<noteq> 0 then 1 else 0);
                  high_bits = vu_mpfr_to_value M upper data_type round_mode (if high_inexact \<noteq> 0 then - 1 else 0)
              in if low_bits = high_bits then Some low_bits
                 else vu_math_loop M operation a b c data_type round_mode fuel (precision * 2))"

definition vu_math_result ::
  "'m mpfr \<Rightarrow> nat \<Rightarrow> vu_math_operation \<Rightarrow> u32 \<Rightarrow> u32 \<Rightarrow> u32 \<Rightarrow> u32 \<Rightarrow> u32 \<Rightarrow> u32 option" where
  "vu_math_result M fuel operation a_bits b_bits c_bits data_type round_mode =
     (let precision = 64;
          a = fst (mpfr_set_d M precision (c_double (vu_bits_to_fp32 a_bits)) MPFR_RNDN);
          b = fst (mpfr_set_d M precision (c_double (vu_bits_to_fp32 b_bits)) MPFR_RNDN);
          c = fst (mpfr_set_d M precision (c_double (vu_bits_to_fp32 c_bits)) MPFR_RNDN)
      in if vu_huge_p M operation a
         then Some (vu_huge_result M precision operation a data_type round_mode)
         else vu_math_loop M operation a b c data_type round_mode fuel precision)"

definition vu_fp_alu :: "'m mpfr \<Rightarrow> nat \<Rightarrow> u32 \<Rightarrow> u32 \<Rightarrow> u32 \<Rightarrow> u32 \<Rightarrow> u32 \<Rightarrow> u32 \<Rightarrow> u32 option" where
  "vu_fp_alu M fuel opcode src1 src2 src3 data_type round_mode =
     (let a = vu_value_to_fp32 src1 data_type; b = vu_value_to_fp32 src2 data_type;
          c = vu_value_to_fp32 src3 data_type; op8 = opcode AND 0xff;
          sign_mask = (if data_type \<noteq> 0 then 0x8000 else 0x80000000);
          result = (\<lambda>operation a b c. vu_math_result M fuel operation a b c data_type round_mode)
      in if op8 = 0x01 \<or> op8 = 0x02 then result VU_ADD a b c
         else if op8 = 0x03 \<or> op8 = 0x04 then result VU_SUB b a 0
         else if op8 = 0x05 then result VU_SUB a b c
         else if op8 = 0x06 \<or> op8 = 0x07 then result VU_MUL a b c
         else if op8 = 0x08 then result VU_DIV b a 0
         else if op8 = 0x10 \<or> op8 = 0x11 then Some (vu_minmax src1 src2 data_type 0 round_mode)
         else if op8 = 0x12 \<or> op8 = 0x13 then Some (vu_minmax src1 src2 data_type 1 round_mode)
         else if op8 = 0x30 \<or> op8 = 0x31 then result VU_FMA a b c
         else if op8 = 0x32 \<or> op8 = 0x33 then result VU_FMA (a XOR 0x80000000) b (c XOR 0x80000000)
         else if op8 = 0x34 \<or> op8 = 0x35 then result VU_FMA a b (c XOR 0x80000000)
         else if op8 = 0x36 \<or> op8 = 0x37 then result VU_FMA (a XOR 0x80000000) b c
         else if op8 = 0x40 \<or> op8 = 0x41 then Some ((src2 AND NOT sign_mask) OR (src1 AND sign_mask))
         else if op8 = 0x42 \<or> op8 = 0x43 then Some ((src2 AND NOT sign_mask) OR (NOT src1 AND sign_mask))
         else if op8 = 0x44 \<or> op8 = 0x45 then Some ((src2 AND NOT sign_mask) OR ((src2 XOR src1) AND sign_mask))
         else Some src2)"

definition vu_fp_vsfu :: "'m mpfr \<Rightarrow> nat \<Rightarrow> u32 \<Rightarrow> u32 \<Rightarrow> u32 \<Rightarrow> u32 \<Rightarrow> u32 option" where
  "vu_fp_vsfu M fuel opcode src data_type round_mode =
     (let op8 = opcode AND 0xff;
          result = (\<lambda>operation. vu_math_result M fuel operation (vu_value_to_fp32 src data_type) 0 0 data_type round_mode)
      in if op8 = 0x01 then result VU_SIN else if op8 = 0x02 then result VU_COS
         else if op8 = 0x03 then result VU_TANH else if op8 = 0x04 then result VU_SIGMOID
         else if op8 = 0x05 then result VU_EXP else if op8 = 0x06 then result VU_EXP2
         else if op8 = 0x07 then result VU_LOG else if op8 = 0x08 then result VU_LOG2
         else if op8 = 0x09 then result VU_SQRT else if op8 = 0x0a then result VU_RCP
         else if op8 = 0x0b then result VU_RSQRT else Some src)"

definition vu_fp_sexe :: "'m mpfr \<Rightarrow> nat \<Rightarrow> u32 \<Rightarrow> u32 \<Rightarrow> u32 \<Rightarrow> u32 option" where
  "vu_fp_sexe M fuel opcode src1 src2 =
     (let op8 = opcode AND 0xff; result = (\<lambda>operation. vu_math_result M fuel operation src1 src2 0 0 0)
      in if op8 = 0x01 then result VU_ADD else if op8 = 0x02 then result VU_SUB
         else if op8 = 0x03 then result VU_MUL else if op8 = 0x04 then result VU_DIV
         else if op8 = 0x05 then result VU_SQRT else if op8 = 0x06 then result VU_RSQRT
         else if op8 = 0x07 then result VU_RCP else Some src1)"

section \<open>Exact results\<close>

text \<open>The exact result of an operation, and the encoding it should have.\<close>

fun ideal_sigmoid :: "mval \<Rightarrow> mval" where
  "ideal_sigmoid MNan = MNan"
| "ideal_sigmoid (MInf s) = (if s then MZero False else MNum 1)"
| "ideal_sigmoid x = MNum (1 / (1 + exp (- mreal x)))"

definition vu_ideal :: "vu_math_operation \<Rightarrow> mpfr_rnd \<Rightarrow> mval \<Rightarrow> mval \<Rightarrow> mval \<Rightarrow> mval" where
  "vu_ideal operation r a b c =
     (case operation of
        VU_ADD \<Rightarrow> ideal_add r a b | VU_SUB \<Rightarrow> ideal_sub r a b | VU_MUL \<Rightarrow> ideal_mul a b
      | VU_DIV \<Rightarrow> ideal_div a b | VU_FMA \<Rightarrow> ideal_fma r a b c | VU_SIN \<Rightarrow> ideal_sin r a
      | VU_COS \<Rightarrow> ideal_cos r a | VU_TANH \<Rightarrow> ideal_tanh a | VU_SIGMOID \<Rightarrow> ideal_sigmoid a
      | VU_EXP \<Rightarrow> ideal_exp a | VU_EXP2 \<Rightarrow> ideal_exp2 a | VU_LOG \<Rightarrow> ideal_log a
      | VU_LOG2 \<Rightarrow> ideal_log2 a | VU_SQRT \<Rightarrow> ideal_sqrt a | VU_RCP \<Rightarrow> ideal_div (MNum 1) a
      | VU_RSQRT \<Rightarrow> ideal_rec_sqrt a)"

fun vu_code :: "u32 \<Rightarrow> u32 \<Rightarrow> mval \<Rightarrow> u32" where
  "vu_code data_type round_mode MNan = (if data_type \<noteq> 0 then 0x7fc0 else 0x7fc00000)"
| "vu_code data_type round_mode (MInf s) = vu_word data_type s (maxfin (vu_fmt data_type) + 1)"
| "vu_code data_type round_mode (MZero s) = vu_word data_type s 0"
| "vu_code data_type round_mode (MNum v) = vu_round data_type round_mode v"

definition f32_val :: "u32 \<Rightarrow> mval" where
  "f32_val w =
     (if fnan F32 w then MNan else if finf F32 w then MInf (fneg w)
      else if fmag w = 0 then MZero (fneg w) else MNum (of_rat (fval F32 w)))"

text \<open>The direction that decides the sign of an exact zero.\<close>

definition zero_rnd :: "u32 \<Rightarrow> mpfr_rnd" where
  "zero_rnd round_mode = (if round_mode = 2 then MPFR_RNDD else MPFR_RNDU)"

section \<open>Bounds\<close>

definition lower_ok :: "'m mpfr \<Rightarrow> ('m \<Rightarrow> mval) \<Rightarrow> nat \<Rightarrow> mval \<Rightarrow> 'm \<times> int \<Rightarrow> bool" where
  "lower_ok M sem p I y \<longleftrightarrow> mpfr_get_prec M (fst y) = p \<and>
     (case I of MNum v \<Rightarrow> \<exists>l. sem (fst y) = MNum l \<and> mrange l \<and> (if snd y = 0 then l = v else l < v)
      | _ \<Rightarrow> sem (fst y) = I \<and> snd y = 0)"

definition upper_ok :: "'m mpfr \<Rightarrow> ('m \<Rightarrow> mval) \<Rightarrow> nat \<Rightarrow> mval \<Rightarrow> 'm \<times> int \<Rightarrow> bool" where
  "upper_ok M sem p I y \<longleftrightarrow> mpfr_get_prec M (fst y) = p \<and>
     (case I of MNum v \<Rightarrow> \<exists>h. sem (fst y) = MNum h \<and> mrange h \<and> (if snd y = 0 then h = v else v < h)
      | _ \<Rightarrow> sem (fst y) = I \<and> snd y = 0)"

lemma delivers_bounds:
  assumes p: "0 < p"
  shows "delivers M sem p MPFR_RNDD J y \<Longrightarrow> (\<forall>v. J = MNum v \<longrightarrow> mrange v) \<Longrightarrow> lower_ok M sem p J y"
    and "delivers M sem p MPFR_RNDU J y \<Longrightarrow> (\<forall>v. J = MNum v \<longrightarrow> mrange v) \<Longrightarrow> upper_ok M sem p J y"
proof -
  show "delivers M sem p MPFR_RNDD J y \<Longrightarrow> (\<forall>v. J = MNum v \<longrightarrow> mrange v) \<Longrightarrow> lower_ok M sem p J y"
    unfolding delivers_def lower_ok_def using correct_range [OF _ _ p] correct_down
    by (cases J) (auto split: if_splits)
  show "delivers M sem p MPFR_RNDU J y \<Longrightarrow> (\<forall>v. J = MNum v \<longrightarrow> mrange v) \<Longrightarrow> upper_ok M sem p J y"
    unfolding delivers_def upper_ok_def using correct_range [OF _ _ p] correct_up
    by (cases J) (auto split: if_splits)
qed

lemma to_value_special:
  assumes ok: "mpfr_ok M sem"
  shows "sem x = MNan \<Longrightarrow> vu_mpfr_to_value M x data_type rm side = vu_code data_type rm MNan"
    and "sem x = MInf s \<Longrightarrow> vu_mpfr_to_value M x data_type rm side = vu_code data_type rm (MInf s)"
proof -
  show "sem x = MNan \<Longrightarrow> vu_mpfr_to_value M x data_type rm side = vu_code data_type rm MNan"
    using mpfr_queriesD(1) [OF ok, of x] by (simp add: vu_mpfr_to_value_def)
  assume s: "sem x = MInf s"
  then have q: "\<not> mpfr_nan_p M x" "mpfr_inf_p M x" "\<not> mpfr_zero_p M x" "mpfr_signbit M x = s"
    using mpfr_queriesD [OF ok, of x] by auto
  show "vu_mpfr_to_value M x data_type rm side = vu_code data_type rm (MInf s)"
    using q vu_word_or [of "if data_type \<noteq> 0 then 0x7f80 else 0x7f800000" "maxfin (vu_fmt data_type) + 1" data_type s]
    by (simp add: vu_mpfr_to_value_def vu_fmt_def F32_def BF16_def split: if_splits)
qed

text \<open>A number in the range is delivered as some number of the precision.\<close>

lemma delivers_numE:
  assumes "delivers M sem p r (MNum v) y" "mrange v" "0 < p"
  obtains w where "sem (fst y) = MNum w" "correct p r v w (snd y)" "mpfr_get_prec M (fst y) = p" "mrange w"
  using assms correct_range(1) by (auto simp: delivers_def)

lemma mrangeI:
  assumes "2 powi (- k) \<le> \<bar>v\<bar>" "\<bar>v\<bar> \<le> 2 powi k" "k \<le> mpfr_emax"
  shows "mrange v"
proof -
  have "(2::real) powi (- mpfr_emax) \<le> 2 powi (- k)" "(2::real) powi k \<le> 2 powi mpfr_emax"
    using assms(3) by (intro power_int_increasing; simp)+
  then show ?thesis using assms unfolding mrange_def by linarith
qed

lemma emax_ge: "k \<le> 1024 \<Longrightarrow> k \<le> mpfr_emax"
  by (simp add: mpfr_emax_def)

lemma exp_256: "\<bar>x\<bar> \<le> 256 \<Longrightarrow> 2 powi (- 512) \<le> exp x \<and> exp (x :: real) \<le> 2 powi 512"
proof -
  have e: "exp (256 :: real) \<le> 2 powi 512"
  proof -
    have "exp (256 :: real) = exp 1 ^ 256" by (simp flip: exp_of_nat_mult)
    also have "\<dots> \<le> 4 ^ 256" by (intro power_mono) (use exp_le in linarith, simp)
    also have "\<dots> = (2 powi 512 :: real)" by (simp add: power_int_def)
    finally show ?thesis .
  qed
  assume x: "\<bar>x\<bar> \<le> 256"
  then have "exp x \<le> exp 256" "exp (- x) \<le> exp 256" by simp_all
  with e have u: "exp x \<le> 2 powi 512" "exp (- x) \<le> 2 powi 512" by linarith+
  have "2 powi (- 512) \<le> exp x"
  proof -
    have "inverse (2 powi 512) \<le> inverse (exp (- x))" using u(2) by (intro le_imp_inverse_le) simp_all
    then show ?thesis by (simp add: power_int_minus exp_minus)
  qed
  with u show ?thesis by blast
qed

section \<open>The sigmoid\<close>

lemma sigmoid_steps:
  fixes M :: "'m mpfr" and b c :: 'm and r :: mpfr_rnd
  assumes ok: "mpfr_ok M sem" and p: "mprec_ok p" "mpfr_get_prec M a \<le> p"
    and a: "sem a = MZero s \<and> x = 0 \<or> sem a = MNum x \<and> mrange x" and x: "\<bar>x\<bar> \<le> 256"
  defines "y \<equiv> vu_mpfr_evaluate M p VU_SIGMOID a b c r" and "iv \<equiv> if r = MPFR_RNDD then MPFR_RNDU else MPFR_RNDD"
  obtains e1 e2 l i1 i2 i3 where "correct p iv (exp (- x)) e1 i1" "correct p iv (e1 + 1) e2 i2" "correct p r (1 / e2) l i3"
    "0 < e1" "0 < e2" "sem (fst y) = MNum l" "mrange l" "mpfr_get_prec M (fst y) = p" "snd y = of_bool (i1 \<noteq> 0 \<or> i2 \<noteq> 0 \<or> i3 \<noteq> 0)"
proof -
  have p0: "0 < p" using p by (simp add: mprec_ok_def)
  define t where "t = fst (mpfr_neg M p a MPFR_RNDN)"
  have t: "ideal_exp (sem t) = MNum (exp (- x))"
  proof (cases "sem a = MNum x")
    case True
    then have x0: "x \<noteq> 0" and rep: "mrep (mpfr_get_prec M a) x" using mpfr_numD [OF ok] by blast+
    have "mrange (- x)" using a True by (auto simp: mrange_def)
    then show ?thesis
      using delivers_num [OF mpfr_arithD(7) [OF ok p(1), of MPFR_RNDN a, unfolded True ideal_neg.simps]] mrep_mono [OF rep p(2)]
      by (simp add: t_def)
  next
    case False
    then have z: "sem a = MZero s" "x = 0" using a by auto
    then show ?thesis using delivers_special [OF mpfr_arithD(7) [OF ok p(1), of MPFR_RNDN a]] by (simp add: t_def)
  qed
  have ex: "2 powi (- 512) \<le> exp (- x)" "exp (- x) \<le> 2 powi 512" using exp_256 [of "- x"] x by simp_all
  define y1 where "y1 = mpfr_exp M p t iv"
  have r1: "mrange (exp (- x))" by (rule mrangeI [of 512]) (use ex emax_ge in simp_all)
  obtain e1 where e1: "sem (fst y1) = MNum e1" "correct p iv (exp (- x)) e1 (snd y1)"
    using delivers_numE [OF mpfr_functionsD(4) [OF ok p(1), of iv t, unfolded t] r1 p0] unfolding y1_def .
  have b1: "2 powi (- 512) \<le> e1" "e1 \<le> 2 powi 512"
    using correct_mono(1) [OF e1(2) mrep_power(1) [OF p0] ex(1)] correct_mono(2) [OF e1(2) mrep_power(1) [OF p0] ex(2)] .
  have "0 < (2::real) powi (- 512)" by simp
  with b1 have e1p: "0 < e1" by linarith
  define y2 where "y2 = mpfr_add_ui M p (fst y1) 1 iv"
  have b2: "2 powi 0 \<le> e1 + 1" "e1 + 1 \<le> 2 powi 513"
  proof -
    have "(2::real) powi 513 = 2 powi 512 + 2 powi 512" by (simp add: power_int_def)
    moreover have "(1::real) \<le> 2 powi 512" by (simp add: power_int_def)
    ultimately show "e1 + 1 \<le> 2 powi 513" using b1(2) by linarith
    show "2 powi 0 \<le> e1 + 1" using e1p by simp
  qed
  have r2: "mrange (e1 + 1)"
  proof (rule mrangeI [of 513])
    have "(2::real) powi (- 513) \<le> 2 powi 0" by (rule power_int_increasing) simp_all
    then show "2 powi (- 513) \<le> \<bar>e1 + 1\<bar>" using b2 e1p by linarith
    show "\<bar>e1 + 1\<bar> \<le> 2 powi 513" using b2 e1p by linarith
  qed (simp add: emax_ge)
  have i2: "ideal_add iv (sem (fst y1)) (mnum (of_nat 1)) = MNum (e1 + 1)" using e1p by (simp add: e1 mnum_def mexact_def)
  obtain e2 where e2: "sem (fst y2) = MNum e2" "correct p iv (e1 + 1) e2 (snd y2)"
    using delivers_numE [OF mpfr_arithD(10) [OF ok p(1) zero_less_one, of iv "fst y1", unfolded i2] r2 p0] unfolding y2_def .
  have b3: "2 powi 0 \<le> e2" "e2 \<le> 2 powi 513"
    using correct_mono(1) [OF e2(2) mrep_power(1) [OF p0] b2(1)] correct_mono(2) [OF e2(2) mrep_power(1) [OF p0] b2(2)] .
  then have e2p: "0 < e2" by simp
  define y3 where "y3 = mpfr_ui_div M p 1 (fst y2) r"
  have r3: "mrange (1 / e2)"
  proof (rule mrangeI [of 513])
    have "inverse (2 powi 513) \<le> inverse e2" using b3 e2p by (intro le_imp_inverse_le) simp_all
    then show "2 powi (- 513) \<le> \<bar>1 / e2\<bar>" using e2p by (simp add: power_int_minus inverse_eq_divide)
    have "1 / e2 \<le> 1" using b3 e2p by simp
    also have "(1::real) \<le> 2 powi 513" by (simp add: power_int_def)
    finally show "\<bar>1 / e2\<bar> \<le> 2 powi 513" using e2p by simp
  qed (simp add: emax_ge)
  have i3: "ideal_div (mnum (of_nat 1)) (sem (fst y2)) = MNum (1 / e2)" by (simp add: e2 mnum_def)
  obtain l where l: "sem (fst y3) = MNum l" "correct p r (1 / e2) l (snd y3)" "mpfr_get_prec M (fst y3) = p" "mrange l"
    using delivers_numE [OF mpfr_arithD(11) [OF ok p(1) zero_less_one, of r "fst y2", unfolded i3] r3 p0] unfolding y3_def .
  have y: "fst y = fst y3" "snd y = of_bool (snd y1 \<noteq> 0 \<or> snd y2 \<noteq> 0 \<or> snd y3 \<noteq> 0)"
    by (simp_all only: y_def vu_mpfr_evaluate_def Let_def case_prod_beta vu_math_operation.case fst_conv snd_conv
        t_def iv_def y1_def y2_def y3_def)
  show thesis by (rule that [OF e1(2) e2(2) l(2) e1p e2p]) (simp_all add: y l)
qed

lemma sigmoid_bounds:
  assumes ok: "mpfr_ok M sem" and p: "mprec_ok p" "mpfr_get_prec M a \<le> p"
    and a: "sem a = MZero s \<and> x = 0 \<or> sem a = MNum x \<and> mrange x" and x: "\<bar>x\<bar> \<le> 256"
  shows "lower_ok M sem p (MNum (1 / (1 + exp (- x)))) (vu_mpfr_evaluate M p VU_SIGMOID a b c MPFR_RNDD)"
    and "upper_ok M sem p (MNum (1 / (1 + exp (- x)))) (vu_mpfr_evaluate M p VU_SIGMOID a b c MPFR_RNDU)"
proof -
  have pos: "0 < 1 + exp (- x)" by (simp add: add_pos_pos)
  show "lower_ok M sem p (MNum (1 / (1 + exp (- x)))) (vu_mpfr_evaluate M p VU_SIGMOID a b c MPFR_RNDD)"
  proof (rule sigmoid_steps [OF ok p a x, of MPFR_RNDD b c])
    fix e1 e2 l i1 i2 i3
    let ?y = "vu_mpfr_evaluate M p VU_SIGMOID a b c MPFR_RNDD"
    assume c: "correct p (if MPFR_RNDD = MPFR_RNDD then MPFR_RNDU else MPFR_RNDD) (exp (- x)) e1 i1"
      "correct p (if MPFR_RNDD = MPFR_RNDD then MPFR_RNDU else MPFR_RNDD) (e1 + 1) e2 i2" "correct p MPFR_RNDD (1 / e2) l i3"
      and e: "0 < e1" "0 < e2" and y: "sem (fst ?y) = MNum l" "mrange l" "mpfr_get_prec M (fst ?y) = p"
      "snd ?y = of_bool (i1 \<noteq> 0 \<or> i2 \<noteq> 0 \<or> i3 \<noteq> 0)"
    have u: "if i1 = 0 then e1 = exp (- x) else exp (- x) < e1" "if i2 = 0 then e2 = e1 + 1 else e1 + 1 < e2"
      "if i3 = 0 then l = 1 / e2 else l < 1 / e2"
      using correct_up [of p "exp (- x)" e1 i1] correct_up [of p "e1 + 1" e2 i2] correct_down [OF c(3)] c by simp_all
    have "if i1 = 0 \<and> i2 = 0 then 1 / e2 = 1 / (1 + exp (- x)) else 1 / e2 < 1 / (1 + exp (- x))"
    proof (cases "i1 = 0 \<and> i2 = 0")
      case False
      then have "1 + exp (- x) < e2" using u(1,2) by (auto split: if_splits)
      then show ?thesis unfolding if_not_P [OF False] using pos by (intro divide_strict_left_mono) simp_all
    qed (use u in \<open>simp add: add.commute\<close>)
    then show ?thesis using u(3) y by (auto simp: lower_ok_def split: if_splits)
  qed
  show "upper_ok M sem p (MNum (1 / (1 + exp (- x)))) (vu_mpfr_evaluate M p VU_SIGMOID a b c MPFR_RNDU)"
  proof (rule sigmoid_steps [OF ok p a x, of MPFR_RNDU b c])
    fix e1 e2 l i1 i2 i3
    let ?y = "vu_mpfr_evaluate M p VU_SIGMOID a b c MPFR_RNDU"
    assume c: "correct p (if MPFR_RNDU = MPFR_RNDD then MPFR_RNDU else MPFR_RNDD) (exp (- x)) e1 i1"
      "correct p (if MPFR_RNDU = MPFR_RNDD then MPFR_RNDU else MPFR_RNDD) (e1 + 1) e2 i2" "correct p MPFR_RNDU (1 / e2) l i3"
      and e: "0 < e1" "0 < e2" and y: "sem (fst ?y) = MNum l" "mrange l" "mpfr_get_prec M (fst ?y) = p"
      "snd ?y = of_bool (i1 \<noteq> 0 \<or> i2 \<noteq> 0 \<or> i3 \<noteq> 0)"
    have u: "if i1 = 0 then e1 = exp (- x) else e1 < exp (- x)" "if i2 = 0 then e2 = e1 + 1 else e2 < e1 + 1"
      "if i3 = 0 then l = 1 / e2 else 1 / e2 < l"
      using correct_down [of p "exp (- x)" e1 i1] correct_down [of p "e1 + 1" e2 i2] correct_up [OF c(3)] c by simp_all
    have "if i1 = 0 \<and> i2 = 0 then 1 / e2 = 1 / (1 + exp (- x)) else 1 / (1 + exp (- x)) < 1 / e2"
    proof (cases "i1 = 0 \<and> i2 = 0")
      case False
      then have "e2 < 1 + exp (- x)" using u(1,2) by (auto split: if_splits)
      then show ?thesis unfolding if_not_P [OF False] using pos e by (intro divide_strict_left_mono) simp_all
    qed (use u in \<open>simp add: add.commute\<close>)
    then show ?thesis using u(3) y by (auto simp: upper_ok_def split: if_splits)
  qed
qed

text \<open>On a NaN and on the infinities every step of the sigmoid is exact.\<close>

lemma sigmoid_special:
  assumes ok: "mpfr_ok M sem" and p: "mprec_ok p" and a: "sem a = MNan \<or> sem a = MInf s"
  shows "delivers M sem p r (ideal_sigmoid (sem a)) (vu_mpfr_evaluate M p VU_SIGMOID a b c r)"
proof -
  define iv where "iv = (if r = MPFR_RNDD then MPFR_RNDU else MPFR_RNDD)"
  define t y1 y2 y3 where "t = fst (mpfr_neg M p a MPFR_RNDN)" and "y1 = mpfr_exp M p t iv"
    and "y2 = mpfr_add_ui M p (fst y1) 1 iv" and "y3 = mpfr_ui_div M p 1 (fst y2) r"
  have y: "vu_mpfr_evaluate M p VU_SIGMOID a b c r = (fst y3, of_bool (snd y1 \<noteq> 0 \<or> snd y2 \<noteq> 0 \<or> snd y3 \<noteq> 0))"
    by (simp only: vu_mpfr_evaluate_def Let_def case_prod_beta vu_math_operation.case t_def iv_def y1_def y2_def y3_def)
  have p0: "0 < p" using p by (simp add: mprec_ok_def)
  have one: "mrange 1" "mrep p 1" "mnum (of_nat 1) = MNum 1"
    using mrep_power(1) [OF p0, of 0] mrangeI [of 0 1] emax_ge [of 0] by (simp_all add: mnum_def)
  note D = mpfr_arithD(7) [OF ok p, of MPFR_RNDN a, folded t_def] mpfr_functionsD(4) [OF ok p, of iv t, folded y1_def]
    mpfr_arithD(10) [OF ok p zero_less_one, of iv "fst y1", folded y2_def, unfolded one(3)]
    mpfr_arithD(11) [OF ok p zero_less_one, of r "fst y2", folded y3_def, unfolded one(3)]
  have t: "sem t = ideal_neg (sem a)" using delivers_special [OF D(1)] a by (auto simp: t_def)
  have y1: "sem (fst y1) = ideal_exp (sem t) \<and> snd y1 = 0" using delivers_special [OF D(2)] a unfolding t by auto
  show ?thesis
  proof (cases "sem a = MInf False")
    case True
    then have e: "sem (fst y1) = MZero False" "snd y1 = 0" using y1 t by simp_all
    then have "ideal_add iv (sem (fst y1)) (MNum 1) = MNum 1" by (simp add: mexact_def)
    then have e2: "sem (fst y2) = MNum 1" "snd y2 = 0" using delivers_num [of M sem p iv 1 y2] D(3) one by simp_all
    then have "delivers M sem p r (MNum 1) y3" using D(4) by simp
    then show ?thesis unfolding y True using e e2 one by (auto simp: delivers_def correct_def)
  next
    case False
    then have e: "sem (fst y1) = sem t" "snd y1 = 0" using y1 a t by auto
    have "ideal_add iv (sem (fst y1)) (MNum 1) = sem t" "\<forall>v. sem t \<noteq> MNum v" using e a t by auto
    then have e2: "sem (fst y2) = sem t" "snd y2 = 0" using delivers_special [OF D(3)] by simp_all
    have "ideal_div (MNum 1) (sem t) = ideal_sigmoid (sem a)" "\<forall>v. ideal_sigmoid (sem a) \<noteq> MNum v" using False a t by auto
    then have "sem (fst y3) = ideal_sigmoid (sem a) \<and> snd y3 = 0 \<and> mpfr_get_prec M (fst y3) = p"
      using delivers_special [OF D(4)] unfolding e2 by simp
    then show ?thesis unfolding y using e e2 \<open>\<forall>v. ideal_sigmoid (sem a) \<noteq> MNum v\<close> by (auto simp: delivers_def split: mval.splits)
  qed
qed

section \<open>The bounds of an operation\<close>

lemma evaluate_delivers:
  assumes "mpfr_ok M sem" "mprec_ok p" "operation \<noteq> VU_SIGMOID"
  shows "delivers M sem p r (vu_ideal operation r (sem a) (sem b) (sem c)) (vu_mpfr_evaluate M p operation a b c r)"
proof -
  note D = mpfr_arithD [OF assms(1,2)] mpfr_functionsD [OF assms(1,2)]
  have rcp: "delivers M sem p r (ideal_div (MNum 1) (sem a)) (mpfr_ui_div M p 1 a r)"
    using D(11) [of 1 r a] by (simp add: mnum_def)
  show ?thesis using assms(3) rcp by (cases operation) (simp_all add: vu_ideal_def vu_mpfr_evaluate_def D)
qed

text \<open>The operands and results on which the bounds hold.\<close>

definition math_domain :: "vu_math_operation \<Rightarrow> mval \<Rightarrow> mval \<Rightarrow> mval \<Rightarrow> bool" where
  "math_domain operation a b c \<longleftrightarrow>
     (\<forall>r v. vu_ideal operation r a b c = MNum v \<longrightarrow> mrange v) \<and> (\<forall>v. a = MNum v \<longrightarrow> mrange v) \<and>
     (operation = VU_SIGMOID \<longrightarrow> \<bar>mreal a\<bar> \<le> 256)"

lemma evaluate_bounds:
  assumes ok: "mpfr_ok M sem" and p: "mprec_ok p" "mpfr_get_prec M a \<le> p"
    and dom: "math_domain operation (sem a) (sem b) (sem c)"
  shows "lower_ok M sem p (vu_ideal operation MPFR_RNDD (sem a) (sem b) (sem c)) (vu_mpfr_evaluate M p operation a b c MPFR_RNDD)"
    and "upper_ok M sem p (vu_ideal operation MPFR_RNDU (sem a) (sem b) (sem c)) (vu_mpfr_evaluate M p operation a b c MPFR_RNDU)"
proof -
  have p0: "0 < p" using p by (simp add: mprec_ok_def)
  have "lower_ok M sem p (vu_ideal operation MPFR_RNDD (sem a) (sem b) (sem c)) (vu_mpfr_evaluate M p operation a b c MPFR_RNDD) \<and>
    upper_ok M sem p (vu_ideal operation MPFR_RNDU (sem a) (sem b) (sem c)) (vu_mpfr_evaluate M p operation a b c MPFR_RNDU)"
  proof (cases "operation = VU_SIGMOID \<and> sem a \<noteq> MNan \<and> (\<forall>s. sem a \<noteq> MInf s)")
    case True
    then obtain s x where a: "sem a = MZero s \<and> x = 0 \<or> sem a = MNum x \<and> mrange x" and x: "\<bar>x\<bar> \<le> 256"
      using dom by (cases "sem a") (auto simp: math_domain_def)
    have "vu_ideal operation r (sem a) (sem b) (sem c) = MNum (1 / (1 + exp (- x)))" for r
      using True a by (auto simp: vu_ideal_def)
    then show ?thesis using sigmoid_bounds [OF ok p a x, of b c] True by simp
  next
    case False
    have "delivers M sem p r (vu_ideal operation r (sem a) (sem b) (sem c)) (vu_mpfr_evaluate M p operation a b c r)" for r
    proof (cases "operation = VU_SIGMOID")
      case True
      then obtain s where "sem a = MNan \<or> sem a = MInf s" using False by auto
      then show ?thesis using sigmoid_special [OF ok p(1)] True by (simp add: vu_ideal_def)
    qed (rule evaluate_delivers [OF ok p(1)])
    then show ?thesis using delivers_bounds [OF p0] dom unfolding math_domain_def by blast
  qed
  then show "lower_ok M sem p (vu_ideal operation MPFR_RNDD (sem a) (sem b) (sem c)) (vu_mpfr_evaluate M p operation a b c MPFR_RNDD)"
    "upper_ok M sem p (vu_ideal operation MPFR_RNDU (sem a) (sem b) (sem c)) (vu_mpfr_evaluate M p operation a b c MPFR_RNDU)"
    by blast+
qed

text \<open>Only the sign of an exact zero depends on the direction.\<close>

definition same_result :: "mval \<Rightarrow> mval \<Rightarrow> bool" where
  "same_result I J \<longleftrightarrow> I = J \<or> (\<exists>s t. I = MZero s \<and> J = MZero t)"

lemma same_result_refl [simp]: "same_result I I"
  by (simp add: same_result_def)

lemma mexact_rnd [simp]: "same_result (mexact r v) (mexact r' v)"
  by (simp add: same_result_def mexact_def)

lemma ideal_add_rnd [simp]: "same_result (ideal_add r x y) (ideal_add r' x y)"
  by (cases x; cases y) (simp_all add: same_result_def [of "MZero _"])

lemma vu_ideal_rnd: "same_result (vu_ideal operation r x y z) (vu_ideal operation r' x y z)"
proof -
  have "same_result (ideal_sin r x) (ideal_sin r' x)" "same_result (ideal_cos r x) (ideal_cos r' x)"
    by (cases x; simp)+
  then show ?thesis by (cases operation) (simp_all add: vu_ideal_def ideal_sub_def ideal_fma_def)
qed

section \<open>The loop\<close>

lemma vu_key_inj:
  assumes "vu_key data_type u = vu_key data_type w" "u = vu_word data_type s c" "w = vu_word data_type t d"
    "c \<le> maxfin (vu_fmt data_type) + 1" "d \<le> maxfin (vu_fmt data_type) + 1"
  shows "u = w"
proof -
  have "(if s then - int c - 1 else int c) = (if t then - int d - 1 else int d)"
    using assms vu_key_word [OF assms(4), of s] vu_key_word [OF assms(5), of t] by simp
  then have "s = t \<and> c = d" by (cases s; cases t) simp_all
  then show ?thesis using assms by simp
qed

lemma to_value_word:
  assumes "mpfr_ok M sem" "sem x = MNum v" "mprec_ok (mpfr_get_prec M x)" "mrange v" "side = 0 \<or> side = 1 \<or> side = - 1"
  obtains s c where "vu_mpfr_to_value M x data_type rm side = vu_word data_type s c" "c \<le> maxfin (vu_fmt data_type) + 1"
  using to_value_num_ex [OF assms, of data_type rm] sided_code_le by blast

text \<open>
  When the two bounds round to the same encoding, it is the encoding of the exact result, which
  lies between them.
\<close>

lemma bounds_agree:
  assumes ok: "mpfr_ok M sem" and p: "mprec_ok p"
    and lo: "lower_ok M sem p (MNum v) lo" and hi: "upper_ok M sem p (MNum v) hi"
    and eq: "vu_mpfr_to_value M (fst lo) data_type rm (if snd lo \<noteq> 0 then 1 else 0) =
      vu_mpfr_to_value M (fst hi) data_type rm (if snd hi \<noteq> 0 then - 1 else 0)"
  shows "vu_mpfr_to_value M (fst lo) data_type rm (if snd lo \<noteq> 0 then 1 else 0) = vu_round data_type rm v"
proof -
  from lo obtain l where l: "sem (fst lo) = MNum l" "mrange l" "if snd lo = 0 then l = v else l < v" "mprec_ok (mpfr_get_prec M (fst lo))"
    using p by (auto simp: lower_ok_def)
  from hi obtain h where h: "sem (fst hi) = MNum h" "mrange h" "if snd hi = 0 then h = v else v < h" "mprec_ok (mpfr_get_prec M (fst hi))"
    using p by (auto simp: upper_ok_def)
  let ?low = "vu_mpfr_to_value M (fst lo) data_type rm (if snd lo \<noteq> 0 then 1 else 0)"
  let ?high = "vu_mpfr_to_value M (fst hi) data_type rm (if snd hi \<noteq> 0 then - 1 else 0)"
  have a: "vu_key data_type ?low \<le> vu_key data_type (vu_round data_type rm v)"
    using l to_value_exact [OF ok l(1,4,2), of data_type rm] to_value_above [OF ok _ l(4), of l _ v data_type rm] by (auto split: if_splits)
  have b: "vu_key data_type (vu_round data_type rm v) \<le> vu_key data_type ?high"
    using h to_value_exact [OF ok h(1,4,2), of data_type rm] to_value_below [OF ok _ h(4), of h _ v data_type rm] by (auto split: if_splits)
  have k: "vu_key data_type ?low = vu_key data_type (vu_round data_type rm v)" using a b eq by simp
  have "(if snd lo \<noteq> 0 then 1 else 0 :: int) = 0 \<or> (if snd lo \<noteq> 0 then 1 else 0 :: int) = 1 \<or> (if snd lo \<noteq> 0 then 1 else 0 :: int) = - 1"
    by simp
  from to_value_word [OF ok l(1,4,2) this, of data_type rm]
  obtain s c where w: "?low = vu_word data_type s c" "c \<le> maxfin (vu_fmt data_type) + 1" .
  show ?thesis by (rule vu_key_inj [OF k w(1) _ w(2)]) (simp add: vu_round_def Let_def, use round_code_le in simp)
qed

lemma vu_math_loop_correct:
  fixes M :: "'m mpfr"
  assumes ok: "mpfr_ok M sem" and dom: "math_domain operation (sem a) (sem b) (sem c)"
    and p: "2 \<le> p" "mpfr_get_prec M a \<le> p" "p * 2 ^ n \<le> 2 * 2 ^ 28"
    and result: "vu_math_loop M operation a b c data_type rm n p = Some w"
  shows "w = vu_code data_type rm (vu_ideal operation (zero_rnd rm) (sem a) (sem b) (sem c))"
  using p result
proof (induction n arbitrary: p)
  case (Suc n)
  have pn: "p * 2 * 2 ^ n \<le> 2 * 2 ^ 28" using Suc.prems(3) by (simp add: mult.assoc)
  have "p \<le> p * 2 ^ n" by simp
  also have "\<dots> \<le> 2 ^ 28" using Suc.prems(3) by simp
  finally have pk: "mprec_ok p" using Suc.prems(1) by (simp add: mprec_ok_def)
  define lo hi where "lo = vu_mpfr_evaluate M p operation a b c MPFR_RNDD" and "hi = vu_mpfr_evaluate M p operation a b c MPFR_RNDU"
  let ?I = "\<lambda>r. vu_ideal operation r (sem a) (sem b) (sem c)"
  have b: "lower_ok M sem p (?I MPFR_RNDD) lo" "upper_ok M sem p (?I MPFR_RNDU) hi"
    using evaluate_bounds [OF ok pk Suc.prems(2) dom] by (simp_all add: lo_def hi_def)
  let ?low = "vu_mpfr_to_value M (fst lo) data_type rm (if snd lo \<noteq> 0 then 1 else 0)"
  let ?high = "vu_mpfr_to_value M (fst hi) data_type rm (if snd hi \<noteq> 0 then - 1 else 0)"
  let ?zero = "mpfr_zero_p M (fst lo) \<and> mpfr_zero_p M (fst hi) \<and> snd lo = 0 \<and> snd hi = 0"
  have step: "Some w = (if ?zero then Some (vu_mpfr_to_value M (if rm = 2 then fst lo else fst hi) data_type rm 0)
      else if ?low = ?high then Some ?low else vu_math_loop M operation a b c data_type rm n (p * 2))"
    using Suc.prems(4) [symmetric] unfolding vu_math_loop.simps Let_def case_prod_beta lo_def [symmetric] hi_def [symmetric] .
  have same: "same_result (?I MPFR_RNDD) (?I MPFR_RNDU)" by (rule vu_ideal_rnd)
  have zr: "?I (zero_rnd rm) = (if rm = 2 then ?I MPFR_RNDD else ?I MPFR_RNDU)" by (simp add: zero_rnd_def)
  show ?case
  proof (cases "?I MPFR_RNDD")
    case MNan
    then have "?I MPFR_RNDU = MNan" using same by (simp add: same_result_def)
    then have s: "sem (fst lo) = MNan" "sem (fst hi) = MNan" using MNan b by (simp_all add: lower_ok_def upper_ok_def)
    show ?thesis unfolding zr MNan \<open>?I MPFR_RNDU = MNan\<close>
      using step s mpfr_queriesD(3) [OF ok, of "fst lo"] by (simp add: to_value_special(1) [OF ok])
  next
    case (MInf t)
    then have u: "?I MPFR_RNDU = MInf t" using same by (simp add: same_result_def)
    then have s: "sem (fst lo) = MInf t" "sem (fst hi) = MInf t" using MInf b by (simp_all add: lower_ok_def upper_ok_def)
    show ?thesis unfolding zr MInf u
      using step s mpfr_queriesD(3) [OF ok, of "fst lo"] by (simp add: to_value_special(2) [OF ok])
  next
    case (MZero t)
    then obtain u where u: "?I MPFR_RNDU = MZero u" using same by (metis same_result_def)
    then have s: "sem (fst lo) = MZero t" "sem (fst hi) = MZero u" "?zero"
      using MZero b mpfr_queriesD(3) [OF ok] by (auto simp: lower_ok_def upper_ok_def)
    show ?thesis unfolding zr MZero u
      using step s to_value_zero(1) [OF ok s(1), of data_type rm] to_value_zero(1) [OF ok s(2), of data_type rm] by (cases "rm = 2") simp_all
  next
    case (MNum v)
    then have u: "?I MPFR_RNDU = MNum v" using same by (auto simp: same_result_def)
    note b' = b [unfolded MNum u]
    have "\<not> mpfr_zero_p M (fst lo)" using b'(1) mpfr_queriesD(3) [OF ok, of "fst lo"] by (auto simp: lower_ok_def)
    then have st: "Some w = (if ?low = ?high then Some ?low else vu_math_loop M operation a b c data_type rm n (p * 2))"
      using step by simp
    show ?thesis
    proof (cases "?low = ?high")
      case True
      then show ?thesis using st bounds_agree [OF ok pk b' True] unfolding zr MNum u by simp
    next
      case False
      have "2 \<le> p * 2" "mpfr_get_prec M a \<le> p * 2" using Suc.prems by simp_all
      then show ?thesis using Suc.IH [OF _ _ pn] st False by simp
    qed
  qed
qed simp

end
