(* ===== verification/Vu_Result.thy ===== *)
theory Vu_Result
  imports Vu_Math
begin

text \<open>
  Correctness of \<open>vu_math_result\<close>: the operands are read exactly, the shortcut for huge arguments
  of the exponential functions gives the rounding of the function, and whatever the loop returns
  is the exact result rounded once.
\<close>

section \<open>The operands\<close>

lemma finite32_form:
  assumes "ffinite F32 w"
  obtains s k where "\<bar>fval F32 w\<bar> = of_nat (s * 2 ^ k) / 2 ^ 149" "s < 2 ^ 24" "s * 2 ^ k < 2 ^ 277" "s * 2 ^ k = 0 \<longleftrightarrow> fmag w = 0"
proof -
  obtain s k where s: "ival 23 (fmag w) = s * 2 ^ k" "s < 2 * 2 ^ 23"
    using ival_scientific [of 23 "fmag w"] by metis
  have "ival 23 (fmag w) < ival 23 (Suc 0x7F7FFFFF)" using assms by (simp add: ffinite_def F32_def)
  also have "ival 23 (Suc 0x7F7FFFFF) = 2 ^ 277"
    using ival_pack [of 23 "2 ^ 23" 254] by simp
  finally have b: "s * 2 ^ k < 2 ^ 277" using s by simp
  have "\<bar>fval F32 w\<bar> = of_nat (s * 2 ^ k) / 2 ^ 149" unfolding s(1) [symmetric] by (simp add: abs_fval F32_def)
  moreover have "s * 2 ^ k = 0 \<longleftrightarrow> fmag w = 0" unfolding s(1) [symmetric] by simp
  moreover have "s < 2 ^ 24" using s(2) by simp
  ultimately show ?thesis using b by (intro that)
qed

lemma of_rat_abs: "\<bar>of_rat x :: real\<bar> = of_rat \<bar>x\<bar>"
  by (simp add: abs_if of_rat_less_0_iff of_rat_minus)

lemma finite32_real:
  assumes "ffinite F32 w" "fmag w \<noteq> 0"
  shows "2 powi (- 149) \<le> \<bar>of_rat (fval F32 w) :: real\<bar>" "\<bar>of_rat (fval F32 w) :: real\<bar> \<le> 2 powi 128"
    "mrep 24 (of_rat (fval F32 w))" "mrange (of_rat (fval F32 w))" "of_rat (fval F32 w) \<noteq> (0 :: real)"
proof -
  define v :: real where "v = of_rat (fval F32 w)"
  obtain s k where s: "\<bar>fval F32 w\<bar> = of_nat (s * 2 ^ k) / 2 ^ 149" "s < 2 ^ 24" "s * 2 ^ k < 2 ^ 277" "s * 2 ^ k = 0 \<longleftrightarrow> fmag w = 0"
    using finite32_form [OF assms(1)] .
  have v: "\<bar>v\<bar> = of_nat (s * 2 ^ k) / 2 ^ 149" unfolding v_def of_rat_abs s(1) by (simp add: of_rat_divide of_rat_mult of_rat_power)
  have "1 \<le> s * 2 ^ k" using s(4) assms(2) by simp
  then have one: "1 \<le> real (s * 2 ^ k)" by linarith
  have p149: "(2::real) powi (- 149) = 1 / 2 ^ 149" by (simp only: power_int_minus power_int_numeral inverse_eq_divide)
  show l: "2 powi (- 149) \<le> \<bar>v\<bar>" unfolding v p149 using one by (intro divide_right_mono) simp_all
  have "real (s * 2 ^ k) \<le> 2 ^ 277" using s(3) by (metis less_imp_le of_nat_le_iff of_nat_numeral of_nat_power)
  then have "\<bar>v\<bar> \<le> 2 ^ 277 / 2 ^ 149" unfolding v by (intro divide_right_mono) simp_all
  also have "\<dots> = (2 powi 128 :: real)" by (simp only: power_int_numeral) simp
  finally show u: "\<bar>v\<bar> \<le> 2 powi 128" .
  have "mrep 24 \<bar>v\<bar>" unfolding mrep_def
  proof (intro exI conjI)
    have "(2::real) powi (int k - 149) = 2 ^ k / 2 ^ 149" by (simp add: power_int_diff)
    then show "\<bar>v\<bar> = of_int (int s) * 2 powi (int k - 149)" unfolding v by simp
    show "\<bar>int s\<bar> < 2 ^ 24" using s(2) by simp
  qed
  then show "mrep 24 v" by simp
  show "mrange v"
  proof (rule mrangeI [of 149])
    have "(2::real) powi 128 \<le> 2 powi 149" by (intro power_int_increasing) simp_all
    then show "\<bar>v\<bar> \<le> 2 powi 149" using u by linarith
  qed (use l emax_ge in simp_all)
  have "0 < (2::real) powi (- 149)" by simp
  with l show "v \<noteq> 0" by auto
qed

lemma c_double_val: "f64_val (c_double w) = f32_val w"
proof -
  consider (nan) "fnan F32 w" | (inf) "finf F32 w" "\<not> fnan F32 w" | (fin) "ffinite F32 w" "\<not> fnan F32 w" "\<not> finf F32 w"
    using fmt_cases [of F32 w] by (auto simp: fnan_def finf_def ffinite_def)
  then show ?thesis
  proof cases
    case nan
    have "fnan F64 (qnan F64 :: u64)" unfolding qnan_code by (simp add: fnan_def fmag_def F64_def)
    then show ?thesis using nan by (simp add: c_double_def f64_val_def f32_val_def)
  next
    case inf
    have "fneg (infty F64 s :: u64) = s \<and> finf F64 (infty F64 s :: u64) \<and> \<not> fnan F64 (infty F64 s :: u64)" for s
      by (simp add: infty_def finf_def fnan_def F64_def)
    then show ?thesis using inf by (simp add: c_double_def f64_val_def f32_val_def)
  next
    case fin
    obtain s k where s: "\<bar>fval F32 w\<bar> = of_nat (s * 2 ^ k) / 2 ^ 149" "s < 2 ^ 24" "s * 2 ^ k < 2 ^ 277" "s * 2 ^ k = 0 \<longleftrightarrow> fmag w = 0"
      using finite32_form [OF fin(1)] .
    have rep: "representable F64 (fval F32 w)"
    proof (rule representableI)
      show "\<bar>fval F32 w\<bar> * 2 ^ ulp0 F64 = of_nat (s * 2 ^ (k + 925))"
        unfolding s(1) by (simp add: F64_def power_add)
      show "s < 2 * 2 ^ fbits F64" using s(2) by (simp add: F64_def)
      have "s * 2 ^ (k + 925) = s * 2 ^ k * 2 ^ 925" by (simp add: power_add)
      also have "\<dots> \<le> 2 ^ 277 * 2 ^ 925" using s(3) by (intro mult_right_mono) simp_all
      also have "\<dots> \<le> 2 ^ 52 * 2 ^ 2045" unfolding power_add [symmetric] by (rule power_increasing) simp_all
      also have "\<dots> \<le> ival 52 0x7FEFFFFFFFFFFFFF"
        using ival_pack [of 52 "2 ^ 52 + 0xFFFFFFFFFFFFF" 2045] by simp
      finally show "s * 2 ^ (k + 925) \<le> ival (fbits F64) (maxfin F64)" by (simp add: F64_def)
    qed
    have m: "maxfin F64 < 2 ^ (LENGTH(64) - 1)" by (simp add: F64_def)
    define d where "d = (fround F64 RNE (fneg w) (fval F32 w) :: u64)"
    have d: "fval F64 d = (if fneg w then - \<bar>fval F32 w\<bar> else \<bar>fval F32 w\<bar>)" "fneg d = fneg w" "ffinite F64 d"
      using fround_representable [OF rep m, of RNE "fneg w"] by (simp_all add: d_def)
    have v: "fval F64 d = fval F32 w" unfolding d(1) by (cases "fneg w") (simp_all add: fval_eq)
    then have z: "fmag d = 0 \<longleftrightarrow> fmag w = 0" by (metis fval_eq_0_iff)
    have "\<not> fnan F64 d" "\<not> finf F64 d" using d(3) by (simp_all add: fnan_def finf_def ffinite_def)
    moreover have "c_double w = d" using fin by (simp add: c_double_def d_def)
    ultimately show ?thesis using fin v z d(2) by (simp add: f64_val_def f32_val_def)
  qed
qed

lemma f32_val_num: "f32_val w = MNum v \<Longrightarrow> ffinite F32 w \<and> fmag w \<noteq> 0 \<and> v = of_rat (fval F32 w)"
  by (auto simp: f32_val_def fnan_def finf_def ffinite_def split: if_splits)

text \<open>Reading an operand is exact at every precision of 24 bits or more.\<close>

lemma set_d_exact:
  assumes ok: "mpfr_ok M sem" and p: "mprec_ok p" "24 \<le> p"
  shows "sem (fst (mpfr_set_d M p (c_double (vu_bits_to_fp32 w)) r)) = f32_val w"
    "mpfr_get_prec M (fst (mpfr_set_d M p (c_double (vu_bits_to_fp32 w)) r)) = p"
proof -
  note d = mpfr_arithD(1) [OF ok p(1), of r "c_double (vu_bits_to_fp32 w)", unfolded c_double_val vu_bits_to_fp32_def]
  have "sem (fst (mpfr_set_d M p (c_double w) r)) = f32_val w \<and> mpfr_get_prec M (fst (mpfr_set_d M p (c_double w) r)) = p"
  proof (cases "f32_val w")
    case (MNum v)
    note f = f32_val_num [OF MNum]
    have "mrange v" "mrep p v" using finite32_real [of w] f mrep_mono [OF _ p(2)] by auto
    then show ?thesis using delivers_num [OF d [unfolded MNum]] MNum by simp
  qed (use delivers_special [OF d] in auto)
  then show "sem (fst (mpfr_set_d M p (c_double (vu_bits_to_fp32 w)) r)) = f32_val w"
    "mpfr_get_prec M (fst (mpfr_set_d M p (c_double (vu_bits_to_fp32 w)) r)) = p"
    by (simp_all add: vu_bits_to_fp32_def)
qed

section \<open>Huge arguments\<close>

text \<open>Next to an integer magnitude, and next to zero, the code is constant.\<close>

lemma sided_code_below_eq:
  fixes X :: real
  assumes d: "sided_code F m neg (of_nat N) (- 1) d" and X: "of_nat N - 1 / 2 < X" "X < of_nat N"
  shows "round_code (fbits F) (maxfin F) m neg X = d"
proof -
  define lo hi where "lo c = ival (fbits F) c" and "hi c = ival (fbits F) (Suc c)" for c
  from d obtain c where c: "c \<le> maxfin F" "real (lo c) < of_nat N" "c = maxfin F \<or> of_nat N \<le> real (hi c)"
    and de: "d = c + of_bool (round_incr m neg (odd c) True (real (lo c) + real (hi c) < 2 * of_nat N) False)"
    unfolding sided_code_def Let_def lo_def hi_def by auto
  have i: "lo c + hi c < 2 * N \<longleftrightarrow> real (lo c) + real (hi c) < 2 * X" "2 * X \<noteq> real (lo c) + real (hi c)"
  proof -
    have "(real T < 2 * X \<longleftrightarrow> T < 2 * N) \<and> real T \<noteq> 2 * X" for T
    proof (cases "T < 2 * N")
      case True
      then have "real (T + 1) \<le> real (2 * N)" by (intro of_nat_mono) simp
      then show ?thesis using True X by simp
    next
      case False
      then have "real (2 * N) \<le> real T" by (intro of_nat_mono) simp
      then show ?thesis using False X by simp
    qed
    from this [of "lo c + hi c"] show "lo c + hi c < 2 * N \<longleftrightarrow> real (lo c) + real (hi c) < 2 * X" "2 * X \<noteq> real (lo c) + real (hi c)" by auto
  qed
  have "real (lo c + 1) \<le> real N" using c(2) by (intro of_nat_mono) simp
  then have "real (lo c) < X" using X by simp
  moreover have "c = maxfin F \<or> X < real (hi c)" using c(3) X by auto
  ultimately have "round_code (fbits F) (maxfin F) m neg X =
      c + of_bool (round_incr m neg (odd c) True (real (lo c) + real (hi c) < 2 * X) False)"
    using c(1) i(2) by (subst round_codeI [of c]) (simp_all add: lo_def hi_def)
  moreover have "real (lo c) + real (hi c) < 2 * of_nat N \<longleftrightarrow> lo c + hi c < 2 * N" by linarith
  ultimately show ?thesis using i(1) de by simp
qed

lemma round_code_tiny:
  assumes "0 < (x :: real)" "x < 1 / 2"
  shows "round_code fb maxc m neg x = of_bool (round_incr m neg False True False False)"
proof -
  have "ival fb (Suc 0) = 1" by (simp add: ival_Suc spacing_def)
  then show ?thesis using assms by (subst round_codeI [of 0]) auto
qed

lemma vu_round_huge:
  assumes "2 powi 128 \<le> v" "2 powi 128 \<le> w"
  shows "vu_round data_type rm v = vu_round data_type rm w"
proof -
  let ?F = "vu_fmt data_type"
  have "real (ival (fbits ?F) (Suc (maxfin ?F))) \<le> \<bar>x\<bar> * 2 ^ ulp0 ?F" if "2 powi 128 \<le> x" for x :: real
  proof -
    have "2 powi 128 * 2 ^ ulp0 ?F \<le> \<bar>x\<bar> * 2 ^ ulp0 ?F" using that by (intro mult_right_mono) (linarith, simp)
    moreover have "(2::real) powi (128 + int (ulp0 ?F)) = 2 powi 128 * 2 ^ ulp0 ?F" by (simp add: power_int_add)
    ultimately show ?thesis by (simp only: vu_fmt_facts(5))
  qed
  note o = this
  have "0 < (2::real) powi 128" by simp
  then have "\<not> v < 0" "\<not> w < 0" using assms by linarith+
  then show ?thesis unfolding vu_round_def Let_def
    by (simp only: round_code_overflow [OF o [OF assms(1)]] round_code_overflow [OF o [OF assms(2)]])
qed

lemma vu_round_tiny:
  assumes "0 < v" "v \<le> 2 powi (- 256)" "0 < w" "w \<le> 2 powi (- 256)"
  shows "vu_round data_type rm v = vu_round data_type rm w"
proof -
  let ?F = "vu_fmt data_type"
  have t: "0 < \<bar>x\<bar> * 2 ^ ulp0 ?F \<and> \<bar>x\<bar> * 2 ^ ulp0 ?F < 1 / 2" if "0 < x" "x \<le> 2 powi (- 256)" for x :: real
  proof -
    have "\<bar>x\<bar> * 2 ^ ulp0 ?F \<le> 2 powi (- 256) * 2 powi int (ulp0 ?F)" using that by (simp add: mult_right_mono)
    also have "\<dots> = 2 powi (- 256 + int (ulp0 ?F))" by (rule power_int_add [symmetric]) simp
    also have "\<dots> < 2 powi (- 1)" using vu_fmt_facts(1,2) [of data_type] by (intro power_int_strict_increasing) auto
    finally show ?thesis using that by (simp add: power_int_minus)
  qed
  have "\<not> v < 0" "\<not> w < 0" using assms by linarith+
  then show ?thesis unfolding vu_round_def Let_def using t [OF assms(1,2)] t [OF assms(3,4)]
    by (simp add: round_code_tiny)
qed

text \<open>A number just inside 1 or -1 rounds as the side next to it.\<close>

lemma to_value_near_one:
  assumes ok: "mpfr_ok M sem" and y: "sem y = MNum (if neg then - 1 else 1)" "mprec_ok (mpfr_get_prec M y)"
    and v: "1 - 2 powi (- 254) < \<bar>v\<bar>" "\<bar>v\<bar> < 1" "v < 0 \<longleftrightarrow> neg"
  shows "vu_mpfr_to_value M y data_type rm (if neg then 1 else - 1) = vu_round data_type rm v"
proof -
  let ?F = "vu_fmt data_type" and ?one = "if neg then - 1 else 1 :: real"
  have r: "mrange ?one" by (rule mrangeI [of 0]) (simp_all add: emax_ge)
  have side: "(if neg then 1 else - 1 :: int) = 0 \<or> (if neg then 1 else - 1 :: int) = 1 \<or> (if neg then 1 else - 1 :: int) = - 1" by simp
  obtain d where d: "vu_mpfr_to_value M y data_type rm (if neg then 1 else - 1) = vu_word data_type neg d"
    "sided_code ?F (math_mode rm) neg (of_nat (2 ^ ulp0 ?F)) (- 1) d"
    using to_value_num_ex [OF ok y r side, of data_type rm] by (cases neg) auto
  define q K :: real where "q = 2 powi (- 254)" and "K = 2 ^ ulp0 ?F"
  have "q * K = 2 powi (- 254 + int (ulp0 ?F))" unfolding q_def K_def power_int_of_nat [symmetric]
    by (rule power_int_add [symmetric]) simp
  also have "\<dots> \<le> 2 powi (- 1)" using vu_fmt_facts(1,2) [of data_type] by (intro power_int_increasing) auto
  finally have e: "q * K \<le> 1 / 2" by (simp add: power_int_minus)
  have "(1 - q) * K < \<bar>v\<bar> * K" using v(1) unfolding q_def K_def by (intro mult_strict_right_mono) simp_all
  moreover have "(1 - q) * K = K - q * K" by (simp only: left_diff_distrib mult_1)
  ultimately have "K - 1 / 2 < \<bar>v\<bar> * K" using e by linarith
  then have "of_nat (2 ^ ulp0 ?F) - 1 / 2 < \<bar>v\<bar> * 2 ^ ulp0 ?F" by (simp add: K_def)
  moreover have "\<bar>v\<bar> * 2 ^ ulp0 ?F < of_nat (2 ^ ulp0 ?F)" using v(2) by simp
  ultimately have "round_code (fbits ?F) (maxfin ?F) (math_mode rm) neg (\<bar>v\<bar> * 2 ^ ulp0 ?F) = d"
    by (rule sided_code_below_eq [OF d(2)])
  then show ?thesis unfolding d(1) vu_round_def Let_def v(3) by simp
qed

lemma exp_large: "256 \<le> (x :: real) \<Longrightarrow> 2 powi 256 \<le> exp x"
proof -
  have "(2::real) \<le> exp 1" using exp_ge_add_one_self [of 1] by simp
  then have "(2::real) ^ 256 \<le> exp 1 ^ 256" by (intro power_mono) simp_all
  also have "\<dots> = exp 256" by (simp flip: exp_of_nat_mult)
  finally have "(2::real) ^ 256 \<le> exp 256" .
  moreover assume "256 \<le> x"
  then have "exp 256 \<le> exp x" by simp
  ultimately show ?thesis unfolding power_int_numeral by linarith
qed

lemma exp_small: "x \<le> - 256 \<Longrightarrow> exp (x :: real) \<le> 2 powi (- 256)"
proof -
  assume "x \<le> - 256"
  then have "2 powi 256 \<le> exp (- x)" by (intro exp_large) simp
  then have "inverse (exp (- x)) \<le> inverse (2 powi 256)" by (intro le_imp_inverse_le) simp_all
  then show ?thesis by (simp add: power_int_minus exp_minus)
qed

lemma tanh_large: "256 \<le> x \<Longrightarrow> 1 - 2 powi (- 254) < tanh x \<and> tanh (x :: real) < 1"
proof -
  assume x: "256 \<le> x"
  define e where "e = exp (- 2 * x)"
  have "e \<le> exp (- x)" using x by (simp add: e_def)
  also have "\<dots> \<le> 2 powi (- 256)" by (rule exp_small) (use x in simp)
  finally have e: "e \<le> 2 powi (- 256)" "0 < e" by (simp_all add: e_def)
  have t: "tanh x = (1 - e) / (1 + e)" unfolding e_def by (simp add: tanh_real_altdef)
  have "(2::real) powi (- 254) = 2 powi (2 + - 256)" by simp
  also have "\<dots> = 2 powi 2 * 2 powi (- 256)" by (rule power_int_add) simp
  finally have p: "(2::real) powi (- 254) = 4 * 2 powi (- 256)" by simp
  have "0 < (2::real) powi (- 256)" by simp
  then have "1 - 2 powi (- 254) < 1 - 2 * e" using e unfolding p by linarith
  also have "1 - 2 * e \<le> tanh x" unfolding t
  proof (rule pos_le_divide_eq [THEN iffD2])
    have "(1 - 2 * e) * (1 + e) = 1 - e - 2 * (e * e)" by (simp add: algebra_simps)
    also have "\<dots> \<le> 1 - e" by simp
    finally show "(1 - 2 * e) * (1 + e) \<le> 1 - e" .
  qed (use e in linarith)
  finally show ?thesis using e unfolding t by simp
qed

lemma huge_result:
  assumes ok: "mpfr_ok M sem" and a: "sem a = MNum x" and x: "256 < \<bar>x\<bar>" and p: "mprec_ok p"
    and operation: "operation = VU_EXP \<or> operation = VU_EXP2 \<or> operation = VU_SIGMOID \<or> operation = VU_TANH"
  shows "vu_huge_result M p operation a data_type rm = vu_code data_type rm (vu_ideal operation r (MNum x) b c)"
proof -
  have fin: "sem a \<noteq> MNan" "\<forall>s. sem a \<noteq> MInf s" by (simp_all add: a)
  have fl: "\<lfloor>- 1 :: real\<rfloor> = - 1" by linarith
  have sg: "mpfr_sgn M a < 0 \<longleftrightarrow> x < 0" "0 < mpfr_sgn M a \<longleftrightarrow> 0 < x"
    using mpfr_comparisonsD(3) [OF ok fin] by (auto simp: a sgn_if fl split: if_splits)
  have p0: "0 < p" using p by (simp add: mprec_ok_def)
  have one: "mrange 1" "mrange (- 1)" by (rule mrangeI [of 0]; simp add: emax_ge)+
  have rep1: "mrep p 1" "mrep p (- 1)" using mrep_power [OF p0, of 0] by simp_all
  define neg where "neg = (x < 0)"
  have y1: "sem (fst (mpfr_set_si M p (if neg then - 1 else 1) MPFR_RNDN)) = MNum (if neg then - 1 else 1) \<and>
      mpfr_get_prec M (fst (mpfr_set_si M p (if neg then - 1 else 1) MPFR_RNDN)) = p"
  proof (cases neg)
    case True
    show ?thesis using delivers_num [OF mpfr_arithD(2) [OF ok p, of MPFR_RNDN "- 1", unfolded mnum_def, simplified]] one rep1 True by simp
  next
    case False
    show ?thesis using delivers_num [OF mpfr_arithD(2) [OF ok p, of MPFR_RNDN 1, unfolded mnum_def, simplified]] one rep1 False by simp
  qed
  have y2: "sem (fst (mpfr_set_ui M p 1 MPFR_RNDN)) = MNum 1 \<and> mpfr_get_prec M (fst (mpfr_set_ui M p 1 MPFR_RNDN)) = p"
    using delivers_num [of M sem p MPFR_RNDN 1 "mpfr_set_ui M p 1 MPFR_RNDN"] mpfr_arithD(3) [OF ok p, of MPFR_RNDN 1] one rep1
    by (simp add: mnum_def)
  have y3: "vu_mpfr_to_value M (fst (mpfr_set_ui_2exp M p 1 k MPFR_RNDN)) data_type rm 0 = vu_round data_type rm (2 powi k)"
    if "\<bar>k\<bar> \<le> 512" for k
  proof -
    have ab: "\<bar>2 powi k\<bar> = (2::real) powi k" by simp
    have "mrange (2 powi k)"
      by (rule mrangeI [of 512]; (unfold ab)?; (rule power_int_increasing)?; (use that in \<open>simp add: emax_ge\<close>)?)
    then have s: "sem (fst (mpfr_set_ui_2exp M p 1 k MPFR_RNDN)) = MNum (2 powi k) \<and>
        mpfr_get_prec M (fst (mpfr_set_ui_2exp M p 1 k MPFR_RNDN)) = p" and g: "mrange (2 powi k)"
      using delivers_num [of M sem p MPFR_RNDN "2 powi k" "mpfr_set_ui_2exp M p 1 k MPFR_RNDN"]
        mpfr_arithD(4) [OF ok p, of MPFR_RNDN 1 k] mrep_power(1) [OF p0] by (simp_all add: mnum_def)
    from s have s1: "sem (fst (mpfr_set_ui_2exp M p 1 k MPFR_RNDN)) = MNum (2 powi k)"
      and s2: "mprec_ok (mpfr_get_prec M (fst (mpfr_set_ui_2exp M p 1 k MPFR_RNDN)))" using p by simp_all
    show ?thesis by (rule to_value_exact [OF ok s1 s2 g])
  qed
  show ?thesis
  proof (cases "operation = VU_TANH")
    case True
    have t: "1 - 2 powi (- 254) < \<bar>tanh x\<bar> \<and> \<bar>tanh x\<bar> < 1"
      using tanh_large [of "\<bar>x\<bar>"] x by simp
    show ?thesis using to_value_near_one [OF ok, of "fst (mpfr_set_si M p (if neg then - 1 else 1) MPFR_RNDN)" neg "tanh x"]
      y1 p t True by (simp add: vu_huge_result_def vu_ideal_def sg neg_def)
  next
    case notanh: False
    show ?thesis
    proof (cases "0 < x")
      case True
      note x' = True
      show ?thesis
      proof (cases "operation = VU_SIGMOID")
        case True
        define e where "e = exp (- x)"
        have e: "e \<le> 2 powi (- 256)" "0 < e" using exp_small [of "- x"] x x' by (simp_all add: e_def)
        have "(2::real) powi (- 256) < 2 powi (- 254)" by (rule power_int_strict_increasing) simp_all
        with e(1) have e254: "e < 2 powi (- 254)" by linarith
        have "1 - e \<le> 1 / (1 + e)" by (rule pos_le_divide_eq [THEN iffD2]) (use e in \<open>simp_all add: algebra_simps\<close>)
        then have v: "1 - 2 powi (- 254) < 1 / (1 + e)" using e254 by linarith
        have e1: "0 < 1 + e" using e by linarith
        have vv: "\<bar>1 / (1 + e)\<bar> = 1 / (1 + e)" "1 / (1 + e) < 1" "1 / (1 + e) < 0 \<longleftrightarrow> False"
          using e e1 by (simp_all add: not_less)
        have "vu_mpfr_to_value M (fst (mpfr_set_ui M p 1 MPFR_RNDN)) data_type rm (if False then 1 else - 1) =
            vu_round data_type rm (1 / (1 + e))"
          by (rule to_value_near_one [OF ok]) (simp_all only: vv v y2 p if_False not_False_eq_True)
        then show ?thesis using True notanh x' unfolding vu_huge_result_def Let_def sg vu_ideal_def by (simp add: e_def)
      next
        case False
        have big: "(2::real) powi 128 \<le> 2 powi 256" "(2::real) powi 128 \<le> 2 powi 512" by (rule power_int_increasing; simp)+
        have "(2::real) powi 256 = 2 powr 256" by (simp add: powr_numeral)
        also have "\<dots> \<le> 2 powr x" by (rule powr_mono) (use x x' in simp_all)
        finally have "2 powi 256 \<le> 2 powr x" .
        moreover have "2 powi 256 \<le> exp x" by (rule exp_large) (use x x' in simp)
        ultimately have "2 powi 128 \<le> exp x" "2 powi 128 \<le> 2 powr x" using big(1) by linarith+
        then have "vu_round data_type rm (2 powi 512) = vu_round data_type rm (exp x)"
          "vu_round data_type rm (2 powi 512) = vu_round data_type rm (2 powr x)"
          using vu_round_huge [OF big(2)] by blast+
        then show ?thesis using y3 [of 512] False notanh operation x'
          unfolding vu_huge_result_def Let_def sg vu_ideal_def by auto
      qed
    next
      case False
      then have xn: "x < - 256" using x by linarith
      have small: "(0::real) < 2 powi (- 512)" "(2::real) powi (- 512) \<le> 2 powi (- 256)" by (simp, rule power_int_increasing, simp_all)
      have ex: "0 < exp x" "exp x \<le> 2 powi (- 256)" using exp_small [of x] xn by simp_all
      have "2 powr x \<le> 2 powr (- 256)" by (rule powr_mono) (use xn in simp_all)
      also have "\<dots> = 2 powi (- 256)" by (simp add: powr_minus powr_numeral power_int_minus)
      finally have e2: "0 < 2 powr x" "2 powr x \<le> 2 powi (- 256)" by simp_all
      have sgm: "0 < 1 / (1 + exp (- x))" "1 / (1 + exp (- x)) \<le> 2 powi (- 256)"
      proof -
        have "1 / (1 + exp (- x)) \<le> 1 / exp (- x)" by (intro divide_left_mono) (simp_all add: add_pos_pos)
        also have "\<dots> = exp x" by (simp add: exp_minus field_simps)
        finally show "1 / (1 + exp (- x)) \<le> 2 powi (- 256)" using ex by linarith
        show "0 < 1 / (1 + exp (- x))" by (simp add: add_pos_pos)
      qed
      note t = vu_round_tiny [OF small, of _ data_type rm]
      show ?thesis using y3 [of "- 512"] t [OF ex] t [OF e2] t [OF sgm] notanh operation False
        unfolding vu_huge_result_def Let_def sg vu_ideal_def by auto
    qed
  qed
qed

section \<open>The results stay within the range\<close>

text \<open>Non-zero multiples of \<open>2 powi k\<close> of magnitude at most \<open>2 powi u\<close>.\<close>

definition on_grid :: "int \<Rightarrow> int \<Rightarrow> mval \<Rightarrow> bool" where
  "on_grid k u I \<longleftrightarrow> (\<forall>v. I = MNum v \<longrightarrow> v \<noteq> 0 \<and> (\<exists>i::int. v = of_int i * 2 powi k) \<and> \<bar>v\<bar> \<le> 2 powi u)"

lemma on_gridD:
  assumes "on_grid k u (MNum v)"
  shows "v \<noteq> 0" "\<exists>i::int. v = of_int i * 2 powi k" "\<bar>v\<bar> \<le> 2 powi u" "2 powi k \<le> \<bar>v\<bar>"
proof -
  show v: "v \<noteq> 0" "\<exists>i::int. v = of_int i * 2 powi k" "\<bar>v\<bar> \<le> 2 powi u" using assms by (auto simp: on_grid_def)
  then obtain i :: int where i: "v = of_int i * 2 powi k" by blast
  then have "i \<noteq> 0" using v by auto
  then have "1 \<le> \<bar>real_of_int i\<bar>" by linarith
  then have "1 * 2 powi k \<le> \<bar>real_of_int i\<bar> * 2 powi k" by (intro mult_right_mono) simp_all
  then show "2 powi k \<le> \<bar>v\<bar>" by (simp add: i abs_mult)
qed

lemma on_grid_range: "on_grid k u (MNum v) \<Longrightarrow> - 1024 \<le> k \<Longrightarrow> u \<le> 1024 \<Longrightarrow> mrange v"
proof (rule mrangeI [of 1024])
  assume g: "on_grid k u (MNum v)" "- 1024 \<le> k" "u \<le> 1024"
  have "(2::real) powi (- 1024) \<le> 2 powi k" "(2::real) powi u \<le> 2 powi 1024"
    using g by (intro power_int_increasing; simp)+
  then show "2 powi (- 1024) \<le> \<bar>v\<bar>" "\<bar>v\<bar> \<le> 2 powi 1024" using on_gridD [OF g(1)] by linarith+
qed (simp add: emax_ge)

lemma on_grid_mono:
  assumes g: "on_grid k u I" and k: "k' \<le> k" "u \<le> u'"
  shows "on_grid k' u' I"
  unfolding on_grid_def
proof (intro allI impI)
  fix v assume "I = MNum v"
  note v = on_gridD [OF g [unfolded this]]
  obtain i :: int where i: "v = of_int i * 2 powi k" using v(2) by blast
  define n where "n = nat (k - k')"
  have "(2::real) powi k = 2 powi (int n + k')" using k(1) by (simp add: n_def)
  also have "\<dots> = 2 ^ n * 2 powi k'" by (simp add: power_int_add)
  finally have "v = of_int (i * 2 ^ n) * 2 powi k'" by (simp add: i)
  moreover have "(2::real) powi u \<le> 2 powi u'" using k(2) by (intro power_int_increasing) simp_all
  then have "\<bar>v\<bar> \<le> 2 powi u'" using v(3) by linarith
  ultimately show "v \<noteq> 0 \<and> (\<exists>i::int. v = of_int i * 2 powi k') \<and> \<bar>v\<bar> \<le> 2 powi u'"
    using v(1) by blast
qed

lemma f32_on_grid: "on_grid (- 149) 128 (f32_val w)"
  unfolding on_grid_def
proof (intro allI impI)
  fix v assume "f32_val w = MNum v"
  note f = f32_val_num [OF this]
  obtain s k where s: "\<bar>fval F32 w\<bar> = of_nat (s * 2 ^ k) / 2 ^ 149" using finite32_form f by metis
  have "\<bar>v\<bar> = of_nat (s * 2 ^ k) / 2 ^ 149"
    using f of_rat_abs [of "fval F32 w"] unfolding s by (simp add: of_rat_divide of_rat_mult of_rat_power)
  then have "v = of_int (if v < 0 then - int (s * 2 ^ k) else int (s * 2 ^ k)) / 2 ^ 149" by (auto simp: abs_if split: if_splits)
  moreover have "(2::real) powi (- 149) = 1 / 2 ^ 149" by (simp only: power_int_minus power_int_numeral inverse_eq_divide)
  ultimately have "v = of_int (if v < 0 then - int (s * 2 ^ k) else int (s * 2 ^ k)) * 2 powi (- 149)" by simp
  moreover have "v \<noteq> 0" "\<bar>v\<bar> \<le> 2 powi 128" using f finite32_real(2,5) [of w] by auto
  ultimately show "v \<noteq> 0 \<and> (\<exists>i::int. v = of_int i * 2 powi (- 149)) \<and> \<bar>v\<bar> \<le> 2 powi 128" by blast
qed

lemma on_grid_add:
  assumes g: "on_grid k u I" "on_grid k u J"
  shows "on_grid k (u + 1) (ideal_add r I J)"
proof -
  have m: "\<bar>mreal K\<bar> \<le> 2 powi u \<and> (\<exists>i::int. mreal K = of_int i * 2 powi k)" if "on_grid k u K" for K
  proof (cases K)
    case (MNum v)
    then show ?thesis using on_gridD [of k u v] that by simp
  qed (auto intro: exI [of _ 0])
  obtain i j :: int where ij: "mreal I = of_int i * 2 powi k" "mreal J = of_int j * 2 powi k" using m g by blast
  have s: "mreal I + mreal J = of_int (i + j) * 2 powi k" by (simp add: ij distrib_right)
  have "\<bar>mreal I\<bar> \<le> 2 powi u" "\<bar>mreal J\<bar> \<le> 2 powi u" using m g by blast+
  moreover have "(2::real) powi (u + 1) = 2 * 2 powi u" by (simp add: power_int_add)
  ultimately have b: "\<bar>mreal I + mreal J\<bar> \<le> 2 powi (u + 1)" by linarith
  have c: "ideal_add r I J = MNum v \<Longrightarrow> v = mreal I + mreal J \<and> v \<noteq> 0 \<or> on_grid k u (MNum v)" for v
    using g by (cases I; cases J) (auto simp: mexact_def split: if_splits)
  have w: "on_grid k u (MNum v) \<Longrightarrow> on_grid k (u + 1) (MNum v)" for v by (erule on_grid_mono) simp_all
  show ?thesis unfolding on_grid_def [of _ _ "ideal_add r I J"]
  proof (intro allI impI)
    fix v assume "ideal_add r I J = MNum v"
    then show "v \<noteq> 0 \<and> (\<exists>i::int. v = of_int i * 2 powi k) \<and> \<bar>v\<bar> \<le> 2 powi (u + 1)"
      using c [of v] w [of v] s b on_gridD [of k "u + 1" v] by metis
  qed
qed

lemma on_grid_neg: "on_grid k u I \<Longrightarrow> on_grid k u (ideal_neg I)"
proof (cases I)
  case (MNum v)
  assume "on_grid k u I"
  note v = on_gridD [OF this [unfolded MNum]]
  then obtain i :: int where "v = of_int i * 2 powi k" by blast
  then have "- v = of_int (- i) * 2 powi k" by simp
  then show ?thesis using v MNum unfolding on_grid_def by (metis abs_minus_cancel ideal_neg.simps(4) mval.inject(3) neg_equal_0_iff_equal)
qed (simp_all add: on_grid_def)

lemma on_grid_mul:
  assumes g: "on_grid k u I" "on_grid k' u' J"
  shows "on_grid (k + k') (u + u') (ideal_mul I J)"
proof (cases "\<exists>v w. I = MNum v \<and> J = MNum w")
  case True
  then obtain v w where vw: "I = MNum v" "J = MNum w" by blast
  note v = on_gridD [OF g(1) [unfolded vw]] and w = on_gridD [OF g(2) [unfolded vw]]
  obtain i j :: int where "v = of_int i * 2 powi k" "w = of_int j * 2 powi k'" using v w by blast
  then have "v * w = of_int (i * j) * 2 powi (k + k')" by (simp add: power_int_add)
  then have "\<exists>m::int. v * w = of_int m * 2 powi (k + k')" by blast
  moreover have "\<bar>v * w\<bar> \<le> 2 powi (u + u')" using v(3) w(3) by (simp add: abs_mult power_int_add mult_mono)
  ultimately show ?thesis using v(1) w(1) unfolding vw by (simp add: on_grid_def)
next
  case False
  then have "ideal_mul I J \<noteq> MNum v" for v by (cases I; cases J) auto
  then show ?thesis by (simp add: on_grid_def)
qed

end
