(* ===== verification/Vu_Correct.thy ===== *)
theory Vu_Correct
  imports Vu_Result
begin

text \<open>
  The correctness theorem of \<open>vu_math_result\<close>.  Its one assumption about numbers, that the exact
  result lies within the exponent range of the library, is proved here for every operation but
  the sine and the cosine, whose smallest non-zero magnitude on binary32 arguments is a fact of
  number theory that the library's authors rely on as well.
\<close>

section \<open>Ranges of the functions\<close>

lemma mrange_1024:
  assumes "2 powi (- 1024) \<le> \<bar>v\<bar>" "\<bar>v\<bar> \<le> 2 powi 1024"
  shows "mrange v"
  using assms by (rule mrangeI) (simp add: emax_ge)

lemma mrange_between:
  assumes "0 < l" "l \<le> \<bar>v\<bar>" "\<bar>v\<bar> \<le> u" "2 powi (- 1024) \<le> l" "u \<le> 2 powi 1024"
  shows "mrange v"
  using assms by (intro mrange_1024) linarith+

lemma powi_le: "i \<le> j \<Longrightarrow> (2::real) powi i \<le> 2 powi j"
  by (rule power_int_increasing) simp_all

lemma powi_add: "(2::real) powi (i + j) = 2 powi i * 2 powi j"
  by (simp add: power_int_add)

lemma powi_inverse: "(2::real) powi (- i) = 1 / 2 powi i"
  by (simp only: power_int_minus inverse_eq_divide)

text \<open>The magnitudes of the operands.\<close>

definition f32_mag :: "real \<Rightarrow> bool" where
  "f32_mag v \<longleftrightarrow> 2 powi (- 149) \<le> \<bar>v\<bar> \<and> \<bar>v\<bar> \<le> 2 powi 128"

lemma f32_magI: "f32_val w = MNum v \<Longrightarrow> f32_mag v"
  using f32_on_grid [of w] on_gridD(3,4) [of "- 149" 128 v] by (simp add: f32_mag_def)

lemma f32_mag_pos: "f32_mag v \<Longrightarrow> 0 < \<bar>v\<bar>"
proof -
  assume "f32_mag v"
  moreover have "0 < (2::real) powi (- 149)" by simp
  ultimately show ?thesis unfolding f32_mag_def by linarith
qed

lemma mrange_div:
  assumes "f32_mag v" "f32_mag w"
  shows "mrange (v / w)"
proof (rule mrange_1024)
  note p = f32_mag_pos [OF assms(1)] f32_mag_pos [OF assms(2)]
  have "2 powi (- 1024) \<le> (2::real) powi (- 149 + - 128)" by (rule powi_le) simp
  also have "\<dots> = 2 powi (- 149) / 2 powi 128" by (simp only: powi_add powi_inverse) simp
  also have "\<dots> \<le> \<bar>v\<bar> / \<bar>w\<bar>" by (rule frac_le) (use assms p in \<open>unfold f32_mag_def, linarith\<close>)+
  finally show "2 powi (- 1024) \<le> \<bar>v / w\<bar>" by (simp only: abs_divide)
  have "\<bar>v\<bar> / \<bar>w\<bar> \<le> 2 powi 128 / 2 powi (- 149)" by (rule frac_le) (use assms p in \<open>unfold f32_mag_def, (simp | linarith)\<close>)+
  also have "\<dots> = (2::real) powi (128 + 149)" by (simp only: powi_add powi_inverse) simp
  also have "\<dots> \<le> 2 powi 1024" by (rule powi_le) simp
  finally show "\<bar>v / w\<bar> \<le> 2 powi 1024" by (simp only: abs_divide)
qed

lemma mrange_sqrt:
  assumes "f32_mag v" "0 < v"
  shows "mrange (sqrt v)" "mrange (1 / sqrt v)"
proof -
  have s: "2 powi (- 149) \<le> sqrt v \<and> sqrt v \<le> 2 powi 128"
  proof (cases "v \<le> 1")
    case True
    then have "v \<le> sqrt v" using assms(2) by (intro real_le_rsqrt) (simp add: power2_eq_square mult_left_le)
    moreover have "sqrt v \<le> 1" using True by simp
    moreover have "(1::real) \<le> 2 powi 128" using powi_le [of 0 128] by simp
    ultimately show ?thesis using assms unfolding f32_mag_def by linarith
  next
    case False
    then have "sqrt v \<le> v" by (intro real_le_lsqrt) (simp_all add: power2_eq_square)
    moreover have "1 \<le> sqrt v" using False by simp
    moreover have "2 powi (- 149) \<le> (1::real)" using powi_le [of "- 149" 0] by simp
    ultimately show ?thesis using assms unfolding f32_mag_def by linarith
  qed
  have s0: "0 < sqrt v" using assms by simp
  then have f: "f32_mag (sqrt v)" using s by (simp add: f32_mag_def del: real_sqrt_le_iff)
  have "f32_mag 1" using powi_le [of "- 149" 0] powi_le [of 0 128] by (simp add: f32_mag_def)
  from mrange_div [OF f this] mrange_div [OF this f] show "mrange (sqrt v)" "mrange (1 / sqrt v)" by simp_all
qed

lemma mrange_exp: "\<bar>v\<bar> \<le> 256 \<Longrightarrow> mrange (exp v)"
  using exp_256 [of v] powi_le [of "- 1024" "- 512"] powi_le [of 512 1024] by (intro mrange_1024) simp_all

lemma mrange_exp2:
  assumes "\<bar>v\<bar> \<le> 256"
  shows "mrange (2 powr v)"
proof (rule mrange_1024)
  have "(2::real) powi (- 1024) = 2 powr (- 1024)" "(2::real) powi 1024 = 2 powr 1024"
    by (simp_all add: powr_minus powr_numeral power_int_minus)
  moreover have "2 powr (- 1024) \<le> 2 powr v" "2 powr v \<le> 2 powr 1024" by (rule powr_mono; use assms in simp)+
  ultimately show "2 powi (- 1024) \<le> \<bar>2 powr v\<bar>" "\<bar>2 powr v\<bar> \<le> 2 powi 1024" by (simp_all only: abs_of_pos powr_gt_zero)
qed

lemma mrange_sigmoid:
  assumes "\<bar>v\<bar> \<le> 256"
  shows "mrange (1 / (1 + exp (- v)))"
proof (rule mrange_1024)
  have e: "0 < exp (- v)" "exp (- v) \<le> 2 powi 512" using exp_256 [of "- v"] assms by simp_all
  have "(1::real) \<le> 2 powi 512" using powi_le [of 0 512] by simp
  then have s: "1 + exp (- v) \<le> 2 powi (1 + 512)" "0 < 1 + exp (- v)" using e unfolding powi_add power_int_1_right by linarith+
  have "2 powi (- 1024) \<le> (2::real) powi (- (1 + 512))" by (rule powi_le) simp
  also have "\<dots> = 1 / 2 powi (1 + 512)" by (rule powi_inverse)
  also have "\<dots> \<le> 1 / (1 + exp (- v))" using s by (intro divide_left_mono) simp_all
  finally show "2 powi (- 1024) \<le> \<bar>1 / (1 + exp (- v))\<bar>" using s(2) by (simp only: abs_of_pos zero_less_divide_1_iff)
  have "1 / (1 + exp (- v)) \<le> 1" unfolding divide_le_eq_1_pos [OF s(2)] using e(1) by linarith
  then have "\<bar>1 / (1 + exp (- v))\<bar> \<le> 1" using s(2) by (simp only: abs_of_pos zero_less_divide_1_iff)
  then show "\<bar>1 / (1 + exp (- v))\<bar> \<le> 2 powi 1024" using powi_le [of 0 1024] unfolding power_int_0_right by linarith
qed

lemma mrange_tanh:
  assumes v: "f32_mag v" and b: "\<bar>v\<bar> \<le> 256"
  shows "mrange (tanh v)"
proof -
  define t where "t = \<bar>v\<bar>"
  have t: "2 powi (- 149) \<le> t" "t \<le> 256" "0 < t" using v b f32_mag_pos [OF v] by (simp_all add: t_def f32_mag_def)
  define e where "e = exp (- 2 * t)"
  have e0: "0 < e" by (simp add: e_def)
  have "1 + 2 * t \<le> exp (2 * t)" by (rule exp_ge_add_one_self)
  then have "inverse (exp (2 * t)) \<le> inverse (1 + 2 * t)" using t by (intro le_imp_inverse_le) linarith+
  then have e: "e \<le> 1 / (1 + 2 * t)" by (simp add: e_def exp_minus inverse_eq_divide)
  have "1 / (1 + 2 * t) \<le> 1" using t by simp
  with e have e1: "e \<le> 1" by linarith
  have th: "tanh t = (1 - e) / (1 + e)" unfolding e_def by (simp add: tanh_real_altdef)
  have "t / 512 / 2 \<le> (1 - e) / 2"
  proof -
    have "t / 512 \<le> 2 * t / (1 + 2 * t)"
    proof (rule pos_le_divide_eq [THEN iffD2])
      have "t * (1 + 2 * t) \<le> t * 1024" using t by (intro mult_left_mono) linarith+
      then show "t / 512 * (1 + 2 * t) \<le> 2 * t" by simp
    qed (use t in linarith)
    also have "\<dots> = 1 - 1 / (1 + 2 * t)" using t by (simp add: field_simps)
    also have "\<dots> \<le> 1 - e" using e by linarith
    finally show ?thesis by simp
  qed
  also have "\<dots> \<le> (1 - e) / (1 + e)" using e0 e1 by (intro divide_left_mono) simp_all
  finally have lo: "t / 1024 \<le> tanh t" by (simp add: th)
  have m: "mrange (tanh t)"
  proof (rule mrange_between [of "t / 1024" _ 1])
    show "0 < t / 1024" using t by simp
    show "t / 1024 \<le> \<bar>tanh t\<bar>" using lo by linarith
    show "\<bar>tanh t\<bar> \<le> 1" using tanh_real_bounds [of t] unfolding greaterThanLessThan_iff by linarith
    have "(2::real) powi (- 1024) \<le> 2 powi (- 149 + - 10)" by (rule powi_le) simp
    also have "\<dots> = 2 powi (- 149) / 1024" unfolding powi_add by (simp add: power_int_minus)
    also have "\<dots> \<le> t / 1024" using t(1) by (intro divide_right_mono) simp_all
    finally show "2 powi (- 1024) \<le> t / 1024" .
    show "1 \<le> (2::real) powi 1024" using powi_le [of 0 1024] by simp
  qed
  have "\<bar>tanh v\<bar> = \<bar>tanh t\<bar>" unfolding t_def by (simp add: abs_if)
  with m show ?thesis unfolding mrange_def by simp
qed

text \<open>The logarithm is away from zero because the arguments are multiples of \<open>2 powi (- 149)\<close>.\<close>

lemma mrange_ln:
  assumes g: "on_grid (- 149) 128 (MNum v)" and v: "0 < v" "v \<noteq> 1"
  shows "\<exists>k\<le>512. 2 powi (- k) \<le> \<bar>ln v\<bar> \<and> \<bar>ln v\<bar> \<le> 2 powi k"
proof -
  obtain i :: int where i: "v = of_int i * 2 powi (- 149)" using on_gridD [OF g] by blast
  have one: "(1::real) = of_int (2 ^ 149) * 2 powi (- 149)" by (simp add: power_int_minus)
  have b: "2 powi (- 149) \<le> v" "v \<le> 2 powi 128" using on_gridD [OF g] v by simp_all
  have d: "2 powi (- 149) \<le> \<bar>v - 1\<bar>"
  proof -
    have "v - 1 = of_int (i - 2 ^ 149) * 2 powi (- 149)" by (subst one, subst i) (simp add: left_diff_distrib)
    moreover have "i - 2 ^ 149 \<noteq> 0"
    proof
      assume "i - 2 ^ 149 = 0"
      then have "v = of_int (2 ^ 149) * 2 powi (- 149)" using i by simp
      then show False using v(2) one by simp
    qed
    then have "1 \<le> \<bar>real_of_int (i - 2 ^ 149)\<bar>" by linarith
    then have "1 * 2 powi (- 149) \<le> \<bar>real_of_int (i - 2 ^ 149)\<bar> * 2 powi (- 149)" by (intro mult_right_mono) simp_all
    ultimately show ?thesis by (simp only: abs_mult mult_1) simp
  qed
  have u: "ln v \<le> v - 1" "- ln v \<le> 1 / v - 1"
    using ln_le_minus_one [OF v(1)] ln_le_minus_one [of "1 / v"] v(1) by (simp_all add: ln_div)
  have iv: "1 / v \<le> 2 powi 149"
  proof -
    have "1 / v \<le> 1 / 2 powi (- 149)" using b v by (intro divide_left_mono) simp_all
    then show ?thesis by (simp add: power_int_minus)
  qed
  have p: "(2::real) powi 128 \<le> 2 powi 512" "(2::real) powi 149 \<le> 2 powi 512" by (rule powi_le; simp)+
  have up: "\<bar>ln v\<bar> \<le> 2 powi 512" using u b iv p by linarith
  have lo: "2 powi (- 512) \<le> \<bar>ln v\<bar>"
  proof (cases "1 < v")
    case True
    have "2 powi (- 512) \<le> (2::real) powi (- 149 + - 128)" by (rule powi_le) simp
    also have "\<dots> = 2 powi (- 149) / 2 powi 128" by (simp only: powi_add powi_inverse) simp
    also have "\<dots> \<le> (v - 1) / v" by (rule frac_le) (use b d True in \<open>linarith\<close>)+
    also have "\<dots> = 1 - 1 / v" using v(1) by (simp add: field_simps)
    also have "\<dots> \<le> ln v" using u by linarith
    finally show ?thesis by linarith
  next
    case False
    have "(2::real) powi (- 512) \<le> 2 powi (- 149)" by (rule powi_le) simp
    then show ?thesis using d u(1) False by linarith
  qed
  show ?thesis using up lo by blast
qed

lemma mrange_log:
  assumes "on_grid (- 149) 128 (MNum v)" "0 < v" "v \<noteq> 1"
  shows "mrange (ln v)" "mrange (log 2 v)"
proof -
  obtain k where k: "k \<le> 512" "2 powi (- k) \<le> \<bar>ln v\<bar>" "\<bar>ln v\<bar> \<le> 2 powi k" using mrange_ln [OF assms] by blast
  show "mrange (ln v)" using k(2,3) by (rule mrangeI) (use k(1) emax_ge in simp)
  have l2: "1 / 2 \<le> ln (2::real)" "ln (2::real) \<le> 1" 
    using ln_le_minus_one [of "1 / 2 :: real"] ln_le_minus_one [of "2 :: real"] by (simp_all add: ln_div)
  have a: "\<bar>log 2 v\<bar> = \<bar>ln v\<bar> / ln 2" by (simp add: log_def)
  show "mrange (log 2 v)"
  proof (rule mrangeI [of "k + 1"])
    have "(2::real) powi (- (k + 1)) \<le> 2 powi (- k)" by (rule powi_le) simp
    also have "\<dots> \<le> \<bar>ln v\<bar> / 1" using k by simp
    also have "\<dots> \<le> \<bar>ln v\<bar> / ln 2" using l2 by (intro divide_left_mono) simp_all
    finally show "2 powi (- (k + 1)) \<le> \<bar>log 2 v\<bar>" by (simp only: a)
    have "\<bar>ln v\<bar> / ln 2 \<le> \<bar>ln v\<bar> / (1 / 2)" using l2 by (intro divide_left_mono) simp_all
    also have "\<dots> \<le> 2 powi (k + 1)" using k(3) by (simp add: powi_add)
    finally show "\<bar>log 2 v\<bar> \<le> 2 powi (k + 1)" by (simp only: a)
  qed (use k(1) emax_ge in simp)
qed

section \<open>The correctness theorem\<close>

text \<open>The arguments that take the shortcut.\<close>

definition math_huge :: "vu_math_operation \<Rightarrow> mval \<Rightarrow> bool" where
  "math_huge operation a \<longleftrightarrow>
     (operation = VU_EXP \<or> operation = VU_EXP2 \<or> operation = VU_SIGMOID \<or> operation = VU_TANH) \<and>
     256 < \<bar>mreal a\<bar>"

lemma one_grid: "on_grid (- 149) 128 (MNum 1)"
proof -
  have "(1::real) = of_int (2 ^ 149) * 2 powi (- 149)" by (simp add: power_int_minus)
  moreover have "\<bar>1::real\<bar> \<le> 2 powi 128" using powi_le [of 0 128] by simp
  ultimately show ?thesis unfolding on_grid_def by (metis mval.inject(3) one_neq_zero)
qed

lemma ideal_in_range:
  fixes x y z :: u32
  defines "a \<equiv> f32_val x" and "b \<equiv> f32_val y" and "c \<equiv> f32_val z"
  assumes operation: "operation \<noteq> VU_SIN" "operation \<noteq> VU_COS" and huge: "\<not> math_huge operation a"
    and v: "vu_ideal operation r a b c = MNum v"
  shows "mrange v"
proof -
  have g: "on_grid (- 149) 128 a" "on_grid (- 149) 128 b" "on_grid (- 149) 128 c"
    by (simp_all add: a_def b_def c_def f32_on_grid)
  have mag: "a = MNum w \<Longrightarrow> f32_mag w" "b = MNum w \<Longrightarrow> f32_mag w" for w
    by (simp_all add: a_def b_def f32_magI)
  have one: "f32_mag 1" using powi_le [of "- 149" 0] powi_le [of 0 128] by (simp add: f32_mag_def)
  have m1: "mrange 1" "mrange (- 1)" by (rule mrangeI [of 0]; simp add: emax_ge)+
  note range = on_grid_range [of _ _ v]
  show ?thesis
  proof (cases operation)
    case VU_ADD
    then show ?thesis using on_grid_add [OF g(1,2), of r] v range [of "- 149" "128 + 1"] by (simp add: vu_ideal_def)
  next
    case VU_SUB
    then show ?thesis using on_grid_add [OF g(1) on_grid_neg [OF g(2)], of r] v range [of "- 149" "128 + 1"]
      by (simp add: vu_ideal_def ideal_sub_def)
  next
    case VU_MUL
    then show ?thesis using on_grid_mul [OF g(1,2)] v range [of "- 149 + - 149" "128 + 128"] by (simp add: vu_ideal_def)
  next
    case VU_DIV
    then have "ideal_div a b = MNum v" using v by (simp add: vu_ideal_def)
    then obtain p q where "a = MNum p" "b = MNum q" "v = p / q" by (cases a; cases b) auto
    then show ?thesis using mrange_div mag by blast
  next
    case VU_FMA
    have "on_grid (- 149 + - 149) (128 + 128) c" by (rule on_grid_mono [OF g(3)]) simp_all
    from on_grid_add [OF on_grid_mul [OF g(1,2)] this, of r] VU_FMA
    show ?thesis using v range [of "- 149 + - 149" "128 + 128 + 1"] by (simp add: vu_ideal_def ideal_fma_def)
  next
    case VU_TANH
    then have "ideal_tanh a = MNum v" using v by (simp add: vu_ideal_def)
    then consider "v = 1" | "v = - 1" | p where "a = MNum p" "v = tanh p" by (cases a) (auto split: if_splits)
    then show ?thesis using m1 mrange_tanh mag huge VU_TANH by cases (auto simp: math_huge_def)
  next
    case VU_SIGMOID
    then have "ideal_sigmoid a = MNum v" using v by (simp add: vu_ideal_def)
    then consider "v = 1" | p where "v = 1 / (1 + exp (- p))" "p = mreal a" by (cases a) (auto split: if_splits)
    then show ?thesis using m1 mrange_sigmoid huge VU_SIGMOID by cases (auto simp: math_huge_def)
  next
    case VU_EXP
    then have "v = exp (mreal a)" using v by (cases a) (auto simp: vu_ideal_def split: if_splits)
    then show ?thesis using mrange_exp huge VU_EXP by (auto simp: math_huge_def)
  next
    case VU_EXP2
    then have "v = 2 powr (mreal a)" using v by (cases a) (auto simp: vu_ideal_def split: if_splits)
    then show ?thesis using mrange_exp2 huge VU_EXP2 by (auto simp: math_huge_def)
  next
    case VU_LOG
    then obtain p where p: "a = MNum p" "\<not> p < 0" "p \<noteq> 1" "v = ln p"
      using v by (cases a) (auto simp: vu_ideal_def split: if_splits)
    then have "0 < p" using f32_mag_pos [OF mag(1)] by force
    then show ?thesis using mrange_log(1) g(1) p by simp
  next
    case VU_LOG2
    then obtain p where p: "a = MNum p" "\<not> p < 0" "p \<noteq> 1" "v = log 2 p"
      using v by (cases a) (auto simp: vu_ideal_def split: if_splits)
    then have "0 < p" using f32_mag_pos [OF mag(1)] by force
    then show ?thesis using mrange_log(2) g(1) p by simp
  next
    case VU_SQRT
    then obtain p where p: "a = MNum p" "\<not> p < 0" "v = sqrt p"
      using v by (cases a) (auto simp: vu_ideal_def split: if_splits)
    then have "0 < p" using f32_mag_pos [OF mag(1)] by force
    then show ?thesis using mrange_sqrt(1) mag p by simp
  next
    case VU_RSQRT
    then obtain p where p: "a = MNum p" "\<not> p < 0" "v = 1 / sqrt p"
      using v by (cases a) (auto simp: vu_ideal_def split: if_splits)
    then have "0 < p" using f32_mag_pos [OF mag(1)] by force
    then show ?thesis using mrange_sqrt(2) mag p by simp
  next
    case VU_RCP
    then have "ideal_div (MNum 1) a = MNum v" using v by (simp add: vu_ideal_def)
    then obtain q where "a = MNum q" "v = 1 / q" by (cases a) auto
    then show ?thesis using mrange_div [OF one] mag by blast
  qed (use operation in simp_all)
qed

lemma vu_huge_p_iff:
  assumes ok: "mpfr_ok M sem"
  shows "vu_huge_p M operation a \<longleftrightarrow> math_huge operation (sem a)"
proof (cases "sem a = MNan \<or> (\<exists>s. sem a = MInf s)")
  case True
  then show ?thesis using mpfr_queriesD(4) [OF ok, of a] by (auto simp: vu_huge_p_def math_huge_def)
next
  case False
  then have fin: "sem a \<noteq> MNan" "\<forall>s. sem a \<noteq> MInf s" by auto
  have fl: "\<lfloor>- 1 :: real\<rfloor> = - 1" by linarith
  have "(0 < mpfr_cmp_si M a i \<longleftrightarrow> of_int i < mreal (sem a)) \<and> (mpfr_cmp_si M a i < 0 \<longleftrightarrow> mreal (sem a) < of_int i)" for i
    using mpfr_comparisonsD(2) [OF ok fin, of i] by (simp add: sgn_if fl split: if_splits)
  from this [of 256] this [of "- 256"] show ?thesis
    using fin mpfr_queriesD(4) [OF ok, of a] by (auto simp: vu_huge_p_def math_huge_def)
qed

text \<open>The operands that do not take the shortcut are in the domain of the bounds.\<close>

lemma operand_domain:
  assumes trig: "\<And>r v. operation = VU_SIN \<or> operation = VU_COS \<Longrightarrow>
      vu_ideal operation r (f32_val a) (f32_val b) (f32_val c) = MNum v \<Longrightarrow> mrange v"
    and small: "\<not> math_huge operation (f32_val a)"
  shows "math_domain operation (f32_val a) (f32_val b) (f32_val c)"
  unfolding math_domain_def
proof (intro conjI allI impI)
  fix r v assume "vu_ideal operation r (f32_val a) (f32_val b) (f32_val c) = MNum v"
  then show "mrange v" using trig ideal_in_range [OF _ _ small] by blast
next
  fix v assume "f32_val a = MNum v"
  then show "mrange v" using f32_on_grid [of a] on_grid_range [of "- 149" 128 v] by simp
next
  assume "operation = VU_SIGMOID"
  then show "\<bar>mreal (f32_val a)\<bar> \<le> 256" using small by (simp add: math_huge_def)
qed

lemma math_result_code:
  assumes ok: "mpfr_ok M sem" and fuel: "fuel \<le> 23"
    and trig: "operation = VU_SIN \<or> operation = VU_COS \<longrightarrow>
      (\<forall>r v. vu_ideal operation r (f32_val a) (f32_val b) (f32_val c) = MNum v \<longrightarrow> mrange v)"
    and result: "vu_math_result M fuel operation a b c data_type rm = Some w"
  shows "w = vu_code data_type rm (vu_ideal operation (zero_rnd rm) (f32_val a) (f32_val b) (f32_val c))"
proof -
  have p: "mprec_ok 64" by (simp add: mprec_ok_def)
  define x y z where "x = fst (mpfr_set_d M 64 (c_double (vu_bits_to_fp32 a)) MPFR_RNDN)"
    and "y = fst (mpfr_set_d M 64 (c_double (vu_bits_to_fp32 b)) MPFR_RNDN)"
    and "z = fst (mpfr_set_d M 64 (c_double (vu_bits_to_fp32 c)) MPFR_RNDN)"
  have s: "sem x = f32_val a" "sem y = f32_val b" "sem z = f32_val c" "mpfr_get_prec M x = 64"
    unfolding x_def y_def z_def by (rule set_d_exact [OF ok p]; simp)+
  have r: "Some w = (if vu_huge_p M operation x then Some (vu_huge_result M 64 operation x data_type rm)
      else vu_math_loop M operation x y z data_type rm fuel 64)"
    using result [symmetric] unfolding vu_math_result_def Let_def x_def y_def z_def .
  show ?thesis
  proof (cases "math_huge operation (f32_val a)")
    case True
    then obtain v where v: "f32_val a = MNum v" "256 < \<bar>v\<bar>" by (cases "f32_val a") (simp_all add: math_huge_def)
    have "vu_huge_p M operation x" using True by (simp add: vu_huge_p_iff [OF ok] s)
    then have "w = vu_huge_result M 64 operation x data_type rm" using r by simp
    also have "\<dots> = vu_code data_type rm (vu_ideal operation (zero_rnd rm) (MNum v) (f32_val b) (f32_val c))"
      by (rule huge_result [OF ok _ v(2) p]) (use s v True in \<open>simp_all add: math_huge_def\<close>)
    finally show ?thesis by (simp only: v)
  next
    case False
    then have "\<not> vu_huge_p M operation x" by (simp add: vu_huge_p_iff [OF ok] s)
    then have loop: "vu_math_loop M operation x y z data_type rm fuel 64 = Some w" using r by simp
    have dom: "math_domain operation (sem x) (sem y) (sem z)"
      unfolding s using trig by (intro operand_domain [OF _ False]) blast
    have "(2::nat) ^ fuel \<le> 2 ^ 23" using fuel by (intro power_increasing) simp_all
    then show ?thesis
      using vu_math_loop_correct [OF ok dom _ _ _ loop] unfolding s by simp
  qed
qed


end
