(* ===== verification/Vu_Total.thy ===== *)
theory Vu_Total
  imports Vu_Correct
begin

text \<open>
  Termination of the loop of \<open>vu_math_result\<close>.  The bounds of every operation but the sigmoid are
  correctly rounded, so no number of 64 bits, in particular no encoding and no midpoint between
  two encodings, lies strictly between them: the first round already decides the result.
\<close>

section \<open>Two neighbourhoods without a breakpoint between them\<close>

lemma sided_code_unique:
  assumes "sided_code F m neg V (- 1) d" "sided_code F m neg V (- 1) d'"
  shows "d = d'"
proof -
  define lo hi where "lo c = real (ival (fbits F) c)" and "hi c = real (ival (fbits F) (Suc c))" for c
  from assms obtain c c' where c: "c \<le> maxfin F" "lo c < V" "c = maxfin F \<or> V \<le> hi c"
      "d = c + of_bool (round_incr m neg (odd c) True (lo c + hi c < 2 * V) False)"
    and c': "c' \<le> maxfin F" "lo c' < V" "c' = maxfin F \<or> V \<le> hi c'"
      "d' = c' + of_bool (round_incr m neg (odd c') True (lo c' + hi c' < 2 * V) False)"
    unfolding sided_code_def Let_def lo_def hi_def by auto
  have mono: "hi a \<le> lo b" if "a < b" for a b
    using that unfolding lo_def hi_def by (simp add: Suc_le_eq)
  have "c = c'"
  proof (rule ccontr)
    assume "c \<noteq> c'"
    then consider "c < c'" | "c' < c" by linarith
    then show False using c c' mono [of c c'] mono [of c' c] by cases auto
  qed
  then show ?thesis using c c' by simp
qed

lemma sided_meet:
  assumes V: "sided_code F m neg V 1 d" and W: "sided_code F m neg W (- 1) d'" and VW: "V < W"
    and gap: "\<And>c. \<not> (V < real (ival (fbits F) c) \<and> real (ival (fbits F) c) < W)"
      "\<And>c. \<not> (2 * V < real (ival (fbits F) c + ival (fbits F) (Suc c)) \<and> real (ival (fbits F) c + ival (fbits F) (Suc c)) < 2 * W)"
  shows "d = d'"
proof -
  define lo hi where "lo c = real (ival (fbits F) c)" and "hi c = real (ival (fbits F) (Suc c))" for c
  from V obtain c where c: "c \<le> maxfin F" "lo c \<le> V" "c = maxfin F \<or> V < hi c"
    and d: "d = c + of_bool (round_incr m neg (odd c) True (lo c + hi c < 2 * V \<or> 2 * V = lo c + hi c) False)"
    unfolding sided_code_def Let_def lo_def hi_def by auto
  have hiW: "c = maxfin F \<or> W \<le> hi c" using c(3) gap(1) [of "Suc c"] by (auto simp: hi_def not_less)
  have mid: "lo c + hi c < 2 * V \<or> 2 * V = lo c + hi c \<longleftrightarrow> lo c + hi c < 2 * W"
    using gap(2) [of c] VW by (auto simp: lo_def hi_def)
  have "lo c < W" using c(2) VW by simp
  then have "sided_code F m neg W (- 1) d"
    using c(1) hiW d mid unfolding sided_code_def Let_def lo_def hi_def by fastforce
  then show ?thesis using W by (rule sided_code_unique)
qed

text \<open>Encodings and midpoints have at most 25 bits.\<close>

lemma mrep_nat: "s < 2 ^ p \<Longrightarrow> mrep p (real (s * 2 ^ k) / 2 ^ u)"
  unfolding mrep_def
  by (intro exI [of _ "int s"] exI [of _ "int k - int u"]) (simp add: power_int_diff)

lemma breakpoints_mrep:
  "mrep (fb + 2) (real (ival fb c) / 2 ^ u)" "mrep (fb + 2) (real (ival fb c + ival fb (Suc c)) / 2 / 2 ^ u)"
proof -
  obtain s k where s: "ival fb c = s * 2 ^ k" "s < 2 * 2 ^ fb" "k = 0 \<or> 2 ^ fb \<le> s" by (rule ival_scientific)
  show "mrep (fb + 2) (real (ival fb c) / 2 ^ u)" unfolding s(1) by (rule mrep_nat) (use s(2) in simp)
  have sp: "spacing fb c = 2 ^ k"
  proof (cases "2 ^ fb \<le> s")
    case True
    have "ival fb (k * 2 ^ fb + s) = ival fb c" using ival_pack [OF True s(2)] s(1) by simp
    then have c: "c = k * 2 ^ fb + s" by simp
    have "s div 2 ^ fb = 1" using True s(2) by (intro div_nat_eqI) simp_all
    then show ?thesis unfolding c spacing_def by simp
  next
    case False
    then have "ival fb c = s" "k = 0" using s by simp_all
    moreover have "ival fb s = s" using False by (simp add: ival_small)
    ultimately have "c = s" by (metis ival_eq_iff)
    then show ?thesis using False \<open>k = 0\<close> by (simp add: spacing_def)
  qed
  have "ival fb c + ival fb (Suc c) = (2 * s + 1) * 2 ^ k" unfolding ival_Suc sp s(1) by (simp add: algebra_simps)
  then have "real (ival fb c + ival fb (Suc c)) / 2 / 2 ^ u = real ((2 * s + 1) * 2 ^ k) / 2 ^ Suc u" by simp
  also have "mrep (fb + 2) \<dots>" by (rule mrep_nat) (use s(2) in simp)
  finally show "mrep (fb + 2) (real (ival fb c + ival fb (Suc c)) / 2 / 2 ^ u)" .
qed

section \<open>The first round decides\<close>

lemma first_round:
  fixes M :: "'m mpfr"
  assumes ok: "mpfr_ok M sem" and p: "mprec_ok p" "25 \<le> p" and v: "mrange v"
    and lo: "delivers M sem p MPFR_RNDD (MNum v) lo" and hi: "delivers M sem p MPFR_RNDU (MNum v) hi"
  shows "vu_mpfr_to_value M (fst lo) data_type rm (if snd lo \<noteq> 0 then 1 else 0) =
    vu_mpfr_to_value M (fst hi) data_type rm (if snd hi \<noteq> 0 then - 1 else 0)"
proof -
  have p0: "0 < p" using p by simp
  obtain l where l: "sem (fst lo) = MNum l" "correct p MPFR_RNDD v l (snd lo)" "mpfr_get_prec M (fst lo) = p" "mrange l"
    using delivers_numE [OF lo v p0] .
  obtain h where h: "sem (fst hi) = MNum h" "correct p MPFR_RNDU v h (snd hi)" "mpfr_get_prec M (fst hi) = p" "mrange h"
    using delivers_numE [OF hi v p0] .
  have pl: "mprec_ok (mpfr_get_prec M (fst lo))" "mprec_ok (mpfr_get_prec M (fst hi))" using l h p by simp_all
  show ?thesis
  proof (cases "mrep p v")
    case True
    then have e: "l = v" "snd lo = 0" "h = v" "snd hi = 0" using correct_exact l h by blast+
    then show ?thesis
      using to_value_exact [OF ok l(1) pl(1) l(4), of data_type rm] to_value_exact [OF ok h(1) pl(2) h(4), of data_type rm] by simp
  next
    case False
    have lr: "mrep p l" "mrep p h" using l h by (simp_all add: correct_def)
    then have i: "snd lo \<noteq> 0" "snd hi \<noteq> 0" using correct_down [OF l(2)] correct_up [OF h(2)] False by (auto split: if_splits)
    then have lvh: "l < v" "v < h" using correct_down [OF l(2)] correct_up [OF h(2)] by simp_all
    have sg: "(l < 0) = (v < 0)" "(h < 0) = (v < 0)" using correct_range(2) [OF l(2) v p0] correct_range(2) [OF h(2) v p0] .
    have no: "\<not> (l < u \<and> u < h)" if "mrep p u" for u
      using correct_mono(1) [OF l(2) that] correct_mono(2) [OF h(2) that] by linarith
    let ?F = "vu_fmt data_type"
    define U :: real where "U = 2 ^ ulp0 ?F"
    have U: "0 < U" by (simp add: U_def)
    have fb: "fbits ?F + 2 \<le> p" using p(2) vu_fmt_facts(2) [of data_type] by auto
    have bp: "mrep p (real (ival (fbits ?F) c) / U)" "mrep p (real (ival (fbits ?F) c + ival (fbits ?F) (Suc c)) / 2 / U)" for c
      using mrep_mono [OF breakpoints_mrep(1) fb] mrep_mono [OF breakpoints_mrep(2) fb] unfolding U_def by blast+
    obtain d where d: "vu_mpfr_to_value M (fst lo) data_type rm 1 = vu_word data_type (v < 0) d"
      "sided_code ?F (math_mode rm) (v < 0) (\<bar>l\<bar> * U) (if v < 0 then - 1 else 1) d"
      using to_value_num_ex [OF ok l(1) pl(1) l(4), of 1 data_type rm] unfolding sg(1) U_def by auto
    obtain d' where d': "vu_mpfr_to_value M (fst hi) data_type rm (- 1) = vu_word data_type (v < 0) d'"
      "sided_code ?F (math_mode rm) (v < 0) (\<bar>h\<bar> * U) (if v < 0 then 1 else - 1) d'"
      using to_value_num_ex [OF ok h(1) pl(2) h(4), of "- 1" data_type rm] unfolding sg(2) U_def minus_minus by auto
    have "d = d'"
    proof (cases "v < 0")
      case True
      then have neg: "l < 0" "h < 0" using sg by simp_all
      have gap: "\<not> (\<bar>h\<bar> * U < x \<and> x < \<bar>l\<bar> * U)" if "mrep p (x / U)" for x
      proof
        assume "\<bar>h\<bar> * U < x \<and> x < \<bar>l\<bar> * U"
        then have "\<bar>h\<bar> < x / U" "x / U < \<bar>l\<bar>" using U by (simp_all add: less_divide_eq divide_less_eq)
        then have "l < - (x / U)" "- (x / U) < h" using neg by linarith+
        moreover have "mrep p (- (x / U))" using that by (simp only: mrep_minus)
        ultimately show False using no by blast
      qed
      have "d' = d"
      proof (rule sided_meet [of ?F "math_mode rm" True "\<bar>h\<bar> * U" d' "\<bar>l\<bar> * U"])
        show "sided_code ?F (math_mode rm) True (\<bar>h\<bar> * U) 1 d'" "sided_code ?F (math_mode rm) True (\<bar>l\<bar> * U) (- 1) d"
          using d(2) d'(2) True by simp_all
        show "\<bar>h\<bar> * U < \<bar>l\<bar> * U" using lvh neg U by (intro mult_strict_right_mono) linarith+
        show "\<not> (\<bar>h\<bar> * U < real (ival (fbits ?F) c) \<and> real (ival (fbits ?F) c) < \<bar>l\<bar> * U)" for c
          by (rule gap [OF bp(1)])
        show "\<not> (2 * (\<bar>h\<bar> * U) < real (ival (fbits ?F) c + ival (fbits ?F) (Suc c)) \<and>
            real (ival (fbits ?F) c + ival (fbits ?F) (Suc c)) < 2 * (\<bar>l\<bar> * U))" for c
          using gap [OF bp(2) [of c]] by (auto simp: field_simps)
      qed
      then show ?thesis by simp
    next
      case False
      then have pos: "0 < l" "0 < h" using sg correct_range(3) [OF l(2) v p0] correct_range(3) [OF h(2) v p0] by linarith+
      have gap: "\<not> (\<bar>l\<bar> * U < x \<and> x < \<bar>h\<bar> * U)" if "mrep p (x / U)" for x
      proof
        assume "\<bar>l\<bar> * U < x \<and> x < \<bar>h\<bar> * U"
        then have "\<bar>l\<bar> < x / U" "x / U < \<bar>h\<bar>" using U by (simp_all add: less_divide_eq divide_less_eq)
        then show False using no [OF that] pos by linarith
      qed
      show ?thesis
      proof (rule sided_meet [of ?F "math_mode rm" False "\<bar>l\<bar> * U" d "\<bar>h\<bar> * U"])
        show "sided_code ?F (math_mode rm) False (\<bar>l\<bar> * U) 1 d" "sided_code ?F (math_mode rm) False (\<bar>h\<bar> * U) (- 1) d'"
          using d(2) d'(2) False by simp_all
        show "\<bar>l\<bar> * U < \<bar>h\<bar> * U" using lvh pos U by (intro mult_strict_right_mono) linarith+
        show "\<not> (\<bar>l\<bar> * U < real (ival (fbits ?F) c) \<and> real (ival (fbits ?F) c) < \<bar>h\<bar> * U)" for c
          by (rule gap [OF bp(1)])
        show "\<not> (2 * (\<bar>l\<bar> * U) < real (ival (fbits ?F) c + ival (fbits ?F) (Suc c)) \<and>
            real (ival (fbits ?F) c + ival (fbits ?F) (Suc c)) < 2 * (\<bar>h\<bar> * U))" for c
          using gap [OF bp(2) [of c]] by (auto simp: field_simps)
      qed
    qed
    then show ?thesis using i d(1) d'(1) by simp
  qed
qed

section \<open>The result in one round\<close>

lemma delivers_specialD:
  assumes "delivers M sem p r I y" "\<forall>v. I \<noteq> MNum v"
  shows "sem (fst y) = I" "snd y = 0"
  using assms by (cases I; simp add: delivers_def)+

lemma loop_first:
  fixes M :: "'m mpfr"
  assumes ok: "mpfr_ok M sem" and dom: "math_domain operation (sem a) (sem b) (sem c)"
    and p: "mprec_ok p" "25 \<le> p"
    and sigmoid: "operation = VU_SIGMOID \<Longrightarrow> sem a = MNan \<or> (\<exists>s. sem a = MInf s)"
  obtains w where "\<And>n. vu_math_loop M operation a b c data_type rm (Suc n) p = Some w"
proof -
  define lo hi where "lo = vu_mpfr_evaluate M p operation a b c MPFR_RNDD" and "hi = vu_mpfr_evaluate M p operation a b c MPFR_RNDU"
  let ?I = "\<lambda>r. vu_ideal operation r (sem a) (sem b) (sem c)"
  let ?low = "vu_mpfr_to_value M (fst lo) data_type rm (if snd lo \<noteq> 0 then 1 else 0)"
  let ?high = "vu_mpfr_to_value M (fst hi) data_type rm (if snd hi \<noteq> 0 then - 1 else 0)"
  have d: "delivers M sem p r (?I r) (vu_mpfr_evaluate M p operation a b c r)" for r
  proof (cases "operation = VU_SIGMOID")
    case True
    then obtain s where "sem a = MNan \<or> sem a = MInf s" using sigmoid by blast
    then show ?thesis using sigmoid_special [OF ok p(1)] True by (simp add: vu_ideal_def)
  qed (rule evaluate_delivers [OF ok p(1)])
  have D: "delivers M sem p MPFR_RNDD (?I MPFR_RNDD) lo" "delivers M sem p MPFR_RNDU (?I MPFR_RNDU) hi"
    unfolding lo_def hi_def by (rule d)+
  have same: "same_result (?I MPFR_RNDD) (?I MPFR_RNDU)" by (rule vu_ideal_rnd)
  have "(mpfr_zero_p M (fst lo) \<and> mpfr_zero_p M (fst hi) \<and> snd lo = 0 \<and> snd hi = 0) \<or> ?low = ?high"
  proof (cases "?I MPFR_RNDD")
    case (MNum v)
    then have u: "?I MPFR_RNDU = MNum v" using same by (auto simp: same_result_def)
    have "mrange v" using dom MNum unfolding math_domain_def by blast
    then show ?thesis using first_round [OF ok p _ D [unfolded MNum u]] by blast
  next
    case MNan
    then have u: "?I MPFR_RNDU = MNan" using same by (auto simp: same_result_def)
    show ?thesis using delivers_specialD [OF D(1) [unfolded MNan]] delivers_specialD [OF D(2) [unfolded u]]
      by (simp add: to_value_special [OF ok])
  next
    case (MInf s)
    then have u: "?I MPFR_RNDU = MInf s" using same by (auto simp: same_result_def)
    show ?thesis using delivers_specialD [OF D(1) [unfolded MInf]] delivers_specialD [OF D(2) [unfolded u]]
      by (simp add: to_value_special [OF ok])
  next
    case (MZero s)
    then obtain t where u: "?I MPFR_RNDU = MZero t" using same by (metis same_result_def)
    show ?thesis using delivers_specialD [OF D(1) [unfolded MZero]] delivers_specialD [OF D(2) [unfolded u]]
      by (simp add: mpfr_queriesD(3) [OF ok])
  qed
  then have "\<exists>w. \<forall>n. vu_math_loop M operation a b c data_type rm (Suc n) p = Some w"
    unfolding vu_math_loop.simps Let_def case_prod_beta lo_def [symmetric] hi_def [symmetric] by auto
  then show thesis using that by blast
qed

lemma math_result_returns:
  assumes ok: "mpfr_ok M sem" and fuel: "0 < fuel"
    and trig: "operation = VU_SIN \<or> operation = VU_COS \<longrightarrow>
      (\<forall>r v. vu_ideal operation r (f32_val a) (f32_val b) (f32_val c) = MNum v \<longrightarrow> mrange v)"
    and sigmoid: "operation = VU_SIGMOID \<longrightarrow> fnan F32 a \<or> finf F32 a \<or> 256 < \<bar>fval F32 a\<bar>"
  shows "vu_math_result M fuel operation a b c data_type rm =
    Some (vu_code data_type rm (vu_ideal operation (zero_rnd rm) (f32_val a) (f32_val b) (f32_val c)))"
proof -
  have p: "mprec_ok 64" by (simp add: mprec_ok_def)
  define x y z where "x = fst (mpfr_set_d M 64 (c_double (vu_bits_to_fp32 a)) MPFR_RNDN)"
    and "y = fst (mpfr_set_d M 64 (c_double (vu_bits_to_fp32 b)) MPFR_RNDN)"
    and "z = fst (mpfr_set_d M 64 (c_double (vu_bits_to_fp32 c)) MPFR_RNDN)"
  have s: "sem x = f32_val a" "sem y = f32_val b" "sem z = f32_val c"
    unfolding x_def y_def z_def by (rule set_d_exact [OF ok p]; simp)+
  have r: "vu_math_result M f operation a b c data_type rm =
      (if vu_huge_p M operation x then Some (vu_huge_result M 64 operation x data_type rm)
       else vu_math_loop M operation x y z data_type rm f 64)" for f
    unfolding vu_math_result_def Let_def x_def y_def z_def ..
  obtain n where n: "fuel = Suc n" using fuel by (cases fuel) simp_all
  have "\<exists>w. \<forall>n. vu_math_result M (Suc n) operation a b c data_type rm = Some w"
  proof (cases "math_huge operation (f32_val a)")
    case True
    then show ?thesis using r by (simp add: vu_huge_p_iff [OF ok] s)
  next
    case False
    then have small: "\<not> vu_huge_p M operation x" by (simp add: vu_huge_p_iff [OF ok] s)
    have dom: "math_domain operation (sem x) (sem y) (sem z)"
      unfolding s using trig by (intro operand_domain [OF _ False]) blast
    have "sem x = MNan \<or> (\<exists>s. sem x = MInf s)" if "operation = VU_SIGMOID"
    proof (cases "fnan F32 a \<or> finf F32 a")
      case True
      then show ?thesis unfolding s f32_val_def by auto
    next
      case finite: False
      then have "256 < \<bar>fval F32 a\<bar>" using sigmoid that by blast
      then have "of_rat 256 < (of_rat \<bar>fval F32 a\<bar> :: real)" by (simp only: of_rat_less)
      then have big: "256 < \<bar>of_rat (fval F32 a) :: real\<bar>" by (simp add: of_rat_abs)
      then have "fmag a \<noteq> 0" by (intro notI) (simp add: fval_def sval_def ival_small split: if_splits)
      then have "math_huge operation (f32_val a)" using big finite that by (simp add: f32_val_def math_huge_def)
      then show ?thesis using False by blast
    qed
    from loop_first [OF ok dom p _ this, of data_type rm]
    show ?thesis using small unfolding r by auto
  qed
  then obtain w where w: "\<And>n. vu_math_result M (Suc n) operation a b c data_type rm = Some w" by blast
  have "w = vu_code data_type rm (vu_ideal operation (zero_rnd rm) (f32_val a) (f32_val b) (f32_val c))"
    by (rule math_result_code [OF ok _ _ w [of 0]]) (use trig in simp_all)
  then show ?thesis using w n by simp
qed


end
