(* ===== verification/Mpfr_Model.thy ===== *)
theory Mpfr_Model
  imports Mpfr
begin

text \<open>
  A model of the interface of \<open>Mpfr\<close>: numbers are pairs of a precision and a value, and every
  function rounds its exact result, downwards to a multiple of the unit in the last place of the
  precision, the other directions by way of that.  It shows that the contract can be met, and
  the properties that assume the contract are applied to it on concrete inputs.
\<close>

section \<open>Correct rounding\<close>

definition mscale :: "nat \<Rightarrow> real \<Rightarrow> int" where
  "mscale p v = \<lfloor>log 2 \<bar>v\<bar>\<rfloor> + 1 - int p"

definition mdown :: "nat \<Rightarrow> real \<Rightarrow> real" where
  "mdown p v = of_int \<lfloor>v / 2 powi mscale p v\<rfloor> * 2 powi mscale p v"

definition mround :: "nat \<Rightarrow> mpfr_rnd \<Rightarrow> real \<Rightarrow> real" where
  "mround p r v =
     (let d = mdown p v; u = - mdown p (- v)
      in case r of MPFR_RNDD \<Rightarrow> d | MPFR_RNDU \<Rightarrow> u | MPFR_RNDN \<Rightarrow> if v - d \<le> u - v then d else u)"

lemma log2_bounds:
  assumes "v \<noteq> 0"
  shows "2 powi \<lfloor>log 2 \<bar>v\<bar>\<rfloor> \<le> \<bar>v\<bar>" "\<bar>v\<bar> < 2 powi (\<lfloor>log 2 \<bar>v\<bar>\<rfloor> + 1)"
proof -
  have v: "\<bar>v\<bar> = 2 powr log 2 \<bar>v\<bar>" using assms by simp
  have "2 powr of_int \<lfloor>log 2 \<bar>v\<bar>\<rfloor> \<le> 2 powr log 2 \<bar>v\<bar>" "2 powr log 2 \<bar>v\<bar> < 2 powr of_int (\<lfloor>log 2 \<bar>v\<bar>\<rfloor> + 1)"
    by (intro powr_mono; simp) (intro powr_less_mono; simp)
  then show "2 powi \<lfloor>log 2 \<bar>v\<bar>\<rfloor> \<le> \<bar>v\<bar>" "\<bar>v\<bar> < 2 powi (\<lfloor>log 2 \<bar>v\<bar>\<rfloor> + 1)"
    using powr_real_of_int' [of 2 "\<lfloor>log 2 \<bar>v\<bar>\<rfloor>"] powr_real_of_int' [of 2 "\<lfloor>log 2 \<bar>v\<bar>\<rfloor> + 1"]
    unfolding v [symmetric] by linarith+
qed

lemma mdown_le: "mdown p v \<le> v"
proof -
  have "of_int \<lfloor>v / 2 powi mscale p v\<rfloor> \<le> v / 2 powi mscale p v" by simp
  then show ?thesis unfolding mdown_def by (simp add: le_divide_eq)
qed

text \<open>A number of the grid of \<open>v\<close> that does not exceed \<open>v\<close> does not exceed its rounding.\<close>

lemma mdown_grid: "of_int i * 2 powi mscale p v \<le> v \<Longrightarrow> of_int i * 2 powi mscale p v \<le> mdown p v"
  unfolding mdown_def by (rule mult_right_mono) (simp_all add: le_floor_iff le_divide_eq)

lemma powi_int_mult: "i \<le> j \<Longrightarrow> (2::real) powi j = of_int (2 ^ nat (j - i)) * 2 powi i"
proof -
  assume "i \<le> j"
  then have "(2::real) powi j = 2 powi (int (nat (j - i)) + i)" by simp
  also have "\<dots> = 2 powi int (nat (j - i)) * 2 powi i" by (subst power_int_add) simp_all
  also have "(2::real) powi int (nat (j - i)) = 2 ^ nat (j - i)" by (rule power_int_of_nat)
  finally show ?thesis by simp
qed

lemma mdown_greatest:
  assumes v: "v \<noteq> 0" and p: "0 < p" and u: "mrep p u" "u \<le> v"
  shows "u \<le> mdown p v"
proof -
  define s where "s = mscale p v"
  define B :: real where "B = 2 powi \<lfloor>log 2 \<bar>v\<bar>\<rfloor>"
  have top: "s + int p - 1 = \<lfloor>log 2 \<bar>v\<bar>\<rfloor>" by (simp add: s_def mscale_def)
  have B: "B \<le> \<bar>v\<bar>" using log2_bounds(1) [OF v] by (simp add: B_def)
  have Bs: "B = of_int (2 ^ (p - 1)) * 2 powi s"
    using powi_int_mult [of s "\<lfloor>log 2 \<bar>v\<bar>\<rfloor>"] p by (simp add: B_def top [symmetric] nat_diff_distrib)
  obtain m e where m: "u = of_int m * 2 powi e" "\<bar>m\<bar> < 2 ^ p" using u(1) by (auto simp: mrep_def)
  show ?thesis
  proof (cases "s \<le> e")
    case True
    then have "u = of_int (m * 2 ^ nat (e - s)) * 2 powi s" using m(1) powi_int_mult [of s e] by simp
    then show ?thesis using u(2) mdown_grid unfolding s_def by metis
  next
    case False
    have "\<bar>real_of_int m\<bar> < 2 ^ p" using m(2) by (metis of_int_abs of_int_less_iff of_int_numeral of_int_power)
    then have "\<bar>u\<bar> < 2 ^ p * 2 powi e" unfolding m(1) by (simp add: abs_mult)
    also have "\<dots> = 2 powi (int p + e)" by (simp add: power_int_add)
    also have "\<dots> \<le> B" unfolding B_def top [symmetric] using False by (intro power_int_increasing) simp_all
    finally have uB: "\<bar>u\<bar> < B" .
    then have "0 < v" using u(2) B by linarith
    then have "B \<le> mdown p v" using mdown_grid [of "2 ^ (p - 1)" p v] B Bs unfolding s_def by simp
    then show ?thesis using uB by linarith
  qed
qed

lemma mdown_rep:
  assumes v: "v \<noteq> 0" and p: "0 < p"
  shows "mrep p (mdown p v)"
proof -
  define s where "s = mscale p v"
  define n where "n = \<lfloor>v / 2 powi s\<rfloor>"
  have "\<bar>v\<bar> < 2 powi (int p + s)" using log2_bounds(2) [OF v] by (simp add: s_def mscale_def algebra_simps)
  then have "\<bar>v\<bar> < 2 ^ p * 2 powi s" by (simp add: power_int_add)
  then have "\<bar>v / 2 powi s\<bar> < 2 ^ p" by (simp add: divide_less_eq)
  then have "v / 2 powi s < of_int (2 ^ p)" "of_int (- (2 ^ p)) \<le> v / 2 powi s"
    unfolding abs_less_iff by simp_all
  then have n: "n < 2 ^ p" "- (2 ^ p) \<le> n" unfolding n_def by (simp_all add: floor_less_iff le_floor_iff)
  show ?thesis
  proof (cases "n = - (2 ^ p)")
    case True
    then have "mdown p v = - (2 powi (int p + s))"
      unfolding mdown_def s_def [symmetric] n_def [symmetric] by (simp add: power_int_add)
    then show ?thesis using p by simp
  next
    case False
    then have "\<bar>n\<bar> < 2 ^ p" using n by linarith
    then show ?thesis unfolding mrep_def mdown_def s_def [symmetric] n_def [symmetric] by blast
  qed
qed

lemma mround_correct:
  assumes v: "v \<noteq> 0" and p: "0 < p"
  shows "correct p r v (mround p r v) (of_bool (\<not> mrep p v))"
proof -
  define d u where "d = mdown p v" and "u = - mdown p (- v)"
  have d: "mrep p d" "d \<le> v" "\<And>w. mrep p w \<Longrightarrow> w \<le> v \<Longrightarrow> w \<le> d"
    using mdown_rep [OF v p] mdown_le mdown_greatest [OF v p] by (simp_all add: d_def)
  have "- v \<noteq> 0" using v by simp
  then have u: "mrep p u" "v \<le> u" "u \<le> w" if "mrep p w" "v \<le> w" for w
    using mdown_rep [of "- v" p] mdown_le [of p "- v"] mdown_greatest [of "- v" p "- w"] p that
    by (simp_all add: u_def)
  have u': "mrep p u" "v \<le> u" using mdown_rep [OF \<open>- v \<noteq> 0\<close> p] mdown_le [of p "- v"] by (simp_all add: u_def)
  have near: "\<bar>(if v - d \<le> u - v then d else u) - v\<bar> \<le> \<bar>w - v\<bar>" if "mrep p w" for w
    using d(2) d(3) [OF that] u'(2) u(3) [OF that] by (cases "w \<le> v") (auto simp: abs_if)
  have m: "mround p r v = (case r of MPFR_RNDD \<Rightarrow> d | MPFR_RNDU \<Rightarrow> u | MPFR_RNDN \<Rightarrow> if v - d \<le> u - v then d else u)" for r
    by (simp only: mround_def Let_def d_def u_def)
  have rep: "mrep p (mround p r v)" using d(1) u'(1) by (cases r) (simp_all add: m)
  have same: "mround p r v = v" if "mrep p v"
  proof -
    have "d = v" "u = v" using d(2) d(3) [OF that] u'(2) u(3) [OF that] by simp_all
    then show ?thesis unfolding m by (cases r) simp_all
  qed
  have "(of_bool (\<not> mrep p v) = (0::int)) \<longleftrightarrow> mround p r v = v" using rep same by auto
  then show ?thesis unfolding correct_def
    using rep near d u' u(3) by (cases r) (simp_all add: m)
qed

section \<open>The model\<close>

type_synonym mnumber = "nat \<times> mval"

text \<open>The value of a pair; a pair whose value does not fit its precision is a NaN.\<close>

fun msem :: "mnumber \<Rightarrow> mval" where
  "msem (p, MNum v) = (if v \<noteq> 0 \<and> mrep p v then MNum v else MNan)"
| "msem (p, I) = I"

fun mdeliver :: "nat \<Rightarrow> mpfr_rnd \<Rightarrow> mval \<Rightarrow> mnumber \<times> int" where
  "mdeliver p r (MNum v) = ((p, MNum (mround p r v)), of_bool (\<not> mrep p v))"
| "mdeliver p r I = ((p, I), 0)"

definition mcmp :: "real \<Rightarrow> real \<Rightarrow> int" where
  "mcmp x y = (if x < y then - 1 else if x = y then 0 else 1)"

definition mpfr_model :: "mnumber mpfr" where
  "mpfr_model =
     \<lparr>mpfr_nan_p = (\<lambda>x. msem x = MNan),
      mpfr_inf_p = (\<lambda>x. case msem x of MInf s \<Rightarrow> True | _ \<Rightarrow> False),
      mpfr_zero_p = (\<lambda>x. case msem x of MZero s \<Rightarrow> True | _ \<Rightarrow> False),
      mpfr_number_p = (\<lambda>x. case msem x of MZero s \<Rightarrow> True | MNum v \<Rightarrow> True | _ \<Rightarrow> False),
      mpfr_signbit = (\<lambda>x. msign (msem x)),
      mpfr_get_prec = fst,
      mpfr_get_exp = (\<lambda>x. \<lfloor>log 2 \<bar>mreal (msem x)\<bar>\<rfloor> + 1),
      mpfr_sgn = (\<lambda>x. mcmp (mreal (msem x)) 0),
      mpfr_cmp_ui_2exp = (\<lambda>x n e. mcmp (mreal (msem x)) (of_nat n * 2 powi e)),
      mpfr_cmp_d = (\<lambda>x d. mcmp (mreal (msem x)) (of_rat (fval F64 d))),
      mpfr_cmp_si = (\<lambda>x i. mcmp (mreal (msem x)) (of_int i)),
      mpfr_get_ui = (\<lambda>x r. word_of_int \<lfloor>mreal (msem x)\<rfloor>),
      mpfr_set_d = (\<lambda>p d r. mdeliver p r (f64_val d)),
      mpfr_set_si = (\<lambda>p i r. mdeliver p r (mnum (of_int i))),
      mpfr_set_ui = (\<lambda>p n r. mdeliver p r (mnum (of_nat n))),
      mpfr_set_ui_2exp = (\<lambda>p n e r. mdeliver p r (mnum (of_nat n * 2 powi e))),
      mpfr_set_zero = (\<lambda>p s. (p, MZero (s < 0))),
      mpfr_abs = (\<lambda>p x r. mdeliver p r (ideal_abs (msem x))),
      mpfr_neg = (\<lambda>p x r. mdeliver p r (ideal_neg (msem x))),
      mpfr_mul_2si = (\<lambda>p x k r. mdeliver p r (ideal_mul (msem x) (MNum (2 powi k)))),
      mpfr_sub_ui = (\<lambda>p x n r. mdeliver p r (ideal_sub r (msem x) (mnum (of_nat n)))),
      mpfr_add_ui = (\<lambda>p x n r. mdeliver p r (ideal_add r (msem x) (mnum (of_nat n)))),
      mpfr_ui_div = (\<lambda>p n x r. mdeliver p r (ideal_div (mnum (of_nat n)) (msem x))),
      mpfr_add = (\<lambda>p x y r. mdeliver p r (ideal_add r (msem x) (msem y))),
      mpfr_sub = (\<lambda>p x y r. mdeliver p r (ideal_sub r (msem x) (msem y))),
      mpfr_mul = (\<lambda>p x y r. mdeliver p r (ideal_mul (msem x) (msem y))),
      mpfr_div = (\<lambda>p x y r. mdeliver p r (ideal_div (msem x) (msem y))),
      mpfr_fma = (\<lambda>p x y z r. mdeliver p r (ideal_fma r (msem x) (msem y) (msem z))),
      mpfr_sin = (\<lambda>p x r. mdeliver p r (ideal_sin r (msem x))),
      mpfr_cos = (\<lambda>p x r. mdeliver p r (ideal_cos r (msem x))),
      mpfr_tanh = (\<lambda>p x r. mdeliver p r (ideal_tanh (msem x))),
      mpfr_exp = (\<lambda>p x r. mdeliver p r (ideal_exp (msem x))),
      mpfr_exp2 = (\<lambda>p x r. mdeliver p r (ideal_exp2 (msem x))),
      mpfr_log = (\<lambda>p x r. mdeliver p r (ideal_log (msem x))),
      mpfr_log2 = (\<lambda>p x r. mdeliver p r (ideal_log2 (msem x))),
      mpfr_sqrt = (\<lambda>p x r. mdeliver p r (ideal_sqrt (msem x))),
      mpfr_rec_sqrt = (\<lambda>p x r. mdeliver p r (ideal_rec_sqrt (msem x)))\<rparr>"

lemma msem_num: "msem x = MNum v \<Longrightarrow> v \<noteq> 0 \<and> mrep (fst x) v"
  by (cases x; cases "snd x") (auto split: if_splits)

lemma mdeliver_ok: "0 < p \<Longrightarrow> delivers mpfr_model msem p r I (mdeliver p r I)"
proof (cases I)
  case (MNum v)
  assume p: "0 < p"
  show ?thesis
  proof (cases "mrange v")
    case True
    then have "0 < \<bar>v\<bar>" using zero_less_power_int [of "2::real" "- mpfr_emax"] unfolding mrange_def by linarith
    then have v: "v \<noteq> 0" by simp
    note c = mround_correct [OF v p, of r]
    have "mrep p (mround p r v)" using c by (simp add: correct_def)
    then show ?thesis using MNum c correct_range(3) [OF c True p] by (simp add: delivers_def mpfr_model_def)
  qed (use MNum in \<open>simp add: delivers_def\<close>)
qed (simp_all add: delivers_def mpfr_model_def)

lemma mcmp_sgn: "sgn (mcmp x y) = \<lfloor>sgn (x - y)\<rfloor>" "mcmp x y = 0 \<longleftrightarrow> x = y"
proof -
  have fl: "\<lfloor>- 1 :: real\<rfloor> = - 1" by linarith
  show "sgn (mcmp x y) = \<lfloor>sgn (x - y)\<rfloor>" by (simp add: mcmp_def sgn_if fl)
qed (simp add: mcmp_def)

theorem mpfr_model_ok: "mpfr_ok mpfr_model msem"
proof -
  have "mpfr_queries mpfr_model msem"
    unfolding mpfr_queries_def
  proof (intro allI conjI impI)
    fix x v n e assume x: "msem x = MNum v"
    show "v \<noteq> 0" "mrep (mpfr_get_prec mpfr_model x) v" using msem_num [OF x] by (simp_all add: mpfr_model_def)
    show "2 powi (mpfr_get_exp mpfr_model x - 1) \<le> \<bar>v\<bar>" "\<bar>v\<bar> < 2 powi mpfr_get_exp mpfr_model x"
      using log2_bounds [of v] msem_num [OF x] x by (simp_all add: mpfr_model_def)
    show "(mpfr_cmp_ui_2exp mpfr_model x n e = 0) = (v = real n * 2 powi e)"
      using x by (simp add: mpfr_model_def mcmp_sgn)
  qed (auto simp: mpfr_model_def split: mval.splits)
  moreover have "mpfr_comparisons mpfr_model msem"
    unfolding mpfr_comparisons_def
  proof (intro allI conjI impI)
    fix x assume b: "0 \<le> mreal (msem x)" "mreal (msem x) < 2 ^ 64"
    then have "0 \<le> \<lfloor>mreal (msem x)\<rfloor>" "\<lfloor>mreal (msem x)\<rfloor> < 2 ^ 64" by (simp_all add: floor_less_iff)
    then show "unat (mpfr_get_ui mpfr_model x MPFR_RNDD) = nat \<lfloor>mreal (msem x)\<rfloor>"
      by (simp add: mpfr_model_def unsigned_of_int take_bit_int_eq_self)
  qed (simp_all add: mpfr_model_def mcmp_sgn)
  moreover have "mpfr_arith mpfr_model msem"
    unfolding mpfr_arith_def
    by (intro allI conjI impI; simp add: mprec_ok_def)
      (simp_all add: mdeliver_ok [unfolded mpfr_model_def] mpfr_model_def)
  moreover have "mpfr_functions mpfr_model msem"
    unfolding mpfr_functions_def
    by (simp add: mdeliver_ok [unfolded mpfr_model_def] mpfr_model_def mprec_ok_def)
  ultimately show ?thesis by (simp add: mpfr_ok_def)
qed

end
