(* ===== verification/Vu_Ieee.thy ===== *)
theory Vu_Ieee
  imports Vu_Total Mpfr_Model
begin

text \<open>
  The arithmetic opcodes of \<open>vu_fp_alu\<close> against the IEEE 754 operations on encodings: the exact
  result over the real numbers, encoded, is the result of the IEEE operation on the operand
  encodings, in both data types.
\<close>

section \<open>The value and the encoding in any format\<close>

definition fmt_val :: "fmt \<Rightarrow> 'a::len word \<Rightarrow> mval" where
  "fmt_val F w =
     (if fnan F w then MNan else if finf F w then MInf (fneg w)
      else if fmag w = 0 then MZero (fneg w) else MNum (of_rat (fval F w)))"

fun fmt_code :: "fmt \<Rightarrow> rmode \<Rightarrow> mval \<Rightarrow> 'a::len word" where
  "fmt_code F m MNan = qnan F"
| "fmt_code F m (MInf s) = infty F s"
| "fmt_code F m (MZero s) = fpack s 0"
| "fmt_code F m (MNum v) = fpack (v < 0) (round_code (fbits F) (maxfin F) m (v < 0) (\<bar>v\<bar> * 2 ^ ulp0 F))"

lemma round_code_of_rat: "round_code fb maxc m neg (of_rat x :: real) = round_code fb maxc m neg x"
proof -
  have n: "(of_nat n :: real) = of_rat (of_nat n)" for n by simp
  have two: "2 * (of_rat x :: real) = of_rat (2 * x)" by (simp add: of_rat_mult)
  show ?thesis
    unfolding round_code_def of_rat_floor Let_def n two of_rat_add [symmetric] of_rat_less of_rat_eq_iff ..
qed

lemma fmt_code_of_rat: "fmt_code F m (MNum (of_rat x)) = fround F m (x < 0) x"
proof -
  have "\<bar>of_rat x\<bar> * 2 ^ ulp0 F = (of_rat (\<bar>x\<bar> * 2 ^ ulp0 F) :: real)"
    by (simp add: of_rat_abs of_rat_mult of_rat_power)
  then show ?thesis by (simp add: fround_def round_code_of_rat of_rat_less_0_iff del: of_rat_eq_iff)
qed

lemma fmt_val_cases:
  fixes w :: "'a::len word"
  obtains "fmt_val F w = MNan" "fnan F w" "\<not> finf F w"
  | "fmt_val F w = MInf (fneg w)" "finf F w" "\<not> fnan F w" "fmag w \<noteq> 0"
  | "fmt_val F w = MZero (fneg w)" "\<not> finf F w" "\<not> fnan F w" "fmag w = 0" "fval F w = 0"
  | "fmt_val F w = MNum (of_rat (fval F w))" "\<not> finf F w" "\<not> fnan F w" "fmag w \<noteq> 0" "fval F w \<noteq> 0"
proof -
  have "fval F w = 0 \<longleftrightarrow> fmag w = 0" by (rule fval_eq_0_iff)
  moreover have "\<not> (fnan F w \<and> finf F w)" "finf F w \<Longrightarrow> fmag w \<noteq> 0" by (auto simp: fnan_def finf_def)
  ultimately show ?thesis using that by (metis fmt_val_def)
qed

lemma infty_sign: "finf F w \<Longrightarrow> infty F (fneg w) = w" "finf F w \<Longrightarrow> infty F (\<not> fneg w) = fneg_of w"
  by (metis infty_def finf_def fpack_fneg_fmag) (simp add: infty_def finf_def fneg_of_def)

lemma finf_unique: "finf F a \<Longrightarrow> finf F b \<Longrightarrow> fneg a = fneg b \<Longrightarrow> b = a"
  by (simp add: finf_def eq_same_sign)

section \<open>The operations\<close>

lemma fmt_code_sum:
  "fmt_code F m (mexact r (of_rat x)) = fresult F m (r = MPFR_RNDD) x"
  by (simp add: mexact_def fresult_def fmt_code_of_rat del: fmt_code.simps(4))

lemma ieee_add_code:
  assumes r: "r = MPFR_RNDD \<longleftrightarrow> m = RDN"
  shows "fmt_code F m (ideal_add r (fmt_val F a) (fmt_val F b)) = ieee_add F m a b"
proof -
  have sgn: "fval F a + fval F b = 0 \<Longrightarrow> fval F a \<noteq> 0 \<Longrightarrow> fneg a \<noteq> fneg b"
    using fval_less_0_iff [of F a] fval_less_0_iff [of F b] fval_eq_0_iff [of F a] fval_eq_0_iff [of F b] by auto
  have res: "fresult F m z x = fresult F m z' x" if "x \<noteq> 0" for z z' x using that by (simp add: fresult_def)
  show ?thesis
    by (cases rule: fmt_val_cases [of F a]; cases rule: fmt_val_cases [of F b])
      (use sgn finf_unique [of F a b] in \<open>auto simp: ieee_add_def infty_sign fmt_code_sum r fresult_def
         simp flip: of_rat_add simp del: fmt_code.simps(4)\<close>)
qed

lemma fneg_of_fields [simp]: "fneg (fneg_of b) = (\<not> fneg b)" "fmag (fneg_of b) = fmag b" "fval F (fneg_of b) = - fval F b"
proof -
  show s: "fneg (fneg_of b) = (\<not> fneg b)" "fmag (fneg_of b) = fmag b"
    unfolding fneg_of_def using fmag_less [of b] by simp_all
  show "fval F (fneg_of b) = - fval F b" by (simp add: fval_eq s)
qed

lemma fval_ratio_sign:
  assumes "fmag a \<noteq> 0" "fmag b \<noteq> 0"
  shows "(fval F a * fval F b < 0) = (fneg a = (\<not> fneg b))" "(fval F a / fval F b < 0) = (fneg a = (\<not> fneg b))"
proof -
  have s: "(fval F w < 0) = fneg w" "(0 < fval F w) = (\<not> fneg w)" if "fmag w \<noteq> 0" for w :: "'c::len word"
  proof -
    show n: "(fval F w < 0) = fneg w" using that by (simp add: fval_less_0_iff)
    have "fval F w \<noteq> 0" using that by (simp add: fval_eq_0_iff)
    then show "(0 < fval F w) = (\<not> fneg w)" unfolding n [symmetric] by linarith
  qed
  show "(fval F a * fval F b < 0) = (fneg a = (\<not> fneg b))" "(fval F a / fval F b < 0) = (fneg a = (\<not> fneg b))"
    unfolding mult_less_0_iff divide_less_0_iff s [OF assms(1)] s [OF assms(2)] by blast+
qed

lemma fmt_val_neg: "fmt_val F (fneg_of b) = ideal_neg (fmt_val F b)"
  by (simp add: fmt_val_def fnan_def finf_def of_rat_minus)

lemma ieee_add_neg: "ieee_add F m a (fneg_of b) = ieee_sub F m a b"
  by (simp add: ieee_add_def ieee_sub_def fnan_def finf_def)

lemma ieee_sub_code:
  assumes r: "r = MPFR_RNDD \<longleftrightarrow> m = RDN"
  shows "fmt_code F m (ideal_sub r (fmt_val F a) (fmt_val F b)) = ieee_sub F m a b"
  unfolding ideal_sub_def fmt_val_neg [symmetric] ieee_add_neg [symmetric] by (rule ieee_add_code [OF r])

lemma ieee_mul_code: "fmt_code F m (ideal_mul (fmt_val F a) (fmt_val F b)) = ieee_mul F m a b"
  by (cases rule: fmt_val_cases [of F a]; cases rule: fmt_val_cases [of F b])
    (simp_all add: ieee_mul_def fmt_code_of_rat fval_ratio_sign fval_less_0_iff of_rat_mult [symmetric] del: fmt_code.simps(4))

lemma ieee_div_code: "fmt_code F m (ideal_div (fmt_val F a) (fmt_val F b)) = ieee_div F m a b"
  by (cases rule: fmt_val_cases [of F a]; cases rule: fmt_val_cases [of F b])
    (simp_all add: ieee_div_def fmt_code_of_rat fval_ratio_sign fval_less_0_iff of_rat_divide [symmetric] del: fmt_code.simps(4))

text \<open>The fused operation: the product enters the sum as the exact value it is.\<close>

lemma ieee_fma_code:
  assumes r: "r = MPFR_RNDD \<longleftrightarrow> m = RDN"
  shows "fmt_code F m (ideal_fma r (fmt_val F a) (fmt_val F b) (fmt_val F c)) = ieee_fma F m a b c"
proof -
  have sgn: "fval F a * fval F b + fval F c \<noteq> 0"
    if "fmag a \<noteq> 0" "fmag b \<noteq> 0" "fmag c \<noteq> 0" "(fneg a \<noteq> fneg b) = fneg c"
  proof -
    have "(fval F a * fval F b < 0) = (fval F c < 0)" "fval F a * fval F b \<noteq> 0" "fval F c \<noteq> 0"
      using that fval_ratio_sign(1) [OF that(1,2), of F] by (auto simp: fval_less_0_iff fval_eq_0_iff)
    then show ?thesis by linarith
  qed
  show ?thesis
    unfolding ideal_fma_def
    by (cases rule: fmt_val_cases [of F a]; cases rule: fmt_val_cases [of F b]; cases rule: fmt_val_cases [of F c])
      (use sgn in \<open>auto simp: ieee_fma_def infty_sign fmt_code_sum r fresult_def fval_less_0_iff
         simp flip: of_rat_add of_rat_mult simp del: fmt_code.simps(4)\<close>)
qed

section \<open>The two data types\<close>

lemma vu_code_fmt:
  "vu_code 0 rm I = fmt_code F32 (math_mode rm) I"
  "data_type \<noteq> 0 \<Longrightarrow> vu_code data_type rm I = ucast (fmt_code BF16 (math_mode rm) I :: u16)"
proof -
  show "vu_code 0 rm I = fmt_code F32 (math_mode rm) I"
    by (cases I) (simp_all add: vu_word_fpack infty_def vu_round_def vu_fmt_def)
  assume d: "data_type \<noteq> 0"
  have m: "round_code 7 0x7F7F m s x < 2 ^ 15" for m s and x :: real
    using round_code_le [of 7 "0x7F7F" m s x] by simp
  show "vu_code data_type rm I = ucast (fmt_code BF16 (math_mode rm) I :: u16)"
  proof (cases I)
    case (MNum v)
    then show ?thesis using d m by (simp add: vu_word_fpack(2) vu_round_def vu_fmt_def BF16_def)
  qed (use d in \<open>simp_all add: vu_word_fpack(2) infty_def vu_fmt_def, simp_all add: BF16_def vu_word_fpack(2)\<close>)
qed

lemma f32_val_operand:
  "f32_val (vu_value_to_fp32 x 0) = fmt_val F32 x"
  "data_type \<noteq> 0 \<Longrightarrow> f32_val (vu_value_to_fp32 (ucast b) data_type) = fmt_val BF16 (b :: u16)"
proof -
  show "f32_val (vu_value_to_fp32 x 0) = fmt_val F32 x"
    by (simp add: vu_value_to_fp32_def f32_val_def fmt_val_def)
  assume d: "data_type \<noteq> 0"
  have "finf F32 (vu_bf16_to_fp32 v) \<longleftrightarrow> finf BF16 (ucast v :: u16)" for v
    by (simp add: finf_def vu_bf16_to_fp32_fields F32_def BF16_def)
  moreover have "ucast (ucast b :: u32) = b" by (simp add: word_unat_eq_iff ucast_u32_u16)
  ultimately show "f32_val (vu_value_to_fp32 (ucast b) data_type) = fmt_val BF16 b"
    using d by (simp add: vu_value_to_fp32_def f32_val_def fmt_val_def bf16_nan vu_bf16_to_fp32_fields bf16_fval)
qed

lemma zero_rnd_mode: "zero_rnd rm = MPFR_RNDD \<longleftrightarrow> math_mode rm = RDN"
  by (simp add: zero_rnd_def math_mode_def)

text \<open>The arithmetic of \<open>vu_math_result\<close> on the four operations, in both data types.\<close>

lemma vu_math_ieee32:
  assumes "mpfr_ok M sem" "0 < fuel"
  shows "vu_math_result M fuel VU_ADD x y z 0 rm = Some (ieee_add F32 (math_mode rm) x y)"
    "vu_math_result M fuel VU_SUB x y z 0 rm = Some (ieee_sub F32 (math_mode rm) x y)"
    "vu_math_result M fuel VU_MUL x y z 0 rm = Some (ieee_mul F32 (math_mode rm) x y)"
    "vu_math_result M fuel VU_DIV x y z 0 rm = Some (ieee_div F32 (math_mode rm) x y)"
    "vu_math_result M fuel VU_FMA x y z 0 rm = Some (ieee_fma F32 (math_mode rm) x y z)"
proof -
  have v: "f32_val w = fmt_val F32 w" for w by (simp add: f32_val_def fmt_val_def)
  note r = zero_rnd_mode [of rm]
  note m = math_result_returns [OF assms, where data_type = 0 and rm = rm]
  show "vu_math_result M fuel VU_ADD x y z 0 rm = Some (ieee_add F32 (math_mode rm) x y)"
    "vu_math_result M fuel VU_SUB x y z 0 rm = Some (ieee_sub F32 (math_mode rm) x y)"
    "vu_math_result M fuel VU_MUL x y z 0 rm = Some (ieee_mul F32 (math_mode rm) x y)"
    "vu_math_result M fuel VU_DIV x y z 0 rm = Some (ieee_div F32 (math_mode rm) x y)"
    "vu_math_result M fuel VU_FMA x y z 0 rm = Some (ieee_fma F32 (math_mode rm) x y z)"
    by (simp_all add: m vu_code_fmt v vu_ideal_def ieee_add_code [OF r] ieee_sub_code [OF r] ieee_mul_code ieee_div_code
        ieee_fma_code [OF r])
qed

lemma vu_math_bf16:
  assumes "mpfr_ok M sem" "0 < fuel"
  defines "w \<equiv> \<lambda>b :: u16. vu_value_to_fp32 (ucast b) 1"
  shows "vu_math_result M fuel VU_ADD (w a) (w b) z 1 rm = Some (ucast (ieee_add BF16 (math_mode rm) a b))"
    "vu_math_result M fuel VU_SUB (w a) (w b) z 1 rm = Some (ucast (ieee_sub BF16 (math_mode rm) a b))"
    "vu_math_result M fuel VU_MUL (w a) (w b) z 1 rm = Some (ucast (ieee_mul BF16 (math_mode rm) a b))"
    "vu_math_result M fuel VU_DIV (w a) (w b) z 1 rm = Some (ucast (ieee_div BF16 (math_mode rm) a b))"
    "vu_math_result M fuel VU_FMA (w a) (w b) (w c) 1 rm = Some (ucast (ieee_fma BF16 (math_mode rm) a b c))"
proof -
  have v: "f32_val (w b) = fmt_val BF16 b" for b by (simp add: w_def f32_val_operand)
  note r = zero_rnd_mode [of rm]
  note m = math_result_returns [OF assms(1,2), where data_type = 1 and rm = rm]
  show "vu_math_result M fuel VU_ADD (w a) (w b) z 1 rm = Some (ucast (ieee_add BF16 (math_mode rm) a b))"
    "vu_math_result M fuel VU_SUB (w a) (w b) z 1 rm = Some (ucast (ieee_sub BF16 (math_mode rm) a b))"
    "vu_math_result M fuel VU_MUL (w a) (w b) z 1 rm = Some (ucast (ieee_mul BF16 (math_mode rm) a b))"
    "vu_math_result M fuel VU_DIV (w a) (w b) z 1 rm = Some (ucast (ieee_div BF16 (math_mode rm) a b))"
    "vu_math_result M fuel VU_FMA (w a) (w b) (w c) 1 rm = Some (ucast (ieee_fma BF16 (math_mode rm) a b c))"
    by (simp_all add: m vu_code_fmt v vu_ideal_def ieee_add_code [OF r] ieee_sub_code [OF r] ieee_mul_code ieee_div_code
        ieee_fma_code [OF r])
qed

text \<open>
  C3: The arithmetic opcodes of \<open>vu_fp_alu\<close> return the IEEE 754 results, in the six rounding modes
  and both data types: sum, reverse difference, difference, product and reverse quotient, with
  the infinities, the NaNs, overflow, subnormal results and the sign of an exact zero.
\<close>

theorem vu_fp_alu_arithmetic:
  fixes a b :: u16 and rm :: u32
  assumes "mpfr_ok M sem" and "0 < fuel"
  defines "m \<equiv> math_mode rm"
  shows "vu_fp_alu M fuel 0x01 x y z 0 rm = Some (ieee_add F32 m x y) \<and>
    vu_fp_alu M fuel 0x03 x y z 0 rm = Some (ieee_sub F32 m y x) \<and>
    vu_fp_alu M fuel 0x05 x y z 0 rm = Some (ieee_sub F32 m x y) \<and>
    vu_fp_alu M fuel 0x06 x y z 0 rm = Some (ieee_mul F32 m x y) \<and>
    vu_fp_alu M fuel 0x08 x y z 0 rm = Some (ieee_div F32 m y x) \<and>
    vu_fp_alu M fuel 0x01 (ucast a) (ucast b) z 1 rm = Some (ucast (ieee_add BF16 m a b)) \<and>
    vu_fp_alu M fuel 0x03 (ucast a) (ucast b) z 1 rm = Some (ucast (ieee_sub BF16 m b a)) \<and>
    vu_fp_alu M fuel 0x05 (ucast a) (ucast b) z 1 rm = Some (ucast (ieee_sub BF16 m a b)) \<and>
    vu_fp_alu M fuel 0x06 (ucast a) (ucast b) z 1 rm = Some (ucast (ieee_mul BF16 m a b)) \<and>
    vu_fp_alu M fuel 0x08 (ucast a) (ucast b) z 1 rm = Some (ucast (ieee_div BF16 m b a))"
proof -
  have w: "vu_value_to_fp32 x 0 = x" for x by (simp add: vu_value_to_fp32_def)
  show ?thesis
    by (simp add: vu_fp_alu_def Let_def w vu_math_ieee32 [OF assms(1,2)] vu_math_bf16 [OF assms(1,2)] m_def)
qed

text \<open>The code negates an operand by flipping the top bit of its binary32 encoding, in both data types.\<close>

lemma vu_negated_operand:
  "x XOR 0x80000000 = fneg_of (x :: u32)"
  "fneg_of (vu_value_to_fp32 (ucast b) 1) = vu_value_to_fp32 (ucast (fneg_of b)) 1" for b :: u16
proof -
  show flip: "x XOR 0x80000000 = fneg_of x" for x :: u32 using fneg_of_flip [of x] by simp
  have u: "ucast (ucast b :: u32) = b" for b :: u16 by (simp add: word_unat_eq_iff ucast_u32_u16)
  have "fneg_of (vu_bf16_to_fp32 (ucast b)) = vu_bf16_to_fp32 (ucast (fneg_of b))"
    by (simp only: eq_same_sign fneg_of_fields vu_bf16_to_fp32_fields u)
  then show "fneg_of (vu_value_to_fp32 (ucast b) 1) = vu_value_to_fp32 (ucast (fneg_of b)) 1"
    by (simp add: vu_value_to_fp32_def)
qed

text \<open>
  C18: the fused opcodes of \<open>vu_fp_alu\<close> return the IEEE 754 fused multiply-add of their operands,
  rounded once, in the six rounding modes and both data types, the product and the third
  operand negated as the opcode says.
\<close>

theorem vu_fp_alu_fused:
  fixes a b c :: u16 and rm :: u32
  assumes "mpfr_ok M sem" and "0 < fuel"
  defines "m \<equiv> math_mode rm"
  shows "vu_fp_alu M fuel 0x30 x y z 0 rm = Some (ieee_fma F32 m x y z) \<and>
    vu_fp_alu M fuel 0x32 x y z 0 rm = Some (ieee_fma F32 m (fneg_of x) y (fneg_of z)) \<and>
    vu_fp_alu M fuel 0x34 x y z 0 rm = Some (ieee_fma F32 m x y (fneg_of z)) \<and>
    vu_fp_alu M fuel 0x36 x y z 0 rm = Some (ieee_fma F32 m (fneg_of x) y z) \<and>
    vu_fp_alu M fuel 0x30 (ucast a) (ucast b) (ucast c) 1 rm = Some (ucast (ieee_fma BF16 m a b c)) \<and>
    vu_fp_alu M fuel 0x32 (ucast a) (ucast b) (ucast c) 1 rm = Some (ucast (ieee_fma BF16 m (fneg_of a) b (fneg_of c))) \<and>
    vu_fp_alu M fuel 0x34 (ucast a) (ucast b) (ucast c) 1 rm = Some (ucast (ieee_fma BF16 m a b (fneg_of c))) \<and>
    vu_fp_alu M fuel 0x36 (ucast a) (ucast b) (ucast c) 1 rm = Some (ucast (ieee_fma BF16 m (fneg_of a) b c))"
proof -
  have w: "vu_value_to_fp32 x 0 = x" for x by (simp add: vu_value_to_fp32_def)
  show ?thesis
    by (simp add: vu_fp_alu_def Let_def w vu_negated_operand vu_math_ieee32 [OF assms(1,2)] vu_math_bf16 [OF assms(1,2)] m_def)
qed

end
