(* ===== verification/Vu_Sum.thy ===== *)
theory Vu_Sum
  imports Vu_Ieee "HOL-Library.Multiset"
begin

text \<open>
  The reduction accumulator of the vector unit (\<open>vu_sum_create\<close>, \<open>vu_sum_add\<close>, \<open>vu_sum_finish\<close> of
  \<open>vu_math.c\<close>): a number of 512 bits that holds the exact sum of the terms seen so far, and a flag
  for the sign of a zero sum.  The specification is the sum of a list of encodings, rounded once.
\<close>

section \<open>The code\<close>

record 'm vu_sum =
  sum_value :: 'm
  all_negative_zero :: bool

definition vu_sum_create :: "'m mpfr \<Rightarrow> u32 \<Rightarrow> 'm vu_sum" where
  "vu_sum_create M initial_fp32 =
     \<lparr>sum_value = fst (mpfr_set_d M 512 (c_double (vu_bits_to_fp32 initial_fp32)) MPFR_RNDN),
      all_negative_zero = (initial_fp32 = 0x80000000)\<rparr>"

definition vu_sum_add :: "'m mpfr \<Rightarrow> u32 \<Rightarrow> 'm vu_sum \<Rightarrow> 'm vu_sum" where
  "vu_sum_add M fp32_bits acc =
     (let term = fst (mpfr_set_d M 24 (c_double (vu_bits_to_fp32 fp32_bits)) MPFR_RNDN)
      in \<lparr>sum_value = fst (mpfr_add M (mpfr_get_prec M (sum_value acc)) (sum_value acc) term MPFR_RNDD),
          all_negative_zero = (all_negative_zero acc \<and> fp32_bits = 0x80000000)\<rparr>)"

definition vu_sum_finish :: "'m mpfr \<Rightarrow> 'm vu_sum \<Rightarrow> u32 \<Rightarrow> u32" where
  "vu_sum_finish M acc round_mode =
     (let sum_value =
            (if mpfr_zero_p M (sum_value acc) \<and> round_mode \<noteq> 2 \<and> \<not> all_negative_zero acc
             then mpfr_set_zero M (mpfr_get_prec M (sum_value acc)) 1 else sum_value acc)
      in vu_mpfr_to_value M sum_value 0 round_mode 0)"

section \<open>The specification\<close>

text \<open>
  The sum of a list of encodings, rounded once: a NaN, or infinities of both signs, give the
  NaN, otherwise an infinity is the result.  An exact zero is +0, but -0 when all terms are -0, and
  rounding downwards it is -0 unless all terms are +0.
\<close>

definition ieee_sum :: "fmt \<Rightarrow> rmode \<Rightarrow> 'a::len word list \<Rightarrow> 'a word" where
  "ieee_sum F m ts =
     (if (\<exists>t\<in>set ts. fnan F t) \<or> (\<exists>t\<in>set ts. finf F t \<and> fneg t) \<and> (\<exists>t\<in>set ts. finf F t \<and> \<not> fneg t) then qnan F
      else if \<exists>t\<in>set ts. finf F t then infty F (\<exists>t\<in>set ts. finf F t \<and> fneg t)
      else fresult F m (if m = RDN then \<exists>t\<in>set ts. t \<noteq> fpack False 0 else \<forall>t\<in>set ts. t = fpack True 0)
             (\<Sum>t\<leftarrow>ts. fval F t))"

text \<open>The number the accumulator holds, the sign of a zero sum decided downwards.\<close>

definition sum_mval :: "u32 list \<Rightarrow> mval" where
  "sum_mval ts =
     (if (\<exists>t\<in>set ts. fnan F32 t) \<or> (\<exists>t\<in>set ts. finf F32 t \<and> fneg t) \<and> (\<exists>t\<in>set ts. finf F32 t \<and> \<not> fneg t) then MNan
      else if \<exists>t\<in>set ts. finf F32 t then MInf (\<exists>t\<in>set ts. finf F32 t \<and> fneg t)
      else if (\<Sum>t\<leftarrow>ts. fval F32 t) = 0 then MZero (\<exists>t\<in>set ts. t \<noteq> 0)
      else MNum (of_rat (\<Sum>t\<leftarrow>ts. fval F32 t)))"

lemma zero_word: "fmag t = 0 \<Longrightarrow> (t = 0) = (\<not> fneg t)" for t :: u32
  using unat_eq_fneg_fmag [of t] by (simp add: word_unat_eq_iff)

lemma sum_mval_Cons: "ideal_add MPFR_RNDD (sum_mval ts) (f32_val t) = sum_mval (t # ts)"
proof -
  have v: "f32_val t = fmt_val F32 t" by (simp add: f32_val_def fmt_val_def)
  have nz: "fmag t \<noteq> 0 \<Longrightarrow> t \<noteq> 0" by (auto simp: fmag_def)
  show ?thesis
    unfolding v
    by (cases rule: fmt_val_cases [of F32 t])
      (use zero_word [of t] nz in \<open>auto simp: sum_mval_def mexact_def add.commute simp flip: of_rat_add\<close>)
qed

section \<open>The sums are exact\<close>

lemma sum_grid:
  fixes ts :: "u32 list"
  assumes "\<forall>t\<in>set ts. ffinite F32 t"
  shows "(\<exists>i::int. of_rat (\<Sum>t\<leftarrow>ts. fval F32 t) = of_int i * (2::real) powi (- 149)) \<and>
    \<bar>of_rat (\<Sum>t\<leftarrow>ts. fval F32 t)\<bar> \<le> real (length ts) * 2 powi 128"
  using assms
proof (induction ts)
  case (Cons t ts)
  have "(\<exists>j::int. of_rat (fval F32 t) = of_int j * (2::real) powi (- 149)) \<and> \<bar>of_rat (fval F32 t) :: real\<bar> \<le> 2 powi 128"
  proof (cases "fmag t = 0")
    case True
    then have "fval F32 t = 0" by (simp add: fval_eq_0_iff)
    then show ?thesis by (auto intro: exI [of _ 0])
  next
    case False
    have "f32_val t = MNum (of_rat (fval F32 t))"
      using False Cons.prems by (simp add: f32_val_def ffinite_def fnan_def finf_def)
    then show ?thesis using f32_on_grid [of t] by (simp add: on_grid_def)
  qed
  then obtain j :: int where j: "of_rat (fval F32 t) = of_int j * (2::real) powi (- 149)"
    "\<bar>of_rat (fval F32 t) :: real\<bar> \<le> 2 powi 128" by blast
  obtain i :: int where i: "of_rat (\<Sum>t\<leftarrow>ts. fval F32 t) = of_int i * (2::real) powi (- 149)"
    "\<bar>of_rat (\<Sum>t\<leftarrow>ts. fval F32 t)\<bar> \<le> real (length ts) * 2 powi 128"
    using Cons.IH Cons.prems by auto
  have s: "(of_rat (\<Sum>t\<leftarrow>t # ts. fval F32 t) :: real) = of_rat (fval F32 t) + of_rat (\<Sum>t\<leftarrow>ts. fval F32 t)"
    by (simp add: of_rat_add)
  have "of_rat (\<Sum>t\<leftarrow>t # ts. fval F32 t) = of_int (j + i) * (2::real) powi (- 149)"
    unfolding s j(1) i(1) by (simp add: distrib_right)
  moreover have "\<bar>of_rat (\<Sum>t\<leftarrow>t # ts. fval F32 t)\<bar> \<le> (1 + real (length ts)) * 2 powi 128"
    unfolding s distrib_right using j(2) i(2) by linarith
  ultimately show ?case by (metis length_Cons of_nat_Suc)
qed (auto intro: exI [of _ 0])

lemma sum_mval_exact:
  assumes "length ts \<le> 2 ^ 200"
  shows "on_grid (- 149) 328 (sum_mval ts)" "\<And>v. sum_mval ts = MNum v \<Longrightarrow> mrep 512 v"
proof -
  have d: "v = of_rat (\<Sum>t\<leftarrow>ts. fval F32 t) \<and> v \<noteq> 0 \<and> (\<forall>t\<in>set ts. ffinite F32 t)" if "sum_mval ts = MNum v" for v
  proof -
    have f: "ffinite F32 t \<longleftrightarrow> \<not> fnan F32 t \<and> \<not> finf F32 t" for t :: u32 by (auto simp: ffinite_def fnan_def finf_def)
    from that have "\<not> (\<exists>t\<in>set ts. fnan F32 t)" "\<not> (\<exists>t\<in>set ts. finf F32 t)"
      "(\<Sum>t\<leftarrow>ts. fval F32 t) \<noteq> 0" "v = of_rat (\<Sum>t\<leftarrow>ts. fval F32 t)"
      unfolding sum_mval_def
      by (simp_all only: split: if_splits) (simp_all only: mval.distinct mval.inject not_False_eq_True, blast?)
    then show ?thesis unfolding f by auto
  qed
  have len: "real (length ts) \<le> 2 ^ 200" using assms by (metis of_nat_le_iff of_nat_numeral of_nat_power)
  have "real (length ts) * 2 powi 128 \<le> 2 ^ 200 * (2::real) powi 128" using len by (intro mult_right_mono) simp_all
  also have "\<dots> = 2 powi 328" by (simp only: power_int_numeral) simp
  finally have b: "real (length ts) * 2 powi 128 \<le> 2 powi 328" .
  show g: "on_grid (- 149) 328 (sum_mval ts)"
    unfolding on_grid_def
  proof (intro allI impI)
    fix v assume "sum_mval ts = MNum v"
    note v = d [OF this]
    have "\<bar>v\<bar> \<le> 2 powi 328" using sum_grid [of ts] v b by linarith
    then show "v \<noteq> 0 \<and> (\<exists>i::int. v = of_int i * 2 powi (- 149)) \<and> \<bar>v\<bar> \<le> 2 powi 328"
      using sum_grid [of ts] v by blast
  qed
  fix v assume "sum_mval ts = MNum v"
  note v = on_gridD [OF g [unfolded this]]
  obtain i :: int where i: "v = of_int i * 2 powi (- 149)" using v(2) by blast
  have p: "(2::real) powi (- 149) = 1 / 2 ^ 149" "(2::real) powi 328 = 2 ^ 328"
    by (simp_all only: power_int_minus power_int_numeral inverse_eq_divide)
  have "\<bar>real_of_int i\<bar> / 2 ^ 149 \<le> 2 ^ 328" using v(3) unfolding i p by (simp add: abs_mult)
  then have "\<bar>real_of_int i\<bar> \<le> 2 ^ 328 * 2 ^ 149" by (simp add: divide_le_eq)
  also have "\<dots> = (2::real) ^ 477" by (simp flip: power_add)
  also have "\<dots> < 2 ^ 512" by simp
  finally have "\<bar>i\<bar> < 2 ^ 512" by (metis of_int_abs of_int_less_iff of_int_numeral of_int_power)
  then show "mrep 512 v" unfolding mrep_def i by blast
qed

section \<open>The invariant of the accumulator\<close>

definition sum_inv :: "'m mpfr \<Rightarrow> ('m \<Rightarrow> mval) \<Rightarrow> u32 list \<Rightarrow> 'm vu_sum \<Rightarrow> bool" where
  "sum_inv M sem ts s \<longleftrightarrow> mpfr_get_prec M (sum_value s) = 512 \<and> sem (sum_value s) = sum_mval ts \<and>
     all_negative_zero s = (\<forall>t\<in>set ts. t = 0x80000000)"

lemma sum_inv_create: "mpfr_ok M sem \<Longrightarrow> sum_inv M sem [t] (vu_sum_create M t)"
proof -
  assume ok: "mpfr_ok M sem"
  have p: "mprec_ok 512" by (simp add: mprec_ok_def)
  have "sum_mval [] = MZero False" by (simp add: sum_mval_def)
  then have "sum_mval [t] = ideal_add MPFR_RNDD (MZero False) (f32_val t)" using sum_mval_Cons [of "[]" t] by simp
  also have "\<dots> = f32_val t" using f32_on_grid [of t] by (cases "f32_val t") (auto simp: mexact_def on_grid_def)
  finally show ?thesis
    using set_d_exact [OF ok p, of t MPFR_RNDN] by (simp add: sum_inv_def vu_sum_create_def)
qed

lemma sum_inv_add:
  assumes ok: "mpfr_ok M sem" and s: "sum_inv M sem ts s" and n: "length ts < 2 ^ 200"
  shows "sum_inv M sem (t # ts) (vu_sum_add M t s)"
proof -
  have p: "mprec_ok 24" "mprec_ok 512" by (simp_all add: mprec_ok_def)
  define x where "x = fst (mpfr_set_d M 24 (c_double (vu_bits_to_fp32 t)) MPFR_RNDN)"
  have x: "sem x = f32_val t" unfolding x_def by (rule set_d_exact [OF ok p(1)]) simp
  define y where "y = mpfr_add M 512 (sum_value s) x MPFR_RNDD"
  have d: "delivers M sem 512 MPFR_RNDD (sum_mval (t # ts)) y"
    using mpfr_arithD(12) [OF ok p(2), of MPFR_RNDD "sum_value s" x] s unfolding y_def x sum_inv_def sum_mval_Cons [symmetric] by simp
  have e: "length (t # ts) \<le> 2 ^ 200" using n by simp
  note g = sum_mval_exact [OF e]
  have "sem (fst y) = sum_mval (t # ts) \<and> mpfr_get_prec M (fst y) = 512"
  proof (cases "sum_mval (t # ts)")
    case (MNum v)
    have "mrange v" by (rule on_grid_range [OF g(1) [unfolded MNum]]) simp_all
    then show ?thesis using delivers_num [OF d [unfolded MNum] _ g(2) [OF MNum]] MNum by simp
  qed (use delivers_special [OF d] in auto)
  then show ?thesis
    using s unfolding sum_inv_def vu_sum_add_def Let_def x_def [symmetric] by (auto simp: y_def)
qed

lemma sum_inv_fold:
  assumes ok: "mpfr_ok M sem"
  shows "sum_inv M sem us s \<Longrightarrow> length us + length ts \<le> 2 ^ 200 \<Longrightarrow> sum_inv M sem (rev ts @ us) (fold (vu_sum_add M) ts s)"
proof (induction ts arbitrary: us s)
  case (Cons t ts)
  then show ?case using sum_inv_add [OF ok Cons.prems(1), of t] Cons.IH [of "t # us"] by simp
qed simp

lemma ieee_sum_mval:
  assumes "rm = 2 \<longleftrightarrow> m = RDN" "ts \<noteq> []"
  shows "ieee_sum F32 m ts =
    fmt_code F32 m (if (\<exists>s. sum_mval ts = MZero s) \<and> rm \<noteq> 2 \<and> \<not> (\<forall>t\<in>set ts. t = 0x80000000)
      then MZero False else sum_mval ts)"
proof -
  have z: "fpack False 0 = (0 :: u32)" "fpack True 0 = (0x80000000 :: u32)" by (simp_all add: fpack_def)
  have r: "(m = RDN) = (rm = 2)" using assms by blast
  let ?S = "\<Sum>t\<leftarrow>ts. fval F32 t"
  show ?thesis
  proof (cases "\<exists>t\<in>set ts. fnan F32 t \<or> finf F32 t")
    case True
    then have "sum_mval ts \<noteq> MZero s" "sum_mval ts \<noteq> MNum v" for s v by (auto simp: sum_mval_def)
    then have "(if (\<exists>s. sum_mval ts = MZero s) \<and> rm \<noteq> 2 \<and> \<not> (\<forall>t\<in>set ts. t = 0x80000000) then MZero False else sum_mval ts) = sum_mval ts"
      by simp
    then show ?thesis using True unfolding ieee_sum_def sum_mval_def by auto
  next
    case False
    then have fin: "\<not> (\<exists>t\<in>set ts. fnan F32 t)" "\<not> (\<exists>t\<in>set ts. finf F32 t)" by blast+
    have s: "sum_mval ts = (if ?S = 0 then MZero (\<exists>t\<in>set ts. t \<noteq> 0) else MNum (of_rat ?S))"
      using fin by (simp add: sum_mval_def)
    have i: "ieee_sum F32 m ts = fresult F32 m (if rm = 2 then \<exists>t\<in>set ts. t \<noteq> 0 else \<forall>t\<in>set ts. t = 0x80000000) ?S"
      unfolding ieee_sum_def z r using fin by simp
    have ne: "(\<exists>t\<in>set ts. t \<noteq> 0)" if "\<forall>t\<in>set ts. t = (0x80000000 :: u32)" using that assms(2) by (cases ts) auto
    show ?thesis
      unfolding i s fresult_def using ne by (cases "?S = 0"; cases "rm = 2"; cases "\<forall>t\<in>set ts. t = (0x80000000 :: u32)")
        (simp_all only: if_True if_False simp_thms mval.inject mval.distinct, simp_all add: fmt_code_of_rat del: fmt_code.simps(4))
  qed
qed

lemma ieee_sum_mset: "mset ts = mset us \<Longrightarrow> ieee_sum F m ts = ieee_sum F m us"
proof -
  assume e: "mset ts = mset us"
  then have "set ts = set us" by (rule mset_eq_setD)
  moreover have "(\<Sum>t\<leftarrow>ts. fval F t) = (\<Sum>t\<leftarrow>us. fval F t)" using e by (metis mset_map sum_mset_sum_list)
  ultimately show ?thesis unfolding ieee_sum_def by (simp only:)
qed

lemma to_value_code:
  assumes ok: "mpfr_ok M sem" and num: "\<And>v. sem x = MNum v \<Longrightarrow> mrange v \<and> mprec_ok (mpfr_get_prec M x)"
  shows "vu_mpfr_to_value M x data_type rm 0 = vu_code data_type rm (sem x)"
proof (cases "sem x")
  case (MNum v)
  then show ?thesis using to_value_exact [OF ok MNum] num [OF MNum] by simp
next
  case (MZero s)
  then show ?thesis using to_value_zero(1) [OF ok] by simp
next
  case MNan
  then show ?thesis using to_value_special(1) [OF ok] by simp
next
  case (MInf s)
  then show ?thesis using to_value_special(2) [OF ok] by simp
qed

lemma sum_finish:
  assumes ok: "mpfr_ok M sem" and s: "sum_inv M sem ts s" and ts: "ts \<noteq> []" "length ts \<le> 2 ^ 200"
  shows "vu_sum_finish M s rm = ieee_sum F32 (math_mode rm) ts"
proof -
  have p: "mprec_ok 512" by (simp add: mprec_ok_def)
  have r: "rm = 2 \<longleftrightarrow> math_mode rm = RDN" by (simp add: math_mode_def)
  let ?zero = "mpfr_zero_p M (sum_value s) \<and> rm \<noteq> 2 \<and> \<not> all_negative_zero s"
  define x where "x = (if ?zero then mpfr_set_zero M 512 1 else sum_value s)"
  have inv: "mpfr_get_prec M (sum_value s) = 512" "sem (sum_value s) = sum_mval ts"
    "all_negative_zero s = (\<forall>t\<in>set ts. t = 0x80000000)" using s by (simp_all add: sum_inv_def)
  have "sem (mpfr_set_zero M 512 1) = MZero False" using mpfr_arithD(5) [OF ok p, of 1] by simp
  then have x: "sem x = (if (\<exists>s. sum_mval ts = MZero s) \<and> rm \<noteq> 2 \<and> \<not> (\<forall>t\<in>set ts. t = 0x80000000)
      then MZero False else sum_mval ts)"
    by (simp add: x_def mpfr_queriesD(3) [OF ok] inv)
  have "mrange v \<and> mprec_ok (mpfr_get_prec M x)" if "sem x = MNum v" for v
  proof
    from that have z: "\<not> ?zero" using x by (auto simp: mpfr_queriesD(3) [OF ok] inv split: if_splits)
    then have "x = sum_value s" by (simp only: x_def if_False)
    then show "mprec_ok (mpfr_get_prec M x)" using inv(1) p by simp
    have "sum_mval ts = MNum v" using that x by (auto split: if_splits)
    then show "mrange v" using sum_mval_exact(1) [OF ts(2)] on_grid_range [of "- 149" 328 v] by simp
  qed
  from to_value_code [OF ok this, of 0 rm] show ?thesis
    unfolding vu_sum_finish_def Let_def inv(1) x_def [symmetric] vu_code_fmt x ieee_sum_mval [OF r ts(1)] .
qed

lemma sum_fold:
  assumes "mpfr_ok M sem" and "length ts < 2 ^ 200"
  shows "vu_sum_finish M (fold (vu_sum_add M) ts (vu_sum_create M t)) rm = ieee_sum F32 (math_mode rm) (t # ts)"
proof -
  have "sum_inv M sem (rev ts @ [t]) (fold (vu_sum_add M) ts (vu_sum_create M t))"
    using assms by (intro sum_inv_fold sum_inv_create) simp_all
  from sum_finish [OF assms(1) this, of rm] assms(2) show ?thesis
    using ieee_sum_mset [of "rev ts @ [t]" "t # ts" F32 "math_mode rm"] by simp
qed

text \<open>
  C9: Whatever binary32 values are accumulated (up to \<open>2 ^ 200\<close> of them), in whatever order, the
  result of the accumulator is their exact sum rounded once in the rounding mode, with the IEEE
  rules for infinities, NaNs and the sign of a zero sum.
\<close>

theorem vu_sum_correct:
  assumes "mpfr_ok M sem" and "length ts < 2 ^ 200"
  shows "vu_sum_finish M (fold (vu_sum_add M) ts (vu_sum_create M t)) rm = ieee_sum F32 (math_mode rm) (t # ts)"
  using assms by (rule sum_fold)

text \<open>
  C22: The invariant of the accumulator: after any sequence of additions its number has 512 bits
  and is exactly the sum of the values accumulated so far (a NaN or an infinity when they say
  so), and its flag says whether all of them were -0.
\<close>

theorem vu_sum_invariant:
  assumes "mpfr_ok M sem" and "length ts < 2 ^ 200"
  shows "sum_inv M sem (rev (t # ts)) (fold (vu_sum_add M) ts (vu_sum_create M t))"
  using sum_inv_fold [OF assms(1) sum_inv_create [OF assms(1)], where ts = ts and t1 = t] assms(2) by simp

text \<open>The result of a reduction does not depend on the order in which its values are accumulated.\<close>

theorem vu_sum_order:
  assumes "mpfr_ok M sem" and "length ts < 2 ^ 200" and "mset (t # ts) = mset (u # us)"
  shows "vu_sum_finish M (fold (vu_sum_add M) ts (vu_sum_create M t)) rm =
    vu_sum_finish M (fold (vu_sum_add M) us (vu_sum_create M u)) rm"
proof -
  have "length us < 2 ^ 200" using assms(2) mset_eq_length [OF assms(3)] by simp
  then show ?thesis using sum_fold [OF assms(1)] assms(2) ieee_sum_mset [OF assms(3)] by metis
qed

end
