(* ===== verification/Sf_F32_Arith.thy ===== *)
theory Sf_F32_Arith
  imports Sf_F32
begin

text \<open>
  SoftFloat's binary32 addition, subtraction, multiplication and division
  (\<open>s_addMagsF32.c\<close>, \<open>s_subMagsF32.c\<close>, \<open>f32_add.c\<close>, \<open>f32_sub.c\<close>, \<open>f32_mul.c\<close>,
  \<open>f32_div.c\<close>), with the proof that each returns the correctly rounded exact result.
\<close>

section \<open>The operations\<close>

definition propagateNaN32 :: "u64 \<Rightarrow> u64 \<Rightarrow> sf_state \<Rightarrow> u32 \<times> sf_state" where
  "propagateNaN32 uiA uiB st =
     (let (uiZ, st) = softfloat_propagateNaNF32UI uiA uiB st in (ucast uiZ, st))"

definition invalid32 :: "sf_state \<Rightarrow> u32 \<times> sf_state" where
  "invalid32 st = (ucast defaultNaNF32UI, softfloat_raiseFlags softfloat_flag_invalid st)"

definition softfloat_addMagsF32 :: "u64 \<Rightarrow> u64 \<Rightarrow> sf_state \<Rightarrow> u32 \<times> sf_state" where
  "softfloat_addMagsF32 uiA uiB st =
     (let expA = expF32UI uiA; sigA = fracF32UI uiA;
          expB = expF32UI uiB; sigB = fracF32UI uiB;
          expDiff = expA - expB
      in if expDiff = 0
         then if expA = 0 then (ucast (uiA + sigB), st)
              else if expA = 0xFF
              then if sigA OR sigB \<noteq> 0 then propagateNaN32 uiA uiB st else (ucast uiA, st)
              else let signZ = signF32UI uiA; expZ = expA; sigZ = 0x01000000 + sigA + sigB
                   in if sigZ AND 1 = 0 \<and> expZ < 0xFE
                      then (ucast (packToF32UI signZ expZ (drop_bit 1 sigZ)), st)
                      else softfloat_roundPackToF32 signZ expZ (push_bit 6 sigZ) st
         else let signZ = signF32UI uiA; sigA = push_bit 6 sigA; sigB = push_bit 6 sigB
              in if expDiff < 0
                 then if expB = 0xFF
                      then if sigB \<noteq> 0 then propagateNaN32 uiA uiB st
                           else (ucast (packToF32UI signZ 0xFF 0), st)
                      else let expZ = expB;
                               sigA = sigA + (if expA \<noteq> 0 then 0x20000000 else sigA);
                               sigA = ucast (softfloat_shiftRightJam32 (ucast sigA) (word_of_int (- expDiff)));
                               sigZ = 0x20000000 + sigA + sigB;
                               (expZ, sigZ) = (if sigZ < 0x40000000 then (expZ - 1, push_bit 1 sigZ)
                                               else (expZ, sigZ))
                           in softfloat_roundPackToF32 signZ expZ sigZ st
                 else if expA = 0xFF
                      then if sigA \<noteq> 0 then propagateNaN32 uiA uiB st else (ucast uiA, st)
                      else let expZ = expA;
                               sigB = sigB + (if expB \<noteq> 0 then 0x20000000 else sigB);
                               sigB = ucast (softfloat_shiftRightJam32 (ucast sigB) (word_of_int expDiff));
                               sigZ = 0x20000000 + sigA + sigB;
                               (expZ, sigZ) = (if sigZ < 0x40000000 then (expZ - 1, push_bit 1 sigZ)
                                               else (expZ, sigZ))
                           in softfloat_roundPackToF32 signZ expZ sigZ st)"

definition softfloat_subMagsF32 :: "u64 \<Rightarrow> u64 \<Rightarrow> sf_state \<Rightarrow> u32 \<times> sf_state" where
  "softfloat_subMagsF32 uiA uiB st =
     (let expA = expF32UI uiA; sigA = fracF32UI uiA;
          expB = expF32UI uiB; sigB = fracF32UI uiB;
          expDiff = expA - expB
      in if expDiff = 0
         then if expA = 0xFF
              then if sigA OR sigB \<noteq> 0 then propagateNaN32 uiA uiB st else invalid32 st
              else let sigDiff = uint sigA - uint sigB
                   in if sigDiff = 0
                      then (ucast (packToF32UI (softfloat_roundingMode st = softfloat_round_min) 0 0), st)
                      else let expA = (if expA \<noteq> 0 then expA - 1 else expA);
                               signZ = signF32UI uiA;
                               (signZ, sigDiff) = (if sigDiff < 0 then (\<not> signZ, - sigDiff)
                                                   else (signZ, sigDiff));
                               shiftDist = int (unat (softfloat_countLeadingZeros32 (word_of_int sigDiff))) - 8;
                               expZ = expA - shiftDist;
                               (shiftDist, expZ) = (if expZ < 0 then (expA, 0) else (shiftDist, expZ))
                           in (ucast (packToF32UI signZ expZ
                                 (push_bit (nat shiftDist) (word_of_int sigDiff))), st)
         else let signZ = signF32UI uiA; sigA = push_bit 7 sigA; sigB = push_bit 7 sigB
              in if expDiff < 0
                 then let signZ = (\<not> signZ)
                      in if expB = 0xFF
                         then if sigB \<noteq> 0 then propagateNaN32 uiA uiB st
                              else (ucast (packToF32UI signZ 0xFF 0), st)
                         else let expZ = expB - 1;
                                  sigX = sigB OR 0x40000000;
                                  sigY = sigA + (if expA \<noteq> 0 then 0x40000000 else sigA);
                                  expDiff = - expDiff
                              in softfloat_normRoundPackToF32 signZ expZ
                                   (sigX - ucast (softfloat_shiftRightJam32 (ucast sigY) (word_of_int expDiff))) st
                 else if expA = 0xFF
                      then if sigA \<noteq> 0 then propagateNaN32 uiA uiB st else (ucast uiA, st)
                      else let expZ = expA - 1;
                               sigX = sigA OR 0x40000000;
                               sigY = sigB + (if expB \<noteq> 0 then 0x40000000 else sigB)
                           in softfloat_normRoundPackToF32 signZ expZ
                                (sigX - ucast (softfloat_shiftRightJam32 (ucast sigY) (word_of_int expDiff))) st)"

definition f32_add :: "u32 \<Rightarrow> u32 \<Rightarrow> sf_state \<Rightarrow> u32 \<times> sf_state" where
  "f32_add a b st =
     (let uiA = ucast a; uiB = ucast b
      in if signF32UI (uiA XOR uiB) then softfloat_subMagsF32 uiA uiB st
         else softfloat_addMagsF32 uiA uiB st)"

definition f32_sub :: "u32 \<Rightarrow> u32 \<Rightarrow> sf_state \<Rightarrow> u32 \<times> sf_state" where
  "f32_sub a b st =
     (let uiA = ucast a; uiB = ucast b
      in if signF32UI (uiA XOR uiB) then softfloat_addMagsF32 uiA uiB st
         else softfloat_subMagsF32 uiA uiB st)"

text \<open>
  The block \<open>if ( ! exp ) ... normExpSig ...\<close> that multiplication, division and the square
  root apply to each operand.
\<close>

definition normalized32 :: "int \<Rightarrow> u64 \<Rightarrow> int \<times> u64" where
  "normalized32 e sig =
     (if e = 0 then let normExpSig = softfloat_normSubnormalF32Sig sig
                    in (es_exp normExpSig, es_sig normExpSig)
      else (e, sig))"

definition f32_mul :: "u32 \<Rightarrow> u32 \<Rightarrow> sf_state \<Rightarrow> u32 \<times> sf_state" where
  "f32_mul a b st =
     (let uiA = ucast a; signA = signF32UI uiA; expA = expF32UI uiA; sigA = fracF32UI uiA;
          uiB = ucast b; signB = signF32UI uiB; expB = expF32UI uiB; sigB = fracF32UI uiB;
          signZ = (signA \<noteq> signB);
          infArg = (\<lambda>magBits. if magBits = 0 then invalid32 st
                     else (ucast (packToF32UI signZ 0xFF 0), st));
          zero = (ucast (packToF32UI signZ 0 0), st)
      in if expA = 0xFF
         then if sigA \<noteq> 0 \<or> (expB = 0xFF \<and> sigB \<noteq> 0) then propagateNaN32 uiA uiB st
              else infArg (word_of_int expB OR sigB)
         else if expB = 0xFF
         then if sigB \<noteq> 0 then propagateNaN32 uiA uiB st else infArg (word_of_int expA OR sigA)
         else if expA = 0 \<and> sigA = 0 then zero
         else let (expA, sigA) = normalized32 expA sigA
              in if expB = 0 \<and> sigB = 0 then zero
                 else let (expB, sigB) = normalized32 expB sigB;
                          expZ = expA + expB - 0x7F;
                          sigA = push_bit 7 (sigA OR 0x00800000);
                          sigB = push_bit 8 (sigB OR 0x00800000);
                          sigZ = softfloat_shortShiftRightJam64 (sigA * sigB) 32;
                          (expZ, sigZ) = (if sigZ < 0x40000000 then (expZ - 1, push_bit 1 sigZ)
                                          else (expZ, sigZ))
                      in softfloat_roundPackToF32 signZ expZ sigZ st)"

definition f32_div :: "u32 \<Rightarrow> u32 \<Rightarrow> sf_state \<Rightarrow> u32 \<times> sf_state" where
  "f32_div a b st =
     (let uiA = ucast a; signA = signF32UI uiA; expA = expF32UI uiA; sigA = fracF32UI uiA;
          uiB = ucast b; signB = signF32UI uiB; expB = expF32UI uiB; sigB = fracF32UI uiB;
          signZ = (signA \<noteq> signB);
          infinity = (\<lambda>st. (ucast (packToF32UI signZ 0xFF 0), st));
          zero = (ucast (packToF32UI signZ 0 0), st)
      in if expA = 0xFF
         then if sigA \<noteq> 0 then propagateNaN32 uiA uiB st
              else if expB = 0xFF
              then if sigB \<noteq> 0 then propagateNaN32 uiA uiB st else invalid32 st
              else infinity st
         else if expB = 0xFF
         then if sigB \<noteq> 0 then propagateNaN32 uiA uiB st else zero
         else if expB = 0 \<and> sigB = 0
         then if word_of_int expA OR sigA = 0 then invalid32 st
              else infinity (softfloat_raiseFlags softfloat_flag_infinite st)
         else let (expB, sigB) = normalized32 expB sigB
              in if expA = 0 \<and> sigA = 0 then zero
                 else let (expA, sigA) = normalized32 expA sigA;
                          expZ = expA - expB + 0x7E;
                          sigA = sigA OR 0x00800000;
                          sigB = sigB OR 0x00800000;
                          (expZ, sig64A) = (if sigA < sigB then (expZ - 1, push_bit 31 sigA)
                                            else (expZ, push_bit 30 sigA));
                          sigZ = sig64A div sigB;
                          sigZ = (if sigZ AND 0x3F = 0 then sigZ OR of_bool (sigB * sigZ \<noteq> sig64A)
                                  else sigZ)
                      in softfloat_roundPackToF32 signZ expZ sigZ st)"

section \<open>Addition of magnitudes\<close>

lemma addMags_far:
  assumes d: "eY < eX" "eX < 255" and f: "fX < 2 ^ 23"
    and y: "y < 2 * 2 ^ 23"
    and z: "unat sigZ = 2 ^ 29 + fX * 2 ^ 6 + jam_shift (y * 2 ^ 6) (eX - eY)"
    and x: "\<bar>x\<bar> * 2 ^ 149 = of_nat (2 ^ 23 + fX) * 2 powi (int eX - 1) + of_nat y * 2 powi (int eY - 1)"
  shows "fst (let (expZ, sigZ) = (if sigZ < 0x40000000 then (int eX - 1, push_bit 1 sigZ) else (int eX, sigZ))
      in softfloat_roundPackToF32 sign expZ sigZ st) =
    fround F32 (sf_mode (softfloat_roundingMode st)) sign x"
proof (rule f32p.rp_short)
  define s :: rat where "s = of_nat ((2 ^ 23 + fX) * 2 ^ 6) + of_nat (y * 2 ^ 6) / 2 ^ (eX - eY)"
  have b: "2 ^ 29 + fX * 2 ^ 6 = (2 ^ 23 + fX) * 2 ^ 6" by simp
  have "agrees 2 (of_nat (y * 2 ^ 6) / 2 ^ (eX - eY) :: rat) (jam_shift (y * 2 ^ 6) (eX - eY))"
    by (rule agrees_jam_shift [OF agrees_refl]) simp
  then show "agrees 2 s (unat sigZ)"
    unfolding z s_def b by (rule agrees_add) simp_all
  have "jam_shift (y * 2 ^ 6) (eX - eY) < 2 ^ 30"
    by (rule jam_shift_less) (use y in simp_all)
  with z f show "2 ^ (23 + 7 - 1) \<le> unat sigZ" "unat sigZ < 2 ^ (23 + 1 + 7)" by simp_all
  have ee: "int eY - 1 = int eX - 1 - int (eX - eY)" using d by simp
  have e: "(2::rat) powi (int eY - 1) = 2 powi (int eX - 1) / 2 ^ (eX - eY)"
    unfolding ee by (subst power_int_diff) simp_all
  have e': "(2::rat) powi int eX = 2 * 2 powi (int eX - 1)" by (simp add: power_int_diff)
  show "\<bar>x\<bar> * 2 ^ ulp0 F32 = s * 2 powi int eX / 2 ^ 7"
  proof -
    have "(A * 2 ^ 6 + B * 2 ^ 6 / D) * (2 * P) / 2 ^ 7 = A * P + B * (P / D)" for A B D P :: rat
      by (simp add: field_simps)
    from this [of "of_nat (2 ^ 23 + fX)" "of_nat y" "2 ^ (eX - eY)" "2 powi (int eX - 1)"]
    show ?thesis
      using x by (simp only: e e' s_def of_nat_mult of_nat_power of_nat_numeral) (simp add: F32_def)
  qed
qed (use d in simp_all)

lemma align_word:
  assumes "unat (sig :: u64) = c mod 2 ^ 23" and "k \<le> 7" and "hid = 2 ^ (23 + k)"
  shows "unat (push_bit k sig + (if int (c div 2 ^ 23) \<noteq> 0 then hid else push_bit k sig)) =
    align_sig 23 c * 2 ^ k"
proof -
  have m: "c mod 2 ^ 23 < 2 ^ 23" by simp
  have k: "(2::nat) ^ k \<le> 2 ^ 7" using assms(2) by (intro power_increasing) simp_all
  have "c mod 2 ^ 23 * 2 ^ k \<le> c mod 2 ^ 23 * 2 ^ 7" by (rule mult_left_mono [OF k]) simp
  moreover have "c mod 2 ^ 23 * 2 ^ 7 < 2 ^ 30" using m by simp
  ultimately have lt: "c mod 2 ^ 23 * 2 ^ k < 2 ^ 30" by (rule le_less_trans)
  have p: "unat (push_bit k sig) = c mod 2 ^ 23 * 2 ^ k"
    by (rule trans [OF unat_push_bit_less]) (use lt assms(1) in simp_all)
  have "unat hid = 2 ^ (23 + k)"
    using unat_push_1 [of "23 + k", where ?'a = 64] assms(2,3) by (simp add: push_bit_eq_mult)
  moreover have "(2::nat) ^ (23 + k) \<le> 2 ^ 30" using k by (simp add: power_add)
  ultimately have hid: "unat hid = 2 ^ 23 * 2 ^ k" "(2::nat) ^ 23 * 2 ^ k \<le> 2 ^ 30"
    by (simp_all only: power_add)
  show ?thesis
  proof (cases "c div 2 ^ 23 = 0")
    case True
    have "unat (push_bit k sig + push_bit k sig) = c mod 2 ^ 23 * 2 ^ k + c mod 2 ^ 23 * 2 ^ k"
      using lt by (subst unat_add_less; simp only: p) simp
    with True show ?thesis by (simp only: align_sig_def if_True of_nat_0 simp_thms if_False) simp
  next
    case False
    have "unat (push_bit k sig + hid) = c mod 2 ^ 23 * 2 ^ k + 2 ^ 23 * 2 ^ k"
      using lt hid(2) by (subst unat_add_less; simp only: p hid(1)) simp
    with False show ?thesis by (simp only: align_sig_def if_False of_nat_eq_0_iff simp_thms if_True)
       (simp only: distrib_right add.commute)
  qed
qed

lemma jam32_word:
  fixes y :: u64
  assumes "0 < d" "d < 2 ^ 31" "unat y < 2 ^ 31"
  shows "unat (ucast (softfloat_shiftRightJam32 (ucast y) (word_of_int (int d))) :: u64) =
    jam_shift (unat y) d"
  using f32p.shiftJam [of "- int d" y] assms by simp

lemma addMags_jam:
  fixes y :: u64
  assumes "unat y = align_sig 23 c * 2 ^ 6" "0 < d" "d < 2 ^ 31"
  shows "unat (ucast (softfloat_shiftRightJam32 (ucast y) (word_of_int (int d))) :: u64) =
      jam_shift (align_sig 23 c * 2 ^ 6) d"
    and "unat (ucast (softfloat_shiftRightJam32 (ucast y) (word_of_int (int d))) :: u64) < 2 ^ 30"
proof -
  have y: "unat y < 2 ^ 30" using align_sig_less [of 23 c] assms(1) by simp
  then show "unat (ucast (softfloat_shiftRightJam32 (ucast y) (word_of_int (int d))) :: u64) =
      jam_shift (align_sig 23 c * 2 ^ 6) d"
    using assms by (subst jam32_word) simp_all
  with y show "unat (ucast (softfloat_shiftRightJam32 (ucast y) (word_of_int (int d))) :: u64) < 2 ^ 30"
    unfolding assms(1) [symmetric] by (simp only:) (rule jam_shift_less; simp)
qed

lemma add3_word:
  assumes "unat j < 2 ^ 30" "f < 2 ^ 23" "unat sig = f"
  shows "unat (0x20000000 + j + push_bit 6 (sig :: u64)) = 2 ^ 29 + f * 2 ^ 6 + unat j"
proof -
  have "unat (push_bit 6 sig) = f * 2 ^ 6"
    using assms by (subst unat_push_bit_less) simp_all
  with assms show ?thesis by (subst unat_add_less; simp add: unat_add_less)
qed

lemma addMagsF32_fround:
  fixes a b :: u32
  assumes a: "ffinite F32 a" and b: "ffinite F32 b"
  shows "fst (softfloat_addMagsF32 (ucast a) (ucast b) st) =
    fround F32 (sf_mode (softfloat_roundingMode st)) (fneg a) (\<bar>fval F32 a\<bar> + \<bar>fval F32 b\<bar>)"
proof -
  define eA fA eB fB where "eA = fmag a div 2 ^ 23" and "fA = fmag a mod 2 ^ 23"
    and "eB = fmag b div 2 ^ 23" and "fB = fmag b mod 2 ^ 23"
  note defs = eA_def fA_def eB_def fB_def
  have e: "expF32UI (ucast a) = int eA" "expF32UI (ucast b) = int eB"
    by (simp_all only: expF32UI_ucast defs)
  have f: "unat (fracF32UI (ucast a)) = fA" "unat (fracF32UI (ucast b)) = fB"
    by (simp_all only: fracF32UI_ucast defs)
  have lt: "eA < 255" "eB < 255" "fA < 2 ^ 23" "fB < 2 ^ 23"
    using a b by (simp_all add: finite32_iff defs)
  define x where "x = \<bar>fval F32 a\<bar> + \<bar>fval F32 b\<bar>"
  have xv: "\<bar>x\<bar> * 2 ^ 149 = of_nat (ival 23 (fmag a)) + of_nat (ival 23 (fmag b))"
    by (simp add: x_def abs_fval F32_def add_divide_distrib [symmetric])
  have al: "of_nat (ival 23 (fmag a)) = (of_nat (align_sig 23 (fmag a)) * 2 powi (int eA - 1) :: rat)"
    "of_nat (ival 23 (fmag b)) = (of_nat (align_sig 23 (fmag b)) * 2 powi (int eB - 1) :: rat)"
    by (simp_all only: ival_align_sig defs)
  have as: "align_sig 23 (fmag a) = (if eA = 0 then 2 * fA else 2 ^ 23 + fA)"
    "align_sig 23 (fmag b) = (if eB = 0 then 2 * fB else 2 ^ 23 + fB)"
    by (simp_all only: align_sig_def defs)
  note unf = softfloat_addMagsF32_def Let_def e signF32UI_ucast x_def [symmetric]
  consider "eA = eB" "eA = 0" | "eA = eB" "0 < eA" | "eA < eB" | "eB < eA" by linarith
  then show ?thesis
  proof cases
    case 1
    have ca: "fmag a = fA" "fmag b = fB"
      using 1 div_mult_mod_eq [of "fmag a" "2 ^ 23"] div_mult_mod_eq [of "fmag b" "2 ^ 23"]
      by (simp_all add: defs)
    have "unat (ucast a + fracF32UI (ucast b)) = of_bool (fneg a) * 2 ^ 31 + (fA + fB)"
      using lt unat_eq_fneg_fmag [of a] ca by (subst unat_add_less) (simp_all add: f of_bool_def)
    then have "unat (ucast (ucast a + fracF32UI (ucast b)) :: u32) = of_bool (fneg a) * 2 ^ (LENGTH(32) - 1) + (fA + fB)"
      using lt by (subst unat_ucast_less) (simp_all add: of_bool_def)
    then have "(ucast (ucast a + fracF32UI (ucast b)) :: u32) = fpack (fneg a) (fA + fB)"
      by (rule word_eq_fpackI)
    moreover have "fround F32 (sf_mode (softfloat_roundingMode st)) (fneg a) x =
        (fpack (fneg a) (fA + fB) :: u32)"
      by (rule fround_exact) (use lt xv in \<open>simp_all add: F32_def ival_small2 ca\<close>)
    ultimately show ?thesis using 1 by (simp add: unf)
  next
    case 2
    define z where "z = 0x01000000 + fracF32UI (ucast a) + fracF32UI (ucast b)"
    have z: "unat z = 2 ^ 24 + fA + fB"
      unfolding z_def using lt by (subst unat_add_less; simp add: f unat_add_less)
    have sum: "\<bar>x\<bar> * 2 ^ 149 = of_nat (unat z) * 2 powi (int eA - 1)"
      unfolding xv al z as using 2 by (simp add: algebra_simps)
    have z1: "z AND 1 = 0 \<longleftrightarrow> even (unat z)"
      by (metis even_iff_mod_2_eq_zero unat_and_one unat_eq_0)
    show ?thesis
    proof (cases "z AND 1 = 0 \<and> int eA < 0xFE")
      case True
      define c where "c = eA * 2 ^ 23 + unat z div 2"
      have zb: "2 ^ 23 \<le> unat z div 2" "unat z div 2 < 2 * 2 ^ 23" using lt z by simp_all
      have cl: "c \<le> 0x7F7FFFFF" using True zb by (simp add: c_def)
      have "unat (drop_bit 1 z) = unat z div 2" by (simp add: unat_drop_bit)
      then have "unat (ucast (packToF32UI (fneg a) (int eA) (drop_bit 1 z)) :: u32) =
          of_bool (fneg a) * 2 ^ (LENGTH(32) - 1) + c"
        using True zb by (subst unat_pack32(2)) (auto simp: c_def)
      then have "ucast (packToF32UI (fneg a) (int eA) (drop_bit 1 z)) = (fpack (fneg a) c :: u32)"
        by (rule word_eq_fpackI)
      moreover have "fround F32 (sf_mode (softfloat_roundingMode st)) (fneg a) x = (fpack (fneg a) c :: u32)"
      proof (rule fround_exact)
        have "unat z = 2 * (unat z div 2)" using True z1 by simp
        then have "(of_nat (unat z) :: rat) = 2 * of_nat (unat z div 2)" by (metis of_nat_mult of_nat_numeral)
        then show "\<bar>x\<bar> * 2 ^ ulp0 F32 = of_nat (ival (fbits F32) c)"
          using sum ival_pack [OF zb, of eA] by (simp add: F32_def c_def power_int_diff)
      qed (use cl in \<open>simp add: F32_def\<close>)
      ultimately show ?thesis
        using 2 True by (simp add: unf flip: z_def)
    next
      case False
      have u: "unat (push_bit 6 z) = unat z * 2 ^ 6"
        by (rule unat_push_bit_less) (use z lt in simp)
      have "\<bar>x\<bar> * 2 ^ ulp0 F32 = of_nat (unat (push_bit 6 z)) * 2 powi int eA / 2 ^ 7"
        using sum by (simp add: u F32_def power_int_diff)
      then have "fst (softfloat_roundPackToF32 (fneg a) (int eA) (push_bit 6 z) st) =
          fround F32 (sf_mode (softfloat_roundingMode st)) (fneg a) x"
        by (intro f32p.rp_fround [OF agrees_refl]) (use lt z in \<open>simp_all add: u\<close>)
      then show ?thesis
        using 2 lt False unfolding unf z_def [symmetric] by (simp only: if_False if_not_P) simp
    qed
  next
    case 3
    define y where "y = push_bit 6 (fracF32UI (ucast a)) +
      (if int eA \<noteq> 0 then 0x20000000 else push_bit 6 (fracF32UI (ucast a)))"
    define j where "j = (ucast (softfloat_shiftRightJam32 (ucast y) (word_of_int (- (int eA - int eB)))) :: u64)"
    define z where "z = 0x20000000 + j + push_bit 6 (fracF32UI (ucast b))"
    have y: "unat y = align_sig 23 (fmag a) * 2 ^ 6"
      unfolding y_def eA_def by (rule align_word) (simp_all add: f fA_def)
    have j: "unat j = jam_shift (align_sig 23 (fmag a) * 2 ^ 6) (eB - eA)" "unat j < 2 ^ 30"
      unfolding j_def using addMags_jam [OF y, of "eB - eA"] 3 lt(2) by simp_all
    have z: "unat z = 2 ^ 29 + fB * 2 ^ 6 + jam_shift (align_sig 23 (fmag a) * 2 ^ 6) (eB - eA)"
      unfolding z_def j(1) [symmetric] using j(2) lt(4) by (rule add3_word) (rule f)
    have "int eA - int eB \<noteq> 0" "int eA - int eB < 0" "int eB \<noteq> 0xFF" using 3 lt by simp_all
    then show ?thesis
      using addMags_far [OF 3 lt(2,4) align_sig_less z, of x "fneg a" st] xv al as(2) 3
      unfolding unf y_def [symmetric] j_def [symmetric] z_def [symmetric] by (simp add: add.commute)
  next
    case 4
    define y where "y = push_bit 6 (fracF32UI (ucast b)) +
      (if int eB \<noteq> 0 then 0x20000000 else push_bit 6 (fracF32UI (ucast b)))"
    define j where "j = (ucast (softfloat_shiftRightJam32 (ucast y) (word_of_int (int eA - int eB))) :: u64)"
    define z where "z = 0x20000000 + push_bit 6 (fracF32UI (ucast a)) + j"
    have y: "unat y = align_sig 23 (fmag b) * 2 ^ 6"
      unfolding y_def eB_def by (rule align_word) (simp_all add: f fB_def)
    have j: "unat j = jam_shift (align_sig 23 (fmag b) * 2 ^ 6) (eA - eB)" "unat j < 2 ^ 30"
      unfolding j_def using addMags_jam [OF y, of "eA - eB"] 4 lt(1) by simp_all
    have "z = 0x20000000 + j + push_bit 6 (fracF32UI (ucast a))" by (simp add: z_def ac_simps)
    then have z: "unat z = 2 ^ 29 + fA * 2 ^ 6 + jam_shift (align_sig 23 (fmag b) * 2 ^ 6) (eA - eB)"
      unfolding j(1) [symmetric] using add3_word [OF j(2) lt(3) f(1)] by simp
    have "int eA - int eB \<noteq> 0" "\<not> int eA - int eB < 0" "int eA \<noteq> 0xFF" using 4 lt by simp_all
    then show ?thesis
      using addMags_far [OF 4 lt(1,3) align_sig_less z, of x "fneg a" st] xv al as(1) 4
      unfolding unf y_def [symmetric] j_def [symmetric] z_def [symmetric] by simp
  qed
qed

section \<open>Subtraction of magnitudes\<close>

lemma subMags_far:
  assumes d: "eY < eX" "eX < 255" and f: "fX < 2 ^ 23" and y: "y < 2 * 2 ^ 23"
    and z: "unat sigZ = (2 ^ 23 + fX) * 2 ^ 7 - jam_shift (y * 2 ^ 7) (eX - eY)"
    and x: "\<bar>x\<bar> * 2 ^ 149 = of_nat (2 ^ 23 + fX) * 2 powi (int eX - 1) - of_nat y * 2 powi (int eY - 1)"
  shows "fst (softfloat_normRoundPackToF32 sign (int eX - 1) sigZ st) =
    fround F32 (sf_mode (softfloat_roundingMode st)) sign x"
proof (rule f32n.nrp_fround)
  define d s where "d = eX - eY"
    and "s = (of_nat ((2 ^ 23 + fX) * 2 ^ 7) - of_nat (y * 2 ^ 7) / 2 ^ d :: rat)"
  have j: "jam_shift (y * 2 ^ 7) d = y * 2 ^ 6 \<and> d = 1 \<or> jam_shift (y * 2 ^ 7) d < 2 ^ 29"
  proof (cases "d = 1")
    case True
    have "y * 2 ^ 7 = y * 2 ^ 6 * 2 ^ 1" by simp
    then have "y * 2 ^ 7 div 2 ^ 1 = y * 2 ^ 6" "y * 2 ^ 7 mod 2 ^ 1 = 0"
      by (metis nonzero_mult_div_cancel_right power_not_zero zero_neq_numeral, simp)
    with True show ?thesis by (simp add: jam_shift_def)
  next
    case False
    then have "2 \<le> d" using d by (simp add: d_def)
    then show ?thesis using jam_shift_less_quarter [of "y * 2 ^ 7" 29 d] y by simp
  qed
  then have jb: "jam_shift (y * 2 ^ 7) d < (2 ^ 23 + fX) * 2 ^ 7"
    "jam_shift (y * 2 ^ 7) d \<le> (2 ^ 23 + fX) * 2 ^ 7" using y f by auto
  have "agrees 2 (of_nat (y * 2 ^ 7) / 2 ^ d :: rat) (jam_shift (y * 2 ^ 7) d)"
    by (rule agrees_jam_shift [OF agrees_refl]) simp
  then show "agrees 2 s (unat sigZ)"
    unfolding z s_def d_def [symmetric] by (rule agrees_diff) (use jb in simp_all)
  show "s = of_nat (unat sigZ) \<or> 2 ^ (23 + 7 - 1) \<le> unat sigZ"
    using j
  proof
    assume h: "jam_shift (y * 2 ^ 7) d = y * 2 ^ 6 \<and> d = 1"
    have "of_nat (unat sigZ) = (of_nat ((2 ^ 23 + fX) * 2 ^ 7) - of_nat (y * 2 ^ 6) :: rat)"
      unfolding z d_def [symmetric] conjunct1 [OF h]
      by (rule of_nat_diff [OF jb(2) [unfolded conjunct1 [OF h]]])
    then show ?thesis using h by (simp add: s_def)
  qed (rule disjI2, use z in \<open>simp add: d_def\<close>)
  show "0 < unat sigZ" "unat sigZ < 2 ^ (23 + 1 + 7)" using z jb f by (simp_all add: d_def)
  have ee: "int eY - 1 = int eX - 1 - int d" using d by (simp add: d_def)
  have e: "(2::rat) powi (int eY - 1) = 2 powi (int eX - 1) / 2 ^ d"
    unfolding ee by (subst power_int_diff) simp_all
  show "\<bar>x\<bar> * 2 ^ ulp0 F32 = s * 2 powi (int eX - 1) / 2 ^ 7"
  proof -
    have "(A * 2 ^ 7 - B * 2 ^ 7 / D) * P / 2 ^ 7 = A * P - B * (P / D)" for A B D P :: rat
      by (simp add: field_simps)
    from this [of "of_nat (2 ^ 23 + fX)" "of_nat y" "2 ^ d" "2 powi (int eX - 1)"]
    show ?thesis
      using x by (simp only: e s_def of_nat_mult of_nat_power of_nat_numeral) (simp add: F32_def)
  qed
qed (use d in simp_all)

lemma subMags_near:
  assumes D: "0 < D" "D < 2 ^ 23" and e: "e < 254"
    and sd: "sd = uint (softfloat_countLeadingZeros32 (word_of_nat D)) - 8"
    and z: "shiftDist = (if int e < sd then int e else sd)" "expZ = (if int e < sd then 0 else int e - sd)"
    and x: "\<bar>x\<bar> * 2 ^ 149 = of_nat D * 2 ^ e"
  shows "ucast (packToF32UI sign expZ (push_bit (nat shiftDist) (word_of_nat D))) =
    (fround F32 m sign x :: u32)"
proof -
  have wD: "unat (word_of_nat D :: u32) = D" "unat (word_of_nat D :: u64) = D"
    using D by (simp_all add: unat_of_nat)
  define k where "k = 24 - floorlog 2 D"
  have "floorlog 2 D \<le> 23" using D(2) by (rule floorlog_le_width)
  then have sdk: "sd = int k" by (simp add: sd uint_nat unat_clz32 wD k_def)
  have nb: "2 ^ 23 \<le> D * 2 ^ k" "D * 2 ^ k < 2 ^ 24"
    using normalize_bounds [of D 24] D by (simp_all add: k_def)
  define c where "c = (if e < k then D * 2 ^ e else (e - k) * 2 ^ 23 + D * 2 ^ k)"
  have small: "D * 2 ^ e < 2 ^ 23" if "e < k"
  proof -
    have "D * 2 ^ (e + 1) \<le> D * 2 ^ k" by (intro mult_left_mono power_increasing) (use that in simp_all)
    moreover have "D * 2 ^ (e + 1) = 2 * (D * 2 ^ e)" by simp
    moreover have "(2::nat) ^ 24 = 2 * 2 ^ 23" by simp
    ultimately show ?thesis using nb(2) by linarith
  qed
  have iv: "ival 23 c = D * 2 ^ e"
  proof (cases "e < k")
    case True
    then show ?thesis using small by (simp add: c_def ival_small)
  next
    case False
    then have "D * 2 ^ k * 2 ^ (e - k) = D * 2 ^ e" by (simp flip: power_add)
    then show ?thesis using False ival_pack [of 23 "D * 2 ^ k" "e - k"] nb by (simp add: c_def)
  qed
  have cl: "c \<le> 0x7F7FFFFF" using small nb e by (auto simp: c_def)
  have "unat (ucast (packToF32UI sign expZ (push_bit (nat shiftDist) (word_of_nat D))) :: u32) =
      of_bool sign * 2 ^ (LENGTH(32) - 1) + c"
  proof (cases "e < k")
    case True
    have "unat (push_bit e (word_of_nat D :: u64)) = D * 2 ^ e"
      using small [OF True] by (subst unat_push_bit_less) (simp_all add: wD)
    then show ?thesis
      using True z small [OF True] by (simp add: sdk c_def unat_pack32(2))
  next
    case False
    have "unat (push_bit k (word_of_nat D :: u64)) = D * 2 ^ k"
      using nb by (subst unat_push_bit_less) (simp_all add: wD)
    moreover have "nat (int e - int k) = e - k" by simp
    ultimately show ?thesis
      using False z nb cl e by (simp add: sdk c_def unat_pack32(2))
  qed
  then have "ucast (packToF32UI sign expZ (push_bit (nat shiftDist) (word_of_nat D))) = (fpack sign c :: u32)"
    by (rule word_eq_fpackI)
  moreover have "fround F32 m sign x = (fpack sign c :: u32)"
    by (rule fround_exact) (use cl x iv in \<open>simp_all add: F32_def\<close>)
  ultimately show ?thesis by simp
qed

lemma or_hidden:
  assumes "unat (sig :: u64) = f" "f < 2 ^ 23"
  shows "unat (push_bit 7 sig OR 0x40000000) = (2 ^ 23 + f) * 2 ^ 7"
proof -
  have p: "unat (push_bit 7 sig) = f * 2 ^ 7"
    using assms by (subst unat_push_bit_less) simp_all
  have "unat ((0x40000000 :: u64) OR push_bit 7 sig) = unat (0x40000000 :: u64) + unat (push_bit 7 sig)"
    by (rule unat_or_disjoint [of 30]) (use p assms(2) in simp_all)
  then show ?thesis by (simp add: p or.commute)
qed

lemma sub_word:
  assumes "unat (X :: u64) = u" "unat Y = v" "v \<le> u"
  shows "unat (X - Y) = u - v"
  using assms by (metis unat_sub word_le_nat_alt)

lemma sub_jam:
  fixes y X :: u64
  assumes "unat y = align_sig 23 c * 2 ^ 7" "0 < d" "d < 2 ^ 31" "unat X = (2 ^ 23 + f) * 2 ^ 7"
  shows "unat (X - ucast (softfloat_shiftRightJam32 (ucast y) (word_of_int (int d)))) =
    (2 ^ 23 + f) * 2 ^ 7 - jam_shift (align_sig 23 c * 2 ^ 7) d"
proof (rule sub_word [OF assms(4)])
  have y: "unat y < 2 ^ 31" using align_sig_less [of 23 c] assms(1) by simp
  then show "unat (ucast (softfloat_shiftRightJam32 (ucast y) (word_of_int (int d))) :: u64) =
      jam_shift (align_sig 23 c * 2 ^ 7) d"
    using assms by (subst jam32_word) simp_all
  have "jam_shift (align_sig 23 c * 2 ^ 7) d \<le> 2 ^ 30"
  proof (cases "d = 1")
    case True
    have "align_sig 23 c * 2 ^ 7 div 2 ^ 1 < 2 ^ 30"
      using y assms(1) by (intro less_mult_imp_div_less) simp
    then show ?thesis unfolding True jam_shift_def by (intro less_imp_le or_bit_less) simp_all
  next
    case False
    then have "2 \<le> d" using assms(2) by simp
    then show ?thesis using jam_shift_less_quarter [of "align_sig 23 c * 2 ^ 7" 30 d] y assms(1) by simp
  qed
  then show "jam_shift (align_sig 23 c * 2 ^ 7) d \<le> (2 ^ 23 + f) * 2 ^ 7" by simp
qed

lemma subMagsF32_fround:
  fixes a b :: u32
  assumes a: "ffinite F32 a" and b: "ffinite F32 b"
    and x: "x = \<bar>fval F32 a\<bar> - \<bar>fval F32 b\<bar>"
  shows "fst (softfloat_subMagsF32 (ucast a) (ucast b) st) =
    (if x = 0 then fpack (sf_mode (softfloat_roundingMode st) = RDN) 0
     else fround F32 (sf_mode (softfloat_roundingMode st)) ((x < 0) \<noteq> fneg a) x)"
proof -
  define eA fA eB fB where "eA = fmag a div 2 ^ 23" and "fA = fmag a mod 2 ^ 23"
    and "eB = fmag b div 2 ^ 23" and "fB = fmag b mod 2 ^ 23"
  note defs = eA_def fA_def eB_def fB_def
  have e: "expF32UI (ucast a) = int eA" "expF32UI (ucast b) = int eB"
    by (simp_all only: expF32UI_ucast defs)
  have f: "unat (fracF32UI (ucast a)) = fA" "unat (fracF32UI (ucast b)) = fB"
    by (simp_all only: fracF32UI_ucast defs)
  have fu: "uint (fracF32UI (ucast a)) = int fA" "uint (fracF32UI (ucast b)) = int fB"
    by (simp_all only: uint_nat f)
  have lt: "eA < 255" "eB < 255" "fA < 2 ^ 23" "fB < 2 ^ 23"
    using a b by (simp_all add: finite32_iff defs)
  have xv: "x * 2 ^ 149 = of_nat (ival 23 (fmag a)) - of_nat (ival 23 (fmag b))"
    by (simp add: x abs_fval F32_def diff_divide_distrib [symmetric])
  have c: "fmag a = eA * 2 ^ 23 + fA" "fmag b = eB * 2 ^ 23 + fB"
    by (simp_all only: defs div_mult_mod_eq)
  have al: "of_nat (ival 23 (fmag a)) = (of_nat (align_sig 23 (fmag a)) * 2 powi (int eA - 1) :: rat)"
    "of_nat (ival 23 (fmag b)) = (of_nat (align_sig 23 (fmag b)) * 2 powi (int eB - 1) :: rat)"
    by (simp_all only: ival_align_sig defs)
  have as: "align_sig 23 (fmag a) = (if eA = 0 then 2 * fA else 2 ^ 23 + fA)"
    "align_sig 23 (fmag b) = (if eB = 0 then 2 * fB else 2 ^ 23 + fB)"
    by (simp_all only: align_sig_def defs)
  have xl: "x < 0 \<longleftrightarrow> fmag a < fmag b" "x = 0 \<longleftrightarrow> fmag a = fmag b"
  proof -
    have "x < 0 \<longleftrightarrow> x * 2 ^ 149 < 0" by (simp add: mult_less_0_iff)
    then show "x < 0 \<longleftrightarrow> fmag a < fmag b" unfolding xv by simp
    have "x = 0 \<longleftrightarrow> x * 2 ^ 149 = 0" by simp
    then show "x = 0 \<longleftrightarrow> fmag a = fmag b" unfolding xv by simp
  qed
  have ax: "\<bar>x\<bar> * 2 ^ 149 = \<bar>x * 2 ^ 149\<bar>" by (simp add: abs_mult)
  note unf = softfloat_subMagsF32_def Let_def e signF32UI_ucast
  consider "eA = eB" "fA = fB" | "eA = eB" "fA \<noteq> fB" | "eA < eB" | "eB < eA" by linarith
  then show ?thesis
  proof cases
    case 1
    have "ucast (packToF32UI n 0 0) = (fpack n 0 :: u32)" for n
      by (rule word_eq_fpackI) (subst unat_pack32(2); simp add: of_bool_def)
    then show ?thesis
      using 1 lt xl c by (simp add: unf fu sf_mode_iff)
  next
    case 2
    define D where "D = (if fA < fB then fB - fA else fA - fB)"
    have D: "0 < D" "D < 2 ^ 23" using 2 lt by (auto simp: D_def)
    have Di: "int fA - int fB < 0 \<Longrightarrow> - (int fA - int fB) = int D" "\<not> int fA - int fB < 0 \<Longrightarrow> int fA - int fB = int D"
      by (auto simp: D_def)
    have xD: "\<bar>x\<bar> * 2 ^ 149 = of_nat D * 2 ^ (eA - 1)"
    proof -
      have "x * 2 ^ 149 = (of_nat fA - of_nat fB) * 2 ^ (eA - 1)"
      proof (cases "eB = 0")
        case True
        then show ?thesis using 2 unfolding xv al as by (simp add: algebra_simps power_int_minus)
      next
        case False
        then have "int eB - 1 = int (eB - 1)" by simp
        then have p: "(2::rat) powi (int eB - 1) = 2 ^ (eB - 1)" by (simp only: power_int_of_nat)
        then show ?thesis using 2 False unfolding xv al as by (simp add: algebra_simps)
      qed
      then show ?thesis unfolding ax by (simp add: abs_mult D_def of_nat_diff)
    qed
    have x0: "x \<noteq> 0" "x < 0 \<longleftrightarrow> int fA - int fB < 0" using 2 xl c by simp_all
    have e1: "(if int eA \<noteq> 0 then int eA - 1 else int eA) = int (eA - 1)" by auto
    have e2: "eA - 1 < 254" using lt by simp
    have cond: "int eB \<noteq> 0xFF" "int eA - int eB = 0" "int fA - int fB \<noteq> 0" using 2 lt by auto
    note near = subMags_near [OF D e2 refl refl refl xD, of "(x < 0) \<noteq> fneg a" "sf_mode (softfloat_roundingMode st)"]
    show ?thesis
    proof (cases "int fA - int fB < 0")
      case True
      then show ?thesis
        using near x0 Di(1) 2 cond unfolding unf fu e1
        by (cases "int (eA - 1) < uint (softfloat_countLeadingZeros32 (word_of_nat D)) - 8") simp_all
    next
      case False
      then show ?thesis
        using near x0 Di(2) 2 cond unfolding unf fu e1
        by (cases "int (eA - 1) < uint (softfloat_countLeadingZeros32 (word_of_nat D)) - 8") simp_all
    qed
  next
    case 3
    define y where "y = push_bit 7 (fracF32UI (ucast a)) +
      (if int eA \<noteq> 0 then 0x40000000 else push_bit 7 (fracF32UI (ucast a)))"
    define z where "z = (push_bit 7 (fracF32UI (ucast b)) OR 0x40000000) -
      ucast (softfloat_shiftRightJam32 (ucast y) (word_of_int (- (int eA - int eB))))"
    have y: "unat y = align_sig 23 (fmag a) * 2 ^ 7"
      unfolding y_def eA_def by (rule align_word) (simp_all add: f fA_def)
    have "- (int eA - int eB) = int (eB - eA)" using 3 by simp
    then have z: "unat z = (2 ^ 23 + fB) * 2 ^ 7 - jam_shift (align_sig 23 (fmag a) * 2 ^ 7) (eB - eA)"
      unfolding z_def using sub_jam [OF y _ _ or_hidden [OF f(2) lt(4)], of "eB - eA"] 3 lt by simp
    have "fmag a < fmag b" using xl 3 lt c by simp
    then have x0: "x < 0" "x \<noteq> 0" using xl by simp_all
    have "\<bar>x\<bar> * 2 ^ 149 = of_nat (2 ^ 23 + fB) * 2 powi (int eB - 1)
        - of_nat (align_sig 23 (fmag a)) * 2 powi (int eA - 1)"
      unfolding al(1) [symmetric] using x0 xv al(2) as(2) 3 by (simp add: ax)
    from subMags_far [OF 3 lt(2,4) align_sig_less z this, of "\<not> fneg a" st]
    have "fst (softfloat_normRoundPackToF32 (\<not> fneg a) (int eB - 1) z st) =
        fround F32 (sf_mode (softfloat_roundingMode st)) (\<not> fneg a) x" .
    moreover have "int eA - int eB \<noteq> 0" "int eA - int eB < 0" "int eB \<noteq> 0xFF" using 3 lt by simp_all
    ultimately show ?thesis
      using x0 unfolding unf y_def [symmetric] z_def [symmetric] by simp
  next
    case 4
    define y where "y = push_bit 7 (fracF32UI (ucast b)) +
      (if int eB \<noteq> 0 then 0x40000000 else push_bit 7 (fracF32UI (ucast b)))"
    define z where "z = (push_bit 7 (fracF32UI (ucast a)) OR 0x40000000) -
      ucast (softfloat_shiftRightJam32 (ucast y) (word_of_int (int eA - int eB)))"
    have y: "unat y = align_sig 23 (fmag b) * 2 ^ 7"
      unfolding y_def eB_def by (rule align_word) (simp_all add: f fB_def)
    have "int eA - int eB = int (eA - eB)" using 4 by simp
    then have z: "unat z = (2 ^ 23 + fA) * 2 ^ 7 - jam_shift (align_sig 23 (fmag b) * 2 ^ 7) (eA - eB)"
      unfolding z_def using sub_jam [OF y _ _ or_hidden [OF f(1) lt(3)], of "eA - eB"] 4 lt by simp
    have "fmag b < fmag a" using xl 4 lt c by simp
    then have x0: "0 < x" "x \<noteq> 0" "\<not> x < 0" using xl by auto
    have "\<bar>x\<bar> * 2 ^ 149 = of_nat (2 ^ 23 + fA) * 2 powi (int eA - 1)
        - of_nat (align_sig 23 (fmag b)) * 2 powi (int eB - 1)"
      unfolding al(2) [symmetric] using x0 xv al(1) as(1) 4 by (simp add: ax)
    from subMags_far [OF 4 lt(1,3) align_sig_less z this, of "fneg a" st]
    have "fst (softfloat_normRoundPackToF32 (fneg a) (int eA - 1) z st) =
        fround F32 (sf_mode (softfloat_roundingMode st)) (fneg a) x" .
    moreover have "int eA - int eB \<noteq> 0" "\<not> int eA - int eB < 0" "int eA \<noteq> 0xFF" using 4 lt by simp_all
    ultimately show ?thesis
      using x0 unfolding unf y_def [symmetric] z_def [symmetric] by simp
  qed
qed

section \<open>Sums and differences\<close>

lemma fval_sign:
  "fval F a = (if fneg a then - \<bar>fval F a\<bar> else \<bar>fval F a\<bar>)"
  by (simp add: abs_fval) (simp add: fval_eq)

lemma f32_add_finite:
  fixes a b :: u32
  assumes a: "ffinite F32 a" and b: "ffinite F32 b"
  shows "fst (f32_add a b st) =
    fresult F32 (sf_mode (softfloat_roundingMode st))
      (if fneg a = fneg b then fneg a else sf_mode (softfloat_roundingMode st) = RDN)
      (fval F32 a + fval F32 b)"
proof (cases "fneg a = fneg b")
  case True
  define x where "x = \<bar>fval F32 a\<bar> + \<bar>fval F32 b\<bar>"
  have s: "fval F32 a + fval F32 b = (if fneg a then - x else x)"
    using fval_sign [of F32 a] fval_sign [of F32 b] True
    by (cases "fneg a"; simp only: x_def if_True if_False simp_thms; linarith)
  have x: "0 \<le> x" by (simp add: x_def)
  have "fround F32 m n (- x) = (fround F32 m n x :: u32)" for m n by (rule fround_cong) simp
  then show ?thesis
    using addMagsF32_fround [OF a b, of st] True x
    unfolding x_def [symmetric] s f32_add_def Let_def signF32UI_xor by (auto simp: fresult_def)
next
  case False
  define x where "x = \<bar>fval F32 a\<bar> - \<bar>fval F32 b\<bar>"
  have s: "fval F32 a + fval F32 b = (if fneg a then - x else x)"
    using fval_sign [of F32 a] fval_sign [of F32 b] False
    by (cases "fneg a"; simp only: x_def if_True if_False simp_thms; linarith)
  have "fround F32 m n (- x) = (fround F32 m n x :: u32)" for m n by (rule fround_cong) simp
  then show ?thesis
    using subMagsF32_fround [OF a b x_def, of st] False
    unfolding s f32_add_def Let_def signF32UI_xor by (auto simp: fresult_def not_less_iff_gr_or_eq)
qed

lemma f32_sub_finite:
  fixes a b :: u32
  assumes a: "ffinite F32 a" and b: "ffinite F32 b"
  shows "fst (f32_sub a b st) =
    fresult F32 (sf_mode (softfloat_roundingMode st))
      (if fneg a \<noteq> fneg b then fneg a else sf_mode (softfloat_roundingMode st) = RDN)
      (fval F32 a - fval F32 b)"
proof (cases "fneg a = fneg b")
  case False
  define x where "x = \<bar>fval F32 a\<bar> + \<bar>fval F32 b\<bar>"
  have s: "fval F32 a - fval F32 b = (if fneg a then - x else x)"
    using fval_sign [of F32 a] fval_sign [of F32 b] False
    by (cases "fneg a"; simp only: x_def if_True if_False simp_thms; linarith)
  have x: "0 \<le> x" by (simp add: x_def)
  have "fround F32 m n (- x) = (fround F32 m n x :: u32)" for m n by (rule fround_cong) simp
  then show ?thesis
    using addMagsF32_fround [OF a b, of st] False x
    unfolding x_def [symmetric] s f32_sub_def Let_def signF32UI_xor by (auto simp: fresult_def)
next
  case True
  define x where "x = \<bar>fval F32 a\<bar> - \<bar>fval F32 b\<bar>"
  have s: "fval F32 a - fval F32 b = (if fneg a then - x else x)"
    using fval_sign [of F32 a] fval_sign [of F32 b] True
    by (cases "fneg a"; simp only: x_def if_True if_False simp_thms; linarith)
  have "fround F32 m n (- x) = (fround F32 m n x :: u32)" for m n by (rule fround_cong) simp
  then show ?thesis
    using subMagsF32_fround [OF a b x_def, of st] True
    unfolding s f32_sub_def Let_def signF32UI_xor by (auto simp: fresult_def not_less_iff_gr_or_eq)
qed

section \<open>Operands with a hidden bit\<close>

lemma or_hidden23:
  assumes "2 ^ 23 \<le> unat (w :: u64)" "unat w < 2 ^ 24"
  shows "w OR 0x00800000 = w"
proof -
  obtain f where f: "unat w = 2 ^ 23 + f" "f < 2 ^ 23"
    using assms by (auto simp: le_iff_add)
  have w: "unat w = 2 ^ 23 OR f" using or_nat_disjoint [of 23 "2 ^ 23" f] f by simp
  have "(2 ^ 23 OR f) OR 2 ^ 23 = (2 ^ 23 OR f :: nat)" by (metis or.assoc or.commute or.idem)
  then have "unat w OR 2 ^ 23 = unat w" by (simp only: w)
  then show ?thesis by (simp add: word_unat_eq_iff unsigned_or_eq)
qed

lemma or_hidden23_add:
  assumes "unat (w :: u64) < 2 ^ 23"
  shows "unat (w OR 0x00800000) = 2 ^ 23 + unat w"
proof -
  have "unat ((0x00800000 :: u64) OR w) = unat (0x00800000 :: u64) + unat w"
    by (rule unat_or_disjoint [of 23]) (use assms in simp_all)
  then show ?thesis by (simp add: or.commute)
qed

lemma normalized32_parts:
  fixes a :: u32
  assumes "ffinite F32 a" "fmag a \<noteq> 0"
    and "normalized32 (expF32UI (ucast a)) (fracF32UI (ucast a)) = (e, s)"
  shows "parts 23 (fmag a) e (unat (s OR 0x00800000))" "-22 \<le> e" "e \<le> 254"
proof -
  define E F where "E = fmag a div 2 ^ 23" and "F = fmag a mod 2 ^ 23"
  have E: "expF32UI (ucast a) = int E" "E < 255"
    using assms(1) by (simp_all only: expF32UI_ucast E_def finite32_iff)
  have F: "unat (fracF32UI (ucast a)) = F" "F < 2 ^ 23" by (simp_all only: fracF32UI_ucast F_def) simp
  have c: "fmag a = E * 2 ^ 23 + F" by (simp only: E_def F_def div_mult_mod_eq)
  have "parts 23 (fmag a) e (unat (s OR 0x00800000)) \<and> -22 \<le> e \<and> e \<le> 254"
  proof (cases "E = 0")
    case False
    then have "e = int E" "s = fracF32UI (ucast a)"
      using assms(3) by (simp_all add: normalized32_def E)
    moreover have "parts 23 (fmag a) (int E) (2 ^ 23 + F)"
      using parts_normal [of "fmag a" 23] False by (simp add: E_def F_def)
    ultimately show ?thesis using E F False by (simp add: or_hidden23_add)
  next
    case True
    have F0: "0 < F" "fmag a = F" using assms(2) c True by simp_all
    define k where "k = 24 - floorlog 2 F"
    have fl: "floorlog 2 F \<le> 23" "0 < floorlog 2 F"
      using F F0 floorlog_le_width [of F 23] by (simp_all add: floorlog_def)
    have "unat (softfloat_countLeadingZeros32 (ucast (fracF32UI (ucast a)))) = 32 - floorlog 2 F"
      using unat_clz32_u64 [of "fracF32UI (ucast a)"] F by simp
    then have sd: "int (unat (softfloat_countLeadingZeros32 (ucast (fracF32UI (ucast a))))) - 8 = int k"
      using fl by (simp add: k_def del: of_nat_unat)
    have "e = 1 - int k \<and> s = push_bit k (fracF32UI (ucast a))"
      using assms(3) unfolding normalized32_def softfloat_normSubnormalF32Sig_def Let_def sd
      by (simp add: E True)
    moreover have nb: "2 ^ 23 \<le> F * 2 ^ k" "F * 2 ^ k < 2 ^ 24"
      using normalize_bounds [of F 24] F F0 by (simp_all add: k_def)
    moreover have "unat (push_bit k (fracF32UI (ucast a))) = F * 2 ^ k"
      using nb F by (subst unat_push_bit_less) simp_all
    ultimately show ?thesis
      using parts_subnormal [of F 23 k] F F0 fl by (simp add: or_hidden23 k_def)
  qed
  then show "parts 23 (fmag a) e (unat (s OR 0x00800000))" "-22 \<le> e" "e \<le> 254" by simp_all
qed

section \<open>Products\<close>

lemma parts_pos: "parts fb c e s \<Longrightarrow> 0 < s"
  unfolding parts_def by (rule less_le_trans [of _ "2 ^ fb"]) simp_all

lemma mul_core:
  assumes A: "parts 23 ca eA (unat sA)" and B: "parts 23 cb eB (unat sB)"
    and e: "-22 \<le> eA" "eA \<le> 254" "-22 \<le> eB" "eB \<le> 254"
    and x: "\<bar>x\<bar> * 2 ^ 149 = of_nat (ival 23 ca) * of_nat (ival 23 cb) / 2 ^ 149"
  shows "fst (let sigZ = softfloat_shortShiftRightJam64 (push_bit 7 sA * push_bit 8 sB) 32;
                (expZ, sigZ) = (if sigZ < 0x40000000 then (eA + eB - 0x7F - 1, push_bit 1 sigZ)
                                else (eA + eB - 0x7F, sigZ))
            in softfloat_roundPackToF32 sign expZ sigZ st) =
    fround F32 (sf_mode (softfloat_roundingMode st)) sign x"
proof -
  define a b where "a = unat sA" and "b = unat sB"
  have ab: "2 ^ 23 \<le> a" "a < 2 ^ 24" "2 ^ 23 \<le> b" "b < 2 ^ 24"
    using A B by (simp_all add: parts_def a_def b_def)
  define z where "z = softfloat_shortShiftRightJam64 (push_bit 7 sA * push_bit 8 sB) 32"
  have p1: "unat (push_bit 7 sA) = a * 2 ^ 7" unfolding a_def
    by (rule unat_push_bit_less) (use ab a_def in simp)
  have p2: "unat (push_bit 8 sB) = b * 2 ^ 8" unfolding b_def
    by (rule unat_push_bit_less) (use ab b_def in simp)
  have ab2: "a * b \<le> (2 ^ 24 - 1) * (2 ^ 24 - 1)" "2 ^ 23 * 2 ^ 23 \<le> a * b"
    by (rule mult_le_mono; use ab in simp)+
  have pr: "unat (push_bit 7 sA * push_bit 8 sB) = a * b * 2 ^ 15"
    using ab2 by (subst unat_mult_less; simp only: p1 p2) simp_all
  have z: "unat z = jam_shift (a * b * 2 ^ 15) 32"
    unfolding z_def by (simp only: unat_shortShiftRightJam64 pr) simp
  have zq: "2 ^ 29 \<le> a * b * 2 ^ 15 div 2 ^ 32" "a * b * 2 ^ 15 div 2 ^ 32 < 2 ^ 31"
    using ab2 by (simp_all add: less_eq_div_iff_mult_less_eq less_mult_imp_div_less)
  define s :: rat where "s = of_nat (a * b * 2 ^ 15) / 2 ^ 32"
  have "fst (let (e, sig) = (if z < 0x40000000 then (eA + eB - 0x7F - 1, push_bit 1 z) else (eA + eB - 0x7F, z))
      in softfloat_roundPackToF32 sign e sig st) = fround F32 (sf_mode (softfloat_roundingMode st)) sign x"
  proof (rule f32p.rp_short)
    show "agrees 2 s (unat z)" unfolding s_def z by (rule agrees_jam_shift [OF agrees_refl]) simp
    show "2 ^ (23 + 7 - 1) \<le> unat z" using zq(1) unfolding z jam_shift_def or_of_bool by simp
    show "unat z < 2 ^ (23 + 1 + 7)" unfolding z jam_shift_def
      using or_bit_less [OF zq(2)] by simp
    have pw: "(2::rat) powi (eA + eB - 0x7F) = 2 powi (eA - 1) * 2 powi (eB - 1) / 2 ^ 125"
    proof -
      have "eA + eB - 0x7F = (eA - 1) + (eB - 1) - int 125" by simp
      then show ?thesis by (simp only: powi_shift(1,3))
    qed
    have gen: "S * T / 2 ^ 149 = (U * 2 ^ 15 / 2 ^ 32) * (P * Q / 2 ^ 125) / 2 ^ 7"
      if "S * T = U * (P * Q)" for S T U P Q :: rat using that by simp
    show "\<bar>x\<bar> * 2 ^ ulp0 F32 = s * 2 powi (eA + eB - 0x7F) / 2 ^ 7"
      unfolding F32_def fmt.simps x s_def pw of_nat_mult of_nat_power of_nat_numeral
      by (rule gen) (use A B in \<open>simp add: parts_def a_def b_def\<close>)
  qed (use e in simp_all)
  then show ?thesis unfolding z_def [symmetric] by (simp only: Let_def)
qed

lemma pack_zero32: "ucast (packToF32UI n 0 0) = (fpack n 0 :: u32)"
  by (rule word_eq_fpackI) (subst unat_pack32(2); simp add: of_bool_def)

lemma zero32_iff: "expF32UI (ucast w) = 0 \<and> fracF32UI (ucast w) = 0 \<longleftrightarrow> fmag w = 0" for w :: u32
proof -
  have "fracF32UI (ucast w) = 0 \<longleftrightarrow> fmag w mod 2 ^ 23 = 0" by (metis fracF32UI_ucast unat_eq_0)
  moreover have "expF32UI (ucast w) = 0 \<longleftrightarrow> fmag w div 2 ^ 23 = 0" by (simp only: expF32UI_ucast of_nat_eq_0_iff)
  ultimately show ?thesis using div_mult_mod_eq [of "fmag w" "2 ^ 23"] by auto
qed

lemma f32_mul_finite:
  fixes a b :: u32
  assumes a: "ffinite F32 a" and b: "ffinite F32 b"
  shows "fst (f32_mul a b st) =
    fround F32 (sf_mode (softfloat_roundingMode st)) (fneg a \<noteq> fneg b) (fval F32 a * fval F32 b)"
proof -
  have ne: "expF32UI (ucast a) \<noteq> 0xFF" "expF32UI (ucast b) \<noteq> 0xFF"
    using a b by (simp_all add: expF32UI_ucast finite32_iff)
  show ?thesis
  proof (cases "fmag a = 0 \<or> fmag b = 0")
    case True
    then have "fval F32 a * fval F32 b = 0" by (auto simp: fval_eq_0_iff)
    then show ?thesis
      using True ne unfolding f32_mul_def Let_def zero32_iff by (auto simp: pack_zero32 case_prod_beta)
  next
    case False
    obtain eA sA where A: "normalized32 (expF32UI (ucast a)) (fracF32UI (ucast a)) = (eA, sA)" by fastforce
    obtain eB sB where B: "normalized32 (expF32UI (ucast b)) (fracF32UI (ucast b)) = (eB, sB)" by fastforce
    have "\<bar>fval F32 a * fval F32 b\<bar> * 2 ^ 149 =
        of_nat (ival 23 (fmag a)) * of_nat (ival 23 (fmag b)) / 2 ^ 149"
      by (simp add: abs_mult abs_fval F32_def)
    note mul_core [OF normalized32_parts(1) [OF a _ A] normalized32_parts(1) [OF b _ B]
        normalized32_parts(2,3) [OF a _ A] normalized32_parts(2,3) [OF b _ B] this,
        of "fneg a \<noteq> fneg b" st]
    then show ?thesis
      using False ne unfolding f32_mul_def Let_def zero32_iff A B by simp
  qed
qed

section \<open>Quotients\<close>

lemma div_core:
  assumes A: "parts 23 ca eA (unat sA)" and B: "parts 23 cb eB (unat sB)"
    and e: "-22 \<le> eA" "eA \<le> 254" "-22 \<le> eB" "eB \<le> 254"
    and x: "\<bar>x\<bar> * 2 ^ 149 = of_nat (ival 23 ca) / of_nat (ival 23 cb) * 2 ^ 149"
  shows "fst (let (expZ, sig64A) = (if sA < sB then (eA - eB + 0x7E - 1, push_bit 31 sA)
                                    else (eA - eB + 0x7E, push_bit 30 sA));
                sigZ = sig64A div sB;
                sigZ = (if sigZ AND 0x3F = 0 then sigZ OR of_bool (sB * sigZ \<noteq> sig64A) else sigZ)
            in softfloat_roundPackToF32 sign expZ sigZ st) =
    fround F32 (sf_mode (softfloat_roundingMode st)) sign x"
proof -
  define a b where "a = unat sA" and "b = unat sB"
  have ab: "2 ^ 23 \<le> a" "a < 2 ^ 24" "2 ^ 23 \<le> b" "b < 2 ^ 24"
    using A B by (simp_all add: parts_def a_def b_def)
  have b0: "0 < b" using ab(3) by (rule less_le_trans [rotated]) simp
  have core: "fst (softfloat_roundPackToF32 sign e
        (if N div sB AND 0x3F = 0 then N div sB OR of_bool (sB * (N div sB) \<noteq> N) else N div sB) st) =
      fround F32 (sf_mode (softfloat_roundingMode st)) sign x"
    if N: "unat N = a * 2 ^ k" "2 ^ 30 * b \<le> a * 2 ^ k" "a * 2 ^ k < 2 ^ 31 * b"
      and ee: "e = (eA - 1) - (eB - 1) + int 126 - int (k - 30)" and k: "30 \<le> k" "k \<le> 31" for N e k
  proof -
    define n where "n = (if N div sB AND 0x3F = 0 then N div sB OR of_bool (sB * (N div sB) \<noteq> N) else N div sB)"
    define q where "q = a * 2 ^ k div b"
    have q: "2 ^ 30 \<le> q" "q < 2 ^ 31"
      using N(2,3) b0 by (simp_all add: q_def less_eq_div_iff_mult_less_eq less_mult_imp_div_less)
    have uq: "unat (N div sB) = q" by (simp add: unat_div N(1) b_def q_def)
    have qm: "N div sB AND 0x3F = 0 \<longleftrightarrow> q mod 2 ^ 6 = 0"
      by (metis unat_and_literal(3) uq unat_eq_0)
    have "b * q \<le> a * 2 ^ k" by (simp add: q_def)
    then have "unat (sB * (N div sB)) = b * q"
      using N(1) unsigned_less [of N, where ?'a = nat] by (subst unat_mult_less) (simp_all add: uq b_def)
    then have ne: "sB * (N div sB) \<noteq> N \<longleftrightarrow> b * q \<noteq> a * 2 ^ k" by (simp add: word_unat_eq_iff N(1))
    have un: "unat n = (if q mod 2 ^ 6 = 0 then q OR of_bool (b * q \<noteq> a * 2 ^ k) else q)"
      unfolding n_def qm ne using unat_or_bit [of "N div sB" "b * q \<noteq> a * 2 ^ k"] uq by simp
    have nb: "2 ^ 30 \<le> unat n" "unat n < 2 ^ 31"
      using q or_bit_less [OF q(2), of "b * q \<noteq> a * 2 ^ k"] unfolding un by (simp_all add: or_of_bool)
    have "fst (softfloat_roundPackToF32 sign e n st) =
        fround F32 (sf_mode (softfloat_roundingMode st)) sign x"
    proof (rule f32p.rp_fround)
      show "agrees (2 ^ (7 - 1)) (of_nat (a * 2 ^ k) / of_nat b :: rat) (unat n)"
        by (rule agrees_div [OF b0]) (simp_all only: un q_def, simp_all)
      have ep: "(2::rat) powi e * 2 ^ (k - 30) = 2 powi (eA - 1) / 2 powi (eB - 1) * 2 ^ 126"
        unfolding ee powi_shift(1,2,4) by simp
      have "k = 30 + (k - 30)" using k by simp
      then have "(2::rat) ^ k = 2 ^ 30 * 2 ^ (k - 30)" by (metis power_add)
      then have "of_nat (a * 2 ^ k) / of_nat b * 2 powi e / 2 ^ 7 =
          of_nat a / of_nat b * (2 powi e * 2 ^ (k - 30)) * (2 ^ 23 :: rat)" by simp
      also have "\<dots> = (of_nat a * 2 powi (eA - 1)) / (of_nat b * 2 powi (eB - 1)) * 2 ^ 149"
        unfolding ep by simp
      finally show "\<bar>x\<bar> * 2 ^ ulp0 F32 = of_nat (a * 2 ^ k) / of_nat b * 2 powi e / 2 ^ 7"
        using x A B by (simp add: F32_def parts_def a_def b_def)
    qed (use nb e ee k that in simp_all)
    then show ?thesis by (simp only: n_def)
  qed
  show ?thesis
  proof (cases "sA < sB")
    case True
    then have lt: "a < b" by (simp add: word_less_nat_alt a_def b_def)
    have "unat (push_bit 31 sA) = a * 2 ^ 31" unfolding a_def
      by (rule unat_push_bit_less) (use ab a_def in simp)
    from core [OF this, of "eA - eB + 0x7E - 1"] True lt ab show ?thesis
      by (simp only: Let_def if_True prod.case) simp
  next
    case False
    then have ge: "b \<le> a" by (simp add: word_less_nat_alt a_def b_def)
    have "unat (push_bit 30 sA) = a * 2 ^ 30" unfolding a_def
      by (rule unat_push_bit_less) (use ab a_def in simp)
    from core [OF this, of "eA - eB + 0x7E"] False ge ab show ?thesis
      by (simp only: Let_def if_False prod.case) simp
  qed
qed

lemma f32_div_finite:
  fixes a b :: u32
  assumes a: "ffinite F32 a" and b: "ffinite F32 b" "fmag b \<noteq> 0"
  shows "fst (f32_div a b st) =
    fround F32 (sf_mode (softfloat_roundingMode st)) (fneg a \<noteq> fneg b) (fval F32 a / fval F32 b)"
proof -
  have ne: "expF32UI (ucast a) \<noteq> 0xFF" "expF32UI (ucast b) \<noteq> 0xFF"
    using a b by (simp_all add: expF32UI_ucast finite32_iff)
  obtain eB sB where B: "normalized32 (expF32UI (ucast b)) (fracF32UI (ucast b)) = (eB, sB)" by fastforce
  show ?thesis
  proof (cases "fmag a = 0")
    case True
    then have "fval F32 a = 0" by (simp add: fval_eq_0_iff)
    then show ?thesis
      using True b ne unfolding f32_div_def Let_def zero32_iff B by (simp add: pack_zero32)
  next
    case False
    obtain eA sA where A: "normalized32 (expF32UI (ucast a)) (fracF32UI (ucast a)) = (eA, sA)" by fastforce
    have "\<bar>fval F32 a / fval F32 b\<bar> * 2 ^ 149 =
        of_nat (ival 23 (fmag a)) / of_nat (ival 23 (fmag b)) * 2 ^ 149"
      by (simp add: abs_fval F32_def)
    note div_core [OF normalized32_parts(1) [OF a False A] normalized32_parts(1) [OF b B]
        normalized32_parts(2,3) [OF a False A] normalized32_parts(2,3) [OF b B] this,
        of "fneg a \<noteq> fneg b" st]
    then show ?thesis
      using False b ne unfolding f32_div_def Let_def zero32_iff A B by simp
  qed
qed

section \<open>Infinities and NaNs\<close>

lemma exp32_FF: "expF32UI (ucast (a :: u32)) = 0xFF \<longleftrightarrow> \<not> ffinite F32 a"
  unfolding expF32UI_ucast finite32_iff using fmag32_bounds(1) [of a] by auto

lemma nonfinite32:
  fixes a :: u32
  assumes "\<not> ffinite F32 a"
  shows "fracF32UI (ucast a) = 0 \<longleftrightarrow> finf F32 a" and "fracF32UI (ucast a) \<noteq> 0 \<longleftrightarrow> fnan F32 a"
proof -
  have "fmag a div 2 ^ 23 = 255" using assms fmag32_bounds(1) [of a] by (simp add: finite32_iff)
  then have c: "fmag a = 255 * 2 ^ 23 + fmag a mod 2 ^ 23" using div_mult_mod_eq [of "fmag a" "2 ^ 23"] by simp
  have "fracF32UI (ucast a) = 0 \<longleftrightarrow> fmag a mod 2 ^ 23 = 0" by (metis fracF32UI_ucast unat_eq_0)
  with c show "fracF32UI (ucast a) = 0 \<longleftrightarrow> finf F32 a" "fracF32UI (ucast a) \<noteq> 0 \<longleftrightarrow> fnan F32 a"
    by (auto simp: finf_def fnan_def F32_def)
qed

lemma push_frac_eq_0:
  "k \<le> 8 \<Longrightarrow> push_bit k (fracF32UI (ucast (a :: u32))) = 0 \<longleftrightarrow> fracF32UI (ucast a) = 0"
proof -
  assume k: "k \<le> 8"
  have f: "unat (fracF32UI (ucast a)) < 2 ^ 23" by (simp only: fracF32UI_ucast) simp
  have "(2::nat) ^ k \<le> 2 ^ 8" using k by (intro power_increasing) simp_all
  then have "unat (fracF32UI (ucast a)) * 2 ^ k \<le> 2 ^ 23 * 2 ^ 8"
    using f by (intro mult_le_mono) simp_all
  then have "unat (push_bit k (fracF32UI (ucast a))) = unat (fracF32UI (ucast a)) * 2 ^ k"
    by (intro unat_push_bit_less) simp
  then have "unat (push_bit k (fracF32UI (ucast a))) = 0 \<longleftrightarrow> unat (fracF32UI (ucast a)) = 0" by simp
  then show ?thesis by (simp only: unat_eq_0)
qed

lemma pack_inf32:
  fixes b :: u32
  assumes "finf F32 b"
  shows "ucast (packToF32UI (fneg b) 0xFF 0) = b"
proof -
  have "ucast (packToF32UI (fneg b) 0xFF 0) = (fpack (fneg b) (fmag b) :: u32)"
    by (rule word_eq_fpackI) (subst unat_pack32(2); use assms in \<open>simp add: of_bool_def finf_def F32_def\<close>)
  then show ?thesis by simp
qed

lemma fmt_excl:
  "ffinite F w \<Longrightarrow> \<not> finf F w" "ffinite F w \<Longrightarrow> \<not> fnan F w" "finf F w \<Longrightarrow> \<not> ffinite F w"
  "finf F w \<Longrightarrow> \<not> fnan F w" "fnan F w \<Longrightarrow> \<not> ffinite F w" "fnan F w \<Longrightarrow> \<not> finf F w"
  by (auto simp: ffinite_def finf_def fnan_def)

text \<open>The default NaN, with the invalid flag exactly when an operand signals.\<close>

definition nan_result32 :: "u32 \<Rightarrow> u32 \<Rightarrow> sf_state \<Rightarrow> u32 \<times> sf_state" where
  "nan_result32 a b st =
     (0x7FC00000, if softfloat_isSigNaNF32UI (ucast a) \<or> softfloat_isSigNaNF32UI (ucast b)
                  then softfloat_raiseFlags softfloat_flag_invalid st else st)"

lemma propagateNaN32_eq: "propagateNaN32 (ucast a) (ucast b) st = nan_result32 a b st"
  by (simp add: propagateNaN32_def softfloat_propagateNaNF32UI_def nan_result32_def defaultNaNF32UI_def)

lemma invalid32_eq: "invalid32 st = (0x7FC00000, softfloat_raiseFlags softfloat_flag_invalid st)"
  by (simp add: invalid32_def defaultNaNF32UI_def)

lemma class32:
  fixes a :: u32
  shows "ffinite F32 a \<Longrightarrow> 0 \<le> expF32UI (ucast a) \<and> expF32UI (ucast a) < 0xFF"
    and "finf F32 a \<Longrightarrow> expF32UI (ucast a) = 0xFF \<and> fracF32UI (ucast a) = 0"
    and "fnan F32 a \<Longrightarrow> expF32UI (ucast a) = 0xFF \<and> fracF32UI (ucast a) \<noteq> 0"
  using exp32_FF [of a] nonfinite32 [of a] fmt_excl [of F32 a]
  by (auto simp: expF32UI_ucast finite32_iff)

lemma or_eq_0_iff_u64: "(x :: u64) OR y = 0 \<longleftrightarrow> x = 0 \<and> y = 0"
  by (metis or.left_neutral or.right_neutral or_eq_0_iff)

lemmas excl_finite = fmt_excl(1,2)
lemmas excl_inf = fmt_excl(3,4)
lemmas excl_nan = fmt_excl(5,6)

text \<open>The special operands of the two magnitude routines.\<close>

lemma class32_elim:
  fixes a :: u32
  obtains (finite) "ffinite F32 a" "0 \<le> expF32UI (ucast a)" "expF32UI (ucast a) < 0xFF"
  | (inf) "finf F32 a" "expF32UI (ucast a) = 0xFF" "fracF32UI (ucast a) = 0"
  | (nan) "fnan F32 a" "expF32UI (ucast a) = 0xFF" "fracF32UI (ucast a) \<noteq> 0"
  using class32 [of a] by (cases rule: fmt_cases [of F32 a]) blast+

lemma addMagsF32_special:
  fixes a b :: u32
  assumes "\<not> (ffinite F32 a \<and> ffinite F32 b)"
  shows "softfloat_addMagsF32 (ucast a) (ucast b) st =
    (if fnan F32 a \<or> fnan F32 b then nan_result32 a b st
     else if finf F32 a then (a, st)
     else (ucast (packToF32UI (fneg a) 0xFF 0), st))"
proof (cases rule: class32_elim [of a])
  case finite
  note a = this
  show ?thesis
  proof (cases rule: class32_elim [of b])
    case finite
    then show ?thesis using a assms by simp
  next
    case inf
    note b = this
    have n: "expF32UI (ucast a) - 0xFF \<noteq> 0" "expF32UI (ucast a) - 0xFF < 0" using a by auto
    show ?thesis
      unfolding softfloat_addMagsF32_def Let_def b(2) if_not_P [OF n(1)] if_P [OF n(2)] if_P [OF refl]
      using a b by (simp add: propagateNaN32_eq push_frac_eq_0 excl_finite [OF a(1)] excl_inf [OF b(1)])
  next
    case nan
    note b = this
    have n: "expF32UI (ucast a) - 0xFF \<noteq> 0" "expF32UI (ucast a) - 0xFF < 0" using a by auto
    show ?thesis
      unfolding softfloat_addMagsF32_def Let_def b(2) if_not_P [OF n(1)] if_P [OF n(2)] if_P [OF refl]
      using a b by (simp add: propagateNaN32_eq push_frac_eq_0 excl_finite [OF a(1)] excl_nan [OF b(1)])
  qed
next
  case inf
  note a = this
  show ?thesis
  proof (cases rule: class32_elim [of b])
    case finite
    then show ?thesis
      using a unfolding softfloat_addMagsF32_def Let_def
      by (simp add: propagateNaN32_eq push_frac_eq_0 or_eq_0_iff_u64 excl_inf [OF a(1)] excl_finite [OF finite(1)])
  next
    case inf
    then show ?thesis
      using a unfolding softfloat_addMagsF32_def Let_def
      by (simp add: propagateNaN32_eq push_frac_eq_0 or_eq_0_iff_u64 excl_inf [OF a(1)] excl_inf [OF inf(1)])
  next
    case nan
    then show ?thesis
      using a unfolding softfloat_addMagsF32_def Let_def
      by (simp add: propagateNaN32_eq push_frac_eq_0 or_eq_0_iff_u64 excl_inf [OF a(1)] excl_nan [OF nan(1)])
  qed
next
  case nan
  note a = this
  show ?thesis
  proof (cases rule: class32_elim [of b])
    case finite
    then show ?thesis
      using a unfolding softfloat_addMagsF32_def Let_def
      by (simp add: propagateNaN32_eq push_frac_eq_0 or_eq_0_iff_u64 excl_nan [OF a(1)] excl_finite [OF finite(1)])
  next
    case inf
    then show ?thesis
      using a unfolding softfloat_addMagsF32_def Let_def
      by (simp add: propagateNaN32_eq push_frac_eq_0 or_eq_0_iff_u64 excl_nan [OF a(1)] excl_inf [OF inf(1)])
  next
    case nan
    then show ?thesis
      using a unfolding softfloat_addMagsF32_def Let_def
      by (simp add: propagateNaN32_eq push_frac_eq_0 or_eq_0_iff_u64 excl_nan [OF a(1)] excl_nan [OF nan(1)])
  qed
qed

lemma subMagsF32_special:
  fixes a b :: u32
  assumes "\<not> (ffinite F32 a \<and> ffinite F32 b)"
  shows "softfloat_subMagsF32 (ucast a) (ucast b) st =
    (if fnan F32 a \<or> fnan F32 b then nan_result32 a b st
     else if finf F32 a then if finf F32 b then invalid32 st else (a, st)
     else (ucast (packToF32UI (\<not> fneg a) 0xFF 0), st))"
proof (cases rule: class32_elim [of a])
  case finite
  note a = this
  show ?thesis
  proof (cases rule: class32_elim [of b])
    case finite
    then show ?thesis using a assms by simp
  next
    case inf
    note b = this
    have n: "expF32UI (ucast a) - 0xFF \<noteq> 0" "expF32UI (ucast a) - 0xFF < 0" using a by auto
    show ?thesis
      unfolding softfloat_subMagsF32_def Let_def b(2) if_not_P [OF n(1)] if_P [OF n(2)] if_P [OF refl]
      using a b by (simp add: propagateNaN32_eq push_frac_eq_0 excl_finite [OF a(1)] excl_inf [OF b(1)])
  next
    case nan
    note b = this
    have n: "expF32UI (ucast a) - 0xFF \<noteq> 0" "expF32UI (ucast a) - 0xFF < 0" using a by auto
    show ?thesis
      unfolding softfloat_subMagsF32_def Let_def b(2) if_not_P [OF n(1)] if_P [OF n(2)] if_P [OF refl]
      using a b by (simp add: propagateNaN32_eq push_frac_eq_0 excl_finite [OF a(1)] excl_nan [OF b(1)])
  qed
next
  case inf
  note a = this
  show ?thesis
  proof (cases rule: class32_elim [of b])
    case finite
    then show ?thesis
      using a unfolding softfloat_subMagsF32_def Let_def
      by (simp add: propagateNaN32_eq push_frac_eq_0 or_eq_0_iff_u64 excl_inf [OF a(1)] excl_finite [OF finite(1)])
  next
    case inf
    then show ?thesis
      using a unfolding softfloat_subMagsF32_def Let_def
      by (simp add: propagateNaN32_eq push_frac_eq_0 or_eq_0_iff_u64 excl_inf [OF a(1)] excl_inf [OF inf(1)])
  next
    case nan
    then show ?thesis
      using a unfolding softfloat_subMagsF32_def Let_def
      by (simp add: propagateNaN32_eq push_frac_eq_0 or_eq_0_iff_u64 excl_inf [OF a(1)] excl_nan [OF nan(1)])
  qed
next
  case nan
  note a = this
  show ?thesis
  proof (cases rule: class32_elim [of b])
    case finite
    then show ?thesis
      using a unfolding softfloat_subMagsF32_def Let_def
      by (simp add: propagateNaN32_eq push_frac_eq_0 or_eq_0_iff_u64 excl_nan [OF a(1)] excl_finite [OF finite(1)])
  next
    case inf
    then show ?thesis
      using a unfolding softfloat_subMagsF32_def Let_def
      by (simp add: propagateNaN32_eq push_frac_eq_0 or_eq_0_iff_u64 excl_nan [OF a(1)] excl_inf [OF inf(1)])
  next
    case nan
    then show ?thesis
      using a unfolding softfloat_subMagsF32_def Let_def
      by (simp add: propagateNaN32_eq push_frac_eq_0 or_eq_0_iff_u64 excl_nan [OF a(1)] excl_nan [OF nan(1)])
  qed
qed

text \<open>The special operands of the four operations.\<close>

lemma pack_inf32_mag:
  fixes b :: u32
  assumes "finf F32 b"
  shows "ucast (packToF32UI n 0xFF 0) = (fpack n (fmag b) :: u32)"
  by (rule word_eq_fpackI) (subst unat_pack32(2); use assms in \<open>simp add: of_bool_def finf_def F32_def\<close>)

lemma f32_add_special:
  fixes a b :: u32
  assumes "\<not> (ffinite F32 a \<and> ffinite F32 b)"
  shows "f32_add a b st =
    (if fnan F32 a \<or> fnan F32 b then nan_result32 a b st
     else if finf F32 a \<and> finf F32 b \<and> fneg a \<noteq> fneg b
     then (0x7FC00000, softfloat_raiseFlags softfloat_flag_invalid st)
     else if finf F32 a then (a, st) else (b, st))"
proof -
  have i: "finf F32 b" if "\<not> fnan F32 a" "\<not> fnan F32 b" "\<not> finf F32 a"
    using assms that by (cases rule: fmt_cases [of F32 a]; cases rule: fmt_cases [of F32 b]) auto
  show ?thesis
    unfolding f32_add_def Let_def signF32UI_xor addMagsF32_special [OF assms] subMagsF32_special [OF assms]
    using i fpack_fneg_fmag [of b]
    by (cases "fneg a"; cases "fneg b"; auto simp: invalid32_eq pack_inf32_mag)
qed

lemma f32_sub_special:
  fixes a b :: u32
  assumes "\<not> (ffinite F32 a \<and> ffinite F32 b)"
  shows "f32_sub a b st =
    (if fnan F32 a \<or> fnan F32 b then nan_result32 a b st
     else if finf F32 a \<and> finf F32 b \<and> fneg a = fneg b
     then (0x7FC00000, softfloat_raiseFlags softfloat_flag_invalid st)
     else if finf F32 a then (a, st) else (fpack (\<not> fneg b) (fmag b), st))"
proof -
  have i: "finf F32 b" if "\<not> fnan F32 a" "\<not> fnan F32 b" "\<not> finf F32 a"
    using assms that by (cases rule: fmt_cases [of F32 a]; cases rule: fmt_cases [of F32 b]) auto
  show ?thesis
    unfolding f32_sub_def Let_def signF32UI_xor addMagsF32_special [OF assms] subMagsF32_special [OF assms]
    using i fpack_fneg_fmag [of b]
    by (cases "fneg a"; cases "fneg b"; auto simp: invalid32_eq pack_inf32_mag)
qed

lemma mag_bits_eq_0:
  fixes b :: u32
  shows "word_of_int (expF32UI (ucast b)) OR fracF32UI (ucast b) = 0 \<longleftrightarrow> fmag b = 0"
proof -
  have "0 \<le> expF32UI (ucast b)" "expF32UI (ucast b) < 2 ^ 64"
    unfolding expF32UI_ucast using fmag32_bounds(1) [of b] by simp_all
  then have "unat (word_of_int (expF32UI (ucast b)) :: u64) = nat (expF32UI (ucast b))"
    by (intro unat_word_of_int_nonneg) simp_all
  then have "word_of_int (expF32UI (ucast b)) = (0 :: u64) \<longleftrightarrow> expF32UI (ucast b) = 0"
    using \<open>0 \<le> expF32UI (ucast b)\<close> by (metis nat_0_iff order_antisym unat_eq_0 order_refl)
  then show ?thesis using zero32_iff [of b] by (simp add: or_eq_0_iff_u64)
qed

lemma pack_inf32_neg: "ucast (packToF32UI n 0xFF 0) = (fpack n 0x7F800000 :: u32)"
  by (rule word_eq_fpackI) (subst unat_pack32(2); simp add: of_bool_def)

lemma f32_mul_special:
  fixes a b :: u32
  assumes "\<not> (ffinite F32 a \<and> ffinite F32 b)"
  shows "f32_mul a b st =
    (if fnan F32 a \<or> fnan F32 b then nan_result32 a b st
     else if fmag a = 0 \<or> fmag b = 0 then (0x7FC00000, softfloat_raiseFlags softfloat_flag_invalid st)
     else (fpack (fneg a \<noteq> fneg b) 0x7F800000, st))"
proof -
  have m: "fmag w \<noteq> 0" if "finf F32 w" for w :: u32 using that by (simp add: finf_def)
  have z: "word_of_int 0xFF OR fracF32UI (ucast w) \<noteq> 0" for w :: u32 by (simp add: or_eq_0_iff_u64)
  note unf = f32_mul_def Let_def invalid32_eq propagateNaN32_eq pack_inf32_neg signF32UI_ucast mag_bits_eq_0
  show ?thesis
  proof (cases rule: class32_elim [of a])
    case finite
    note a = this
    show ?thesis
    proof (cases rule: class32_elim [of b])
      case finite
      with a assms show ?thesis by simp
    next
      case inf
      then show ?thesis
        using a m [OF inf(1)] unfolding unf by (simp add: excl_finite [OF a(1)] excl_inf [OF inf(1)])
    next
      case nan
      then show ?thesis using a unfolding unf by simp
    qed
  next
    case inf
    note a = this
    show ?thesis
    proof (cases rule: class32_elim [of b])
      case finite
      have "finf F32 a" "fnan F32 a = False" "fnan F32 b = False" "fmag a \<noteq> 0" "expF32UI (ucast b) \<noteq> 0xFF"
        using a finite m [OF a(1)] excl_inf [OF a(1)] excl_finite [OF finite(1)] by simp_all
      then show ?thesis unfolding unf a(2,3) by (simp add: mag_bits_eq_0)
    next
      case inf
      then show ?thesis
        using a m [OF inf(1)] m [OF a(1)] unfolding unf by (simp add: excl_inf [OF a(1)] excl_inf [OF inf(1)])
    next
      case nan
      then show ?thesis using a unfolding unf by simp
    qed
  next
    case nan
    then show ?thesis unfolding unf by simp
  qed
qed

lemma f32_div_special:
  fixes a b :: u32
  assumes "\<not> (ffinite F32 a \<and> ffinite F32 b \<and> fmag b \<noteq> 0)"
  shows "f32_div a b st =
    (if fnan F32 a \<or> fnan F32 b then nan_result32 a b st
     else if finf F32 a \<and> finf F32 b \<or> fmag a = 0 \<and> fmag b = 0
     then (0x7FC00000, softfloat_raiseFlags softfloat_flag_invalid st)
     else if finf F32 a then (fpack (fneg a \<noteq> fneg b) 0x7F800000, st)
     else if finf F32 b then (fpack (fneg a \<noteq> fneg b) 0, st)
     else (fpack (fneg a \<noteq> fneg b) 0x7F800000, softfloat_raiseFlags softfloat_flag_infinite st))"
proof -
  have m: "fmag w \<noteq> 0" if "finf F32 w" for w :: u32 using that by (simp add: finf_def)
  note unf = f32_div_def Let_def invalid32_eq propagateNaN32_eq pack_inf32_neg signF32UI_ucast mag_bits_eq_0
    pack_zero32 zero32_iff
  show ?thesis
  proof (cases rule: class32_elim [of a])
    case finite
    note a = this
    show ?thesis
    proof (cases rule: class32_elim [of b])
      case finite
      then have "fmag b = 0" using a assms by simp
      then show ?thesis
        using a finite excl_finite [OF a(1)] excl_finite [OF finite(1)] unfolding unf by simp
    next
      case inf
      then show ?thesis
        using a m [OF inf(1)] unfolding unf by (simp add: excl_finite [OF a(1)] excl_inf [OF inf(1)])
    next
      case nan
      then show ?thesis using a unfolding unf by simp
    qed
  next
    case inf
    note a = this
    show ?thesis
    proof (cases rule: class32_elim [of b])
      case finite
      then show ?thesis
        using a m [OF a(1)] unfolding unf by (simp add: excl_finite [OF finite(1)] excl_inf [OF a(1)])
    next
      case inf
      then show ?thesis
        using a m [OF inf(1)] m [OF a(1)] unfolding unf by (simp add: excl_inf [OF a(1)] excl_inf [OF inf(1)])
    next
      case nan
      then show ?thesis using a unfolding unf by simp
    qed
  next
    case nan
    then show ?thesis unfolding unf by simp
  qed
qed

section \<open>Correctness\<close>

lemma infty32: "infty F32 n = (fpack n 0x7F800000 :: u32)"
  by (simp add: infty_def F32_def)

lemma inf_nonzero: "finf F w \<Longrightarrow> 0 < fmag w"
  by (simp add: finf_def)

lemma fst_nan_result32: "fst (nan_result32 a b st) = 0x7FC00000"
  by (simp add: nan_result32_def)

lemma special_cases32:
  "ffinite F32 (a :: u32) \<longleftrightarrow> \<not> fnan F32 a \<and> \<not> finf F32 a"
  by (auto simp: ffinite_def fnan_def finf_def)

lemma sig_nan32: "softfloat_isSigNaNF32UI (ucast a) \<longleftrightarrow> ieee_class F32 a = 8" for a :: u32
proof -
  have l: "(0x7FC00000 :: u64) = push_bit 22 (mask 9)" "(0x7F800000 :: u64) = push_bit 22 0x1FE"
    by (simp_all add: mask_eq_exp_minus_1)
  have ua: "unat (ucast a :: u64) = unat a"
    by (rule unat_ucast_less) (rule less_trans [OF unsigned_less], simp)
  have m: "unat a div 2 ^ 22 mod 2 ^ 9 = fmag a div 2 ^ 22" "unat a mod 2 ^ 22 = fmag a mod 2 ^ 22"
    using mod_mult2_eq [of "unat a" "2 ^ 22" "2 ^ 9"] by (simp_all add: fmag_def mod_mod_cancel)
  have 1: "(ucast a :: u64) AND 0x7FC00000 = 0x7F800000 \<longleftrightarrow> fmag a div 2 ^ 22 = 0x1FE"
  proof -
    have "unat ((ucast a :: u64) AND 0x7FC00000) = fmag a div 2 ^ 22 * 2 ^ 22"
      unfolding l(1) by (subst unat_and_field) (simp_all only: ua m, simp)
    then show ?thesis by (simp add: word_unat_eq_iff)
  qed
  have 2: "(ucast a :: u64) AND 0x3FFFFF \<noteq> 0 \<longleftrightarrow> fmag a mod 2 ^ 22 \<noteq> 0"
    by (simp only: word_unat_eq_iff unat_ops ua m unsigned_0)
  have 3: "fmag a div 2 ^ 22 = 0x1FE \<and> fmag a mod 2 ^ 22 \<noteq> 0 \<longleftrightarrow> 0x7F800000 < fmag a \<and> fmag a < 0x7FC00000"
    using div_mod_between [of "2 ^ 22" "fmag a" "0x1FE"] by simp
  show ?thesis
    unfolding softfloat_isSigNaNF32UI_def 1 2 3 by (auto simp: ieee_class_def fnan_def F32_def)
qed

lemma f32_add_ieee:
  "fst (f32_add a b st) = ieee_add F32 (sf_mode (softfloat_roundingMode st)) a b"
proof (cases "ffinite F32 a \<and> ffinite F32 b")
  case True
  then show ?thesis by (simp add: f32_add_finite ieee_add_def special_cases32)
next
  case False
  then show ?thesis
    unfolding f32_add_special [OF False] by (auto simp: ieee_add_def special_cases32 fst_nan_result32)
qed

text \<open>
  C7: \<open>f32_add\<close> is the IEEE 754 sum in the selected rounding mode: on every pair of
  encodings its result is the exact sum of the operands rounded once (with the sign rule for
  an exact zero), the operand that is infinite, or the canonical NaN.
\<close>

theorem f32_add_correct:
  "fst (f32_add a b st) = ieee_add F32 (sf_mode (softfloat_roundingMode st)) a b"
  by (rule f32_add_ieee)

lemma f32_sub_ieee:
  "fst (f32_sub a b st) = ieee_sub F32 (sf_mode (softfloat_roundingMode st)) a b"
proof (cases "ffinite F32 a \<and> ffinite F32 b")
  case True
  then show ?thesis by (simp add: f32_sub_finite ieee_sub_def special_cases32)
next
  case False
  then show ?thesis
    unfolding f32_sub_special [OF False]
    by (auto simp: ieee_sub_def special_cases32 fst_nan_result32 fneg_of_def)
qed

text \<open>\<open>f32_sub\<close> is the IEEE 754 difference in the selected rounding mode, on every pair of encodings.\<close>

theorem f32_sub_correct:
  "fst (f32_sub a b st) = ieee_sub F32 (sf_mode (softfloat_roundingMode st)) a b"
  by (rule f32_sub_ieee)

lemma f32_mul_ieee:
  "fst (f32_mul a b st) = ieee_mul F32 (sf_mode (softfloat_roundingMode st)) a b"
proof (cases "ffinite F32 a \<and> ffinite F32 b")
  case True
  then show ?thesis by (simp add: f32_mul_finite ieee_mul_def special_cases32)
next
  case False
  then show ?thesis
    unfolding f32_mul_special [OF False]
    by (auto simp: ieee_mul_def special_cases32 fst_nan_result32 infty32 dest: inf_nonzero)
qed

text \<open>C12: \<open>f32_mul\<close> is the IEEE 754 product in the selected rounding mode, on every pair of encodings.\<close>

theorem f32_mul_correct:
  "fst (f32_mul a b st) = ieee_mul F32 (sf_mode (softfloat_roundingMode st)) a b"
  by (rule f32_mul_ieee)

lemma f32_div_ieee:
  "fst (f32_div a b st) = ieee_div F32 (sf_mode (softfloat_roundingMode st)) a b"
proof (cases "ffinite F32 a \<and> ffinite F32 b \<and> fmag b \<noteq> 0")
  case True
  then show ?thesis by (simp add: f32_div_finite ieee_div_def special_cases32)
next
  case False
  then show ?thesis
    unfolding f32_div_special [OF False]
    by (auto simp: ieee_div_def special_cases32 fst_nan_result32 infty32 dest: inf_nonzero)
qed

text \<open>C13: \<open>f32_div\<close> is the IEEE 754 quotient in the selected rounding mode, on every pair of encodings.\<close>

theorem f32_div_correct:
  "fst (f32_div a b st) = ieee_div F32 (sf_mode (softfloat_roundingMode st)) a b"
  by (rule f32_div_ieee)

text \<open>
  The exception flags \<open>f32_div\<close> raises when an operand is special or the divisor is
  zero: invalid exactly for a signalling NaN and for the quotients without a value,
  divide-by-zero exactly for a finite non-zero dividend, and nothing else.
\<close>

theorem f32_div_flags:
  fixes a b :: u32
  assumes "\<not> (ffinite F32 a \<and> ffinite F32 b \<and> fmag b \<noteq> 0)"
  shows "snd (f32_div a b st) =
    (if fnan F32 a \<or> fnan F32 b
     then (if ieee_class F32 a = 8 \<or> ieee_class F32 b = 8
           then softfloat_raiseFlags softfloat_flag_invalid st else st)
     else if finf F32 a \<and> finf F32 b \<or> fmag a = 0 \<and> fmag b = 0
     then softfloat_raiseFlags softfloat_flag_invalid st
     else if finf F32 a \<or> finf F32 b then st
     else softfloat_raiseFlags softfloat_flag_infinite st)"
  unfolding f32_div_special [OF assms] nan_result32_def sig_nan32
  using assms by (auto simp: special_cases32 dest: inf_nonzero)

theorem f32_div_flags_witness:
  "snd (f32_div 0x3F800000 0x80000000 softfloat_init) =
    softfloat_raiseFlags softfloat_flag_infinite softfloat_init"
  by (subst f32_div_flags) (simp_all add: ffinite_def fnan_def finf_def fmag_def F32_def)

end
