(* ===== verification/Sf_Mul_Add.thy ===== *)
theory Sf_Mul_Add
  imports Sf_F32_Arith
begin

text \<open>
  The fused multiply-add of binary32 (\<open>f32_mulAdd.c\<close>, \<open>s_mulAddF32.c\<close>): the product is exact in 64
  bits, the third operand is aligned to it, and the sum is rounded once.  The two branches on the
  signs are definitions of their own; the jumps are the functions named after their labels.
\<close>

section \<open>The operation\<close>

definition softfloat_mulAdd_subC :: u8 where "softfloat_mulAdd_subC = 1"
definition softfloat_mulAdd_subProd :: u8 where "softfloat_mulAdd_subProd = 2"

text \<open>The branch \<open>signProd == signC\<close>: exponent and significand of the sum.\<close>

definition mulAdd_same_signs :: "int \<Rightarrow> u64 \<Rightarrow> int \<Rightarrow> u64 \<Rightarrow> int \<times> u64" where
  "mulAdd_same_signs expProd sigProd expC sigC =
     (let expDiff = expProd - expC;
          (expZ, sigZ) =
            (if expDiff \<le> 0
             then (expC, sigC + softfloat_shiftRightJam64 sigProd (word_of_int (32 - expDiff)))
             else let sig64Z = sigProd + softfloat_shiftRightJam64 (push_bit 32 sigC) (word_of_int expDiff)
                  in (expProd, softfloat_shortShiftRightJam64 sig64Z 32))
      in if sigZ < 0x40000000 then (expZ - 1, push_bit 1 sigZ) else (expZ, sigZ))"

text \<open>The other branch: sign, exponent and significand, or \<open>None\<close> on \<open>goto completeCancellation\<close>.\<close>

definition mulAdd_cancel_shift :: "bool \<Rightarrow> int \<Rightarrow> u64 \<Rightarrow> bool \<times> int \<times> u64" where
  "mulAdd_cancel_shift signZ expZ sig64Z =
     (let shiftDist = int (unat (softfloat_countLeadingZeros64 sig64Z)) - 1;
          expZ = expZ - shiftDist;
          shiftDist = shiftDist - 32
      in if shiftDist < 0
         then (signZ, expZ, softfloat_shortShiftRightJam64 sig64Z (word_of_int (- shiftDist)))
         else (signZ, expZ, push_bit (nat shiftDist) sig64Z))"

definition mulAdd_different_signs :: "bool \<Rightarrow> bool \<Rightarrow> int \<Rightarrow> u64 \<Rightarrow> int \<Rightarrow> u64 \<Rightarrow> (bool \<times> int \<times> u64) option" where
  "mulAdd_different_signs signZ signC expProd sigProd expC sigC =
     (let expDiff = expProd - expC; sig64C = push_bit 32 sigC
      in if expDiff < 0
         then Some (mulAdd_cancel_shift signC expC
                (sig64C - softfloat_shiftRightJam64 sigProd (word_of_int (- expDiff))))
         else if expDiff = 0
         then let sig64Z = sigProd - sig64C
              in if sig64Z = 0 then None
                 else if sig64Z AND 0x8000000000000000 \<noteq> 0
                 then Some (mulAdd_cancel_shift (\<not> signZ) expProd (- sig64Z))
                 else Some (mulAdd_cancel_shift signZ expProd sig64Z)
         else Some (mulAdd_cancel_shift signZ expProd
                (sigProd - softfloat_shiftRightJam64 sig64C (word_of_int expDiff))))"

definition softfloat_mulAddF32 :: "u64 \<Rightarrow> u64 \<Rightarrow> u64 \<Rightarrow> u8 \<Rightarrow> sf_state \<Rightarrow> u32 \<times> sf_state" where
  "softfloat_mulAddF32 uiA uiB uiC op st =
     (let signA = signF32UI uiA; expA = expF32UI uiA; sigA = fracF32UI uiA;
          signB = signF32UI uiB; expB = expF32UI uiB; sigB = fracF32UI uiB;
          signC = (signF32UI uiC \<noteq> (op = softfloat_mulAdd_subC)); expC = expF32UI uiC; sigC = fracF32UI uiC;
          signProd = ((signA \<noteq> signB) \<noteq> (op = softfloat_mulAdd_subProd));
          propagateNaN_ABC = (let (uiZ, st) = softfloat_propagateNaNF32UI uiA uiB st in propagateNaN32 uiZ uiC st);
          invalid = propagateNaN32 defaultNaNF32UI uiC (softfloat_raiseFlags softfloat_flag_invalid st);
          infProdArg = (\<lambda>magBits.
            if magBits \<noteq> 0
            then let uiZ = packToF32UI signProd 0xFF 0
                 in if expC \<noteq> 0xFF then (ucast uiZ, st)
                    else if sigC \<noteq> 0 then propagateNaN32 uiZ uiC st
                    else if signProd = signC then (ucast uiZ, st) else invalid
            else invalid);
          completeCancellation = (ucast (packToF32UI (softfloat_roundingMode st = softfloat_round_min) 0 0), st);
          zeroProd = (if word_of_int expC OR sigC = 0 \<and> signProd \<noteq> signC then completeCancellation else (ucast uiC, st))
      in if expA = 0xFF
         then if sigA \<noteq> 0 \<or> (expB = 0xFF \<and> sigB \<noteq> 0) then propagateNaN_ABC
              else infProdArg (word_of_int expB OR sigB)
         else if expB = 0xFF
         then if sigB \<noteq> 0 then propagateNaN_ABC else infProdArg (word_of_int expA OR sigA)
         else if expC = 0xFF
         then if sigC \<noteq> 0 then propagateNaN32 0 uiC st else (ucast uiC, st)
         else if expA = 0 \<and> sigA = 0 then zeroProd
         else let (expA, sigA) = normalized32 expA sigA
              in if expB = 0 \<and> sigB = 0 then zeroProd
                 else let (expB, sigB) = normalized32 expB sigB;
                          expProd = expA + expB - 0x7E;
                          sigA = push_bit 7 (sigA OR 0x00800000);
                          sigB = push_bit 7 (sigB OR 0x00800000);
                          sigProd = sigA * sigB;
                          (expProd, sigProd) = (if sigProd < 0x2000000000000000 then (expProd - 1, push_bit 1 sigProd)
                                                else (expProd, sigProd));
                          signZ = signProd
                      in if expC = 0 \<and> sigC = 0
                         then softfloat_roundPackToF32 signZ (expProd - 1) (softfloat_shortShiftRightJam64 sigProd 31) st
                         else let (expC, sigC) = normalized32 expC sigC;
                                  sigC = push_bit 6 (sigC OR 0x00800000)
                              in if signProd = signC
                                 then let (expZ, sigZ) = mulAdd_same_signs expProd sigProd expC sigC
                                      in softfloat_roundPackToF32 signZ expZ sigZ st
                                 else case mulAdd_different_signs signZ signC expProd sigProd expC sigC of
                                        None \<Rightarrow> completeCancellation
                                      | Some (signZ, expZ, sigZ) \<Rightarrow> softfloat_roundPackToF32 signZ expZ sigZ st)"

definition f32_mulAdd :: "u32 \<Rightarrow> u32 \<Rightarrow> u32 \<Rightarrow> sf_state \<Rightarrow> u32 \<times> sf_state" where
  "f32_mulAdd a b c st = softfloat_mulAddF32 (ucast a) (ucast b) (ucast c) 0 st"

section \<open>The aligned sum\<close>

text \<open>
  The product and the third operand, in the same units: significands of 62 bits, of the product a
  multiple of 2, of the third operand of 2 to the 38.
\<close>

definition fma_value :: "int \<Rightarrow> nat \<Rightarrow> rat" where
  "fma_value e n = of_nat n * 2 powi e / 2 ^ 39"

lemma shift_jam64:
  assumes "0 < i" and "i < 5000"
  shows "unat (softfloat_shiftRightJam64 A (word_of_int i)) = jam_shift (unat A) (nat i)"
proof -
  have "unat (word_of_int i :: u64) = nat i" using assms by (intro unat_word_of_int_nonneg) simp_all
  with assms show ?thesis by (simp add: unat_shiftRightJam64)
qed

lemma same_signs_round:
  assumes P: "2 ^ 61 \<le> unat P" "unat P < 2 ^ 62" "even (unat P)" and C: "2 ^ 29 \<le> unat C" "unat C < 2 ^ 30" "even (unat C)"
    and e: "- 2000 < eP" "eP < 2000" "- 2000 < eC" "eC < 2000"
    and x: "\<bar>x\<bar> * 2 ^ 149 = fma_value eP (unat P) + fma_value eC (unat C * 2 ^ 32)"
  shows "fst (let (expZ, sigZ) = mulAdd_same_signs eP P eC C in softfloat_roundPackToF32 sign expZ sigZ st) =
    fround F32 (sf_mode (softfloat_roundingMode st)) sign x"
proof -
  define p c where "p = unat P" and "c = unat C"
  have pc: "2 ^ 61 \<le> p" "p < 2 ^ 62" "even p" "2 ^ 29 \<le> c" "c < 2 ^ 30" "even c" using P C by (simp_all add: p_def c_def)
  define r :: "int \<times> u64" where "r = (if eP - eC \<le> 0 then (eC, C + softfloat_shiftRightJam64 P (word_of_int (32 - (eP - eC))))
    else (eP, softfloat_shortShiftRightJam64 (P + softfloat_shiftRightJam64 (push_bit 32 C) (word_of_int (eP - eC))) 32))"
  obtain eZ Z where r: "r = (eZ, Z)" by (cases r)
  have "\<exists>s :: rat. agrees 2 s (unat Z) \<and> 2 ^ 29 \<le> unat Z \<and> unat Z < 2 ^ 31 \<and> \<bar>x\<bar> * 2 ^ 149 = s * 2 powi eZ / 2 ^ 7 \<and> - 2000 < eZ \<and> eZ < 2000"
  proof (cases "eP \<le> eC")
    case True
    define k where "k = nat (eC - eP)"
    have k: "eC = eP + int k" "k < 4000" using True e by (simp_all add: k_def)
    have j: "unat (softfloat_shiftRightJam64 P (word_of_int (32 - (eP - eC)))) = jam_shift p (32 + k)"
      using k by (subst shift_jam64) (simp_all add: p_def nat_add_distrib)
    have "p div 2 ^ (32 + k) < 2 ^ 30"
      using pc by (simp add: power_add div_mult2_eq less_mult_imp_div_less div_less_mono le_less_trans [OF div_le_dividend])
    then have jl: "jam_shift p (32 + k) < 2 ^ 30" unfolding jam_shift_def by (rule or_bit_less) simp
    have Z: "eZ = eC" "unat Z = c + jam_shift p (32 + k)"
      using r True j jl pc by (auto simp: r_def c_def unat_add_less)
    have "agrees 2 (of_nat c + of_nat p / 2 ^ (32 + k) :: rat) (unat Z)"
      unfolding Z using pc by (intro agrees_add agrees_jam_shift agrees_refl) simp_all
    moreover have "(of_nat c + of_nat p / 2 ^ (32 + k)) * 2 powi eC / 2 ^ 7 = fma_value eP p + fma_value eC (c * 2 ^ 32)"
      by (simp add: fma_value_def k(1) power_int_add power_add field_simps)
    ultimately show ?thesis
      using Z jl pc x e by (intro exI [of _ "of_nat c + of_nat p / 2 ^ (32 + k)"]) (simp add: p_def c_def)
  next
    case False
    define k where "k = nat (eP - eC)"
    have k: "eP = eC + int k" "0 < k" "k < 4000" using False e by (simp_all add: k_def)
    have pu: "unat (push_bit 32 C) = c * 2 ^ 32"
      unfolding c_def by (rule unat_push_bit_less) (use C in simp)
    have j: "unat (softfloat_shiftRightJam64 (push_bit 32 C) (word_of_int (eP - eC))) = jam_shift (c * 2 ^ 32) k"
      using k by (subst shift_jam64) (simp_all add: pu)
    have jl: "jam_shift (c * 2 ^ 32) k < 2 ^ 62" by (rule jam_shift_less) (use pc in simp_all)
    have su: "unat (P + softfloat_shiftRightJam64 (push_bit 32 C) (word_of_int (eP - eC))) = p + jam_shift (c * 2 ^ 32) k"
    proof -
      have "unat P + unat (softfloat_shiftRightJam64 (push_bit 32 C) (word_of_int (eP - eC))) < 2 ^ LENGTH(64)"
        unfolding j using jl pc by (simp add: p_def)
      then show ?thesis by (subst unat_add_less) (simp_all only: j p_def)
    qed
    have "eZ = eP \<and> Z = softfloat_shortShiftRightJam64 (P + softfloat_shiftRightJam64 (push_bit 32 C) (word_of_int (eP - eC))) 32"
      using r False by (auto simp: r_def)
    then have Z: "eZ = eP" "unat Z = jam_shift (p + jam_shift (c * 2 ^ 32) k) (unat (32 :: u8))"
      by (simp_all only: unat_shortShiftRightJam64 su)
    have n32: "unat (32 :: u8) = 32" by simp
    note Z = Z [unfolded n32]
    have "agrees 2 ((of_nat p + of_nat (c * 2 ^ 32) / 2 ^ k) / 2 ^ 32 :: rat) (unat Z)"
      unfolding Z using pc by (intro agrees_jam_shift agrees_add agrees_refl) simp_all
    moreover have "(of_nat p + of_nat (c * 2 ^ 32) / 2 ^ k) / 2 ^ 32 * 2 powi eP / 2 ^ 7 = fma_value eP p + fma_value eC (c * 2 ^ 32)"
      by (simp add: fma_value_def k(1) power_int_add power_add field_simps)
    moreover have "2 ^ 29 \<le> (p + jam_shift (c * 2 ^ 32) k) div 2 ^ 32" "(p + jam_shift (c * 2 ^ 32) k) div 2 ^ 32 < 2 ^ 31"
      using pc jl by (simp_all add: less_eq_div_iff_mult_less_eq less_mult_imp_div_less)
    then have "2 ^ 29 \<le> unat Z \<and> unat Z < 2 ^ 31"
      unfolding Z jam_shift_def [of "p + jam_shift (c * 2 ^ 32) k"] by (intro conjI or_bit_less) (simp_all add: or_of_bool)
    ultimately show ?thesis
      using Z x e by (intro exI [of _ "(of_nat p + of_nat (c * 2 ^ 32) / 2 ^ k) / 2 ^ 32"]) (simp add: p_def c_def)
  qed
  then obtain s :: rat where s: "agrees 2 s (unat Z)" "2 ^ 29 \<le> unat Z" "unat Z < 2 ^ 31"
    "\<bar>x\<bar> * 2 ^ 149 = s * 2 powi eZ / 2 ^ 7" "- 2000 < eZ" "eZ < 2000" by blast
  have "fst (let (e, sig) = (if Z < 0x40000000 then (eZ - 1, push_bit 1 Z) else (eZ, Z))
      in softfloat_roundPackToF32 sign e sig st) = fround F32 (sf_mode (softfloat_roundingMode st)) sign x"
    by (rule f32p.rp_short [OF s(1)]) (use s in \<open>simp_all add: F32_def\<close>)
  moreover have "mulAdd_same_signs eP P eC C = (if Z < 0x40000000 then (eZ - 1, push_bit 1 Z) else (eZ, Z))"
    by (simp only: mulAdd_same_signs_def Let_def r_def [symmetric] r prod.case)
  ultimately show ?thesis by simp
qed

text \<open>Normalisation after a cancellation, which is exact when more than one bit cancels.\<close>

lemma cancel_shift_round:
  assumes ag: "agrees 2 s (unat z)" and exact: "s = of_nat (unat z) \<or> 2 ^ 60 \<le> unat z"
    and z: "0 < unat z" "unat z < 2 ^ 62" and e: "- 2000 < e" "e < 2000"
    and x: "\<bar>x\<bar> * 2 ^ 149 = s * 2 powi e / 2 ^ 39"
  shows "fst (case mulAdd_cancel_shift sign e z of (sg, eZ, Z) \<Rightarrow> softfloat_roundPackToF32 sg eZ Z st) =
    fround F32 (sf_mode (softfloat_roundingMode st)) sign x"
proof -
  define L where "L = floorlog 2 (unat z)"
  have L: "0 < L" "L \<le> 62" "2 ^ (L - 1) \<le> unat z" "unat z < 2 ^ L"
    using z floorlog_bounds [of "unat z" 2] floorlog_le_width [of "unat z" 62]
    by (simp_all add: L_def floorlog_def)
  have clz: "unat (softfloat_countLeadingZeros64 z) = 64 - L" by (simp add: unat_clz64 L_def)
  show ?thesis
  proof (cases "31 < L")
    case True
    define k where "k = L - 31"
    have k: "L = k + 31" "0 < k" "k < 32" using True L by (simp_all add: k_def)
    define Z where "Z = softfloat_shortShiftRightJam64 z (word_of_int (int k))"
    have "unat (word_of_int (int k) :: u8) = k" using k by (subst unat_word_of_int_nonneg) simp_all
    then have Z: "unat Z = jam_shift (unat z) k" by (simp only: Z_def unat_shortShiftRightJam64)
    have run: "mulAdd_cancel_shift sign e z = (sign, e - 32 + int k, Z)"
      using k clz by (simp add: mulAdd_cancel_shift_def Z_def Let_def)
    have q: "2 ^ 30 \<le> unat z div 2 ^ k" "unat z div 2 ^ k < 2 ^ 31"
      using L k by (simp_all add: less_eq_div_iff_mult_less_eq less_mult_imp_div_less power_add mult.commute)
    have "fst (softfloat_roundPackToF32 sign (e - 32 + int k) Z st) = fround F32 (sf_mode (softfloat_roundingMode st)) sign x"
    proof (rule f32p.rp_fround)
      have "agrees 2 (s / 2 ^ k) (unat Z)" unfolding Z using ag by (rule agrees_jam_shift) simp
      then show "agrees (2 ^ (7 - 1)) (s / 2 ^ k) (unat Z)" by (rule agrees_weaken) simp
      show "unat Z < 2 ^ (23 + 1 + 7)" unfolding Z jam_shift_def using or_bit_less [OF q(2)] by simp
      show "e - 32 + int k \<le> 0 \<or> 2 ^ (23 + 7) \<le> unat Z" unfolding Z jam_shift_def or_of_bool using q(1) by simp
      have pw: "(2::rat) powi (e - 32 + int k) = 2 powi e * 2 ^ k / 2 ^ 32"
        by (simp add: power_int_add power_int_diff)
      show "\<bar>x\<bar> * 2 ^ ulp0 F32 = s / 2 ^ k * 2 powi (e - 32 + int k) / 2 ^ 7"
        using x by (simp add: F32_def pw)
    qed (use e k in simp_all)
    then show ?thesis by (simp add: run)
  next
    case False
    define k where "k = 31 - L"
    have k: "L = 31 - k" "k < 31" using False L by (simp_all add: k_def)
    have "unat z < 2 ^ 31" using less_le_trans [OF L(4) power_increasing [of L 31 "2::nat"]] False by simp
    with exact have s: "s = of_nat (unat z)" by simp
    have nb: "2 ^ 30 \<le> unat z * 2 ^ k" "unat z * 2 ^ k < 2 ^ 31"
      using normalize_bounds [of "unat z" 31] z(1) \<open>unat z < 2 ^ 31\<close> by (simp_all add: k_def L_def)
    have Z: "unat (push_bit k z) = unat z * 2 ^ k" using nb by (intro unat_push_bit_less) simp
    have run: "mulAdd_cancel_shift sign e z = (sign, e - 32 - int k, push_bit k z)"
      using False L clz by (simp add: mulAdd_cancel_shift_def Let_def k_def nat_diff_distrib)
    have "fst (softfloat_roundPackToF32 sign (e - 32 - int k) (push_bit k z) st) = fround F32 (sf_mode (softfloat_roundingMode st)) sign x"
    proof (rule f32p.rp_fround)
      show "agrees (2 ^ (7 - 1)) (of_nat (unat z * 2 ^ k) :: rat) (unat (push_bit k z))" unfolding Z by (rule agrees_refl)
      show "unat (push_bit k z) < 2 ^ (23 + 1 + 7)" "e - 32 - int k \<le> 0 \<or> 2 ^ (23 + 7) \<le> unat (push_bit k z)"
        unfolding Z using nb by simp_all
      have pw: "(2::rat) powi (e - 32 - int k) = 2 powi e / 2 ^ k / 2 ^ 32"
        by (simp add: power_int_diff)
      show "\<bar>x\<bar> * 2 ^ ulp0 F32 = of_nat (unat z * 2 ^ k) * 2 powi (e - 32 - int k) / 2 ^ 7"
        using x s by (simp add: F32_def pw)
    qed (use e k in simp_all)
    then show ?thesis by (simp add: run)
  qed
qed

lemma different_signs_round:
  assumes P: "2 ^ 61 \<le> unat P" "unat P < 2 ^ 62" "even (unat P)" and C: "2 ^ 29 \<le> unat C" "unat C < 2 ^ 30"
    and e: "- 2000 < eP" "eP < 2000" "- 2000 < eC" "eC < 2000"
    and x: "x * 2 ^ 149 = fma_value eP (unat P) - fma_value eC (unat C * 2 ^ 32)"
  shows "case mulAdd_different_signs sign (\<not> sign) eP P eC C of
      None \<Rightarrow> x = 0
    | Some (sg, eZ, Z) \<Rightarrow> x \<noteq> 0 \<and> sg = (if x < 0 then \<not> sign else sign) \<and>
        fst (softfloat_roundPackToF32 sg eZ Z st) = fround F32 (sf_mode (softfloat_roundingMode st)) sg x"
proof -
  define p c where "p = unat P" and "c = unat C"
  have pc: "2 ^ 61 \<le> p" "p < 2 ^ 62" "even p" "2 ^ 29 \<le> c" "c < 2 ^ 30" using P C by (simp_all add: p_def c_def)
  have pu: "unat (push_bit 32 C) = c * 2 ^ 32" unfolding c_def by (rule unat_push_bit_less) (use C in simp)
  have close: "case Some (mulAdd_cancel_shift sg e z) of None \<Rightarrow> x = 0
      | Some (sg', eZ, Z) \<Rightarrow> x \<noteq> 0 \<and> sg' = (if x < 0 then \<not> sign else sign) \<and>
          fst (softfloat_roundPackToF32 sg' eZ Z st) = fround F32 (sf_mode (softfloat_roundingMode st)) sg' x"
    if ag: "agrees 2 s (unat z)" and ex: "s = of_nat (unat z) \<or> 2 ^ 60 \<le> unat z" and z: "0 < unat z" "unat z < 2 ^ 62"
      and e: "- 2000 < e" "e < 2000" and v: "x * 2 ^ 149 = (if sg = sign then s else - s) * 2 powi e / 2 ^ 39"
    for sg e z and s :: rat
  proof -
    have s: "0 < s" using agreesD(1) [OF ag, of 0] z(1) by simp
    have "x * 2 ^ 149 < 0 \<longleftrightarrow> sg \<noteq> sign" "x * 2 ^ 149 \<noteq> 0"
      unfolding v using s by (cases "sg = sign"; simp add: divide_less_0_iff mult_less_0_iff not_less)+
    then have sign: "x < 0 \<longleftrightarrow> sg \<noteq> sign" "x \<noteq> 0" by (simp_all add: mult_less_0_iff)
    have "\<bar>x\<bar> * 2 ^ 149 = \<bar>x * 2 ^ 149\<bar>" by (simp add: abs_mult)
    also have "\<dots> = s * 2 powi e / 2 ^ 39" unfolding v using s by (cases "sg = sign"; simp add: abs_mult)
    finally have "fst (case mulAdd_cancel_shift sg e z of (sg, eZ, Z) \<Rightarrow> softfloat_roundPackToF32 sg eZ Z st) =
        fround F32 (sf_mode (softfloat_roundingMode st)) sg x"
      by (rule cancel_shift_round [OF ag ex z e])
    moreover have "fst (mulAdd_cancel_shift sg e z) = sg" by (simp add: mulAdd_cancel_shift_def Let_def)
    ultimately show ?thesis using sign by (auto split: prod.split)
  qed
  consider "eP < eC" | "eP = eC" | "eC < eP" by linarith
  then show ?thesis
  proof cases
    case 1
    define k where "k = nat (eC - eP)"
    have k: "eC = eP + int k" "0 < k" "k < 4000" using 1 e by (simp_all add: k_def)
    define J where "J = softfloat_shiftRightJam64 P (word_of_int (- (eP - eC)))"
    have J: "unat J = jam_shift p k" using k unfolding J_def by (subst shift_jam64) (simp_all add: p_def)
    have "p div 2 ^ k \<le> p div 2 ^ 1" using k(2) by (intro div_le_mono2 power_increasing) simp_all
    also have "\<dots> < 2 ^ 61" using pc by simp
    finally have jl: "jam_shift p k < 2 ^ 61" unfolding jam_shift_def by (rule or_bit_less) simp
    have z: "unat (push_bit 32 C - J) = c * 2 ^ 32 - jam_shift p k"
      using jl pc by (subst unat_sub_if') (simp add: J pu word_le_nat_alt)
    have small: "jam_shift p k \<le> 2 ^ 60" if "2 \<le> k"
    proof -
      have "p div 2 ^ k \<le> p div 2 ^ 2" using that by (intro div_le_mono2 power_increasing) simp_all
      also have "\<dots> < 2 ^ 60" using pc by simp
      finally have "jam_shift p k < 2 ^ 60" unfolding jam_shift_def by (rule or_bit_less) simp
      then show ?thesis by simp
    qed
    have exact: "jam_shift p 1 = p div 2" using pc(3) by (simp add: jam_shift_def)
    have half: "of_nat (p div 2) = (of_nat p / 2 :: rat)" using pc(3) by (auto elim: evenE)
    have run: "mulAdd_different_signs sign (\<not> sign) eP P eC C = Some (mulAdd_cancel_shift (\<not> sign) eC (push_bit 32 C - J))"
      unfolding mulAdd_different_signs_def Let_def J_def [symmetric] using 1 by simp
    show ?thesis unfolding run
      proof (rule close)
        show "agrees 2 (of_nat (c * 2 ^ 32) - of_nat p / 2 ^ k :: rat) (unat (push_bit 32 C - J))"
          unfolding z using jl pc by (intro agrees_diff agrees_jam_shift agrees_refl) simp_all
        show "of_nat (c * 2 ^ 32) - of_nat p / 2 ^ k = (of_nat (unat (push_bit 32 C - J)) :: rat) \<or> 2 ^ 60 \<le> unat (push_bit 32 C - J)"
        proof (cases "k = 1")
          case True
          then show ?thesis unfolding z using exact half jl pc by (simp add: of_nat_diff)
        next
          case False
          with k(2) have "2 \<le> k" by simp
          from small [OF this] have "2 ^ 60 \<le> c * 2 ^ 32 - jam_shift p k" using pc by simp
          then show ?thesis unfolding z ..
        qed
        show "0 < unat (push_bit 32 C - J)" "unat (push_bit 32 C - J) < 2 ^ 62" unfolding z using jl pc by simp_all
        show "x * 2 ^ 149 = (if (\<not> sign) = sign then of_nat (c * 2 ^ 32) - of_nat p / 2 ^ k
            else - (of_nat (c * 2 ^ 32) - of_nat p / 2 ^ k)) * 2 powi eC / 2 ^ 39"
          unfolding x by (simp add: fma_value_def p_def c_def k(1) power_int_add field_simps)
      qed (use e in simp_all)
  next
    case 2
    have xv: "x * 2 ^ 149 = (of_nat p - of_nat (c * 2 ^ 32)) * 2 powi eC / 2 ^ 39"
      unfolding x 2 by (simp add: fma_value_def p_def c_def field_simps)
    have top: "(w AND 0x8000000000000000 \<noteq> 0) = (2 ^ 63 \<le> unat w)" for w :: u64
    proof -
      have "(w AND 2 ^ 63 \<noteq> 0) = bit w 63" unfolding and_exp_eq_0_iff_not_bit by simp
      also have "\<dots> = (2 ^ 63 \<le> unat w)" using fneg_top_bit [of w] by (simp add: fneg_def)
      finally show ?thesis by simp
    qed
    consider "p = c * 2 ^ 32" | "c * 2 ^ 32 < p" | "p < c * 2 ^ 32" by linarith
    then show ?thesis
    proof cases
      case 1
      then have "P = push_bit 32 C" using pu by (simp only: word_unat_eq_iff p_def)
      moreover have "x = 0" using xv 1 by simp
      ultimately show ?thesis using 2 by (simp add: mulAdd_different_signs_def)
    next
      case 2
      have z: "unat (P - push_bit 32 C) = p - c * 2 ^ 32"
        using 2 by (subst unat_sub_if') (simp add: pu p_def word_le_nat_alt)
      have nz: "P - push_bit 32 C \<noteq> 0" using z 2 by (metis unat_0 zero_less_diff less_irrefl)
      have notop: "\<not> (P - push_bit 32 C) AND 0x8000000000000000 \<noteq> 0" unfolding top z using pc by simp
      have run: "mulAdd_different_signs sign (\<not> sign) eP P eC C = Some (mulAdd_cancel_shift sign eC (P - push_bit 32 C))"
        using \<open>eP = eC\<close> nz notop by (simp add: mulAdd_different_signs_def Let_def)
      show ?thesis unfolding run
      proof (rule close [OF agrees_refl disjI1 [OF refl]])
        show "x * 2 ^ 149 = (if sign = sign then of_nat (unat (P - push_bit 32 C)) else - of_nat (unat (P - push_bit 32 C))) * 2 powi eC / 2 ^ 39"
          unfolding z xv using 2 by (simp add: of_nat_diff)
      qed (use z 2 pc e in simp_all)
    next
      case 3
      have m: "unat (- (P - push_bit 32 C)) = c * 2 ^ 32 - p"
      proof -
        have "- (P - push_bit 32 C) = push_bit 32 C - P" by simp
        then show ?thesis using 3 by (simp only: unat_sub_if' pu p_def [symmetric]) simp
      qed
      have z: "unat (P - push_bit 32 C) = 2 ^ 64 - (c * 2 ^ 32 - p)"
        using 3 pc by (subst unat_sub_if') (simp add: pu p_def)
      have nz: "P - push_bit 32 C \<noteq> 0"
      proof
        assume "P - push_bit 32 C = 0"
        with m 3 show False by (simp only: neg_0_equal_iff_equal unat_0) simp
      qed
      have istop: "(P - push_bit 32 C) AND 0x8000000000000000 \<noteq> 0" unfolding top z using pc by simp
      have run: "mulAdd_different_signs sign (\<not> sign) eP P eC C = Some (mulAdd_cancel_shift (\<not> sign) eC (- (P - push_bit 32 C)))"
        using \<open>eP = eC\<close> nz istop by (simp add: mulAdd_different_signs_def Let_def)
      show ?thesis unfolding run
      proof (rule close [OF agrees_refl disjI1 [OF refl]])
        show "x * 2 ^ 149 = (if (\<not> sign) = sign then of_nat (unat (- (P - push_bit 32 C))) else - of_nat (unat (- (P - push_bit 32 C)))) * 2 powi eC / 2 ^ 39"
          unfolding m xv using 3 by (simp add: of_nat_diff)
      qed (use m 3 pc e in simp_all)
    qed
  next
    case 3
    define k where "k = nat (eP - eC)"
    have k: "eP = eC + int k" "0 < k" "k < 4000" using 3 e by (simp_all add: k_def)
    define J where "J = softfloat_shiftRightJam64 (push_bit 32 C) (word_of_int (eP - eC))"
    have J: "unat J = jam_shift (c * 2 ^ 32) k" using k unfolding J_def by (subst shift_jam64) (simp_all add: pu)
    have "c * 2 ^ 32 div 2 ^ k \<le> c * 2 ^ 32 div 2 ^ 1" using k(2) by (intro div_le_mono2 power_increasing) simp_all
    also have "\<dots> < 2 ^ 61" using pc by simp
    finally have jl: "jam_shift (c * 2 ^ 32) k < 2 ^ 61" unfolding jam_shift_def by (rule or_bit_less) simp
    have z: "unat (P - J) = p - jam_shift (c * 2 ^ 32) k"
      using jl pc by (subst unat_sub_if') (simp add: J p_def word_le_nat_alt)
    have run: "mulAdd_different_signs sign (\<not> sign) eP P eC C = Some (mulAdd_cancel_shift sign eP (P - J))"
      unfolding mulAdd_different_signs_def Let_def J_def [symmetric] using 3 by simp
    show ?thesis unfolding run
      proof (rule close)
        show "agrees 2 (of_nat p - of_nat (c * 2 ^ 32) / 2 ^ k :: rat) (unat (P - J))"
          unfolding z using jl pc by (intro agrees_diff agrees_jam_shift agrees_refl) simp_all
        show "of_nat p - of_nat (c * 2 ^ 32) / 2 ^ k = (of_nat (unat (P - J)) :: rat) \<or> 2 ^ 60 \<le> unat (P - J)"
        proof (cases "k \<le> 32")
          case True
          then obtain j where j: "32 = k + j" using le_Suc_ex by blast
          have pj: "(2::nat) ^ 32 = 2 ^ k * 2 ^ j" unfolding j by (rule power_add)
          have "jam_shift (c * 2 ^ 32) k = c * 2 ^ j" unfolding pj by (simp add: jam_shift_def)
          moreover have "(of_nat (c * 2 ^ 32) :: rat) / 2 ^ k = of_nat (c * 2 ^ j)" unfolding pj by simp
          ultimately show ?thesis unfolding z using jl pc by (simp add: of_nat_diff)
        next
          case False
          have "c * 2 ^ 32 div 2 ^ k \<le> c * 2 ^ 32 div 2 ^ 2" using False by (intro div_le_mono2 power_increasing) simp_all
          also have "\<dots> < 2 ^ 60" using pc by simp
          finally have "jam_shift (c * 2 ^ 32) k < 2 ^ 60" unfolding jam_shift_def by (rule or_bit_less) simp
          then have "2 ^ 60 \<le> p - jam_shift (c * 2 ^ 32) k" using pc by simp
          then show ?thesis unfolding z ..
        qed
        show "0 < unat (P - J)" "unat (P - J) < 2 ^ 62" unfolding z using jl pc by simp_all
        show "x * 2 ^ 149 = (if sign = sign then of_nat p - of_nat (c * 2 ^ 32) / 2 ^ k
            else - (of_nat p - of_nat (c * 2 ^ 32) / 2 ^ k)) * 2 powi eP / 2 ^ 39"
          unfolding x by (simp add: fma_value_def p_def c_def k(1) power_int_add field_simps)
      qed (use e in simp_all)
  qed
qed

section \<open>Finite operands\<close>

text \<open>The exact product, normalised.\<close>

lemma product_normal:
  fixes sA sB :: u64
  assumes A: "parts 23 ca eA (unat sA)" and B: "parts 23 cb eB (unat sB)"
    and e: "-22 \<le> eA" "eA \<le> 254" "-22 \<le> eB" "eB \<le> 254"
    and run: "(if push_bit 7 sA * push_bit 7 sB < 0x2000000000000000
       then (eA + eB - 0x7E - 1, push_bit 1 (push_bit 7 sA * push_bit 7 sB))
       else (eA + eB - 0x7E, push_bit 7 sA * push_bit 7 sB)) = (eP, P)"
  shows "2 ^ 61 \<le> unat P" "unat P < 2 ^ 62" "even (unat P)" "- 172 \<le> eP" "eP \<le> 382"
    "of_nat (ival 23 ca) * of_nat (ival 23 cb) / 2 ^ 149 = fma_value eP (unat P)"
proof -
  define a b where "a = unat sA" and "b = unat sB"
  have ab: "2 ^ 23 \<le> a" "a < 2 ^ 24" "2 ^ 23 \<le> b" "b < 2 ^ 24"
    and iv: "(of_nat (ival 23 ca) :: rat) = of_nat a * 2 powi (eA - 1)" "(of_nat (ival 23 cb) :: rat) = of_nat b * 2 powi (eB - 1)"
    using A B by (simp_all add: parts_def a_def b_def)
  have p1: "unat (push_bit 7 sA) = a * 2 ^ 7" unfolding a_def
    by (rule unat_push_bit_less) (use ab a_def in simp)
  have p2: "unat (push_bit 7 sB) = b * 2 ^ 7" unfolding b_def
    by (rule unat_push_bit_less) (use ab b_def in simp)
  have ab2: "a * b \<le> (2 ^ 24 - 1) * (2 ^ 24 - 1)" "2 ^ 23 * 2 ^ 23 \<le> a * b"
    by (rule mult_le_mono; use ab in simp)+
  have pr: "unat (push_bit 7 sA * push_bit 7 sB) = a * b * 2 ^ 14"
    using ab2 by (subst unat_mult_less; simp only: p1 p2) simp_all
  have small: "push_bit 7 sA * push_bit 7 sB < 0x2000000000000000 \<longleftrightarrow> a * b * 2 ^ 14 < 2 ^ 61"
    by (simp only: word_less_nat_alt pr) simp
  have "2 ^ 61 \<le> unat P \<and> unat P < 2 ^ 62 \<and> even (unat P) \<and> - 172 \<le> eP \<and> eP \<le> 382 \<and>
    fma_value eP (unat P) = of_nat (a * b * 2 ^ 14) * 2 powi (eA + eB - 0x7E) / 2 ^ 39"
  proof (cases "a * b * 2 ^ 14 < 2 ^ 61")
    case True
    then have P: "eP = eA + eB - 0x7E - 1" "P = push_bit 1 (push_bit 7 sA * push_bit 7 sB)" using run small by auto
    have u: "unat P = 2 * (a * b * 2 ^ 14)"
      unfolding P(2) using True by (subst unat_push_bit_less) (simp_all only: pr, simp_all)
    have "(2::rat) powi (eA + eB - 0x7E) = 2 * 2 powi eP" by (simp add: P(1) power_int_diff)
    then show ?thesis using True ab2 e unfolding u by (simp add: P(1) fma_value_def)
  next
    case False
    then have P: "eP = eA + eB - 0x7E" "P = push_bit 7 sA * push_bit 7 sB" using run small by auto
    then show ?thesis using False ab2 e unfolding P(2) pr by (simp add: fma_value_def)
  qed
  moreover have "of_nat (ival 23 ca) * of_nat (ival 23 cb) / 2 ^ 149 = of_nat (a * b * 2 ^ 14) * 2 powi (eA + eB - 0x7E) / (2 ^ 39 :: rat)"
  proof -
    have "eA + eB - 0x7E = (eA - 1) + (eB - 1) - int 124" by simp
    then have pw: "(2::rat) powi (eA + eB - 0x7E) = 2 powi (eA - 1) * 2 powi (eB - 1) / 2 ^ 124"
      by (simp only: powi_shift(1,3))
    show ?thesis unfolding iv pw by simp
  qed
  ultimately show "2 ^ 61 \<le> unat P" "unat P < 2 ^ 62" "even (unat P)" "- 172 \<le> eP" "eP \<le> 382"
    "of_nat (ival 23 ca) * of_nat (ival 23 cb) / 2 ^ 149 = fma_value eP (unat P)" by simp_all
qed

text \<open>The third operand in the same units.\<close>

lemma addend_aligned:
  fixes sC :: u64
  assumes C: "parts 23 cc eC (unat sC)"
  shows "2 ^ 29 \<le> unat (push_bit 6 sC)" "unat (push_bit 6 sC) < 2 ^ 30" "even (unat (push_bit 6 sC))"
    "of_nat (ival 23 cc) = fma_value eC (unat (push_bit 6 sC) * 2 ^ 32)"
proof -
  define c where "c = unat sC"
  have c: "2 ^ 23 \<le> c" "c < 2 ^ 24" and iv: "(of_nat (ival 23 cc) :: rat) = of_nat c * 2 powi (eC - 1)"
    using C by (simp_all add: parts_def c_def)
  have u: "unat (push_bit 6 sC) = c * 2 ^ 6" unfolding c_def by (rule unat_push_bit_less) (use c c_def in simp)
  show "2 ^ 29 \<le> unat (push_bit 6 sC)" "unat (push_bit 6 sC) < 2 ^ 30" "even (unat (push_bit 6 sC))"
    unfolding u using c by simp_all
  show "of_nat (ival 23 cc) = fma_value eC (unat (push_bit 6 sC) * 2 ^ 32)"
    unfolding u iv by (simp add: fma_value_def power_int_diff)
qed

text \<open>The product alone.\<close>

lemma product_round:
  assumes P: "2 ^ 61 \<le> unat P" "unat P < 2 ^ 62" and e: "- 2000 < eP" "eP < 2000"
    and x: "\<bar>x\<bar> * 2 ^ 149 = fma_value eP (unat P)"
  shows "fst (softfloat_roundPackToF32 sign (eP - 1) (softfloat_shortShiftRightJam64 P 31) st) =
    fround F32 (sf_mode (softfloat_roundingMode st)) sign x"
proof (rule f32p.rp_fround)
  let ?Z = "softfloat_shortShiftRightJam64 P 31"
  have Z: "unat ?Z = jam_shift (unat P) 31" by (simp add: unat_shortShiftRightJam64)
  have q: "2 ^ 30 \<le> unat P div 2 ^ 31" "unat P div 2 ^ 31 < 2 ^ 31"
    using P by (simp_all add: less_eq_div_iff_mult_less_eq less_mult_imp_div_less)
  have "agrees 2 (of_nat (unat P) / 2 ^ 31 :: rat) (unat ?Z)" unfolding Z by (rule agrees_jam_shift [OF agrees_refl]) simp
  then show "agrees (2 ^ (7 - 1)) (of_nat (unat P) / 2 ^ 31 :: rat) (unat ?Z)" by (rule agrees_weaken) simp
  show "unat ?Z < 2 ^ (23 + 1 + 7)" unfolding Z jam_shift_def using or_bit_less [OF q(2)] by simp
  show "eP - 1 \<le> 0 \<or> 2 ^ (23 + 7) \<le> unat ?Z" unfolding Z jam_shift_def or_of_bool using q(1) by simp
  have pw: "(2::rat) powi (eP - 1) = 2 powi eP / 2" by (simp add: power_int_diff)
  show "\<bar>x\<bar> * 2 ^ ulp0 F32 = of_nat (unat P) / 2 ^ 31 * 2 powi (eP - 1) / 2 ^ 7"
    unfolding pw using x by (simp add: F32_def fma_value_def)
qed (use e in simp_all)

lemma fval_signed:
  "fval F a * fval F b = (if fneg a \<noteq> fneg b then - (\<bar>fval F a\<bar> * \<bar>fval F b\<bar>) else \<bar>fval F a\<bar> * \<bar>fval F b\<bar>)"
  using fval_sign [of F a] fval_sign [of F b] by (cases "fneg a"; cases "fneg b"; simp; metis mult_minus_left mult_minus_right minus_minus)

lemma f32_mulAdd_finite:
  fixes a b c :: u32
  assumes a: "ffinite F32 a" and b: "ffinite F32 b" and c: "ffinite F32 c"
  shows "fst (f32_mulAdd a b c st) =
    fresult F32 (sf_mode (softfloat_roundingMode st))
      (if (fneg a \<noteq> fneg b) = fneg c then fneg c else sf_mode (softfloat_roundingMode st) = RDN)
      (fval F32 a * fval F32 b + fval F32 c)"
proof -
  define sp where "sp = (fneg a \<noteq> fneg b)"
  have ne: "expF32UI (ucast a) \<noteq> 0xFF" "expF32UI (ucast b) \<noteq> 0xFF" "expF32UI (ucast c) \<noteq> 0xFF"
    using a b c by (simp_all add: expF32UI_ucast finite32_iff)
  have op: "(0 :: u8) \<noteq> softfloat_mulAdd_subC" "(0 :: u8) \<noteq> softfloat_mulAdd_subProd"
    by (simp_all add: softfloat_mulAdd_subC_def softfloat_mulAdd_subProd_def)
  note unf = f32_mulAdd_def softfloat_mulAddF32_def Let_def zero32_iff mag_bits_eq_0 signF32UI_ucast pack_zero32
  show ?thesis
  proof (cases "fmag a = 0 \<or> fmag b = 0")
    case True
    then have z: "fval F32 a * fval F32 b = 0" by (auto simp: fval_eq_0_iff)
    have "f32_mulAdd a b c st = (if fmag c = 0 \<and> sp \<noteq> fneg c then (fpack (softfloat_roundingMode st = softfloat_round_min) 0, st) else (c, st))"
      using True ne op unfolding unf by (auto simp: sp_def case_prod_beta)
    moreover have "fround F32 (sf_mode (softfloat_roundingMode st)) (fneg c) (fval F32 c) = c" by (rule fround_fval [OF c])
    moreover have "c = fpack (fneg c) 0" if "fmag c = 0" using that fpack_fneg_fmag [of c] by simp
    ultimately show ?thesis
      by (auto simp: z fresult_def fval_eq_0_iff fval_less_0_iff sp_def sf_mode_iff)
  next
    case False
    obtain eA sA where A: "normalized32 (expF32UI (ucast a)) (fracF32UI (ucast a)) = (eA, sA)" by fastforce
    obtain eB sB where B: "normalized32 (expF32UI (ucast b)) (fracF32UI (ucast b)) = (eB, sB)" by fastforce
    define SA SB where "SA = sA OR 0x00800000" and "SB = sB OR 0x00800000"
    obtain eP P where run: "(if push_bit 7 SA * push_bit 7 SB < 0x2000000000000000
       then (eA + eB - 0x7E - 1, push_bit 1 (push_bit 7 SA * push_bit 7 SB))
       else (eA + eB - 0x7E, push_bit 7 SA * push_bit 7 SB)) = (eP, P)" by fastforce
    note partsA = normalized32_parts [OF a _ A, folded SA_def]
    note partsB = normalized32_parts [OF b _ B, folded SB_def]
    have prod: "2 ^ 61 \<le> unat P" "unat P < 2 ^ 62" "even (unat P)" "- 172 \<le> eP" "eP \<le> 382"
      "of_nat (ival 23 (fmag a)) * of_nat (ival 23 (fmag b)) / 2 ^ 149 = fma_value eP (unat P)"
      using product_normal [OF partsA(1) partsB(1) partsA(2,3) partsB(2,3) run] False by simp_all
    have pv: "\<bar>fval F32 a\<bar> * \<bar>fval F32 b\<bar> * 2 ^ 149 = fma_value eP (unat P)"
      unfolding prod(6) [symmetric] by (simp add: abs_fval F32_def)
    have pos: "0 < \<bar>fval F32 a\<bar> * \<bar>fval F32 b\<bar>" using False by (simp add: fval_eq_0_iff)
    have mul: "fval F32 a * fval F32 b = (if sp then - (\<bar>fval F32 a\<bar> * \<bar>fval F32 b\<bar>) else \<bar>fval F32 a\<bar> * \<bar>fval F32 b\<bar>)"
      unfolding sp_def by (rule fval_signed)
    show ?thesis
    proof (cases "fmag c = 0")
      case True
      have "f32_mulAdd a b c st = softfloat_roundPackToF32 sp (eP - 1) (softfloat_shortShiftRightJam64 P 31) st"
        using False True ne op run unfolding unf A B SA_def SB_def by (simp add: sp_def)
      moreover have "fst (softfloat_roundPackToF32 sp (eP - 1) (softfloat_shortShiftRightJam64 P 31) st) =
          fround F32 (sf_mode (softfloat_roundingMode st)) sp (fval F32 a * fval F32 b)"
        using prod pv by (intro product_round) (simp_all add: abs_mult)
      moreover have "fval F32 c = 0" using True by (simp add: fval_eq_0_iff)
      moreover have "(if sp then - u else u) \<noteq> 0 \<and> ((if sp then - u else u) < 0 \<longleftrightarrow> sp)" if "0 < u" for u :: rat
        using that by simp
      then have "fval F32 a * fval F32 b \<noteq> 0 \<and> (fval F32 a * fval F32 b < 0 \<longleftrightarrow> sp)"
        unfolding mul using pos by blast
      ultimately show ?thesis by (simp add: fresult_def)
    next
      case cnz: False
      obtain eC sC where C: "normalized32 (expF32UI (ucast c)) (fracF32UI (ucast c)) = (eC, sC)" by fastforce
      define SC where "SC = push_bit 6 (sC OR 0x00800000)"
      note partsC = normalized32_parts [OF c cnz C]
      note addend = addend_aligned [OF partsC(1), folded SC_def]
      have cv: "\<bar>fval F32 c\<bar> * 2 ^ 149 = fma_value eC (unat SC * 2 ^ 32)"
        unfolding addend(4) [symmetric] by (simp add: abs_fval F32_def)
      have cpos: "0 < \<bar>fval F32 c\<bar>" using cnz by (simp add: fval_eq_0_iff)
      have range: "- 2000 < eP" "eP < 2000" "- 2000 < eC" "eC < 2000" using prod partsC by simp_all
      have body: "f32_mulAdd a b c st =
          (if sp = fneg c then (let (expZ, sigZ) = mulAdd_same_signs eP P eC SC in softfloat_roundPackToF32 sp expZ sigZ st)
           else case mulAdd_different_signs sp (fneg c) eP P eC SC of
                  None \<Rightarrow> (fpack (softfloat_roundingMode st = softfloat_round_min) 0, st)
                | Some (signZ, expZ, sigZ) \<Rightarrow> softfloat_roundPackToF32 signZ expZ sigZ st)"
        using False cnz ne op run unfolding unf A B C SA_def SB_def SC_def by (simp add: sp_def)
      show ?thesis
      proof (cases "sp = fneg c")
        case True
        define x where "x = \<bar>fval F32 a\<bar> * \<bar>fval F32 b\<bar> + \<bar>fval F32 c\<bar>"
        have sum: "fval F32 a * fval F32 b + fval F32 c = (if sp then - x else x)"
          using mul fval_sign [of F32 c] True by (cases sp; simp add: x_def; linarith)
        have x: "0 < x" using pos cpos by (simp add: x_def)
        have "\<bar>x\<bar> * 2 ^ 149 = fma_value eP (unat P) + fma_value eC (unat SC * 2 ^ 32)"
          using x pv cv by (simp add: x_def algebra_simps)
        from same_signs_round [OF prod(1-3) addend(1-3) range this, of sp st]
        have "fst (f32_mulAdd a b c st) = fround F32 (sf_mode (softfloat_roundingMode st)) sp x"
          unfolding body if_P [OF True] .
        moreover have "fround F32 m n (- x) = (fround F32 m n x :: u32)" for m n by (rule fround_cong) simp
        ultimately show ?thesis using x unfolding sum by (auto simp: fresult_def)
      next
        case diff: False
        define x where "x = \<bar>fval F32 a\<bar> * \<bar>fval F32 b\<bar> - \<bar>fval F32 c\<bar>"
        have sum: "fval F32 a * fval F32 b + fval F32 c = (if sp then - x else x)"
          using mul fval_sign [of F32 c] diff by (cases sp; simp add: x_def; linarith)
        have "x * 2 ^ 149 = fma_value eP (unat P) - fma_value eC (unat SC * 2 ^ 32)"
          using pv cv by (simp add: x_def algebra_simps)
        from different_signs_round [OF prod(1-3) addend(1,2) range this, of sp st]
        have "fst (f32_mulAdd a b c st) = (if x = 0 then fpack (sf_mode (softfloat_roundingMode st) = RDN) 0
            else fround F32 (sf_mode (softfloat_roundingMode st)) (if x < 0 then \<not> sp else sp) x)"
          using diff unfolding body by (auto simp: sf_mode_iff split: option.splits prod.splits)
        moreover have "fround F32 m n (- x) = (fround F32 m n x :: u32)" for m n by (rule fround_cong) simp
        ultimately show ?thesis using diff unfolding sum sp_def [symmetric] by (auto simp: fresult_def not_less_iff_gr_or_eq)
      qed
    qed
  qed
qed

section \<open>Infinities and NaNs\<close>

lemma nan_results32:
  "fst (propagateNaN32 x y st) = 0x7FC00000"
  "fst (case softfloat_propagateNaNF32UI x y st of (uiZ, st) \<Rightarrow> propagateNaN32 uiZ z st) = 0x7FC00000"
  by (simp_all add: propagateNaN32_def softfloat_propagateNaNF32UI_def defaultNaNF32UI_def)

lemma class32_cases:
  fixes a :: u32
  obtains (finite) "\<not> finf F32 a" "\<not> fnan F32 a" "expF32UI (ucast a) \<noteq> 0xFF"
  | (inf) "finf F32 a" "\<not> fnan F32 a" "expF32UI (ucast a) = 0xFF" "fracF32UI (ucast a) = 0" "fmag a \<noteq> 0"
  | (nan) "\<not> finf F32 a" "fnan F32 a" "expF32UI (ucast a) = 0xFF" "fracF32UI (ucast a) \<noteq> 0"
proof (cases rule: class32_elim [of a])
  case finite
  then show ?thesis using that(1) excl_finite [OF finite(1)] by simp
next
  case inf
  then show ?thesis using that(2) excl_inf [OF inf(1)] inf_nonzero [OF inf(1)] by simp
next
  case nan
  then show ?thesis using that(3) excl_nan [OF nan(1)] by simp
qed

lemma f32_mulAdd_special:
  fixes a b c :: u32
  assumes "\<not> (ffinite F32 a \<and> ffinite F32 b \<and> ffinite F32 c)"
  shows "fst (f32_mulAdd a b c st) =
    (if fnan F32 a \<or> fnan F32 b \<or> fnan F32 c \<or> finf F32 a \<and> fmag b = 0 \<or> fmag a = 0 \<and> finf F32 b \<or>
        (finf F32 a \<or> finf F32 b) \<and> finf F32 c \<and> (fneg a \<noteq> fneg b) \<noteq> fneg c then 0x7FC00000
     else if finf F32 a \<or> finf F32 b then fpack (fneg a \<noteq> fneg b) 0x7F800000 else c)"
proof -
  have op: "(0 :: u8) \<noteq> softfloat_mulAdd_subC" "(0 :: u8) \<noteq> softfloat_mulAdd_subProd"
    by (simp_all add: softfloat_mulAdd_subC_def softfloat_mulAdd_subProd_def)
  have z: "word_of_int 0xFF OR x \<noteq> 0" "0xFF OR x \<noteq> 0" for x :: u64 by (simp_all add: or_eq_0_iff_u64)
  note unf = f32_mulAdd_def softfloat_mulAddF32_def Let_def pack_inf32_neg signF32UI_ucast mag_bits_eq_0
  note cases = class32_cases [of a] class32_cases [of b] class32_cases [of c]
  note ev = nan_results32 z op op [symmetric]
  show ?thesis
  proof (cases rule: class32_cases [of a])
    case nan
    then show ?thesis unfolding unf by (simp add: ev)
  next
    case inf
    note a = inf
    show ?thesis
    proof (cases rule: class32_cases [of b])
      case nan
      then show ?thesis using a unfolding unf by (simp add: ev)
    next
      case inf
      note b = inf
      show ?thesis using a b unfolding unf by (cases rule: cases(3)) (simp_all add: ev)
    next
      case finite
      note b = finite
      show ?thesis using a b unfolding unf by (cases rule: cases(3)) (simp_all add: ev)
    qed
  next
    case finite
    note a = finite
    show ?thesis
    proof (cases rule: class32_cases [of b])
      case nan
      then show ?thesis using a unfolding unf by (simp add: ev)
    next
      case inf
      note b = inf
      show ?thesis using a b unfolding unf by (cases rule: cases(3)) (simp_all add: ev)
    next
      case finite
      note b = finite
      show ?thesis
      proof (cases rule: class32_cases [of c])
        case nan
        then show ?thesis using a b unfolding unf by (simp add: ev)
      next
        case inf
        then show ?thesis using a b unfolding unf by (simp add: ev)
      next
        case finite
        then show ?thesis using assms a b by (simp add: special_cases32)
      qed
    qed
  qed
qed

lemma f32_mulAdd_ieee:
  "fst (f32_mulAdd a b c st) = ieee_fma F32 (sf_mode (softfloat_roundingMode st)) a b c"
proof (cases "ffinite F32 a \<and> ffinite F32 b \<and> ffinite F32 c")
  case True
  then have "\<not> fnan F32 w \<and> \<not> finf F32 w" if "w \<in> {a, b, c}" for w using that by (auto simp: special_cases32)
  with True show ?thesis by (simp add: f32_mulAdd_finite ieee_fma_def)
next
  case False
  then show ?thesis
    unfolding f32_mulAdd_special [OF False] by (auto simp: ieee_fma_def special_cases32 infty32)
qed

text \<open>
  C11: \<open>f32_mulAdd\<close> is the IEEE 754 fused multiply-add in the selected rounding mode: on every triple
  of encodings its result is the exact value of the product plus the third operand, rounded once,
  with the sign rule for an exact zero and the rules for infinities and NaNs (an infinity times zero
  is invalid whatever is added).
\<close>

theorem f32_mulAdd_correct:
  "fst (f32_mulAdd a b c st) = ieee_fma F32 (sf_mode (softfloat_roundingMode st)) a b c"
  by (rule f32_mulAdd_ieee)

end
