(* ===== verification/Vu_Examples.thy ===== *)
theory Vu_Examples
  imports Vu_Sum Sf_Mul_Add
begin

text \<open>
  The properties of the vector unit's arithmetic applied to the model of the multiple-precision
  library on concrete operands, with the results worked out.
\<close>

section \<open>Values\<close>

lemma fval_examples: "fval F32 (0x3F800000::u32) = 1" "fval F32 (0x40400000::u32) = 3" "fval F32 (0x80000000::u32) = 0"
  "fval F32 (0xBF800000::u32) = - 1"
  by (simp_all add: fval_eq fneg_def fmag_def F32_def ival_def Let_def)

lemma sign_examples: "fneg (0x3F800000::u32) = False" "fneg (0x40400000::u32) = False" "fneg (0xBF800000::u32) = True"
  "fmag (0x3F800000::u32) = 0x3F800000" "fmag (0x40400000::u32) = 0x40400000" "fmag (0xBF800000::u32) = 0x3F800000"
  by (simp_all add: fneg_def fmag_def)

lemma finite_examples: "w \<in> {0x3F800000, 0x40400000, 0xBF800000, 0x80000000 :: u32} \<Longrightarrow> \<not> fnan F32 w \<and> \<not> finf F32 w"
  by (auto simp: fnan_def finf_def fmag_def F32_def)

lemma round_third: "round_code 23 0x7F7FFFFF RNE False (1/3 * 2 ^ 149 :: rat) = 0x3EAAAAAB"
  by (subst round_codeI [of "0x3EAAAAAA"]) (simp_all add: ival_def Let_def)

lemma third: "fround F32 RNE False (1/3) = (0x3EAAAAAB :: u32)"
  using round_third by (simp add: fround_def F32_def fpack_def)

lemma ieee_div_third: "ieee_div F32 RNE (0x3F800000::u32) 0x40400000 = 0x3EAAAAAB"
  unfolding ieee_div_def fval_examples sign_examples using finite_examples by (simp add: third)

lemma math_mode_0: "math_mode 0 = RNE" "math_mode 2 = RDN"
  by (simp_all add: math_mode_def)

lemma f32_val_examples: "f32_val 0x3F800000 = MNum 1" "f32_val 0x40400000 = MNum 3"
  unfolding f32_val_def fval_examples sign_examples using finite_examples by simp_all

lemma vu_round_third: "vu_round 0 0 (1/3) = 0x3EAAAAAB"
proof -
  have "(1/3 :: real) = of_rat (1/3)" by (simp add: of_rat_divide)
  then have "vu_round 0 0 (1/3) = vu_code 0 0 (MNum (of_rat (1/3)))" by (simp only: vu_code.simps)
  then show ?thesis unfolding vu_code_fmt fmt_code_of_rat math_mode_0 by (simp add: third)
qed

section \<open>Rounding a number of the library\<close>

theorem vu_mpfr_to_value_correct_witness:
  "vu_mpfr_to_value mpfr_model (24, MNum 1) 0 0 0 = 0x3F800000 \<and>
   vu_key 0 (vu_mpfr_to_value mpfr_model (24, MNum 1) 0 0 1) \<le> vu_key 0 (vu_round 0 0 2)"
proof -
  have m: "mrep 24 1" using mrep_int [of 1 24] by simp
  have r: "mrange 1" by (rule mrangeI [of 0]) (simp_all add: emax_ge)
  have "msem (24, MNum 1) = MNum 1" "mprec_ok (mpfr_get_prec mpfr_model (24, MNum 1))"
    using m by (simp_all add: mpfr_model_def mprec_ok_def)
  note c = vu_mpfr_to_value_correct [OF mpfr_model_ok this(1) r this(2), of 0 0]
  have "vu_round 0 0 1 = vu_code 0 0 (MNum (of_rat 1))" by simp
  also have "\<dots> = fround F32 RNE False 1" unfolding vu_code_fmt fmt_code_of_rat math_mode_0 by simp
  also have "\<dots> = 0x3F800000"
  proof -
    have "ffinite F32 (0x3F800000 :: u32)" by (simp add: ffinite_def sign_examples F32_def)
    from fround_fval [OF this, of RNE] show ?thesis by (simp only: fval_examples sign_examples)
  qed
  finally show ?thesis using c by simp
qed

section \<open>Arithmetic\<close>



theorem vu_fp_alu_arithmetic_witness: "vu_fp_alu mpfr_model 1 0x08 0x40400000 0x3F800000 0 0 0 = Some 0x3EAAAAAB"
  using vu_fp_alu_arithmetic [OF mpfr_model_ok, of 1 "0x40400000" "0x3F800000" 0 0]
  by (simp add: math_mode_0 ieee_div_third)

text \<open>\<open>2.5 * 2.5 - 1.0\<close> is 5.25.\<close>

lemma ieee_fma_example: "ieee_fma F32 RNE 0x40200000 0x40200000 (fneg_of 0x3F800000) = (0x40A80000 :: u32)"
proof -
  have "fst (f32_mulAdd 0x40200000 0x40200000 0xBF800000 softfloat_init) = 0x40A80000" by code_simp
  moreover have "fneg_of 0x3F800000 = (0xBF800000 :: u32)" using fneg_of_flip [of "0x3F800000 :: u32"] by simp
  ultimately show ?thesis by (simp add: f32_mulAdd_ieee softfloat_init_def sf_mode_def sf_modes)
qed

theorem vu_fp_alu_fused_witness: "vu_fp_alu mpfr_model 1 0x34 0x40200000 0x40200000 0x3F800000 0 0 = Some 0x40A80000"
  using vu_fp_alu_fused [OF mpfr_model_ok, of 1 "0x40200000" "0x40200000" "0x3F800000" 0]
  by (simp add: math_mode_0 ieee_fma_example)

section \<open>Sums\<close>

lemma sum_example: "ieee_sum F32 RDN [0x3F800000, 0xBF800000 :: u32] = 0x80000000"
  using finite_examples by (simp add: ieee_sum_def fval_examples fresult_def fpack_def)

theorem vu_sum_correct_witness:
  "vu_sum_finish mpfr_model (fold (vu_sum_add mpfr_model) [0xBF800000] (vu_sum_create mpfr_model 0x3F800000)) 2 = 0x80000000"
  using vu_sum_correct [OF mpfr_model_ok, of "[0xBF800000]" "0x3F800000" 2] by (simp add: math_mode_0 sum_example)

theorem vu_sum_invariant_witness:
  "sum_inv mpfr_model msem [0xBF800000, 0x3F800000]
     (fold (vu_sum_add mpfr_model) [0xBF800000] (vu_sum_create mpfr_model 0x3F800000))"
  using vu_sum_invariant [OF mpfr_model_ok, of "[0xBF800000]" "0x3F800000"] by simp

theorem vu_sum_order_witness:
  "vu_sum_finish mpfr_model (fold (vu_sum_add mpfr_model) [0xBF800000] (vu_sum_create mpfr_model 0x3F800000)) 2 =
   vu_sum_finish mpfr_model (fold (vu_sum_add mpfr_model) [0x3F800000] (vu_sum_create mpfr_model 0xBF800000)) 2"
  using vu_sum_order [OF mpfr_model_ok, of "[0xBF800000]" "0x3F800000" "0xBF800000" "[0x3F800000]" 2] by simp

end
