(* ===== verification/Sf_Small.thy ===== *)
theory Sf_Small
  imports Sf_Formats
begin

text \<open>
  SoftFloat's packing routines for binary16, bfloat16 and the 8-bit formats E5M2 and E4M3
  (\<open>s_roundPackToF16.c\<close>, \<open>s_roundPackToBF16.c\<close>, \<open>s_roundPackToE5M2.c\<close>, \<open>s_roundPackToE4M3.c\<close>)
  and the normalisation of their subnormals.  binary16, bfloat16 and E5M2 interpret the
  packing interface; E5M2 saturates on request.
\<close>

section \<open>Macros of the 8-bit formats\<close>

definition signF8UI :: "u64 \<Rightarrow> bool" where
  "signF8UI a = (drop_bit 7 (ucast a :: u8) \<noteq> 0)"

definition expE4M3UI :: "u64 \<Rightarrow> int" where
  "expE4M3UI a = uint (drop_bit 3 a AND 0xF)"

definition fracE4M3UI :: "u64 \<Rightarrow> u64" where
  "fracE4M3UI a = a AND 0x7"

definition packToE4M3UI :: "bool \<Rightarrow> int \<Rightarrow> u64 \<Rightarrow> u64" where
  "packToE4M3UI sign e sig =
     push_bit 7 (of_bool sign) + push_bit 3 (ucast (word_of_int e :: u16)) + sig"

definition expE5M2UI :: "u64 \<Rightarrow> int" where
  "expE5M2UI a = uint (drop_bit 2 a AND 0x1F)"

definition fracE5M2UI :: "u64 \<Rightarrow> u64" where
  "fracE5M2UI a = a AND 0x3"

definition packToE5M2UI :: "bool \<Rightarrow> int \<Rightarrow> u64 \<Rightarrow> u64" where
  "packToE5M2UI sign e sig =
     push_bit 7 (of_bool sign) + push_bit 2 (ucast (word_of_int e :: u16)) + sig"

definition defaultNaNE4M3 :: u64 where "defaultNaNE4M3 = 0x7F"
definition defaultNaNE5M2 :: u64 where "defaultNaNE5M2 = 0x7F"

record exp8_sig16 =
  e16_exp :: int
  e16_sig :: u64

record exp8_sig8 =
  e8_exp :: int
  e8_sig :: u8

section \<open>Packing\<close>

text \<open>
  binary16, E5M2 and E4M3 keep four guard bits and compute the same increment; bfloat16 keeps
  seven and computes that of binary32.
\<close>

definition roundIncrementF16 :: "bool \<Rightarrow> u8 \<Rightarrow> u8" where
  "roundIncrementF16 sign roundingMode =
     (let roundNearEven = (roundingMode = softfloat_round_near_even)
      in if \<not> roundNearEven \<and> roundingMode \<noteq> softfloat_round_near_maxMag
         then (if roundingMode = (if sign then softfloat_round_min else softfloat_round_max)
               then 0xF else 0)
         else 0x8)"

definition roundPackF16_return ::
  "bool \<Rightarrow> int \<Rightarrow> u64 \<Rightarrow> u8 \<Rightarrow> u8 \<Rightarrow> sf_state \<Rightarrow> u16 \<times> sf_state" where
  "roundPackF16_return sign e sig roundIncrement roundBits st =
     (let roundingMode = softfloat_roundingMode st;
          roundNearEven = (roundingMode = softfloat_round_near_even);
          sig = drop_bit 4 (sig + ucast roundIncrement);
          st = (if roundBits \<noteq> 0 then softfloat_raiseFlags softfloat_flag_inexact st else st)
      in if roundBits \<noteq> 0 \<and> roundingMode = softfloat_round_odd
         then (ucast (packToF16UI sign e (sig OR 1)), st)
         else let sig = sig AND NOT (of_bool (roundBits XOR 0x8 = 0 \<and> roundNearEven));
                  e = (if sig = 0 then 0 else e)
              in (ucast (packToF16UI sign e sig), st))"

definition softfloat_roundPackToF16 :: "bool \<Rightarrow> int \<Rightarrow> u64 \<Rightarrow> sf_state \<Rightarrow> u16 \<times> sf_state" where
  "softfloat_roundPackToF16 sign e sig st =
     (let roundIncrement = roundIncrementF16 sign (softfloat_roundingMode st);
          roundBits = ucast (sig AND 0xF) :: u8
      in if 0x1D \<le> cast_uint32 e
         then if e < 0
              then let isTiny = (softfloat_detectTininess st = softfloat_tininess_beforeRounding
                           \<or> e < -1 \<or> sig + ucast roundIncrement < 0x8000);
                       sig = ucast (softfloat_shiftRightJam32 (ucast sig) (word_of_int (- e)));
                       roundBits = ucast (sig AND 0xF);
                       st = (if isTiny \<and> roundBits \<noteq> 0
                             then softfloat_raiseFlags softfloat_flag_underflow st else st)
                   in roundPackF16_return sign 0 sig roundIncrement roundBits st
              else if 0x1D < e \<or> 0x8000 \<le> sig + ucast roundIncrement
              then (ucast (packToF16UI sign 0x1F 0 - of_bool (roundIncrement = 0)),
                    softfloat_raiseFlags (softfloat_flag_overflow OR softfloat_flag_inexact) st)
              else roundPackF16_return sign e sig roundIncrement roundBits st
         else roundPackF16_return sign e sig roundIncrement roundBits st)"

definition roundPackBF16_return ::
  "bool \<Rightarrow> int \<Rightarrow> u64 \<Rightarrow> u8 \<Rightarrow> u8 \<Rightarrow> sf_state \<Rightarrow> u16 \<times> sf_state" where
  "roundPackBF16_return sign e sig roundIncrement roundBits st =
     (let roundingMode = softfloat_roundingMode st;
          roundNearEven = (roundingMode = softfloat_round_near_even);
          sig = drop_bit 7 (sig + ucast roundIncrement);
          st = (if roundBits \<noteq> 0 then softfloat_raiseFlags softfloat_flag_inexact st else st)
      in if roundBits \<noteq> 0 \<and> roundingMode = softfloat_round_odd
         then (ucast (packToBF16UI sign e (sig OR 1)), st)
         else let sig = sig AND NOT (of_bool (roundBits XOR 0x40 = 0 \<and> roundNearEven));
                  e = (if sig = 0 then 0 else e)
              in (ucast (packToBF16UI sign e sig), st))"

definition softfloat_roundPackToBF16 :: "bool \<Rightarrow> int \<Rightarrow> u64 \<Rightarrow> sf_state \<Rightarrow> u16 \<times> sf_state" where
  "softfloat_roundPackToBF16 sign e sig st =
     (let roundIncrement = roundIncrementF32 sign (softfloat_roundingMode st);
          roundBits = ucast (sig AND 0x7F) :: u8
      in if 0xFD \<le> cast_uint32 e
         then if e < 0
              then let isTiny = (softfloat_detectTininess st = softfloat_tininess_beforeRounding
                           \<or> e < -1 \<or> sig + ucast roundIncrement < 0x8000);
                       sig = ucast (softfloat_shiftRightJam32 (ucast sig) (word_of_int (- e)));
                       roundBits = ucast (sig AND 0x7F);
                       st = (if isTiny \<and> roundBits \<noteq> 0
                             then softfloat_raiseFlags softfloat_flag_underflow st else st)
                   in roundPackBF16_return sign 0 sig roundIncrement roundBits st
              else if 0xFD < e \<or> 0x8000 \<le> sig + ucast roundIncrement
              then (ucast (packToBF16UI sign 0xFF 0 - of_bool (roundIncrement = 0)),
                    softfloat_raiseFlags (softfloat_flag_overflow OR softfloat_flag_inexact) st)
              else roundPackBF16_return sign e sig roundIncrement roundBits st
         else roundPackBF16_return sign e sig roundIncrement roundBits st)"

definition roundPackE5M2_return ::
  "bool \<Rightarrow> int \<Rightarrow> u64 \<Rightarrow> u8 \<Rightarrow> u8 \<Rightarrow> sf_state \<Rightarrow> u8 \<times> sf_state" where
  "roundPackE5M2_return sign e sig roundIncrement roundBits st =
     (let roundingMode = softfloat_roundingMode st;
          roundNearEven = (roundingMode = softfloat_round_near_even);
          sig = drop_bit 4 (sig + ucast roundIncrement);
          st = (if roundBits \<noteq> 0 then softfloat_raiseFlags softfloat_flag_inexact st else st)
      in if roundBits \<noteq> 0 \<and> roundingMode = softfloat_round_odd
         then (ucast (packToE5M2UI sign e (sig OR 1)), st)
         else let sig = sig AND NOT (of_bool (roundBits XOR 0x8 = 0 \<and> roundNearEven));
                  e = (if sig = 0 then 0 else e)
              in (ucast (packToE5M2UI sign e sig), st))"

definition softfloat_roundPackToE5M2 :: "bool \<Rightarrow> int \<Rightarrow> u64 \<Rightarrow> bool \<Rightarrow> sf_state \<Rightarrow> u8 \<times> sf_state" where
  "softfloat_roundPackToE5M2 sign e sig saturationMode st =
     (let roundIncrement = roundIncrementF16 sign (softfloat_roundingMode st);
          roundBits = ucast (sig AND 0xF) :: u8
      in if 0x1D \<le> cast_uint32 e
         then if e < 0
              then let isTiny = (softfloat_detectTininess st = softfloat_tininess_beforeRounding
                           \<or> e < -1 \<or> sig + ucast roundIncrement < 0x80);
                       sig = ucast (softfloat_shiftRightJam32 (ucast sig) (word_of_int (- e)));
                       roundBits = ucast (sig AND 0xF);
                       st = (if isTiny \<and> roundBits \<noteq> 0
                             then softfloat_raiseFlags softfloat_flag_underflow st else st)
                   in roundPackE5M2_return sign 0 sig roundIncrement roundBits st
              else if 0x1D < e \<or> 0x80 \<le> sig + ucast roundIncrement
              then ((if saturationMode then ucast (packToE5M2UI sign 0x1E 3)
                    else ucast (packToE5M2UI sign 0x1F 0 - of_bool (roundIncrement = 0))),
                    softfloat_raiseFlags (softfloat_flag_overflow OR softfloat_flag_inexact) st)
              else roundPackE5M2_return sign e sig roundIncrement roundBits st
         else roundPackE5M2_return sign e sig roundIncrement roundBits st)"

definition roundPackE4M3_return ::
  "bool \<Rightarrow> int \<Rightarrow> u64 \<Rightarrow> u8 \<Rightarrow> u8 \<Rightarrow> sf_state \<Rightarrow> u8 \<times> sf_state" where
  "roundPackE4M3_return sign e sig roundIncrement roundBits st =
     (let roundingMode = softfloat_roundingMode st;
          roundNearEven = (roundingMode = softfloat_round_near_even);
          sig = drop_bit 4 (sig + ucast roundIncrement);
          st = (if roundBits \<noteq> 0 then softfloat_raiseFlags softfloat_flag_inexact st else st)
      in if roundBits \<noteq> 0 \<and> roundingMode = softfloat_round_odd
         then (ucast (packToE4M3UI sign e (sig OR 1)), st)
         else let sig = sig AND NOT (of_bool (roundBits XOR 0x8 = 0 \<and> roundNearEven));
                  e = (if sig = 0 then 0 else e)
              in (ucast (packToE4M3UI sign e sig), st))"

definition softfloat_roundPackToE4M3 :: "bool \<Rightarrow> int \<Rightarrow> u64 \<Rightarrow> bool \<Rightarrow> sf_state \<Rightarrow> u8 \<times> sf_state" where
  "softfloat_roundPackToE4M3 sign e sig saturationMode st =
     (let roundIncrement = roundIncrementF16 sign (softfloat_roundingMode st);
          roundBits = ucast (sig AND 0xF) :: u8
      in if 0xE \<le> cast_uint32 e
         then if e < 0
              then let isTiny = (softfloat_detectTininess st = softfloat_tininess_beforeRounding
                           \<or> e < -1 \<or> sig + ucast roundIncrement < 0x100);
                       sig = ucast (softfloat_shiftRightJam32 (ucast sig) (word_of_int (- e)));
                       roundBits = ucast (sig AND 0xF);
                       st = (if isTiny \<and> roundBits \<noteq> 0
                             then softfloat_raiseFlags softfloat_flag_underflow st else st)
                   in roundPackE4M3_return sign 0 sig roundIncrement roundBits st
              else if 0xE < e \<or> 0xF0 + of_bool (softfloat_roundingMode st = softfloat_round_near_even) \<le> sig + ucast roundIncrement
              then ((if saturationMode \<or> roundIncrement = 0 then ucast (packToE4M3UI sign 0xF 6)
                    else ucast defaultNaNE4M3),
                    softfloat_raiseFlags (softfloat_flag_overflow OR softfloat_flag_inexact) st)
              else roundPackE4M3_return sign e sig roundIncrement roundBits st
         else roundPackE4M3_return sign e sig roundIncrement roundBits st)"

definition softfloat_normSubnormalF16Sig :: "u64 \<Rightarrow> exp8_sig16" where
  "softfloat_normSubnormalF16Sig sig =
     (let shiftDist = int (unat (softfloat_countLeadingZeros16 (ucast sig))) - 5
      in \<lparr>e16_exp = 1 - shiftDist, e16_sig = push_bit (nat shiftDist) sig\<rparr>)"

definition softfloat_normRoundPackToF16 :: "bool \<Rightarrow> int \<Rightarrow> u64 \<Rightarrow> sf_state \<Rightarrow> u16 \<times> sf_state" where
  "softfloat_normRoundPackToF16 sign e sig st =
     (let shiftDist = int (unat (softfloat_countLeadingZeros16 (ucast sig))) - 1;
          e = e - shiftDist
      in if 4 \<le> shiftDist \<and> cast_uint32 e < 0x1D
         then (ucast (packToF16UI sign (if sig \<noteq> 0 then e else 0)
                 (push_bit (nat (shiftDist - 4)) sig)), st)
         else softfloat_roundPackToF16 sign e (push_bit (nat shiftDist) sig) st)"

definition softfloat_normSubnormalE4M3Sig :: "u8 \<Rightarrow> exp8_sig8" where
  "softfloat_normSubnormalE4M3Sig sig =
     (let shiftDist = int (unat (softfloat_countLeadingZeros8 ! unat sig)) - 4
      in \<lparr>e8_exp = 1 - shiftDist, e8_sig = push_bit (nat shiftDist) sig\<rparr>)"

definition softfloat_normSubnormalE5M2Sig :: "u8 \<Rightarrow> exp8_sig8" where
  "softfloat_normSubnormalE5M2Sig sig =
     (let shiftDist = (if sig AND 0x2 \<noteq> 0 then 1 else 2)
      in \<lparr>e8_exp = 1 - shiftDist, e8_sig = push_bit (nat shiftDist) sig\<rparr>)"

section \<open>Fields as numbers\<close>

lemma unat_pack_fields:
  fixes s :: u64
  assumes "0 \<le> e" "nat e * 2 ^ j < 2 ^ 16" "of_bool sign * 2 ^ k + nat e * 2 ^ j + unat s < 2 ^ 64" "k < 64"
  shows "unat (push_bit k (of_bool sign) + push_bit j (ucast (word_of_int e :: u16)) + s) =
    of_bool sign * 2 ^ k + nat e * 2 ^ j + unat s"
proof -
  have ne: "nat e < 2 ^ 16"
    using assms(2) by (rule le_less_trans [rotated]) simp
  then have "unat (word_of_int e :: u16) = nat e"
    using assms(1) by (intro unat_word_of_int_nonneg) simp_all
  then have u: "unat (ucast (word_of_int e :: u16) :: u64) = nat e"
    using ne by (subst unat_ucast_less) simp_all
  have pe: "unat (push_bit j (ucast (word_of_int e :: u16)) :: u64) = nat e * 2 ^ j"
    by (rule trans [OF unat_push_bit_less]) (use assms(2) in \<open>simp_all only: u, simp\<close>)
  have ps: "unat (push_bit k (of_bool sign :: u64)) = of_bool sign * 2 ^ k"
    using assms(4) by (cases sign) (simp_all add: unat_push_1 del: push_bit_of_1 push_bit_eq_mult)
  have "unat (push_bit k (of_bool sign) + push_bit j (ucast (word_of_int e :: u16)) :: u64) =
      of_bool sign * 2 ^ k + nat e * 2 ^ j"
    by (rule trans [OF unat_add_less]) (use assms(3) in \<open>simp_all only: pe ps, simp\<close>)
  then show ?thesis
    by (intro trans [OF unat_add_less]) (use assms(3) in \<open>simp_all only:, simp\<close>)
qed

lemma unat_roundIncrementF16: "unat (roundIncrementF16 sign r) = round_inc (sf_mode r) sign 4"
  by (auto simp: roundIncrementF16_def round_inc_def sf_mode_def sf_modes)

lemma round_bits16:
  "(ucast (sig AND 0xF) :: u8) = 0 \<longleftrightarrow> sig AND mask 4 = (0 :: u64)"
  "(ucast (sig AND 0xF) :: u8) XOR 0x8 = 0 \<longleftrightarrow> sig AND mask 4 = (push_bit 3 1 :: u64)"
proof -
  have u: "unat (ucast (sig AND 0xF) :: u8) = unat sig mod 2 ^ 4"
    by (subst unat_ucast_less; simp only: unat_ops) (simp add: mod_less_divisor [THEN less_trans])
  show "(ucast (sig AND 0xF) :: u8) = 0 \<longleftrightarrow> sig AND mask 4 = 0"
    by (simp only: word_unat_eq_iff u unat_and_mask unsigned_0)
  show "(ucast (sig AND 0xF) :: u8) XOR 0x8 = 0 \<longleftrightarrow> sig AND mask 4 = push_bit 3 1"
    unfolding xor_eq_0_iff by (simp only: word_unat_eq_iff u unat_and_mask) simp
qed

lemma shift_jam_law:
  fixes s :: u64
  assumes "- (2 ^ 31) < e" "e < 0" "unat s < 2 ^ 31"
  shows "unat (ucast (softfloat_shiftRightJam32 (ucast s) (word_of_int (- e))) :: u64) = jam_shift (unat s) (nat (- e))"
proof -
  have d: "unat (word_of_int (- e) :: u64) = nat (- e)"
    by (rule unat_word_of_int_nonneg) (use assms in simp_all)
  have us: "unat (ucast s :: u32) = unat s" by (rule unat_ucast_less) (use assms(3) in simp)
  have "unat (softfloat_shiftRightJam32 (ucast s) (word_of_int (- e))) = jam_shift (unat s) (nat (- e))"
    using assms(2) by (subst unat_shiftRightJam32) (simp_all only: d us)
  then show ?thesis
    using jam_shift_less [OF assms(3), of "nat (- e)"] by (subst unat_ucast_less) simp_all
qed

section \<open>The packing interface\<close>

interpretation f16p: word_packer F16 10 4 "0x1D" "- (2 ^ 31)" "2 ^ 31"
  "\<lambda>sign r. ucast (roundIncrementF16 sign r)" packToF16UI
  "\<lambda>s d. ucast (softfloat_shiftRightJam32 (ucast s) (word_of_int d))"
  "\<lambda>sign e sig st. roundPackF16_return sign e sig
     (roundIncrementF16 sign (softfloat_roundingMode st)) (ucast (sig AND 0xF)) st"
  "softfloat_roundPackToF16"
proof (unfold_locales, goal_cases)
  case (8 sign r)
  show ?case
    using unat_lt_8 [of "roundIncrementF16 sign r"]
    by (subst unat_ucast_less; simp only: unat_roundIncrementF16) simp
next
  case (9 e s sign)
  have "nat e \<le> 31" using 9(3) by auto
  moreover have "unat s \<le> 2048" using 9(2) by simp
  moreover have "of_bool sign * 32768 \<le> (32768 :: nat)" by simp
  ultimately show ?case
    unfolding packToF16UI_def using 9(1) by (subst unat_pack_fields) auto
next
  case (10 e s)
  then show ?case by (intro shift_jam_law) simp_all
next
  case (11 sign e sig st)
  show ?case by (simp add: roundPackF16_return_def Let_def round_bits16)
next
  case (12 e sign sig st)
  then have cast: "0x1D \<le> cast_uint32 e" by (simp add: cast_uint32_neg)
  show ?case
    unfolding softfloat_roundPackToF16_def Let_def if_P [OF cast] if_P [OF 12(2)]
    by (simp add: round_bits16)
next
  case (13 e sign sig st)
  then have "cast_uint32 e = e" "\<not> e < 0" by (simp_all add: cast_uint32_id)
  then show ?case by (simp add: softfloat_roundPackToF16_def Let_def)
qed (simp_all add: F16_def)

interpretation bf16p: word_packer BF16 7 7 "0xFD" "- (2 ^ 31)" "2 ^ 31"
  "\<lambda>sign r. ucast (roundIncrementF32 sign r)" packToBF16UI
  "\<lambda>s d. ucast (softfloat_shiftRightJam32 (ucast s) (word_of_int d))"
  "\<lambda>sign e sig st. roundPackBF16_return sign e sig
     (roundIncrementF32 sign (softfloat_roundingMode st)) (ucast (sig AND 0x7F)) st"
  "softfloat_roundPackToBF16"
proof (unfold_locales, goal_cases)
  case (8 sign r)
  show ?case
    using unat_lt_8 [of "roundIncrementF32 sign r"]
    by (subst unat_ucast_less; simp only: unat_roundIncrementF32) simp
next
  case (9 e s sign)
  have "nat e \<le> 255" using 9(3) by auto
  moreover have "unat s \<le> 256" using 9(2) by simp
  moreover have "of_bool sign * 32768 \<le> (32768 :: nat)" by simp
  ultimately show ?case
    unfolding packToBF16UI_def using 9(1) by (subst unat_pack_fields) auto
next
  case (10 e s)
  then show ?case by (intro shift_jam_law) simp_all
next
  case (11 sign e sig st)
  show ?case by (simp add: roundPackBF16_return_def Let_def round_bits32)
next
  case (12 e sign sig st)
  then have cast: "0xFD \<le> cast_uint32 e" by (simp add: cast_uint32_neg)
  show ?case
    unfolding softfloat_roundPackToBF16_def Let_def if_P [OF cast] if_P [OF 12(2)]
    by (simp add: round_bits32)
next
  case (13 e sign sig st)
  then have "cast_uint32 e = e" "\<not> e < 0" by (simp_all add: cast_uint32_id)
  then show ?case by (simp add: softfloat_roundPackToBF16_def Let_def)
qed (simp_all add: BF16_def)

interpretation e5m2p: word_packer E5M2 2 4 "0x1D" "- (2 ^ 31)" "2 ^ 31"
  "\<lambda>sign r. ucast (roundIncrementF16 sign r)" packToE5M2UI
  "\<lambda>s d. ucast (softfloat_shiftRightJam32 (ucast s) (word_of_int d))"
  "\<lambda>sign e sig st. roundPackE5M2_return sign e sig
     (roundIncrementF16 sign (softfloat_roundingMode st)) (ucast (sig AND 0xF)) st"
  "\<lambda>sign e sig st. softfloat_roundPackToE5M2 sign e sig False st"
proof (unfold_locales, goal_cases)
  case (8 sign r)
  show ?case
    using unat_lt_8 [of "roundIncrementF16 sign r"]
    by (subst unat_ucast_less; simp only: unat_roundIncrementF16) simp
next
  case (9 e s sign)
  have "nat e \<le> 31" using 9(3) by auto
  moreover have "unat s \<le> 8" using 9(2) by simp
  moreover have "of_bool sign * 128 \<le> (128 :: nat)" by simp
  ultimately show ?case
    unfolding packToE5M2UI_def using 9(1) by (subst unat_pack_fields) auto
next
  case (10 e s)
  then show ?case by (intro shift_jam_law) simp_all
next
  case (11 sign e sig st)
  show ?case by (simp add: roundPackE5M2_return_def Let_def round_bits16)
next
  case (12 e sign sig st)
  then have cast: "0x1D \<le> cast_uint32 e" by (simp add: cast_uint32_neg)
  show ?case
    unfolding softfloat_roundPackToE5M2_def Let_def if_P [OF cast] if_P [OF 12(2)]
    by (simp add: round_bits16)
next
  case (13 e sign sig st)
  then have "cast_uint32 e = e" "\<not> e < 0" by (simp_all add: cast_uint32_id)
  then show ?case by (simp add: softfloat_roundPackToE5M2_def Let_def)
qed (simp_all add: E5M2_def)


text \<open>The macros of the 8-bit formats take their fields apart.\<close>

interpretation e5m2f: float_fields 2 5 "TYPE(8)" signF8UI expE5M2UI fracE5M2UI
  by unfold_locales (simp_all add: signF8UI_def sign_macro expE5M2UI_def fracE5M2UI_def mask_eq_exp_minus_1)

interpretation e4m3f: float_fields 3 4 "TYPE(8)" signF8UI expE4M3UI fracE4M3UI
  by unfold_locales (simp_all add: signF8UI_def sign_macro expE4M3UI_def fracE4M3UI_def mask_eq_exp_minus_1)

section \<open>Saturation\<close>

lemma pack_sig_less:
  assumes "n + round_inc m neg g < 2 ^ (k + g)" "0 < k"
  shows "pack_sig m neg g n < 2 ^ k"
proof -
  have q: "(n + round_inc m neg g) div 2 ^ g < 2 ^ k"
    using assms(1) by (intro less_mult_imp_div_less) (simp add: power_add)
  then have "(n + round_inc m neg g) div 2 ^ g OR of_bool True < 2 ^ k" using assms(2) by (rule or_bit_less)
  then show ?thesis using q by (auto simp: pack_sig_def Let_def intro: le_less_trans [OF diff_le_self])
qed

text \<open>With saturation \<open>softfloat_roundPackToE5M2\<close> differs on overflow only.\<close>

lemma e5m2_saturating:
  assumes n: "unat sig < 2 ^ 7" "e \<le> 0 \<or> 2 ^ 6 \<le> unat sig" and e: "- (2 ^ 31) < e" "e < 2 ^ 31"
  shows "fst (softfloat_roundPackToE5M2 sign e sig True st) =
    fpack sign (min 0x7B (fmag (fst (softfloat_roundPackToE5M2 sign e sig False st))))"
proof -
  define m where "m = sf_mode (softfloat_roundingMode st)"
  define over where "over \<longleftrightarrow> \<not> e < 0 \<and> (29 < e \<or> e = 29 \<and> 2 ^ 7 \<le> unat sig + round_inc m sign 4)"
  have rp: "fst (softfloat_roundPackToE5M2 sign e sig False st) = fpack sign (pack_code 2 4 29 m sign e (unat sig))"
    using e5m2p.rp_law [of sig e sign st] n e by (simp add: m_def)
  have le: "round_inc m sign 4 \<le> 15" by (auto simp: round_inc_def)
  have sm: "0x80 \<le> sig + ucast (roundIncrementF16 sign (softfloat_roundingMode st)) \<longleftrightarrow> 2 ^ 7 \<le> unat sig + round_inc m sign 4"
    using e5m2p.unat_sum [of sig sign "softfloat_roundingMode st"] n(1) by (simp add: word_le_nat_alt m_def)
  have pcb: "pack_code 2 4 29 m sign e (unat sig) \<le> 0x7C \<and> (\<not> over \<longrightarrow> pack_code 2 4 29 m sign e (unat sig) \<le> 0x7B)
      \<and> (over \<longrightarrow> 0x7B \<le> pack_code 2 4 29 m sign e (unat sig))"
  proof (cases "e < 0")
    case True
    have "pack_sig m sign 4 (jam_shift (unat sig) (nat (- e))) \<le> 2 ^ 3"
      by (rule pack_sig_le) (use jam_shift_less [OF n(1)] in \<open>simp_all add: m_def\<close>)
    then show ?thesis using True by (simp add: over_def pack_code_def)
  next
    case False
    show ?thesis
    proof (cases over)
      case True
      then show ?thesis using False by (auto simp: over_def pack_code_def)
    next
      case no: False
      have le8: "pack_sig m sign 4 (unat sig) \<le> 2 ^ 3" by (rule pack_sig_le) (use n in \<open>simp_all add: m_def\<close>)
      have "nat e * 4 + pack_sig m sign 4 (unat sig) \<le> 0x7B"
      proof (cases "e = 29")
        case True
        then have "pack_sig m sign 4 (unat sig) < 2 ^ 3" using no False by (intro pack_sig_less) (simp_all add: over_def)
        then show ?thesis using True by simp
      next
        case False
        then have "nat e \<le> 28" using no \<open>\<not> e < 0\<close> by (auto simp: over_def)
        then show ?thesis using le8 by simp
      qed
      then show ?thesis using no False by (auto simp: over_def pack_code_def)
    qed
  qed
  then have pc: "min 0x7B (pack_code 2 4 29 m sign e (unat sig)) =
      (if over then 0x7B else pack_code 2 4 29 m sign e (unat sig))" by auto
  have lt: "pack_code 2 4 29 m sign e (unat sig) < 2 ^ (LENGTH(8) - 1)"
    using pcb by simp
  have "fst (softfloat_roundPackToE5M2 sign e sig True st) =
      (if over then ucast (packToE5M2UI sign 0x1E 3) else fst (softfloat_roundPackToE5M2 sign e sig False st))"
  proof (cases "e < 0")
    case True
    then have "29 \<le> cast_uint32 e" using e by (simp add: cast_uint32_neg)
    then show ?thesis using True by (simp add: softfloat_roundPackToE5M2_def Let_def over_def)
  next
    case False
    then have "cast_uint32 e = e" using e by (simp add: cast_uint32_id)
    then show ?thesis using False by (simp add: softfloat_roundPackToE5M2_def Let_def over_def sm)
  qed
  moreover have "(ucast (packToE5M2UI sign 0x1E 3) :: u8) = fpack sign 0x7B"
    by (rule word_eq_fpackI) (simp add: packToE5M2UI_def unat_pack_fields unat_ucast_less)
  ultimately show ?thesis unfolding rp using lt pc by simp
qed

end
