(* ===== verification/Sf_Convert.thy ===== *)
theory Sf_Convert
  imports Sf_F32_Arith Sf_Small
begin

text \<open>
  SoftFloat's conversions between binary32, binary16, bfloat16, E5M2 and E4M3
  (\<open>f32_to_f16.c\<close>, \<open>f32_to_bf16.c\<close>, \<open>f32_to_e5m2.c\<close>, \<open>f32_to_e4m3.c\<close>, \<open>f16_to_e5m2.c\<close>,
  \<open>f16_to_e4m3.c\<close>, \<open>bf16_to_e5m2.c\<close>, \<open>bf16_to_e4m3.c\<close>, \<open>f16_to_f32.c\<close>, \<open>bf16_to_f32.c\<close>,
  \<open>e5m2_to_f16.c\<close>, \<open>e5m2_to_bf16.c\<close>, \<open>e4m3_to_f16.c\<close>, \<open>e4m3_to_bf16.c\<close>) and the bfloat16
  arithmetic, which is binary32 arithmetic between two conversions.
\<close>

section \<open>NaN conversion\<close>

definition softfloat_f32UIToCommonNaN :: "u64 \<Rightarrow> sf_state \<Rightarrow> sf_state" where
  "softfloat_f32UIToCommonNaN uiA st =
     (if uiA AND 0x00400000 = 0 then softfloat_raiseFlags softfloat_flag_invalid st else st)"

definition softfloat_f16UIToCommonNaN :: "u64 \<Rightarrow> sf_state \<Rightarrow> sf_state" where
  "softfloat_f16UIToCommonNaN uiA st =
     (if uiA AND 0x0200 = 0 then softfloat_raiseFlags softfloat_flag_invalid st else st)"

definition softfloat_bf16UIToCommonNaN :: "u64 \<Rightarrow> sf_state \<Rightarrow> sf_state" where
  "softfloat_bf16UIToCommonNaN uiA st =
     (if uiA AND 0x040 = 0 then softfloat_raiseFlags softfloat_flag_invalid st else st)"

section \<open>From binary32\<close>

definition f32_to_f16 :: "u32 \<Rightarrow> sf_state \<Rightarrow> u16 \<times> sf_state" where
  "f32_to_f16 a st =
     (let uiA = ucast a; sign = signF32UI uiA; e = expF32UI uiA; frac = fracF32UI uiA
      in if e = 0xFF
         then if frac \<noteq> 0 then (ucast defaultNaNF16UI, softfloat_f32UIToCommonNaN uiA st)
              else (ucast (packToF16UI sign 0x1F 0), st)
         else let frac16 = drop_bit 9 frac OR of_bool (frac AND 0x1FF \<noteq> 0)
              in if word_of_int e OR frac16 = 0 then (ucast (packToF16UI sign 0 0), st)
                 else softfloat_roundPackToF16 sign (e - 0x71) (frac16 OR 0x4000) st)"

definition f32_to_bf16 :: "u32 \<Rightarrow> sf_state \<Rightarrow> u16 \<times> sf_state" where
  "f32_to_bf16 a st =
     (let uiA = ucast a; sign = signF32UI uiA; e = expF32UI uiA; frac = fracF32UI uiA
      in if e = 0xFF
         then if frac \<noteq> 0 then (ucast defaultNaNBF16UI, softfloat_f32UIToCommonNaN uiA st)
              else (ucast (packToBF16UI sign 0xFF 0), st)
         else if word_of_int e OR frac = 0 then (ucast (packToBF16UI sign 0 0), st)
         else let (e, frac) = normalized32 e frac;
                  frac16 = drop_bit 9 frac OR of_bool (frac AND 0x1FF \<noteq> 0)
              in softfloat_roundPackToBF16 sign (e - 1) (frac16 OR 0x4000) st)"

definition f32_to_e5m2 :: "u32 \<Rightarrow> bool \<Rightarrow> sf_state \<Rightarrow> u8 \<times> sf_state" where
  "f32_to_e5m2 a saturationMode st =
     (let uiA = ucast a; sign = signF32UI uiA; e = expF32UI uiA; frac = fracF32UI uiA
      in if e = 0xFF
         then if frac \<noteq> 0 then (ucast defaultNaNE5M2, softfloat_f32UIToCommonNaN uiA st)
              else (if saturationMode then ucast (packToE5M2UI sign 0x1E 0x3)
                    else ucast (packToE5M2UI sign 0x1F 0x0), st)
         else let frac8 = drop_bit 17 frac OR of_bool (frac AND 0x1FFFF \<noteq> 0)
              in if word_of_int e OR frac8 = 0 then (ucast (packToE5M2UI sign 0 0), st)
                 else softfloat_roundPackToE5M2 sign (e - 113) (frac8 OR 0x40) saturationMode st)"

definition f32_to_e4m3 :: "u32 \<Rightarrow> bool \<Rightarrow> sf_state \<Rightarrow> u8 \<times> sf_state" where
  "f32_to_e4m3 a saturationMode st =
     (let uiA = ucast a; sign = signF32UI uiA; e = expF32UI uiA; frac = fracF32UI uiA
      in if e = 0xFF
         then if frac \<noteq> 0 then (ucast defaultNaNE4M3, softfloat_f32UIToCommonNaN uiA st)
              else (if saturationMode then ucast (packToE4M3UI sign 0xF 0x6)
                    else ucast defaultNaNE4M3, st)
         else let frac8 = drop_bit 16 frac OR of_bool (frac AND 0xFFFF \<noteq> 0)
              in if word_of_int e OR frac8 = 0 then (ucast (packToE4M3UI sign 0 0), st)
                 else softfloat_roundPackToE4M3 sign (e - 121) (frac8 OR 0x80) saturationMode st)"

section \<open>From binary16 and bfloat16\<close>

definition f16_to_e5m2 :: "u16 \<Rightarrow> bool \<Rightarrow> sf_state \<Rightarrow> u8 \<times> sf_state" where
  "f16_to_e5m2 a saturationMode st =
     (let uiA = ucast a; sign = signF16UI uiA; e = expF16UI uiA; frac = fracF16UI uiA
      in if e = 0x1F
         then if frac \<noteq> 0 then (ucast defaultNaNE5M2, softfloat_f16UIToCommonNaN uiA st)
              else (if saturationMode then ucast (packToE5M2UI sign 0x1D 0x3)
                    else ucast (packToE5M2UI sign 0x1F 0x0), st)
         else let frac8 = drop_bit 4 frac OR of_bool (frac AND 0xF \<noteq> 0)
              in if word_of_int e OR frac8 = 0 then (ucast (packToE5M2UI sign 0 0), st)
                 else softfloat_roundPackToE5M2 sign (e - 1) (frac8 OR 0x40) saturationMode st)"

definition f16_to_e4m3 :: "u16 \<Rightarrow> bool \<Rightarrow> sf_state \<Rightarrow> u8 \<times> sf_state" where
  "f16_to_e4m3 a saturationMode st =
     (let uiA = ucast a; sign = signF16UI uiA; e = expF16UI uiA; frac = fracF16UI uiA
      in if e = 0x1F
         then if frac \<noteq> 0 then (ucast defaultNaNE4M3, softfloat_f16UIToCommonNaN uiA st)
              else (if saturationMode then ucast (packToE4M3UI sign 0xF 0x6)
                    else ucast defaultNaNE4M3, st)
         else let frac8 = drop_bit 3 frac OR of_bool (frac AND 0x7 \<noteq> 0)
              in if word_of_int e OR frac8 = 0 then (ucast (packToE4M3UI sign 0 0), st)
                 else softfloat_roundPackToE4M3 sign (e - 0x9) (frac8 OR 0x80) saturationMode st)"

definition f16_to_f32 :: "u16 \<Rightarrow> sf_state \<Rightarrow> u32 \<times> sf_state" where
  "f16_to_f32 a st =
     (let uiA = ucast a; sign = signF16UI uiA; e = expF16UI uiA; frac = fracF16UI uiA
      in if e = 0x1F
         then if frac \<noteq> 0 then (ucast defaultNaNF32UI, softfloat_f16UIToCommonNaN uiA st)
              else (ucast (packToF32UI sign 0xFF 0), st)
         else if e = 0 \<and> frac = 0 then (ucast (packToF32UI sign 0 0), st)
         else let (e, frac) = (if e = 0
                               then let normExpSig = softfloat_normSubnormalF16Sig frac
                                    in (e16_exp normExpSig - 1, e16_sig normExpSig)
                               else (e, frac))
              in (ucast (packToF32UI sign (e + 0x70) (push_bit 13 frac)), st))"

definition bf16_to_f32 :: "u16 \<Rightarrow> sf_state \<Rightarrow> u32 \<times> sf_state" where
  "bf16_to_f32 a st =
     (let uiA = ucast a; sign = signBF16UI uiA; e = expBF16UI uiA; frac = fracBF16UI uiA
      in if e = 0xFF
         then if frac \<noteq> 0 then (ucast defaultNaNF32UI, softfloat_bf16UIToCommonNaN uiA st)
              else (ucast (packToF32UI sign 0xFF 0), st)
         else (ucast (packToF32UI sign e (push_bit 16 frac)), st))"

definition bf16_to_e5m2 :: "u16 \<Rightarrow> bool \<Rightarrow> sf_state \<Rightarrow> u8 \<times> sf_state" where
  "bf16_to_e5m2 a saturationMode st =
     (let (b, st) = bf16_to_f32 a st in f32_to_e5m2 b saturationMode st)"

definition bf16_to_e4m3 :: "u16 \<Rightarrow> bool \<Rightarrow> sf_state \<Rightarrow> u8 \<times> sf_state" where
  "bf16_to_e4m3 a saturationMode st =
     (let (b, st) = bf16_to_f32 a st in f32_to_e4m3 b saturationMode st)"

section \<open>From the 8-bit formats\<close>

definition e5m2_to_f16 :: "u8 \<Rightarrow> u16" where
  "e5m2_to_f16 a =
     (let uiA = ucast a; sign = signF8UI uiA; e = expE5M2UI uiA; frac = fracE5M2UI uiA
      in if e = 0xF
         then if frac \<noteq> 0 then ucast defaultNaNF16UI else ucast (packToF16UI sign 0x1F 0)
         else if e = 0 \<and> frac = 0 then ucast (packToF16UI sign 0 0)
         else let (e, frac) = (if e = 0
                               then let normExpSig = softfloat_normSubnormalE5M2Sig (ucast frac)
                                    in (e8_exp normExpSig - 1, ucast (e8_sig normExpSig))
                               else (e, frac))
              in ucast (packToF16UI sign e (push_bit 8 frac)))"

definition e5m2_to_bf16 :: "u8 \<Rightarrow> u16" where
  "e5m2_to_bf16 a =
     (let uiA = ucast a; sign = signF8UI uiA; e = expE5M2UI uiA; frac = fracE5M2UI uiA
      in if e = 0x1F
         then if frac \<noteq> 0 then ucast defaultNaNBF16UI else ucast (packToBF16UI sign 0xFF 0)
         else if e = 0 \<and> frac = 0 then ucast (packToBF16UI sign 0 0)
         else let (e, frac) = (if e = 0
                               then let normExpSig = softfloat_normSubnormalE5M2Sig (ucast frac)
                                    in (e8_exp normExpSig - 1, ucast (e8_sig normExpSig))
                               else (e, frac))
              in ucast (packToBF16UI sign (e + 0x70) (push_bit 5 frac)))"

definition e4m3_to_f16 :: "u8 \<Rightarrow> u16" where
  "e4m3_to_f16 a =
     (let uiA = ucast a; sign = signF8UI uiA; e = expE4M3UI uiA; frac = fracE4M3UI uiA
      in if e = 0xF \<and> frac = 0x7 then ucast defaultNaNF16UI
         else if e = 0 \<and> frac = 0 then ucast (packToF16UI sign 0 0)
         else let (e, frac) = (if e = 0
                               then let normExpSig = softfloat_normSubnormalE4M3Sig (ucast frac)
                                    in (e8_exp normExpSig - 1, ucast (e8_sig normExpSig))
                               else (e, frac))
              in ucast (packToF16UI sign (e + 0x8) (push_bit 7 frac)))"

definition e4m3_to_bf16 :: "u8 \<Rightarrow> u16" where
  "e4m3_to_bf16 a =
     (let uiA = ucast a; sign = signF8UI uiA; e = expE4M3UI uiA; frac = fracE4M3UI uiA
      in if e = 0xF \<and> frac = 0x7 then ucast defaultNaNBF16UI
         else if e = 0 \<and> frac = 0 then ucast (packToBF16UI sign 0 0)
         else let (e, frac) = (if e = 0
                               then let normExpSig = softfloat_normSubnormalE4M3Sig (ucast frac)
                                    in (e8_exp normExpSig - 1, ucast (e8_sig normExpSig))
                               else (e, frac))
              in ucast (packToBF16UI sign (e + 0x78) (push_bit 4 frac)))"

section \<open>bfloat16 arithmetic\<close>

definition bf16_add :: "u16 \<Rightarrow> u16 \<Rightarrow> sf_state \<Rightarrow> u16 \<times> sf_state" where
  "bf16_add a b st =
     (let f32A = push_bit 16 (ucast a); f32B = push_bit 16 (ucast b); (f32Z, st) = f32_add f32A f32B st
      in f32_to_bf16 f32Z st)"

definition bf16_sub :: "u16 \<Rightarrow> u16 \<Rightarrow> sf_state \<Rightarrow> u16 \<times> sf_state" where
  "bf16_sub a b st =
     (let f32A = push_bit 16 (ucast a); f32B = push_bit 16 (ucast b); (f32Z, st) = f32_sub f32A f32B st
      in f32_to_bf16 f32Z st)"

definition bf16_mul :: "u16 \<Rightarrow> u16 \<Rightarrow> sf_state \<Rightarrow> u16 \<times> sf_state" where
  "bf16_mul a b st =
     (let f32A = push_bit 16 (ucast a); f32B = push_bit 16 (ucast b); (f32Z, st) = f32_mul f32A f32B st
      in f32_to_bf16 f32Z st)"

definition bf16_div :: "u16 \<Rightarrow> u16 \<Rightarrow> sf_state \<Rightarrow> u16 \<times> sf_state" where
  "bf16_div a b st =
     (let f32A = push_bit 16 (ucast a); f32B = push_bit 16 (ucast b); (f32Z, st) = f32_div f32A f32B st
      in f32_to_bf16 f32Z st)"

section \<open>Narrowing\<close>

lemma unat_jam_word: "unat (drop_bit d f OR of_bool (f AND mask d \<noteq> 0)) = jam_shift (unat f) d" for f :: "'a::len word"
proof -
  have "f AND mask d \<noteq> 0 \<longleftrightarrow> unat f mod 2 ^ d \<noteq> 0" by (metis unat_and_mask unat_eq_0)
  then show ?thesis by (simp only: unat_or_bit unat_drop_bit jam_shift_def)
qed

lemma unat_hidden:
  fixes w :: "'a::len word"
  assumes "unat w < 2 ^ k" "k < LENGTH('a)"
  shows "unat (w OR push_bit k 1) = 2 ^ k + unat w"
  using unat_or_disjoint [of k "push_bit k 1 :: 'a word" w] assms by (simp only: unat_push_1 or.commute) simp

text \<open>Setting the hidden bit before or after the shift.\<close>

lemma jam_hidden:
  fixes f :: u64
  assumes "0 < d" "k + d < 64"
  shows "(drop_bit d f OR of_bool (f AND mask d \<noteq> 0)) OR push_bit k 1 =
    drop_bit d (f OR push_bit (k + d) 1) OR of_bool ((f OR push_bit (k + d) 1) AND mask d \<noteq> 0)"
proof -
  have "drop_bit d (push_bit (k + d) 1 :: u64) = push_bit k 1"
    by (rule bit_word_eqI) (use assms in \<open>auto simp: bit_simps\<close>)
  moreover have "push_bit (k + d) 1 AND mask d = (0 :: u64)"
    by (rule bit_word_eqI) (auto simp: bit_simps)
  ultimately show ?thesis by (simp only: drop_bit_or bit.conj_disj_distrib2 or.right_neutral) (simp only: or.assoc or.commute or.left_commute)
qed

lemma jam_bounds:
  assumes "2 ^ (k + d) \<le> s" "s < 2 * 2 ^ (k + d)" "0 < k"
  shows "2 ^ k \<le> jam_shift s d" "jam_shift s d < 2 * 2 ^ k"
proof -
  have "s div 2 ^ d < 2 ^ Suc k" using assms(2) by (intro less_mult_imp_div_less) (simp add: power_add)
  then have "jam_shift s d < 2 ^ Suc k" unfolding jam_shift_def by (intro or_bit_less) simp_all
  then show "jam_shift s d < 2 * 2 ^ k" by simp
  have "2 ^ k \<le> s div 2 ^ d" using assms(1) by (simp add: less_eq_div_iff_mult_less_eq power_add)
  then show "2 ^ k \<le> jam_shift s d" unfolding jam_shift_def or_of_bool by simp
qed

text \<open>Every number strictly between zero and half the smallest subnormal rounds alike.\<close>

lemma fround_tiny:
  assumes "0 < \<bar>x\<bar>" "\<bar>x\<bar> * 2 ^ ulp0 F < 1 / 2" "0 < \<bar>y\<bar>" "\<bar>y\<bar> * 2 ^ ulp0 F < 1 / 2" "0 < fbits F"
  shows "fround F m neg x = (fround F m neg y :: 'a::len word)"
proof -
  have "1 < (2::nat) ^ fbits F" using assms(5) by (rule one_less_power [rotated]) simp
  then have one: "ival (fbits F) (Suc 0) = 1" by (simp add: ival_small)
  have t: "round_code (fbits F) (maxfin F) m neg z = of_bool (round_incr m neg False True False False)"
    if "0 < z" "z < 1 / 2" for z :: rat
    using round_codeI [of 0 "maxfin F" "fbits F" z m neg] that by (simp add: one)
  show ?thesis unfolding fround_def using assms by (simp add: t)
qed

context round_packer
begin

lemma narrow_parts:
  assumes parts: "parts (fb + g + d) c e s" and sig: "unat sig = jam_shift s d"
    and e: "elo < e - int K" "e - int K < ehi"
    and x: "\<bar>x\<bar> * 2 ^ u = of_nat (ival (fb + g + d) c)" and K: "0 < K" "ulp0 F + d + g + K = u + 1"
  shows "fst (rp sign (e - int K) sig st) = fround F (sf_mode (softfloat_roundingMode st)) sign x"
proof (rule rp_fround [OF _ _ _ e])
  have S: "2 ^ (fb + g + d) \<le> s" "s < 2 * 2 ^ (fb + g + d)" using parts by (simp_all add: parts_def)
  have "g - 1 = Suc (g - 2)" using g by simp
  then have ev: "even ((2::nat) ^ (g - 1))" by simp
  show "agrees (2 ^ (g - 1)) (rat_of_nat s / 2 ^ d) (unat sig)"
    unfolding sig by (rule agrees_jam_shift [OF agrees_refl ev])
  have jb: "2 ^ (fb + g) \<le> unat sig" "unat sig < 2 * 2 ^ (fb + g)"
    unfolding sig using jam_bounds [OF S] fb by simp_all
  then show "unat sig < 2 ^ (fb + 1 + g)" "e - int K \<le> 0 \<or> 2 ^ (fb + g) \<le> unat sig" by simp_all
  have v: "rat_of_nat (ival (fb + g + d) c) = of_nat s * 2 powi (e - 1)" using parts by (simp add: parts_def)
  have "(2::rat) ^ (ulp0 F + d + g + (K - 1)) = 2 ^ u" using K by (intro arg_cong [where f = "power 2"]) simp
  then have p: "(2::rat) ^ u = 2 ^ ulp0 F * 2 ^ d * 2 ^ g * 2 ^ (K - 1)" by (simp only: power_add)
  have "(2::rat) powi (e - int K) = 2 powi ((e - 1) - int (K - 1))" using K(1) by (intro arg_cong [where f = "power_int 2"]) simp
  then have q: "(2::rat) powi (e - int K) = 2 powi (e - 1) / 2 ^ (K - 1)" by (simp only: powi_shift(1))
  have "\<bar>x\<bar> = of_nat s * 2 powi (e - 1) / 2 ^ u" using x v by (simp add: field_simps)
  then show "\<bar>x\<bar> * 2 ^ ulp0 F = rat_of_nat s / 2 ^ d * 2 powi (e - int K) / 2 ^ g"
    unfolding p q by (simp add: field_simps)
qed

lemma narrow_tiny:
  assumes n: "2 ^ (fb + g) \<le> unat sig" "unat sig < 2 ^ (fb + 1 + g)"
    and e: "elo < e" "e < ehi" "e \<le> - int (fb + 2)"
    and x: "0 < \<bar>x\<bar>" "\<bar>x\<bar> * 2 ^ ulp0 F < 1 / 2"
  shows "fst (rp sign e sig st) = fround F (sf_mode (softfloat_roundingMode st)) sign x"
proof -
  define y where "y = rat_of_nat (unat sig) * 2 powi e / 2 ^ g / 2 ^ ulp0 F"
  have p: "0 < rat_of_nat (unat sig)" using n(1) by (metis less_le_trans of_nat_0_less_iff zero_less_numeral zero_less_power)
  have y0: "0 < y" unfolding y_def using p by simp
  have ya: "\<bar>y\<bar> * 2 ^ ulp0 F = rat_of_nat (unat sig) * 2 powi e / 2 ^ g" by (subst abs_of_pos [OF y0]) (simp add: y_def)
  have "fst (rp sign e sig st) = fround F (sf_mode (softfloat_roundingMode st)) sign y"
    by (rule rp_fround [OF agrees_refl n(2) _ e(1,2) ya]) (use n(1) in simp)
  also have "\<dots> = fround F (sf_mode (softfloat_roundingMode st)) sign x"
  proof (rule fround_tiny [OF _ _ x])
    have "rat_of_nat (unat sig) < of_nat (2 ^ (fb + 1 + g))" using n(2) by (simp only: of_nat_less_iff)
    moreover have "(2::rat) powi e \<le> 2 powi (- int (fb + 2))" using e(3) by (intro power_int_increasing) simp_all
    ultimately have "rat_of_nat (unat sig) * 2 powi e < of_nat (2 ^ (fb + 1 + g)) * 2 powi (- int (fb + 2))"
      using p by (intro mult_less_le_imp_less) simp_all
    also have "\<dots> = 2 ^ g / 2"
      by (simp only: power_int_minus power_int_of_nat power_add of_nat_mult of_nat_power) (simp add: field_simps)
    finally show "\<bar>y\<bar> * 2 ^ ulp0 F < 1 / 2" unfolding ya by (simp add: field_simps)
  qed (use y0 fb F in simp_all)
  finally show ?thesis .
qed

end

text \<open>The specification of a conversion between IEEE formats.\<close>

definition ieee_convert :: "fmt \<Rightarrow> fmt \<Rightarrow> rmode \<Rightarrow> 'a::len word \<Rightarrow> 'b::len word" where
  "ieee_convert F F' m w =
     (if fnan F w then qnan F' else if finf F w then infty F' (fneg w)
      else fround F' m (fneg w) (fval F w))"

lemma or_word_of_int_zero:
  "0 \<le> e \<Longrightarrow> e < 2 ^ 64 \<Longrightarrow> word_of_int e OR w = (0 :: u64) \<longleftrightarrow> e = 0 \<and> w = 0"
  using unat_word_of_int_nonneg [of e, where ?'a = 64] unat_eq_0 [of "word_of_int e :: u64"]
  by (auto simp: or_eq_0_iff_u64)

text \<open>A finite binary32 operand in fields.\<close>

lemma fields32:
  fixes a :: u32
  assumes "ffinite F32 a"
  shows "expF32UI (ucast a) = int (fmag a div 2 ^ 23)" "fmag a div 2 ^ 23 < 255" "expF32UI (ucast a) \<noteq> 0xFF"
    "unat (fracF32UI (ucast a)) = fmag a mod 2 ^ 23"
    "\<bar>fval F32 a\<bar> = of_nat (ival 23 (fmag a)) / 2 ^ 149"
  using assms by (simp_all add: expF32UI_ucast fracF32UI_ucast finite32_iff abs_fval) (simp_all add: F32_def)

lemma special32:
  fixes a :: u32
  shows "fnan F32 a \<Longrightarrow> expF32UI (ucast a) = 0xFF \<and> fracF32UI (ucast a) \<noteq> 0"
    "finf F32 a \<Longrightarrow> expF32UI (ucast a) = 0xFF \<and> fracF32UI (ucast a) = 0"
  by (simp_all add: f32m.nan_fields f32m.inf_fields f32m.exp_eq f32m.frac_zero)

text \<open>A nonzero binary32 significand with its hidden bit, shifted right with jamming.\<close>

lemma narrow_sig32:
  assumes "0 < d" "k + d = 23"
  shows "unat ((drop_bit d s OR of_bool (s AND mask d \<noteq> 0)) OR push_bit k 1) = jam_shift (unat (s OR (0x00800000 :: u64))) d"
proof -
  have "(0x00800000 :: u64) = push_bit (k + d) 1" by (simp add: assms(2))
  then show ?thesis using assms by (simp only: jam_hidden [OF assms(1), of k] unat_jam_word)
qed

lemma jam32_zero:
  "drop_bit d s OR of_bool (s AND mask d \<noteq> 0) = 0 \<longleftrightarrow> s = (0 :: u64)"
proof -
  have j: "jam_shift n d = 0 \<longleftrightarrow> n = 0" for n
  proof -
    have "jam_shift n d = 0 \<longleftrightarrow> n div 2 ^ d = 0 \<and> n mod 2 ^ d = 0" unfolding jam_shift_def or_of_bool by auto
    also have "\<dots> \<longleftrightarrow> n = 0" using div_mult_mod_eq [of n "2 ^ d"] by auto
    finally show ?thesis .
  qed
  have "drop_bit d s OR of_bool (s AND mask d \<noteq> 0) = 0 \<longleftrightarrow> unat (drop_bit d s OR of_bool (s AND mask d \<noteq> 0)) = 0"
    by (simp only: unat_eq_0)
  also have "\<dots> \<longleftrightarrow> s = 0" by (simp only: unat_jam_word j unat_eq_0)
  finally show ?thesis .
qed

lemma mask_forms:
  "(0x1FF :: u64) = mask 9" "(0x1FFFF :: u64) = mask 17" "(0xFFFF :: u64) = mask 16"
  "(0x4000 :: u64) = push_bit 14 1" "(0x40 :: u64) = push_bit 6 1"
  by (simp_all add: mask_eq_exp_minus_1)

lemma mag_zero32:
  fixes a :: u32
  shows "fmag a div 2 ^ 23 = 0 \<and> fmag a mod 2 ^ 23 = 0 \<longleftrightarrow> fmag a = 0"
  using div_mult_mod_eq [of "fmag a" "2 ^ 23"] by auto

lemma pack_fpack:
  fixes s :: u64
  assumes "0 \<le> e" "nat e * 2 ^ j + unat s < 2 ^ k" "k \<le> 15" "k = LENGTH('a::len) - 1"
  shows "(ucast (push_bit k (of_bool sign) + push_bit j (ucast (word_of_int e :: u16)) + s) :: 'a word) =
    fpack sign (nat e * 2 ^ j + unat s)"
proof (rule word_eq_fpackI)
  have k: "(2::nat) ^ k \<le> 2 ^ 15" using assms(3) by (intro power_increasing) simp_all
  have u: "unat (push_bit k (of_bool sign) + push_bit j (ucast (word_of_int e :: u16)) + s) =
      of_bool sign * 2 ^ k + (nat e * 2 ^ j + unat s)"
    by (subst unat_pack_fields) (use assms k in \<open>auto simp: of_bool_def\<close>)
  have "of_bool sign * 2 ^ k + (nat e * 2 ^ j + unat s) < 2 * 2 ^ (LENGTH('a) - 1)"
    using assms(2) unfolding assms(4) [symmetric] by (simp add: of_bool_def)
  then have "unat (push_bit k (of_bool sign) + push_bit j (ucast (word_of_int e :: u16)) + s) < 2 ^ LENGTH('a)"
    by (simp only: u word_len_double)
  then show "unat (ucast (push_bit k (of_bool sign) + push_bit j (ucast (word_of_int e :: u16)) + s) :: 'a word) =
      of_bool sign * 2 ^ (LENGTH('a) - 1) + (nat e * 2 ^ j + unat s)"
    unfolding assms(4) [symmetric] by (subst unat_ucast_less) (assumption, rule u)
qed

lemma packs:
  "0 \<le> e \<Longrightarrow> nat e * 2 ^ 10 + unat s < 2 ^ 15 \<Longrightarrow> (ucast (packToF16UI sign e s) :: u16) = fpack sign (nat e * 2 ^ 10 + unat s)"
  "0 \<le> e \<Longrightarrow> nat e * 2 ^ 7 + unat s < 2 ^ 15 \<Longrightarrow> (ucast (packToBF16UI sign e s) :: u16) = fpack sign (nat e * 2 ^ 7 + unat s)"
  "0 \<le> e \<Longrightarrow> nat e * 2 ^ 2 + unat s < 2 ^ 7 \<Longrightarrow> (ucast (packToE5M2UI sign e s) :: u8) = fpack sign (nat e * 2 ^ 2 + unat s)"
  unfolding packToF16UI_def packToBF16UI_def packToE5M2UI_def by (rule pack_fpack; simp)+

lemma infty_codes:
  "(ucast (packToF16UI sign 0x1F 0) :: u16) = infty F16 sign" "(ucast (packToBF16UI sign 0xFF 0) :: u16) = infty BF16 sign"
  "(ucast (packToE5M2UI sign 0x1F 0) :: u8) = infty E5M2 sign"
  "(ucast (packToE5M2UI sign 0x1E 0x3) :: u8) = fpack sign 0x7B"
  "(ucast (packToF16UI sign 0 0) :: u16) = fpack sign 0" "(ucast (packToBF16UI sign 0 0) :: u16) = fpack sign 0"
  "(ucast (packToE5M2UI sign 0 0) :: u8) = fpack sign 0"
  by (simp_all add: packs infty_def formats)

text \<open>The three shapes of a finite binary32 operand.\<close>

lemma cases32:
  fixes a :: u32
  assumes "ffinite F32 a"
  obtains (zero) "fmag a = 0" "fval F32 a = 0"
  | (sub) "fmag a \<noteq> 0" "expF32UI (ucast a) = 0" "\<bar>fval F32 a\<bar> * 2 ^ 126 < 1"
      "normalized32 (expF32UI (ucast a)) (fracF32UI (ucast a)) = normalized32 0 (fracF32UI (ucast a))"
      "2 ^ 23 \<le> unat (fracF32UI (ucast a) OR 0x00800000)" "unat (fracF32UI (ucast a) OR 0x00800000) < 2 * 2 ^ 23"
  | (norm) "fmag a \<noteq> 0" "expF32UI (ucast a) \<noteq> 0" "0 < expF32UI (ucast a)" "expF32UI (ucast a) < 255"
      "parts 23 (fmag a) (expF32UI (ucast a)) (unat (fracF32UI (ucast a) OR 0x00800000))"
proof -
  note f = fields32 [OF assms]
  consider "fmag a = 0" | "fmag a \<noteq> 0" "fmag a div 2 ^ 23 = 0" | "fmag a div 2 ^ 23 \<noteq> 0" by blast
  then show ?thesis
  proof cases
    case 1
    then show ?thesis by (intro zero) (simp_all add: fval_eq_0_iff)
  next
    case 2
    have lt: "fmag a < 2 ^ 23" using 2(2) by (simp add: div_eq_0_iff)
    then have "\<bar>fval F32 a\<bar> = of_nat (fmag a) / 2 ^ 149" using f(5) by (simp add: ival_small)
    moreover have "rat_of_nat (fmag a) < 2 ^ 23" using lt of_nat_less_iff [of "fmag a" "2 ^ 23", where ?'a = rat] by simp
    ultimately have "\<bar>fval F32 a\<bar> * 2 ^ 126 < 1" by (simp add: field_simps)
    moreover have "unat (fracF32UI (ucast a) OR 0x00800000) = 2 ^ 23 + unat (fracF32UI (ucast a))"
      by (rule or_hidden23_add) (simp add: f(4))
    moreover have "unat (fracF32UI (ucast a)) < 2 ^ 23" by (simp add: f(4))
    ultimately show ?thesis using 2 f(1) by (intro sub) simp_all
  next
    case 3
    then have nz: "fmag a \<noteq> 0" by (metis div_0)
    have "normalized32 (expF32UI (ucast a)) (fracF32UI (ucast a)) = (expF32UI (ucast a), fracF32UI (ucast a))"
      using 3 f(1) by (simp add: normalized32_def)
    from normalized32_parts(1) [OF assms nz this] show ?thesis using 3 f(1,2) nz by (intro norm) simp_all
  qed
qed

lemma exp_or_zero:
  "ffinite F32 a \<Longrightarrow> word_of_int (expF32UI (ucast a)) OR jam = (0::u64) \<longleftrightarrow> expF32UI (ucast a) = 0 \<and> jam = 0" for a :: u32
  using fields32(1,2) [of a] by (subst or_word_of_int_zero) auto

lemma frac_zero32: "expF32UI (ucast a) = 0 \<and> fracF32UI (ucast a) = 0 \<longleftrightarrow> fmag a = 0" for a :: u32
  by (simp add: f32m.frac_zero mag_zero32 [symmetric] f32m.exp_eq)

lemmas narrow_simps = mask_forms exp_or_zero jam32_zero signF32UI_ucast frac_zero32 infty_codes

lemma f32_to_f16_finite:
  fixes a :: u32
  assumes fin: "ffinite F32 a"
  shows "fst (f32_to_f16 a st) = fround F16 (sf_mode (softfloat_roundingMode st)) (fneg a) (fval F32 a)"
proof -
  define s where "s = (drop_bit 9 (fracF32UI (ucast a)) OR of_bool (fracF32UI (ucast a) AND mask 9 \<noteq> 0)) OR push_bit 14 (1 :: u64)"
  have s: "unat s = jam_shift (unat (fracF32UI (ucast a) OR 0x00800000)) 9"
    unfolding s_def by (rule narrow_sig32) simp_all
  note unf = f32_to_f16_def Let_def if_not_P [OF fields32(3) [OF fin]] narrow_simps exp_or_zero [OF fin] s_def [symmetric]
  from fin show ?thesis
  proof (cases rule: cases32)
    case zero
    then show ?thesis unfolding unf by simp
  next
    case norm
    have "fst (softfloat_roundPackToF16 (fneg a) (expF32UI (ucast a) - int 0x71) s st) =
      fround F16 (sf_mode (softfloat_roundingMode st)) (fneg a) (fval F32 a)"
      by (rule f16p.narrow_parts [where d = 9 and u = 149 and c = "fmag a", OF _ s])
         (use norm fields32(5) [OF fin] in \<open>simp_all add: F16_def\<close>)
    then show ?thesis unfolding unf using norm(1) by simp
  next
    case sub
    have "fst (softfloat_roundPackToF16 (fneg a) (expF32UI (ucast a) - 0x71) s st) =
      fround F16 (sf_mode (softfloat_roundingMode st)) (fneg a) (fval F32 a)"
      by (rule f16p.narrow_tiny)
         (use sub jam_bounds [of 14 9, OF _ _ zero_less_numeral] fval_eq_0_iff [of F32 a] in \<open>simp_all add: s F16_def field_simps\<close>)
    then show ?thesis unfolding unf using sub(1) by simp
  qed
qed

lemma f32_to_e5m2_finite:
  fixes a :: u32
  assumes fin: "ffinite F32 a"
  shows "fst (f32_to_e5m2 a False st) = fround E5M2 (sf_mode (softfloat_roundingMode st)) (fneg a) (fval F32 a)"
proof -
  define s where "s = (drop_bit 17 (fracF32UI (ucast a)) OR of_bool (fracF32UI (ucast a) AND mask 17 \<noteq> 0)) OR push_bit 6 (1 :: u64)"
  have s: "unat s = jam_shift (unat (fracF32UI (ucast a) OR 0x00800000)) 17"
    unfolding s_def by (rule narrow_sig32) simp_all
  note unf = f32_to_e5m2_def Let_def if_not_P [OF fields32(3) [OF fin]] narrow_simps exp_or_zero [OF fin] s_def [symmetric]
  from fin show ?thesis
  proof (cases rule: cases32)
    case zero
    then show ?thesis unfolding unf by simp
  next
    case norm
    have "fst (softfloat_roundPackToE5M2 (fneg a) (expF32UI (ucast a) - int 113) s False st) =
      fround E5M2 (sf_mode (softfloat_roundingMode st)) (fneg a) (fval F32 a)"
      by (rule e5m2p.narrow_parts [where d = 17 and u = 149 and c = "fmag a", OF _ s])
         (use norm fields32(5) [OF fin] in \<open>simp_all add: E5M2_def\<close>)
    then show ?thesis unfolding unf using norm(1) by simp
  next
    case sub
    have "fst (softfloat_roundPackToE5M2 (fneg a) (expF32UI (ucast a) - 113) s False st) =
      fround E5M2 (sf_mode (softfloat_roundingMode st)) (fneg a) (fval F32 a)"
      by (rule e5m2p.narrow_tiny)
         (use sub jam_bounds [of 6 17, OF _ _ zero_less_numeral] fval_eq_0_iff [of F32 a] in \<open>simp_all add: s E5M2_def field_simps\<close>)
    then show ?thesis unfolding unf using sub(1) by simp
  qed
qed

lemma f32_to_bf16_finite:
  fixes a :: u32
  assumes fin: "ffinite F32 a"
  shows "fst (f32_to_bf16 a st) = fround BF16 (sf_mode (softfloat_roundingMode st)) (fneg a) (fval F32 a)"
proof -
  obtain e f where nm: "normalized32 (expF32UI (ucast a)) (fracF32UI (ucast a)) = (e, f)" by fastforce
  define s where "s = (drop_bit 9 f OR of_bool (f AND mask 9 \<noteq> 0)) OR push_bit 14 (1 :: u64)"
  have s: "unat s = jam_shift (unat (f OR 0x00800000)) 9"
    unfolding s_def by (rule narrow_sig32) simp_all
  note unf = f32_to_bf16_def Let_def if_not_P [OF fields32(3) [OF fin]] narrow_simps exp_or_zero [OF fin] nm
    prod.case s_def [symmetric]
  show ?thesis
  proof (cases "fmag a = 0")
    case True
    then have "fval F32 a = 0" by (simp add: fval_eq_0_iff)
    with True show ?thesis unfolding unf by simp
  next
    case False
    note P = normalized32_parts [OF fin False nm]
    have "fst (softfloat_roundPackToBF16 (fneg a) (e - int 1) s st) =
      fround BF16 (sf_mode (softfloat_roundingMode st)) (fneg a) (fval F32 a)"
      by (rule bf16p.narrow_parts [where d = 9 and u = 149 and c = "fmag a", OF _ s])
         (use P fields32(5) [OF fin] in \<open>simp_all add: BF16_def\<close>)
    then show ?thesis unfolding unf using False by simp
  qed
qed

lemma special_conversions:
  fixes a :: u32
  shows "fnan F32 a \<Longrightarrow> fst (f32_to_f16 a st) = qnan F16" "finf F32 a \<Longrightarrow> fst (f32_to_f16 a st) = infty F16 (fneg a)"
    "fnan F32 a \<Longrightarrow> fst (f32_to_bf16 a st) = qnan BF16" "finf F32 a \<Longrightarrow> fst (f32_to_bf16 a st) = infty BF16 (fneg a)"
    "fnan F32 a \<Longrightarrow> fst (f32_to_e5m2 a sat st) = 0x7F"
    "finf F32 a \<Longrightarrow> fst (f32_to_e5m2 a sat st) = (if sat then fpack (fneg a) 0x7B else infty E5M2 (fneg a))"
  using special32 [of a]
  by (simp_all add: f32_to_f16_def f32_to_bf16_def f32_to_e5m2_def Let_def infty_codes f16m.defNaN bf16m.defNaN defaultNaNE5M2_def)

end
