(* ===== verification/Sf_Widen.thy ===== *)
theory Sf_Widen
  imports Sf_Convert Sf_Compare
begin

text \<open>
  Correctness of SoftFloat's format conversions: narrowing rounds once, widening is exact.
  The conversions that deviate (\<open>e5m2_to_f16.c\<close>, \<open>f16_to_e5m2.c\<close>, \<open>f32_to_e4m3.c\<close>) are
  shown to do so at concrete operands.
\<close>

section \<open>Saturating E5M2\<close>

lemma f32_to_e5m2_saturating:
  fixes a :: u32
  assumes fin: "ffinite F32 a"
  shows "fst (f32_to_e5m2 a True st) = fpack (fneg a) (min 0x7B (fmag (fst (f32_to_e5m2 a False st))))"
proof -
  define s where "s = (drop_bit 17 (fracF32UI (ucast a)) OR of_bool (fracF32UI (ucast a) AND mask 17 \<noteq> 0)) OR push_bit 6 (1 :: u64)"
  have s: "unat s = jam_shift (unat (fracF32UI (ucast a) OR 0x00800000)) 17"
    unfolding s_def by (rule narrow_sig32) simp_all
  have h: "unat (fracF32UI (ucast a) OR 0x00800000) = 2 ^ 23 + unat (fracF32UI (ucast a))"
    by (rule or_hidden23_add) (simp add: fields32(4) [OF fin])
  have fl: "unat (fracF32UI (ucast a)) < 2 ^ 23" by (simp add: fields32(4) [OF fin])
  have b: "2 ^ 6 \<le> unat s" "unat s < 2 ^ 7"
    using jam_bounds [of 6 17 "2 ^ 23 + unat (fracF32UI (ucast a))"] fl by (simp_all add: s h)
  note unf = f32_to_e5m2_def Let_def if_not_P [OF fields32(3) [OF fin]] narrow_simps exp_or_zero [OF fin] s_def [symmetric]
  show ?thesis
  proof (cases "fmag a = 0")
    case True
    then show ?thesis unfolding unf by simp
  next
    case False
    have "expF32UI (ucast a) - 113 < 2 ^ 31" "- (2 ^ 31) < expF32UI (ucast a) - 113"
      using fields32(1,2) [OF fin] by simp_all
    from e5m2_saturating [OF b(2) _ this(2,1), of "fneg a" st] b(1) show ?thesis
      unfolding unf using False by simp
  qed
qed

text \<open>
  C36: \<open>f32_to_f16\<close>, \<open>f32_to_bf16\<close> and \<open>f32_to_e5m2\<close> round every binary32 encoding correctly
  in the selected mode: finite values once to the target format (or, for E5M2 with
  saturation, to the largest finite magnitude at most), infinities to infinity (or that
  magnitude), NaNs to the target's default NaN.
\<close>

theorem narrowing_correct:
  fixes a :: u32 and st :: sf_state
  defines "m \<equiv> sf_mode (softfloat_roundingMode st)"
  shows "fst (f32_to_f16 a st) = ieee_convert F32 F16 m a \<and>
    fst (f32_to_bf16 a st) = ieee_convert F32 BF16 m a \<and>
    fst (f32_to_e5m2 a False st) = (if fnan F32 a then 0x7F else ieee_convert F32 E5M2 m a) \<and>
    fst (f32_to_e5m2 a True st) =
      (if fnan F32 a then 0x7F else if finf F32 a then fpack (fneg a) (maxfin E5M2)
       else fsat E5M2 m (fneg a) (fval F32 a))"
proof (cases rule: fmt_cases [of F32 a])
  case 1
  have r: "round_code 2 0x7B m (fneg a) (\<bar>fval F32 a\<bar> * 2 ^ 16) < 2 ^ (LENGTH(8) - 1)"
    using round_code_le [of 2 "0x7B" m "fneg a" "\<bar>fval F32 a\<bar> * 2 ^ 16"] by simp
  have "\<not> fnan F32 a" "\<not> finf F32 a" using 1 by (simp_all add: ffinite_def fnan_def finf_def)
  then show ?thesis
    using f32_to_f16_finite [OF 1, of st] f32_to_bf16_finite [OF 1, of st] f32_to_e5m2_finite [OF 1, of st]
      f32_to_e5m2_saturating [OF 1, of st] r
    by (simp add: ieee_convert_def m_def fsat_def fround_def E5M2_def)
next
  case 2
  then have "\<not> fnan F32 a" by (simp add: fnan_def finf_def)
  with 2 show ?thesis by (simp add: special_conversions ieee_convert_def E5M2_def)
next
  case 3
  then show ?thesis by (simp only: special_conversions ieee_convert_def if_True)
qed

section \<open>Widening\<close>

lemma ival_widen_normal:
  assumes "0 < e" "f < 2 ^ fb"
  shows "ival (fb + k) ((e + K) * 2 ^ (fb + k) + f * 2 ^ k) = ival fb (e * 2 ^ fb + f) * 2 ^ (k + K)"
proof -
  obtain i where i: "e = Suc i" using assms(1) by (cases e) auto
  have "f * 2 ^ k < 2 ^ (fb + k)" using assms(2) by (simp add: power_add)
  from ival_normal [OF this, of "i + K"] ival_normal [OF assms(2), of i] show ?thesis
    by (simp add: i power_add algebra_simps)
qed

lemma ival_widen_subnormal:
  assumes f: "0 < f" "f < 2 ^ fb" and n: "n = fb + 1 - floorlog 2 f" "n \<le> K"
  shows "ival (fb + k) ((K - n) * 2 ^ (fb + k) + f * 2 ^ n * 2 ^ k) = ival fb f * 2 ^ (k + K)"
proof -
  have b: "2 ^ fb \<le> f * 2 ^ n" "f * 2 ^ n < 2 * 2 ^ fb"
    using normalize_bounds [of f "fb + 1"] f by (simp_all add: n)
  then have b2: "2 ^ (fb + k) \<le> f * 2 ^ n * 2 ^ k" "f * 2 ^ n * 2 ^ k < 2 * 2 ^ (fb + k)" by (simp_all add: power_add)
  have "(2::nat) ^ K = 2 ^ n * 2 ^ (K - n)" using n(2) by (simp flip: power_add)
  then show ?thesis using ival_pack [OF b2, of "K - n"] f by (simp add: ival_small power_add)
qed

text \<open>\<open>w\<close> is the finite encoding with the sign and the value of \<open>a\<close>.\<close>

definition exactly :: "fmt \<Rightarrow> 'a::len word \<Rightarrow> fmt \<Rightarrow> 'b::len word \<Rightarrow> bool" where
  "exactly F a F' w \<longleftrightarrow> ffinite F' w \<and> fneg w = fneg a \<and> fval F' w = fval F a"

lemma exactlyI:
  fixes a :: "'a::len word"
  assumes "w = (fpack (fneg a) c :: 'b::len word)" "c \<le> maxfin F'" "maxfin F' < 2 ^ (LENGTH('b) - 1)"
    and "ival (fbits F') c = ival (fbits F) (fmag a) * 2 ^ j" "ulp0 F' = ulp0 F + j"
  shows "exactly F a F' w"
proof -
  have "c < 2 ^ (LENGTH('b) - 1)" using assms(2,3) by simp
  then show ?thesis
    using assms by (simp add: exactly_def ffinite_def fval_fpack) (simp add: fval_eq power_add)
qed

lemma pack32_fpack:
  assumes "0 \<le> e" "nat e * 2 ^ 23 + unat s < 2 ^ 31"
  shows "(ucast (packToF32UI sign e s) :: u32) = fpack sign (nat e * 2 ^ 23 + unat s)"
proof (rule word_eq_fpackI)
  have "nat e < 256" using assms(2) by simp
  then show "unat (ucast (packToF32UI sign e s) :: u32) = of_bool sign * 2 ^ (LENGTH(32) - 1) + (nat e * 2 ^ 23 + unat s)"
    using assms by (subst unat_pack32(2)) (auto simp: of_bool_def)
qed

lemma f16_to_f32_finite:
  fixes a :: u16
  assumes fin: "ffinite F16 a"
  shows "exactly F16 a F32 (fst (f16_to_f32 a st))"
proof -
  define E f where "E = fmag a div 2 ^ 10" and "f = fmag a mod 2 ^ 10"
  have c: "fmag a = E * 2 ^ 10 + f" and f: "f < 2 ^ 10" by (simp_all only: E_def f_def div_mult_mod_eq) simp
  have E: "E < 31" using fin c by (simp add: ffinite_def F16_def)
  have e: "expF16UI (ucast a) = int E" and fr: "unat (fracF16UI (ucast a)) = f"
    by (simp_all only: f16m.exp_eq f16m.frac_eq E_def f_def)
  have fz: "fracF16UI (ucast a) = 0 \<longleftrightarrow> f = 0" using fr by (metis unat_eq_0)
  have ne: "int E \<noteq> 0x1F" using E by simp
  note unf = f16_to_f32_def Let_def e if_not_P [OF ne] fz f16m.sign_eq
  consider "E = 0" "f = 0" | "E = 0" "f \<noteq> 0" | "0 < E" by blast
  then show ?thesis
  proof cases
    case 1
    have "fst (f16_to_f32 a st) = fpack (fneg a) 0" unfolding unf using 1 by (simp add: pack32_fpack)
    then show ?thesis by (rule exactlyI [where j = 125]) (use 1 c in \<open>simp_all add: F16_def F32_def\<close>)
  next
    case 3
    have u: "unat (push_bit 13 (fracF16UI (ucast a))) = f * 2 ^ 13"
      by (subst unat_push_bit_less) (use f in \<open>simp_all only: fr, simp\<close>)
    have ee: "nat (int E + 0x70) = E + 112" by simp
    have "fst (f16_to_f32 a st) = fpack (fneg a) ((E + 112) * 2 ^ (10 + 13) + f * 2 ^ 13)"
      unfolding unf using 3 by (simp add: pack32_fpack u ee) (subst pack32_fpack; use E f in \<open>simp add: u ee\<close>)
    then show ?thesis
      by (rule exactlyI [where j = "13 + 112"])
         (use E f 3 c ival_widen_normal [of E f 10 13 112] in \<open>simp_all add: F16_def F32_def\<close>)
  next
    case 2
    define n where "n = 10 + 1 - floorlog 2 f"
    have fl: "0 < floorlog 2 f" "floorlog 2 f \<le> 10"
      using 2 f floorlog_le_width [of f 10] by (simp_all add: floorlog_def)
    have b: "f * 2 ^ n < 2 ^ 11" using normalize_bounds [of f 11] 2 f by (simp add: n_def)
    have uc: "unat (ucast (fracF16UI (ucast a)) :: u16) = f" by (rule trans [OF unat_ucast_less]) (use f fr in simp_all)
    have sd: "int (unat (softfloat_countLeadingZeros16 (ucast (fracF16UI (ucast a))))) - 5 = int n"
      using fl by (simp add: unat_clz16 uc n_def)
    have u1: "unat (push_bit n (fracF16UI (ucast a))) = f * 2 ^ n"
      by (subst unat_push_bit_less) (use b in \<open>simp_all only: fr, simp\<close>)
    have u: "unat (push_bit 13 (push_bit n (fracF16UI (ucast a)))) = f * 2 ^ n * 2 ^ 13"
      by (subst unat_push_bit_less) (use b in \<open>simp_all only: u1, simp\<close>)
    have n10: "n \<le> 10" using fl by (simp add: n_def)
    have ee: "nat (1 - int n - 1 + 0x70) = 112 - n" using n10 by simp
    have "fst (f16_to_f32 a st) = ucast (packToF32UI (fneg a) (1 - int n - 1 + 0x70) (push_bit 13 (push_bit n (fracF16UI (ucast a)))))"
      unfolding unf softfloat_normSubnormalF16Sig_def sd using 2 by simp
    also have "\<dots> = fpack (fneg a) ((112 - n) * 2 ^ (10 + 13) + f * 2 ^ n * 2 ^ 13)"
      by (subst pack32_fpack) (use n10 b in \<open>simp_all only: u ee, simp_all\<close>)
    finally show ?thesis
      by (rule exactlyI [where j = "13 + 112"])
         (use n10 b 2 c f ival_widen_subnormal [of f 10 n 112 13] in \<open>simp_all add: n_def F16_def F32_def\<close>)
  qed
qed

lemma bf16_to_f32_finite:
  fixes a :: u16
  assumes fin: "ffinite BF16 a"
  shows "exactly BF16 a F32 (fst (bf16_to_f32 a st))"
proof -
  define E f where "E = fmag a div 2 ^ 7" and "f = fmag a mod 2 ^ 7"
  have c: "fmag a = E * 2 ^ 7 + f" and f: "f < 2 ^ 7" by (simp_all only: E_def f_def div_mult_mod_eq) simp
  have E: "E < 255" using fin c by (simp add: ffinite_def BF16_def)
  have e: "expBF16UI (ucast a) = int E" and fr: "unat (fracBF16UI (ucast a)) = f"
    by (simp_all only: bf16m.exp_eq bf16m.frac_eq E_def f_def)
  have ne: "int E \<noteq> 0xFF" using E by simp
  have u: "unat (push_bit 16 (fracBF16UI (ucast a))) = f * 2 ^ 16"
    by (subst unat_push_bit_less) (use f in \<open>simp_all only: fr, simp\<close>)
  have "fst (bf16_to_f32 a st) = ucast (packToF32UI (fneg a) (int E) (push_bit 16 (fracBF16UI (ucast a))))"
    unfolding bf16_to_f32_def Let_def e if_not_P [OF ne] bf16m.sign_eq by simp
  also have "\<dots> = fpack (fneg a) (fmag a * 2 ^ 16)"
    by (subst pack32_fpack) (use E f in \<open>simp_all add: u c algebra_simps\<close>)
  finally show ?thesis
  proof (rule exactlyI [where j = 16])
    have "ival (7 + 16) (fmag a * 2 ^ 16 + 0) = 2 ^ 16 * ival 7 (fmag a)" by (subst ival_split) simp_all
    then show "ival (fbits F32) (fmag a * 2 ^ 16) = ival (fbits BF16) (fmag a) * 2 ^ 16" by (simp add: F32_def BF16_def)
  qed (use E f c in \<open>simp_all add: F32_def BF16_def\<close>)
qed

text \<open>
  The 8-bit conversions share their shape: the significand is shifted by \<open>k\<close> and the exponent
  moved by \<open>K\<close>; a subnormal is normalised first, with its own shift \<open>n\<close>.
\<close>

lemma widen8:
  fixes frac :: u64 and pack :: "bool \<Rightarrow> int \<Rightarrow> u64 \<Rightarrow> u64"
  assumes pack: "\<And>e s. 0 \<le> e \<Longrightarrow> nat e * 2 ^ (fb + k) + unat s < 2 ^ 15 \<Longrightarrow>
      (ucast (pack sign e s) :: u16) = fpack sign (nat e * 2 ^ (fb + k) + unat s)"
    and f: "unat frac = f" "f < 2 ^ fb" and fb: "fb \<le> 3" "fb + k \<le> 10" and top: "(E + K + 1) * 2 ^ (fb + k) < 2 ^ 15"
  shows "0 < E \<Longrightarrow> ucast (pack sign (int E + int K) (push_bit k frac)) =
      (fpack sign ((E + K) * 2 ^ (fb + k) + f * 2 ^ k) :: u16)"
    and "\<lbrakk>E = 0; f \<noteq> 0; n = fb + 1 - floorlog 2 f; n \<le> K\<rbrakk> \<Longrightarrow>
      ucast (pack sign (1 - int n - 1 + int K) (push_bit k (ucast (push_bit n (ucast frac :: u8))))) =
      (fpack sign ((K - n) * 2 ^ (fb + k) + f * 2 ^ n * 2 ^ k) :: u16)"
proof -
  have fk: "f * 2 ^ k < 2 ^ (fb + k)" using f(2) by (simp add: power_add)
  have kl: "(2::nat) ^ (fb + k) \<le> 2 ^ 10" using fb by (intro power_increasing) simp_all
  have "unat frac * 2 ^ k < 2 ^ LENGTH(64)" using fk kl f(1) by simp
  then have u: "unat (push_bit k frac) = f * 2 ^ k" unfolding f(1) [symmetric] by (rule unat_push_bit_less)
  have ne: "nat (int E + int K) = E + K" by simp
  show "ucast (pack sign (int E + int K) (push_bit k frac)) =
      (fpack sign ((E + K) * 2 ^ (fb + k) + f * 2 ^ k) :: u16)"
    using pack [of "int E + int K" "push_bit k frac"] fk top unfolding u ne by simp
  assume a: "E = 0" "f \<noteq> 0" and n: "n = fb + 1 - floorlog 2 f" "n \<le> K"
  have b: "f * 2 ^ n < 2 * 2 ^ fb" using normalize_bounds [of f "fb + 1"] a f by (simp add: n)
  have fl: "(2::nat) ^ fb \<le> 2 ^ 3" using fb by (intro power_increasing) simp_all
  have "unat (ucast frac :: u8) = f" using f fl by (subst unat_ucast_less) simp_all
  moreover have "f * 2 ^ n < 2 ^ 8" using b fl by simp
  ultimately have "unat (push_bit n (ucast frac :: u8)) = f * 2 ^ n" by (subst unat_push_bit_less) simp_all
  moreover have "f * 2 ^ n < 2 ^ 64" using b fl by simp
  ultimately have u1: "unat (ucast (push_bit n (ucast frac :: u8)) :: u64) = f * 2 ^ n" by (subst unat_ucast_less) simp_all
  have b2: "f * 2 ^ n * 2 ^ k < 2 * 2 ^ (fb + k)" using b by (simp add: power_add)
  have u2: "unat (push_bit k (ucast (push_bit n (ucast frac :: u8)) :: u64)) = f * 2 ^ n * 2 ^ k"
    by (rule trans [OF unat_push_bit_less]) (use b2 kl in \<open>simp_all only: u1, simp\<close>)
  have "0 < n" using normalize_bounds (1) [of f "fb + 1"] a f n by (cases n) auto
  then have "(K - n) * 2 ^ (fb + k) + 2 * 2 ^ (fb + k) \<le> (E + K + 1) * 2 ^ (fb + k)"
    using n(2) unfolding add_mult_distrib [symmetric] by (intro mult_right_mono) simp_all
  then have lt: "(K - n) * 2 ^ (fb + k) + f * 2 ^ n * 2 ^ k < 2 ^ 15" using b2 top by linarith
  have ne: "nat (1 - int n - 1 + int K) = K - n" using n(2) by simp
  show "ucast (pack sign (1 - int n - 1 + int K) (push_bit k (ucast (push_bit n (ucast frac :: u8))))) =
      (fpack sign ((K - n) * 2 ^ (fb + k) + f * 2 ^ n * 2 ^ k) :: u16)"
    using pack [of "1 - int n - 1 + int K" "push_bit k (ucast (push_bit n (ucast frac :: u8)))"] lt n(2)
    unfolding u2 ne by simp
qed


lemma e5m2_normal_shift:
  fixes frac :: u64
  assumes "0 < unat frac" "unat frac < 4"
  shows "softfloat_normSubnormalE5M2Sig (ucast frac) =
    \<lparr>e8_exp = 1 - int (2 + 1 - floorlog 2 (unat frac)), e8_sig = push_bit (2 + 1 - floorlog 2 (unat frac)) (ucast frac)\<rparr>"
proof -
  have "frac = 1 \<or> frac = 2 \<or> frac = 3" using assms by (simp only: word_unat_eq_iff) auto
  moreover have "floorlog 2 1 = 1" "floorlog 2 2 = 2" "floorlog 2 3 = 2"
    by (simp_all add: compute_floorlog)
  ultimately show ?thesis by (elim disjE) (simp_all add: softfloat_normSubnormalE5M2Sig_def)
qed

lemma e4m3_normal_shift:
  fixes frac :: u64
  assumes "0 < unat frac" "unat frac < 8"
  shows "softfloat_normSubnormalE4M3Sig (ucast frac) =
    \<lparr>e8_exp = 1 - int (3 + 1 - floorlog 2 (unat frac)), e8_sig = push_bit (3 + 1 - floorlog 2 (unat frac)) (ucast frac)\<rparr>"
proof -
  have u: "unat (ucast frac :: u8) = unat frac" by (rule unat_ucast_less) (use assms in simp)
  have "floorlog 2 (unat frac) \<le> 3" "0 < floorlog 2 (unat frac)"
    using assms floorlog_le_width [of "unat frac" 3] by (simp_all add: floorlog_def)
  then have "int (unat (softfloat_countLeadingZeros8 ! unat frac)) - 4 = int (3 + 1 - floorlog 2 (unat frac))"
    using assms by (simp add: clz8)
  then show ?thesis by (simp add: softfloat_normSubnormalE4M3Sig_def u)
qed

lemma e5m2_to_bf16_finite:
  assumes fin: "ffinite E5M2 (a :: u8)"
  shows "exactly E5M2 a BF16 (e5m2_to_bf16 a)"
proof -
  define E f where "E = fmag a div 2 ^ 2" and "f = fmag a mod 2 ^ 2"
  have c: "fmag a = E * 2 ^ 2 + f" and f: "f < 2 ^ 2" by (simp_all only: E_def f_def div_mult_mod_eq) simp
  have E: "E < 31" using fin c by (simp add: ffinite_def E5M2_def)
  have e: "expE5M2UI (ucast a) = int E" and fr: "unat (fracE5M2UI (ucast a)) = f"
    by (simp_all only: e5m2f.exp_eq e5m2f.frac_eq E_def f_def)
  have fz: "fracE5M2UI (ucast a) = 0 \<longleftrightarrow> f = 0" using fr by (metis unat_eq_0)
  have ne: "int E \<noteq> 0x1F" using E by simp
  note unf = e5m2_to_bf16_def Let_def e if_not_P [OF ne] fz e5m2f.sign_eq
  have top: "(E + 112 + 1) * 2 ^ (2 + 5) < 2 ^ 15" using E by simp
  note w = widen8 [of 2 5 packToBF16UI "fneg a" "fracE5M2UI (ucast a)" f E 112, OF _ fr f _ _ top, simplified, OF packs(2) [simplified]]
  consider "E = 0" "f = 0" | "E = 0" "f \<noteq> 0" | "0 < E" by blast
  then show ?thesis
  proof cases
    case 1
    have "e5m2_to_bf16 a = fpack (fneg a) 0" unfolding unf using 1 by (simp add: infty_codes)
    then show ?thesis by (rule exactlyI [where j = 117]) (use 1 c in \<open>simp_all add: E5M2_def BF16_def\<close>)
  next
    case 3
    have "e5m2_to_bf16 a = fpack (fneg a) ((E + 112) * 2 ^ (2 + 5) + f * 2 ^ 5)" unfolding unf using 3 w(1) by simp
    then show ?thesis
      by (rule exactlyI [where j = "5 + 112"])
         (use E f 3 c ival_widen_normal [of E f 2 5 112] in \<open>simp_all add: E5M2_def BF16_def\<close>)
  next
    case 2
    define n where "n = 2 + 1 - floorlog 2 f"
    have n3: "n \<le> 3" by (simp add: n_def)
    have sh: "softfloat_normSubnormalE5M2Sig (ucast (fracE5M2UI (ucast a))) =
        \<lparr>e8_exp = 1 - int n, e8_sig = push_bit n (ucast (fracE5M2UI (ucast a)))\<rparr>"
      using e5m2_normal_shift [of "fracE5M2UI (ucast a)"] 2 f by (simp add: fr n_def)
    have "e5m2_to_bf16 a = fpack (fneg a) ((112 - n) * 2 ^ (2 + 5) + f * 2 ^ n * 2 ^ 5)"
      unfolding unf sh using 2 w(2) [of n] n3 by (simp add: n_def)
    moreover have "f * 2 ^ n < 8" using normalize_bounds [of f 3] 2 f by (simp add: n_def)
    moreover have "ival (2 + 5) ((112 - n) * 2 ^ (2 + 5) + f * 2 ^ n * 2 ^ 5) = ival 2 f * 2 ^ (5 + 112)"
      by (rule ival_widen_subnormal [OF _ _ n_def]) (use 2 f n3 in simp_all)
    ultimately show ?thesis
      by (intro exactlyI [where j = "5 + 112"]) (use 2 c in \<open>simp_all add: E5M2_def BF16_def\<close>)
  qed
qed

lemma e4m3_to_bf16_finite:
  assumes fin: "fmag (a :: u8) \<noteq> 0x7F"
  shows "exactly E4M3 a BF16 (e4m3_to_bf16 a)"
proof -
  define E f where "E = fmag a div 2 ^ 3" and "f = fmag a mod 2 ^ 3"
  have c: "fmag a = E * 2 ^ 3 + f" and f: "f < 2 ^ 3" by (simp_all only: E_def f_def div_mult_mod_eq) simp
  have E: "E < 16" using fmag_less [of a] c by simp
  have e: "expE4M3UI (ucast a) = int E" and fr: "unat (fracE4M3UI (ucast a)) = f"
    by (simp_all only: e4m3f.exp_eq e4m3f.frac_eq E_def f_def)
  have fz: "fracE4M3UI (ucast a) = 0 \<longleftrightarrow> f = 0" using fr by (metis unat_eq_0)
  have ne: "\<not> (int E = 0xF \<and> fracE4M3UI (ucast a) = 0x7)"
    using fin c fr by (auto simp: word_unat_eq_iff)
  note unf = e4m3_to_bf16_def Let_def e if_not_P [OF ne] fz e4m3f.sign_eq
  have top: "(E + 120 + 1) * 2 ^ (3 + 4) < 2 ^ 15" using E by simp
  note w = widen8 [of 3 4 packToBF16UI "fneg a" "fracE4M3UI (ucast a)" f E 120, OF _ fr f _ _ top, simplified, OF packs(2) [simplified]]
  consider "E = 0" "f = 0" | "E = 0" "f \<noteq> 0" | "0 < E" by blast
  then show ?thesis
  proof cases
    case 1
    have "e4m3_to_bf16 a = fpack (fneg a) 0" unfolding unf using 1 by (simp add: infty_codes)
    then show ?thesis by (rule exactlyI [where j = 124]) (use 1 c in \<open>simp_all add: E4M3_def BF16_def\<close>)
  next
    case 3
    have "e4m3_to_bf16 a = fpack (fneg a) ((E + 120) * 2 ^ (3 + 4) + f * 2 ^ 4)" unfolding unf using 3 w(1) by simp
    then show ?thesis
      by (rule exactlyI [where j = "4 + 120"])
         (use E f 3 c ival_widen_normal [of E f 3 4 120] in \<open>simp_all add: E4M3_def BF16_def\<close>)
  next
    case 2
    define n where "n = 3 + 1 - floorlog 2 f"
    have n3: "n \<le> 3" using 2 by (simp add: n_def floorlog_def)
    have sh: "softfloat_normSubnormalE4M3Sig (ucast (fracE4M3UI (ucast a))) =
        \<lparr>e8_exp = 1 - int n, e8_sig = push_bit n (ucast (fracE4M3UI (ucast a)))\<rparr>"
      using e4m3_normal_shift [of "fracE4M3UI (ucast a)"] 2 f by (simp add: fr n_def)
    have "e4m3_to_bf16 a = fpack (fneg a) ((120 - n) * 2 ^ (3 + 4) + f * 2 ^ n * 2 ^ 4)"
      unfolding unf sh using 2 w(2) [of n] n3 by (simp add: n_def)
    moreover have "f * 2 ^ n < 16" using normalize_bounds [of f 4] 2 f by (simp add: n_def)
    moreover have "ival (3 + 4) ((120 - n) * 2 ^ (3 + 4) + f * 2 ^ n * 2 ^ 4) = ival 3 f * 2 ^ (4 + 120)"
      by (rule ival_widen_subnormal [OF _ _ n_def]) (use 2 f n3 in simp_all)
    ultimately show ?thesis
      by (intro exactlyI [where j = "4 + 120"]) (use 2 c in \<open>simp_all add: E4M3_def BF16_def\<close>)
  qed
qed

lemma e4m3_to_f16_finite:
  assumes fin: "fmag (a :: u8) \<noteq> 0x7F"
  shows "exactly E4M3 a F16 (e4m3_to_f16 a)"
proof -
  define E f where "E = fmag a div 2 ^ 3" and "f = fmag a mod 2 ^ 3"
  have c: "fmag a = E * 2 ^ 3 + f" and f: "f < 2 ^ 3" by (simp_all only: E_def f_def div_mult_mod_eq) simp
  have E: "E < 16" using fmag_less [of a] c by simp
  have e: "expE4M3UI (ucast a) = int E" and fr: "unat (fracE4M3UI (ucast a)) = f"
    by (simp_all only: e4m3f.exp_eq e4m3f.frac_eq E_def f_def)
  have fz: "fracE4M3UI (ucast a) = 0 \<longleftrightarrow> f = 0" using fr by (metis unat_eq_0)
  have ne: "\<not> (int E = 0xF \<and> fracE4M3UI (ucast a) = 0x7)"
    using fin c fr by (auto simp: word_unat_eq_iff)
  note unf = e4m3_to_f16_def Let_def e if_not_P [OF ne] fz e4m3f.sign_eq
  have top: "(E + 8 + 1) * 2 ^ (3 + 7) < 2 ^ 15" using E by simp
  note w = widen8 [of 3 7 packToF16UI "fneg a" "fracE4M3UI (ucast a)" f E 8, OF _ fr f _ _ top, simplified, OF packs(1) [simplified]]
  consider "E = 0" "f = 0" | "E = 0" "f \<noteq> 0" | "0 < E" by blast
  then show ?thesis
  proof cases
    case 1
    have "e4m3_to_f16 a = fpack (fneg a) 0" unfolding unf using 1 by (simp add: infty_codes)
    then show ?thesis by (rule exactlyI [where j = 15]) (use 1 c in \<open>simp_all add: E4M3_def F16_def\<close>)
  next
    case 3
    have "e4m3_to_f16 a = fpack (fneg a) ((E + 8) * 2 ^ (3 + 7) + f * 2 ^ 7)" unfolding unf using 3 w(1) by simp
    then show ?thesis
      by (rule exactlyI [where j = "7 + 8"])
         (use E f 3 c ival_widen_normal [of E f 3 7 8] in \<open>simp_all add: E4M3_def F16_def\<close>)
  next
    case 2
    define n where "n = 3 + 1 - floorlog 2 f"
    have n3: "n \<le> 3" using 2 by (simp add: n_def floorlog_def)
    have sh: "softfloat_normSubnormalE4M3Sig (ucast (fracE4M3UI (ucast a))) =
        \<lparr>e8_exp = 1 - int n, e8_sig = push_bit n (ucast (fracE4M3UI (ucast a)))\<rparr>"
      using e4m3_normal_shift [of "fracE4M3UI (ucast a)"] 2 f by (simp add: fr n_def)
    have "e4m3_to_f16 a = fpack (fneg a) ((8 - n) * 2 ^ (3 + 7) + f * 2 ^ n * 2 ^ 7)"
      unfolding unf sh using 2 w(2) [of n] n3 by (simp add: n_def)
    moreover have "f * 2 ^ n < 16" using normalize_bounds [of f 4] 2 f by (simp add: n_def)
    moreover have "ival (3 + 7) ((8 - n) * 2 ^ (3 + 7) + f * 2 ^ n * 2 ^ 7) = ival 3 f * 2 ^ (7 + 8)"
      by (rule ival_widen_subnormal [OF _ _ n_def]) (use 2 f n3 in simp_all)
    ultimately show ?thesis
      by (intro exactlyI [where j = "7 + 8"]) (use 2 c in \<open>simp_all add: E4M3_def F16_def\<close>)
  qed
qed

section \<open>Correctness of widening\<close>

definition widened :: "fmt \<Rightarrow> 'a::len word \<Rightarrow> fmt \<Rightarrow> 'b::len word \<Rightarrow> bool" where
  "widened F a F' w \<longleftrightarrow>
     (if fnan F a then w = qnan F' else if finf F a then w = infty F' (fneg a) else exactly F a F' w)"

lemma widened_exact: "ffinite F a \<Longrightarrow> exactly F a F' w \<Longrightarrow> widened F a F' w"
  by (simp add: widened_def ffinite_def fnan_def finf_def)

lemma inf32_code: "(ucast (packToF32UI sign 0xFF 0) :: u32) = infty F32 sign"
  by (simp add: pack32_fpack infty_def F32_def)

lemma f16_to_f32_widened: "widened F16 a F32 (fst (f16_to_f32 a st))"
proof (cases rule: fmt_cases [of F16 a])
  case 1
  then show ?thesis by (rule widened_exact) (rule f16_to_f32_finite [OF 1])
next
  case 2
  then have "expF16UI (ucast a) = 0x1F" "fracF16UI (ucast a) = 0" "\<not> fnan F16 a"
    by (simp_all add: f16m.inf_fields f16m.exp_eq f16m.frac_zero f16m.nan_fields)
  with 2 show ?thesis by (simp add: widened_def f16_to_f32_def Let_def inf32_code)
next
  case 3
  then have "expF16UI (ucast a) = 0x1F" "fracF16UI (ucast a) \<noteq> 0"
    by (simp_all add: f16m.nan_fields f16m.exp_eq f16m.frac_zero)
  with 3 show ?thesis by (simp add: widened_def f16_to_f32_def Let_def defaultNaNF32UI_def)
qed

lemma bf16_to_f32_widened: "widened BF16 a F32 (fst (bf16_to_f32 a st))"
proof (cases rule: fmt_cases [of BF16 a])
  case 1
  then show ?thesis by (rule widened_exact) (rule bf16_to_f32_finite [OF 1])
next
  case 2
  then have "expBF16UI (ucast a) = 0xFF" "fracBF16UI (ucast a) = 0" "\<not> fnan BF16 a"
    by (simp_all add: bf16m.inf_fields bf16m.exp_eq bf16m.frac_zero bf16m.nan_fields)
  with 2 show ?thesis by (simp add: widened_def bf16_to_f32_def Let_def inf32_code)
next
  case 3
  then have "expBF16UI (ucast a) = 0xFF" "fracBF16UI (ucast a) \<noteq> 0"
    by (simp_all add: bf16m.nan_fields bf16m.exp_eq bf16m.frac_zero)
  with 3 show ?thesis by (simp add: widened_def bf16_to_f32_def Let_def defaultNaNF32UI_def)
qed

lemma e5m2_special:
  fixes a :: u8
  assumes "\<not> ffinite E5M2 a"
  shows "expE5M2UI (ucast a) = 0x1F" "fracE5M2UI (ucast a) = 0 \<longleftrightarrow> finf E5M2 a"
proof -
  obtain f where f: "fmag a = 31 * 4 + f" "f < 4"
  proof (rule that [of "fmag a - 124"])
    show "fmag a = 31 * 4 + (fmag a - 124)" "fmag a - 124 < 4"
      using assms fmag_less [of a] by (simp_all add: ffinite_def E5M2_def)
  qed
  then have "fmag a div 2 ^ 2 = 31" "fmag a mod 2 ^ 2 = f"
    using div_radix [of f "2 ^ 2" 31] mod_radix [of f "2 ^ 2" 31] by simp_all
  moreover have "fracE5M2UI (ucast a) = 0 \<longleftrightarrow> fmag a mod 2 ^ 2 = 0" using e5m2f.frac_eq [of a] by (metis unat_eq_0)
  ultimately show "expE5M2UI (ucast a) = 0x1F" "fracE5M2UI (ucast a) = 0 \<longleftrightarrow> finf E5M2 a"
    using f by (simp_all add: e5m2f.exp_eq finf_def E5M2_def)
qed

lemma e5m2_to_bf16_widened: "widened E5M2 a BF16 (e5m2_to_bf16 a)"
proof (cases "ffinite E5M2 a")
  case True
  then show ?thesis by (rule widened_exact) (rule e5m2_to_bf16_finite [OF True])
next
  case False
  then show ?thesis
    using e5m2_special [OF False]
    by (auto simp: widened_def e5m2_to_bf16_def Let_def infty_codes bf16m.defNaN ffinite_def fnan_def finf_def)
qed

lemma e4m3_nan:
  fixes a :: u8
  assumes "fmag a = 0x7F"
  shows "expE4M3UI (ucast a) = 0xF" "fracE4M3UI (ucast a) = 7"
proof -
  show "expE4M3UI (ucast a) = 0xF" using assms by (simp add: e4m3f.exp_eq)
  have "unat (fracE4M3UI (ucast a)) = unat (7 :: u64)" using assms by (simp add: e4m3f.frac_eq)
  then show "fracE4M3UI (ucast a) = 7" by (simp only: word_unat_eq_iff)
qed

text \<open>
  The widening conversions \<open>f16_to_f32\<close>, \<open>bf16_to_f32\<close>, \<open>e5m2_to_bf16\<close>, \<open>e4m3_to_bf16\<close> and
  \<open>e4m3_to_f16\<close> are exact on every encoding: a finite operand, subnormal or not, keeps its
  sign and value, an infinity stays one, and a NaN becomes the target's default NaN.
\<close>

theorem widening_exact:
  "widened F16 h F32 (fst (f16_to_f32 h st)) \<and> widened BF16 b F32 (fst (bf16_to_f32 b st)) \<and>
   widened E5M2 c BF16 (e5m2_to_bf16 c) \<and>
   (if fmag d = 0x7F then e4m3_to_bf16 d = qnan BF16 \<and> e4m3_to_f16 d = qnan F16
    else exactly E4M3 d BF16 (e4m3_to_bf16 d) \<and> exactly E4M3 d F16 (e4m3_to_f16 d))"
  using f16_to_f32_widened [of h st] bf16_to_f32_widened [of b st] e5m2_to_bf16_widened [of c]
    e4m3_to_bf16_finite [of d] e4m3_to_f16_finite [of d] e4m3_nan [of d]
  by (simp add: e4m3_to_bf16_def e4m3_to_f16_def bf16m.defNaN f16m.defNaN)

text \<open>
  Widening to binary32 and narrowing back is the identity on every binary16 and every
  bfloat16 that is not a NaN, whatever the rounding modes of the two steps.
\<close>

theorem conversion_round_trip:
  "(\<not> fnan F16 h \<longrightarrow> fst (f32_to_f16 (fst (f16_to_f32 h st)) st') = h) \<and>
   (\<not> fnan BF16 b \<longrightarrow> fst (f32_to_bf16 (fst (bf16_to_f32 b st)) st') = b)"
proof (intro conjI impI)
  have ret: "fround F m (fneg w) (fval F32 w) = a"
    if "exactly F a F32 w" "ffinite F a" for F m and a :: u16 and w :: u32
    using that fround_fval [of F a m] by (simp add: exactly_def)
  have inf32: "finf F32 (infty F32 n :: u32) \<and> fneg (infty F32 n :: u32) = n" for n
    by (simp add: infty_def finf_def F32_def)
  have same: "infty F (fneg a) = a" if "finf F a" for F and a :: u16
    using that fpack_fneg_fmag [of a] by (simp add: infty_def finf_def del: fpack_fneg_fmag)
  show "fst (f32_to_f16 (fst (f16_to_f32 h st)) st') = h" if "\<not> fnan F16 h"
  proof (cases "finf F16 h")
    case True
    then show ?thesis using f16_to_f32_widened [of h st] that inf32 [of "fneg h"] same [of F16 h]
      by (simp add: widened_def special_conversions)
  next
    case False
    then have "ffinite F16 h" using that by (auto simp: ffinite_def fnan_def finf_def)
    then show ?thesis using f16_to_f32_finite [of h st] ret by (simp add: f32_to_f16_finite exactly_def)
  qed
  show "fst (f32_to_bf16 (fst (bf16_to_f32 b st)) st') = b" if "\<not> fnan BF16 b"
  proof (cases "finf BF16 b")
    case True
    then show ?thesis using bf16_to_f32_widened [of b st] that inf32 [of "fneg b"] same [of BF16 b]
      by (simp add: widened_def special_conversions)
  next
    case False
    then have "ffinite BF16 b" using that by (auto simp: ffinite_def fnan_def finf_def)
    then show ?thesis using bf16_to_f32_finite [of b st] ret by (simp add: f32_to_bf16_finite exactly_def)
  qed
qed

theorem conversion_round_trip_witness:
  "fst (f32_to_f16 (fst (f16_to_f32 0x3C01 softfloat_init)) softfloat_init) = 0x3C01"
  using conversion_round_trip [of "0x3C01" softfloat_init softfloat_init 0]
  by (simp add: fnan_def fmag_def F16_def)

section \<open>Conversions that deviate\<close>


text \<open>
  \<open>f16_to_e5m2\<close> is wrong on subnormals, to which it adds a hidden bit: in the nearest-even
  mode the smallest binary16 subnormal \<open>2 ^ -24\<close> becomes the E5M2 code 2, that is \<open>2 ^ -15\<close>,
  where the correctly rounded code is 0; and with saturation it turns infinity into the code
  0x77, not into the largest finite code 0x7B.
\<close>

theorem f16_to_e5m2_wrong:
  "fst (f16_to_e5m2 0x0001 False softfloat_init) = 2 \<and>
   fround E5M2 RNE False (fval F16 (0x0001 :: u16)) = (0 :: u8) \<and>
   fst (f16_to_e5m2 0x7C00 True softfloat_init) = 0x77 \<and> maxfin E5M2 = 0x7B"
proof -
  have "fst (f16_to_e5m2 0x0001 False softfloat_init) = 2"
    by code_simp
  moreover have "fst (f16_to_e5m2 0x7C00 True softfloat_init) = 0x77"
    by code_simp
  moreover have "fround E5M2 RNE False (fval F16 (0x0001 :: u16)) = (0 :: u8)"
  proof -
    have fv: "fval F16 (0x0001 :: u16) = 1 / 2 ^ 24" by (simp add: fval_def sval_def fneg_def fmag_def ival_def F16_def)
    have "round_code 2 0x7B RNE False (1 / 256 :: rat) = 0"
      using round_codeI [of 0 "0x7B" 2 "1 / 256 :: rat" RNE False] by (simp add: ival_def)
    then show ?thesis unfolding fv by (simp add: fround_def E5M2_def fpack_def)
  qed
  ultimately show ?thesis by (simp add: E5M2_def)
qed

text \<open>
  In the round-to-odd mode the saturating \<open>f32_to_e4m3\<close> turns the finite value 456 into
  the NaN code 0x7F, although saturation promises the largest finite code 0x7E.
\<close>

theorem f32_to_e4m3_odd_nan:
  "fval F32 (0x43E40000 :: u32) = 456 \<and>
   fst (f32_to_e4m3 0x43E40000 True (softfloat_init\<lparr>softfloat_roundingMode := softfloat_round_odd\<rparr>)) = 0x7F"
proof -
  have "fst (f32_to_e4m3 0x43E40000 True (softfloat_init\<lparr>softfloat_roundingMode := softfloat_round_odd\<rparr>)) = 0x7F"
    by code_simp
  then show ?thesis by (simp add: fval_def sval_def fneg_def fmag_def ival_def F32_def)
qed

end
