(* ===== verification/Sf_From_Int.thy ===== *)
theory Sf_From_Int
  imports Sf_Widen
begin

text \<open>
  The conversions of integers to floating-point numbers (\<open>ui32_to_f32.c\<close>, \<open>i32_to_f32.c\<close>,
  \<open>ui64_to_f32.c\<close>, \<open>i64_to_f32.c\<close>, \<open>ui32_to_bf16.c\<close>, \<open>i32_to_bf16.c\<close>).  A signed argument
  is a word read as a two's complement number.
\<close>

section \<open>The code\<close>

definition ui32_to_f32 :: "u32 \<Rightarrow> sf_state \<Rightarrow> u32 \<times> sf_state" where
  "ui32_to_f32 a st =
     (if a = 0 then (0, st)
      else if a AND 0x80000000 \<noteq> 0
      then softfloat_roundPackToF32 False 0x9D (ucast (drop_bit 1 a OR (a AND 1))) st
      else softfloat_normRoundPackToF32 False 0x9C (ucast a) st)"

definition i32_to_f32 :: "u32 \<Rightarrow> sf_state \<Rightarrow> u32 \<times> sf_state" where
  "i32_to_f32 a st =
     (let sign = (sint a < 0)
      in if a AND 0x7FFFFFFF = 0
         then (ucast (if sign then packToF32UI True 0x9E 0 else 0), st)
         else let absA = (if sign then - word_of_int (sint a) else word_of_int (sint a))
              in softfloat_normRoundPackToF32 sign 0x9C absA st)"

definition ui64_to_f32 :: "u64 \<Rightarrow> sf_state \<Rightarrow> u32 \<times> sf_state" where
  "ui64_to_f32 a st =
     (let shiftDist = int (unat (softfloat_countLeadingZeros64 a)) - 40
      in if 0 \<le> shiftDist
         then (ucast (if a \<noteq> 0 then packToF32UI False (0x95 - shiftDist) (push_bit (nat shiftDist) a) else 0), st)
         else let shiftDist = shiftDist + 7;
                  sig = (if shiftDist < 0 then softfloat_shortShiftRightJam64 a (word_of_int (- shiftDist))
                         else push_bit (nat shiftDist) a)
              in softfloat_roundPackToF32 False (0x9C - shiftDist) sig st)"

definition i64_to_f32 :: "u64 \<Rightarrow> sf_state \<Rightarrow> u32 \<times> sf_state" where
  "i64_to_f32 a st =
     (let sign = (sint a < 0);
          absA = (if sign then - a else a);
          shiftDist = int (unat (softfloat_countLeadingZeros64 absA)) - 40
      in if 0 \<le> shiftDist
         then (ucast (if a \<noteq> 0 then packToF32UI sign (0x95 - shiftDist) (push_bit (nat shiftDist) absA) else 0), st)
         else let shiftDist = shiftDist + 7;
                  sig = (if shiftDist < 0 then softfloat_shortShiftRightJam64 absA (word_of_int (- shiftDist))
                         else push_bit (nat shiftDist) absA)
              in softfloat_roundPackToF32 sign (0x9C - shiftDist) sig st)"

text \<open>
  The bfloat16 results are narrowed from a binary32 result rounded to odd, under the caller's
  mode restored in between.
\<close>

definition ui32_to_bf16 :: "u32 \<Rightarrow> sf_state \<Rightarrow> u16 \<times> sf_state" where
  "ui32_to_bf16 a st =
     (let origin_rounding_mode = softfloat_roundingMode st;
          st = st\<lparr>softfloat_roundingMode := softfloat_round_odd\<rparr>;
          (tmp_val, st) = ui32_to_f32 a st;
          st = st\<lparr>softfloat_roundingMode := origin_rounding_mode\<rparr>
      in f32_to_bf16 tmp_val st)"

definition i32_to_bf16 :: "u32 \<Rightarrow> sf_state \<Rightarrow> u16 \<times> sf_state" where
  "i32_to_bf16 a st =
     (let origin_rounding_mode = softfloat_roundingMode st;
          st = st\<lparr>softfloat_roundingMode := softfloat_round_odd\<rparr>;
          (tmp_val, st) = i32_to_f32 a st;
          st = st\<lparr>softfloat_roundingMode := origin_rounding_mode\<rparr>
      in f32_to_bf16 tmp_val st)"

section \<open>The specification\<close>

text \<open>The integer rounded to the format, the inexact flag raised exactly when that changes it.\<close>

definition ieee_from_int :: "fmt \<Rightarrow> int \<Rightarrow> sf_state \<Rightarrow> 'a::len word \<times> sf_state" where
  "ieee_from_int F i st =
     (let z = fround F (sf_mode (softfloat_roundingMode st)) (i < 0) (of_int i) :: 'a word
      in (z, if fval F z = of_int i then st else softfloat_raiseFlags softfloat_flag_inexact st))"

text \<open>A nonzero integer as a significand with seven guard bits.\<close>

definition int_parts :: "int \<Rightarrow> int \<Rightarrow> nat \<Rightarrow> rat \<Rightarrow> bool" where
  "int_parts i e n s \<longleftrightarrow> 2 ^ 30 \<le> n \<and> n < 2 ^ 31 \<and> 0 \<le> e \<and> e < 0xFD \<and> agrees (2 ^ 6) s n \<and>
     \<bar>of_int i\<bar> * 2 ^ 149 = s * 2 powi e / 2 ^ 7"

definition packed :: "bool \<Rightarrow> int \<Rightarrow> nat \<Rightarrow> sf_state \<Rightarrow> u32 \<times> sf_state" where
  "packed neg e n st =
     (fpack neg (pack_code 23 7 0xFD (sf_mode (softfloat_roundingMode st)) neg e n),
      softfloat_raiseFlags (pack_flags 23 7 0xFD (sf_mode (softfloat_roundingMode st)) neg (sf_before st) e n) st)"

lemma pack_sig_value:
  assumes n: "2 ^ 30 \<le> n" "n < 2 ^ 31" and m: "m \<noteq> RNO"
  shows "ival 23 (e * 2 ^ 23 + pack_sig m neg 7 n) = pack_sig m neg 7 n * 2 ^ e" and "pack_sig m neg 7 n \<le> 2 ^ 24"
proof -
  define q where "q = n div 2 ^ 7"
  have q: "2 ^ 23 \<le> q" "q < 2 ^ 24"
    using n div_le_mono [OF n(1), of "2 ^ 7"] by (simp_all add: q_def div_less_iff_less_mult)
  have i: "ival 23 (e * 2 ^ 23 + k) = k * 2 ^ e" if "2 ^ 23 \<le> k" "k \<le> 2 ^ 24" for k
  proof (cases "k = 2 ^ 24")
    case True
    have "ival 23 ((e + 1) * 2 ^ 23 + 2 ^ 23) = 2 ^ 23 * 2 ^ (e + 1)" by (rule ival_pack) simp_all
    then show ?thesis using True by (simp add: add.commute)
  qed (use that ival_pack [of 23 k e] in simp)
  have p: "pack_sig m neg 7 n = q + of_bool (guard_incr m neg 7 n)" unfolding q_def by (rule pack_sig_incr) (use m in simp_all)
  show "ival 23 (e * 2 ^ 23 + pack_sig m neg 7 n) = pack_sig m neg 7 n * 2 ^ e" unfolding p by (rule i) (use q in auto)
  show "pack_sig m neg 7 n \<le> 2 ^ 24" unfolding p using q by auto
qed

lemma packed_from_int:
  assumes ip: "int_parts i e n s"
  shows "packed (i < 0) e n st = ieee_from_int F32 i st"
proof -
  define m where "m = sf_mode (softfloat_roundingMode st)"
  have m: "m \<noteq> RNO" by (simp add: m_def)
  have n: "2 ^ 30 \<le> n" "n < 2 ^ 31" and e: "0 \<le> e" "e < 0xFD" and ag: "agrees (2 ^ 6) s n"
    and x: "\<bar>of_int i\<bar> * 2 ^ 149 = s * 2 powi e / 2 ^ 7" using ip by (simp_all add: int_parts_def)
  define k where "k = nat e"
  define P where "P = pack_sig m (i < 0) 7 n"
  have k: "k < 253" "2 powi e = (2::rat) ^ k" using e by (simp_all add: k_def power_int_def)
  have P: "ival 23 (k * 2 ^ 23 + P) = P * 2 ^ k" "P \<le> 2 ^ 24" using pack_sig_value [OF n m] by (simp_all add: P_def)
  have c: "pack_code 23 7 0xFD m (i < 0) e n = k * 2 ^ 23 + P" using e by (simp add: pack_code_def P_def k_def)
  have "k * 2 ^ 23 \<le> 252 * 2 ^ 23" using k by (intro mult_right_mono) simp_all
  then have lt: "k * 2 ^ 23 + P < 2 ^ (LENGTH(32) - 1)" using P(2) by simp
  have "fround F32 m (i < 0) (of_int i) = (fpack (i < 0) (k * 2 ^ 23 + P) :: u32)"
    using pack_code_round [of 7 23 m s n e 253 "i < 0"] n e ag m
    unfolding fround_def F32_fields(1,3) x c by (simp add: F32_def)
  moreover have "fval F32 (fpack (i < 0) (k * 2 ^ 23 + P) :: u32) = of_int i \<longleftrightarrow> n mod 2 ^ 7 = 0"
  proof -
    define V :: rat where "V = of_nat (P * 2 ^ k) / 2 ^ 149"
    have "fval F32 (fpack (i < 0) (k * 2 ^ 23 + P) :: u32) = (if i < 0 then - 1 else 1) * V"
      unfolding fval_fpack [OF lt] F32_fields(1,3) P(1) V_def by simp
    then have "fval F32 (fpack (i < 0) (k * 2 ^ 23 + P) :: u32) = of_int i \<longleftrightarrow> V = \<bar>of_int i\<bar>"
      by (cases "i < 0") auto
    also have "\<dots> \<longleftrightarrow> of_nat (P * 2 ^ k) = \<bar>of_int i :: rat\<bar> * 2 ^ 149"
      unfolding V_def by (simp add: divide_eq_eq)
    also have "\<dots> \<longleftrightarrow> of_nat (P * 2 ^ 7) = s" unfolding x k by (simp add: eq_divide_eq)
    also have "\<dots> \<longleftrightarrow> n = P * 2 ^ 7" using agreesD(5) [OF ag, of "P * 2 ^ 7"] by auto
    also have "\<dots> \<longleftrightarrow> n mod 2 ^ 7 = 0"
    proof
      assume "n mod 2 ^ 7 = 0"
      then have "n = n div 2 ^ 7 * 2 ^ 7" by (simp add: mod_0_imp_dvd)
      then show "n = P * 2 ^ 7" unfolding P_def using pack_sig_exact [of 7 m "i < 0" "n div 2 ^ 7"] m by simp
    qed simp
    finally show ?thesis .
  qed
  moreover have "pack_flags 23 7 0xFD m (i < 0) (sf_before st) e n = (if n mod 2 ^ 7 = 0 then 0 else softfloat_flag_inexact)"
    using e by (simp add: pack_flags_def)
  ultimately show ?thesis unfolding packed_def ieee_from_int_def m_def [symmetric] c Let_def by simp
qed

section \<open>The conversions pack the integer\<close>

lemma int_parts_exact:
  assumes m: "0 < m" "m < 2 ^ 31" "\<bar>i\<bar> = int m" and k: "k = 31 - floorlog 2 m"
  shows "int_parts i (156 - int k) (m * 2 ^ k) (of_nat (m * 2 ^ k))"
proof -
  have b: "2 ^ 30 \<le> m * 2 ^ k" "m * 2 ^ k < 2 ^ 31" using normalize_bounds [OF m(1,2)] by (simp_all add: k)
  have "0 < floorlog 2 m" using m(1) by (simp add: floorlog_def)
  then have k': "k \<le> 30" using k by simp
  have i: "\<bar>of_int i :: rat\<bar> = of_nat m" by (metis m(3) of_int_abs of_int_of_nat_eq)
  have "(2::rat) powi (156 - int k) = 2 ^ (156 - k)" using k' by (simp add: power_int_def nat_diff_distrib')
  moreover have "(2::rat) ^ 156 = 2 ^ k * 2 ^ (156 - k)" using k' by (simp flip: power_add)
  ultimately have "\<bar>of_int i\<bar> * 2 ^ 149 = of_nat (m * 2 ^ k) * (2::rat) powi (156 - int k) / 2 ^ 7"
    unfolding i by simp
  then show ?thesis using b k' unfolding int_parts_def by (simp del: of_nat_mult)
qed

lemma normRoundPack_packed:
  assumes "0 < unat sig" "unat sig < 2 ^ 31" "k = 31 - floorlog 2 (unat sig)"
  shows "softfloat_normRoundPackToF32 sign 0x9C sig st = packed sign (156 - int k) (unat sig * 2 ^ k) st"
  unfolding packed_def by (subst f32n.nrp [of sig _ k]) (use assms in simp_all)

lemma roundPack_packed:
  assumes "2 ^ 30 \<le> unat sig" "unat sig < 2 ^ 31" "0 \<le> e" "e < 0xFD"
  shows "softfloat_roundPackToF32 sign e sig st = packed sign e (unat sig) st"
  unfolding packed_def by (rule f32p.rp) (use assms in simp_all)

lemma int_parts_jam:
  assumes m: "2 ^ 30 \<le> jam_shift m d" "jam_shift m d < 2 ^ 31" "\<bar>i\<bar> = int m" and d: "d < 90"
  shows "int_parts i (156 + int d) (jam_shift m d) (of_nat m / 2 ^ d)"
proof -
  have i: "\<bar>of_int i :: rat\<bar> = of_nat m" by (metis m(3) of_int_abs of_int_of_nat_eq)
  have "(2::rat) powi (156 + int d) = 2 ^ 156 * 2 ^ d" by (simp add: power_int_def nat_add_distrib power_add)
  then have "\<bar>of_int i\<bar> * 2 ^ 149 = of_nat m / 2 ^ d * (2::rat) powi (156 + int d) / 2 ^ 7" unfolding i by simp
  moreover have "agrees (2 ^ 6) (of_nat m / 2 ^ d :: rat) (jam_shift m d)" by (rule agrees_jam_shift) simp_all
  ultimately show ?thesis using m(1,2) d by (simp add: int_parts_def)
qed

lemma jam_shift_bounds:
  assumes "2 ^ (k + d) \<le> m" "m < 2 ^ (k + 1 + d)"
  shows "2 ^ k \<le> jam_shift m d" "jam_shift m d < 2 ^ (k + 1)"
proof -
  have "2 ^ k \<le> m div 2 ^ d" "m div 2 ^ d < 2 ^ (k + 1)"
    using assms by (simp_all add: less_eq_div_iff_mult_less_eq div_less_iff_less_mult power_add)
  then show "2 ^ k \<le> jam_shift m d" "jam_shift m d < 2 ^ (k + 1)"
    using or_bit_less [of "m div 2 ^ d" "k + 1"] by (auto simp: jam_shift_def or_of_bool)
qed

lemma ui32_packed:
  assumes "a \<noteq> 0"
  obtains e n s where "int_parts (int (unat a)) e n s" "\<And>st. ui32_to_f32 a st = packed False e n st"
proof (cases "a AND 0x80000000 = 0")
  case True
  have "unat a < 2 ^ 31"
  proof -
    have "(0x80000000 :: u32) = NOT (mask 31)" by (simp add: mask_eq_exp_minus_1)
    then show ?thesis using True by (metis high_bits_zero)
  qed
  moreover have "0 < unat a" using assms by (simp add: unat_eq_0 neq0_conv [symmetric])
  ultimately show ?thesis
    using that int_parts_exact [of "unat a" "int (unat a)"] normRoundPack_packed [of "ucast a" _ False] True assms
    by (simp add: ui32_to_f32_def)
next
  case False
  have ge: "2 ^ 31 \<le> unat a"
  proof -
    have "(0x80000000 :: u32) = NOT (mask 31)" by (simp add: mask_eq_exp_minus_1)
    then show ?thesis using False by (metis high_bits_zero not_less)
  qed
  have s: "a AND 1 = of_bool (unat a mod 2 ^ 1 \<noteq> 0)"
    by (rule word_unat_eq_iff [THEN iffD2]) (simp add: unat_and_one of_bool_def)
  have "unat (drop_bit 1 a OR (a AND 1)) = jam_shift (unat a) 1"
    unfolding s unat_or_bit unat_drop_bit jam_shift_def ..
  then have u: "unat (ucast (drop_bit 1 a OR (a AND 1)) :: u64) = jam_shift (unat a) 1" by simp
  have b: "2 ^ 30 \<le> jam_shift (unat a) 1" "jam_shift (unat a) 1 < 2 ^ (30 + 1)"
    by (rule jam_shift_bounds; use ge in simp)+
  have "int_parts (int (unat a)) (156 + int 1) (jam_shift (unat a) 1) (of_nat (unat a) / 2 ^ 1)"
    by (rule int_parts_jam) (use b in simp_all)
  moreover have "ui32_to_f32 a st = packed False (156 + int 1) (jam_shift (unat a) 1) st" for st
    using roundPack_packed [of "ucast (drop_bit 1 a OR (a AND 1))" "0x9D" False st] b False assms
    unfolding u ui32_to_f32_def by simp
  ultimately show ?thesis by (rule that)
qed

lemma sint_sign: "sint (a :: 'a::len word) < 0 \<longleftrightarrow> fneg a"
  unfolding fneg_top_bit sint_uint by (simp add: bit_uint_iff)

lemma sint_nonzero: "a \<noteq> 0 \<Longrightarrow> sint a \<noteq> 0" for a :: "'a::len word"
proof
  assume "a \<noteq> 0" "sint a = 0"
  moreover have "a = word_of_int (sint a)" by simp
  ultimately show False by (simp only: of_int_0)
qed

lemma unat_abs_word:
  fixes a :: "'a::len word"
  assumes "LENGTH('a) = Suc w" "w < LENGTH('b::len)"
  shows "int (unat (if sint a < 0 then - word_of_int (sint a) else word_of_int (sint a) :: 'b word)) = \<bar>sint a\<bar>"
    and "\<bar>sint a\<bar> \<le> 2 ^ w"
proof -
  show b: "\<bar>sint a\<bar> \<le> 2 ^ w"
    using sint_greater_eq [of a] sint_less [of a] assms(1) by (simp add: abs_le_iff)
  have "(2::int) ^ w < 2 ^ LENGTH('b)" using assms(2) by (rule power_strict_increasing) simp
  with b have "\<bar>sint a\<bar> < 2 ^ LENGTH('b)" by (rule le_less_trans)
  then have "unat (word_of_int \<bar>sint a\<bar> :: 'b word) = nat \<bar>sint a\<bar>" by (intro unat_word_of_int_nonneg) simp_all
  moreover have "(if sint a < 0 then - word_of_int (sint a) else word_of_int (sint a) :: 'b word) = word_of_int \<bar>sint a\<bar>"
    by simp
  ultimately show "int (unat (if sint a < 0 then - word_of_int (sint a) else word_of_int (sint a) :: 'b word)) = \<bar>sint a\<bar>"
    by (simp only:)
qed

lemma i32_packed:
  assumes "a \<noteq> 0"
  obtains e n s where "int_parts (sint a) e n s" "\<And>st. i32_to_f32 a st = packed (sint a < 0) e n st"
proof (cases "a AND 0x7FFFFFFF = 0")
  case True
  have "fmag a = 0"
  proof -
    have "(0x7FFFFFFF :: u32) = mask 31" by (simp add: mask_eq_exp_minus_1)
    then have "unat a mod 2 ^ 31 = 0" using True by (metis unat_and_mask unsigned_0)
    then show ?thesis by (simp add: fmag_def)
  qed
  then have "unat a = 2 ^ 31" using assms unat_eq_fneg_fmag [of a] by (cases "fneg a") (simp_all add: unat_eq_0)
  then have a: "a = 0x80000000" by (intro word_unat_eq_iff [THEN iffD2]) simp
  have v: "sint a = - (2 ^ 31)" by (simp add: a)
  have "int_parts (sint a) 157 (2 ^ 30) (of_nat (2 ^ 30))"
    unfolding int_parts_def v using agrees_refl [of "2 ^ 6" "2 ^ 30", where ?'a = rat] by (simp add: power_int_def)
  moreover have "i32_to_f32 a st = packed (sint a < 0) 157 (2 ^ 30) st" for st
  proof -
    have "(ucast (packToF32UI True 0x9E 0) :: u32) = fpack True (158 * 2 ^ 23)"
      by (rule word_eq_fpackI) (subst unat_pack32(2); simp)
    then show ?thesis unfolding i32_to_f32_def Let_def if_P [OF True] packed_def v
      using pack_sig_exact [of 7 "sf_mode (softfloat_roundingMode st)" True "2 ^ 23"]
      by (simp add: pack_code_def pack_flags_def)
  qed
  ultimately show ?thesis by (rule that)
next
  case False
  define m where "m = (if sint a < 0 then - word_of_int (sint a) else word_of_int (sint a) :: u64)"
  have um: "int (unat m) = \<bar>sint a\<bar>" "\<bar>sint a\<bar> \<le> 2 ^ 31"
    unfolding m_def using unat_abs_word [of 31, where ?'b = 64 and a = a] by simp_all
  have "sint a \<noteq> - (2 ^ 31)"
  proof
    assume "sint a = - (2 ^ 31)"
    moreover have "a = word_of_int (sint a)" by simp
    ultimately have "a = word_of_int (- (2 ^ 31))" by (simp only:)
    then have "a = 0x80000000" by simp
    then show False using False by simp
  qed
  moreover have "sint a \<noteq> 0" by (rule sint_nonzero [OF assms])
  moreover have "sint a < 2 ^ 31" using sint_less [of a] by simp
  moreover obtain k where k: "unat m = k" by blast
  ultimately have "0 < k" "int k < 2 ^ 31" using um unfolding k by linarith+
  then have b: "0 < unat m" "unat m < 2 ^ 31" by (simp_all add: k)
  show ?thesis
  proof (rule that [OF int_parts_exact [OF b um(1) [symmetric] refl]])
    show "i32_to_f32 a st = packed (sint a < 0) (156 - int (31 - floorlog 2 (unat m))) (unat m * 2 ^ (31 - floorlog 2 (unat m))) st" for st
      unfolding i32_to_f32_def Let_def if_not_P [OF False] m_def [symmetric] by (rule normRoundPack_packed [OF b refl])
  qed
qed

text \<open>The common part of the 64-bit conversions, for a nonzero magnitude.\<close>

definition from_abs64 :: "bool \<Rightarrow> u64 \<Rightarrow> sf_state \<Rightarrow> u32 \<times> sf_state" where
  "from_abs64 sign absA st =
     (let shiftDist = int (unat (softfloat_countLeadingZeros64 absA)) - 40
      in if 0 \<le> shiftDist
         then (ucast (packToF32UI sign (0x95 - shiftDist) (push_bit (nat shiftDist) absA)), st)
         else softfloat_roundPackToF32 sign (0x9C - (shiftDist + 7))
           (if shiftDist + 7 < 0 then softfloat_shortShiftRightJam64 absA (word_of_int (- (shiftDist + 7)))
            else push_bit (nat (shiftDist + 7)) absA) st)"

lemma abs64_packed:
  fixes absA :: u64
  assumes nz: "0 < unat absA"
  shows "\<exists>e n s. (\<forall>i. \<bar>i\<bar> = int (unat absA) \<longrightarrow> int_parts i e n s) \<and> (\<forall>sign st. from_abs64 sign absA st = packed sign e n st)"
proof -
  define shiftDist where "shiftDist = int (unat (softfloat_countLeadingZeros64 absA)) - 40"
  note f = from_abs64_def [of _ absA, folded shiftDist_def, unfolded Let_def]
  define m where "m = unat absA"
  define l where "l = floorlog 2 m"
  have m: "0 < m" "m < 2 ^ l" "2 ^ (l - 1) \<le> m" and l: "0 < l" "l \<le> 64"
  proof -
    show "0 < m" using nz by (simp add: m_def)
    then show "m < 2 ^ l" "2 ^ (l - 1) \<le> m" "0 < l"
      using floorlog_bounds [of m 2] by (auto simp: l_def floorlog_def)
    show "l \<le> 64" unfolding l_def by (rule floorlog_le_width) (simp add: m_def)
  qed
  have sd: "shiftDist = 24 - int l" using l by (simp add: shiftDist_def unat_clz64 l_def m_def of_nat_diff)
  show ?thesis
  proof (cases "l \<le> 31")
    case True
    define k where "k = 31 - l"
    have lt: "m < 2 ^ 31" using m(2) power_increasing [OF True, of "2::nat"] by simp
    have ip: "int_parts i (156 - int k) (m * 2 ^ k) (of_nat (m * 2 ^ k))" if "\<bar>i\<bar> = int m" for i
      by (rule int_parts_exact [OF m(1) lt that]) (simp add: k_def l_def)
    have b: "2 ^ 30 \<le> m * 2 ^ k" "m * 2 ^ k < 2 ^ 31"
      using normalize_bounds [OF m(1) lt] by (simp_all add: k_def l_def)
    show ?thesis
    proof (intro exI conjI allI impI)
      show "int_parts i (156 - int k) (m * 2 ^ k) (of_nat (m * 2 ^ k))" if "\<bar>i\<bar> = int (unat absA)" for i
        by (rule ip) (use that in \<open>simp add: m_def\<close>)
      fix sign st
      show "from_abs64 sign absA st = packed sign (156 - int k) (m * 2 ^ k) st"
      proof (cases "l \<le> 24")
        case True
        define q where "q = m * 2 ^ (24 - l)"
        have n: "m * 2 ^ k = q * 2 ^ 7" 
        proof -
          have "k = (24 - l) + 7" using True by (simp add: k_def)
          then show ?thesis unfolding q_def mult.assoc by (simp only: power_add)
        qed
        have q: "q < 2 ^ 24" using b(2) unfolding n by simp
        have u: "unat (push_bit (24 - l) absA) = q"
          unfolding q_def m_def by (rule unat_push_bit_less) (use q in \<open>simp add: q_def m_def\<close>)
        have e: "0x95 - shiftDist = int (125 + l)" "156 - int k = int (125 + l)" "nat shiftDist = 24 - l" "0 \<le> shiftDist"
          using True by (simp_all add: sd k_def)
        have "unat (ucast (packToF32UI sign (int (125 + l)) (push_bit (24 - l) absA)) :: u32) =
            of_bool sign * 2 ^ (LENGTH(32) - 1) + ((125 + l) * 2 ^ 23 + q)"
          using True q by (subst unat_pack32(2)) (simp_all add: u nat_add_distrib)
        then have "(ucast (packToF32UI sign (int (125 + l)) (push_bit (24 - l) absA)) :: u32) = fpack sign ((125 + l) * 2 ^ 23 + q)"
          by (rule word_eq_fpackI)
        then show ?thesis
          unfolding f e(1-3) if_P [OF e(4)] packed_def n
          using True pack_sig_exact [of 7 "sf_mode (softfloat_roundingMode st)" sign q]
          by (simp add: pack_code_def pack_flags_def nat_add_distrib)
      next
        case False
        have e: "\<not> 0 \<le> shiftDist" "\<not> shiftDist + 7 < 0" "0x9C - (shiftDist + 7) = 156 - int k" "nat (shiftDist + 7) = k"
          using False \<open>l \<le> 31\<close> by (simp_all add: sd k_def)
        have u: "unat (push_bit k absA) = m * 2 ^ k"
          unfolding m_def by (rule unat_push_bit_less) (use b(2) in \<open>simp add: m_def\<close>)
        show ?thesis unfolding f if_not_P [OF e(1)] if_not_P [OF e(2)] e(3,4)
          by (rule trans [OF roundPack_packed]) (use b u in \<open>simp_all add: k_def\<close>)
      qed
    qed
  next
    case False
    define d where "d = l - 31"
    have d: "0 < d" "d \<le> 33" "l = 31 + d" using False l by (simp_all add: d_def)
    have b: "2 ^ 30 \<le> jam_shift m d" "jam_shift m d < 2 ^ (30 + 1)"
      by (rule jam_shift_bounds; use m(2,3) d in \<open>simp add: add.commute\<close>)+
    have e: "\<not> 0 \<le> shiftDist" "shiftDist + 7 < 0" "0x9C - (shiftDist + 7) = 156 + int d" "- (shiftDist + 7) = int d"
      using d by (simp_all add: sd)
    have "unat (word_of_int (int d) :: u8) = d" using d by (simp add: unat_of_nat)
    then have u: "unat (softfloat_shortShiftRightJam64 absA (word_of_int (int d))) = jam_shift m d"
      by (simp add: unat_shortShiftRightJam64 m_def)
    show ?thesis
    proof (intro exI conjI allI impI)
      show "int_parts i (156 + int d) (jam_shift m d) (of_nat m / 2 ^ d)" if "\<bar>i\<bar> = int (unat absA)" for i
        by (rule int_parts_jam) (use b d that in \<open>simp_all add: m_def\<close>)
      show "from_abs64 sign absA st = packed sign (156 + int d) (jam_shift m d) st" for sign st
        unfolding f if_not_P [OF e(1)] if_P [OF e(2)] e(3,4) u [symmetric]
        by (rule roundPack_packed) (use b u d in simp_all)
    qed
  qed
qed

lemma ui64_packed:
  assumes "a \<noteq> 0"
  obtains e n s where "int_parts (int (unat a)) e n s" "\<And>st. ui64_to_f32 a st = packed False e n st"
proof -
  have nz: "0 < unat a" using assms by (simp add: unat_eq_0 neq0_conv [symmetric])
  have "ui64_to_f32 a st = from_abs64 False a st" for st
    unfolding ui64_to_f32_def from_abs64_def if_P [OF assms] Let_def ..
  then show ?thesis using abs64_packed [OF nz] that by (metis abs_of_nat)
qed

lemma i64_packed:
  assumes "a \<noteq> 0"
  obtains e n s where "int_parts (sint a) e n s" "\<And>st. i64_to_f32 a st = packed (sint a < 0) e n st"
proof -
  define absA where "absA = (if sint a < 0 then - a else a)"
  have "absA = (if sint a < 0 then - word_of_int (sint a) else word_of_int (sint a))" by (simp add: absA_def)
  then have u: "int (unat absA) = \<bar>sint a\<bar>"
    using unat_abs_word(1) [of 63, where ?'b = 64 and a = a] by (simp only:) simp
  have "sint a \<noteq> 0" by (rule sint_nonzero [OF assms])
  with u have nz: "0 < unat absA" by linarith
  have "i64_to_f32 a st = from_abs64 (sint a < 0) absA st" for st
    unfolding i64_to_f32_def from_abs64_def if_P [OF assms] Let_def absA_def [symmetric] ..
  then show ?thesis using abs64_packed [OF nz] that unfolding u by metis
qed

lemma ieee_from_int_0: "ieee_from_int F32 0 st = (0, st)"
  by (simp add: ieee_from_int_def Let_def fpack_def fval_eq_0_iff fmag_def)

lemma from_int_zero: "ui32_to_f32 0 st = (0, st)" "i32_to_f32 0 st = (0, st)" "ui64_to_f32 0 st = (0, st)" "i64_to_f32 0 st = (0, st)"
  by (simp_all add: ui32_to_f32_def i32_to_f32_def ui64_to_f32_def i64_to_f32_def Let_def unat_clz64 floorlog_def)

lemma ui32_to_f32_spec: "ui32_to_f32 a st = ieee_from_int F32 (int (unat a)) st"
proof (cases "a = 0")
  case False
  then obtain e n s where "int_parts (int (unat a)) e n s" "\<And>st. ui32_to_f32 a st = packed False e n st" by (rule ui32_packed) blast
  then show ?thesis using packed_from_int [of "int (unat a)" e n s st] by simp
qed (simp add: from_int_zero ieee_from_int_0)

lemma i32_to_f32_spec: "i32_to_f32 a st = ieee_from_int F32 (sint a) st"
proof (cases "a = 0")
  case False
  then obtain e n s where "int_parts (sint a) e n s" "\<And>st. i32_to_f32 a st = packed (sint a < 0) e n st" by (rule i32_packed) blast
  then show ?thesis using packed_from_int [of "sint a" e n s st] by simp
qed (simp add: from_int_zero ieee_from_int_0)

lemma ui64_to_f32_spec: "ui64_to_f32 a st = ieee_from_int F32 (int (unat a)) st"
proof (cases "a = 0")
  case False
  then obtain e n s where "int_parts (int (unat a)) e n s" "\<And>st. ui64_to_f32 a st = packed False e n st" by (rule ui64_packed) blast
  then show ?thesis using packed_from_int [of "int (unat a)" e n s st] by simp
qed (simp add: from_int_zero ieee_from_int_0)

lemma i64_to_f32_spec: "i64_to_f32 a st = ieee_from_int F32 (sint a) st"
proof (cases "a = 0")
  case False
  then obtain e n s where "int_parts (sint a) e n s" "\<And>st. i64_to_f32 a st = packed (sint a < 0) e n st" by (rule i64_packed) blast
  then show ?thesis using packed_from_int [of "sint a" e n s st] by simp
qed (simp add: from_int_zero ieee_from_int_0)

section \<open>Narrowing after rounding to odd\<close>

lemma round_code_odd_narrow:
  assumes ip: "int_parts i e n s" and m: "m \<noteq> RNO"
  shows "fround BF16 m neg (fval F32 (fpack neg' (pack_code 23 7 0xFD ROD neg' e n) :: u32)) = (fround BF16 m neg (of_int i) :: u16)"
proof -
  have n: "2 ^ 30 \<le> n" "n < 2 ^ 31" and e: "0 \<le> e" "e < 0xFD" and ag: "agrees (2 ^ 6) s n"
    and x: "\<bar>of_int i\<bar> * 2 ^ 149 = s * 2 powi e / 2 ^ 7" using ip by (simp_all add: int_parts_def)
  define k where "k = nat e"
  define P where "P = pack_sig ROD neg' 7 n"
  have k: "k < 253" "2 powi e = (2::rat) ^ k" using e by (simp_all add: k_def power_int_def)
  have P: "ival 23 (k * 2 ^ 23 + P) = P * 2 ^ k" "P \<le> 2 ^ 24" using pack_sig_value [OF n] by (simp_all add: P_def)
  have c: "pack_code 23 7 0xFD ROD neg' e n = k * 2 ^ 23 + P" using e by (simp add: pack_code_def P_def k_def)
  have Pj: "P = jam_shift n 7"
    unfolding P_def by (subst pack_sig_incr) (auto simp: jam_shift_def or_of_bool guard_incr_def)
  have b: "2 ^ 23 \<le> P" "P < 2 ^ (23 + 1)" unfolding Pj by (rule jam_shift_bounds; use n in simp)+
  have "k * 2 ^ 23 \<le> 252 * 2 ^ 23" using k by (intro mult_right_mono) simp_all
  then have lt: "k * 2 ^ 23 + P < 2 ^ (LENGTH(32) - 1)" using P(2) by simp
  have v: "\<bar>fval F32 (fpack neg' (k * 2 ^ 23 + P) :: u32)\<bar> * 2 ^ 149 = of_nat P * 2 ^ k"
    unfolding fval_fpack [OF lt] F32_fields(1,3) P(1) by (simp add: abs_mult)
  have "agrees (2 ^ 6) (s / 2 ^ 7) P" unfolding Pj by (rule agrees_jam_shift [OF ag]) simp
  then have ag': "agrees (2 ^ (16 - 1)) (s / 2 ^ 7) P" by (rule agrees_weaken) simp
  have r: "pack_code 7 16 0xFD m neg e P = round_code 7 (max_code 7 0xFD) m neg (t * 2 powi e / 2 ^ 16)"
    if "agrees (2 ^ (16 - 1)) t P" for t :: rat
    by (rule pack_code_round) (use m that b in simp_all)
  have "round_code 7 (max_code 7 0xFD) m neg (of_nat P * 2 powi e / 2 ^ 16 :: rat) = round_code 7 (max_code 7 0xFD) m neg (s / 2 ^ 7 * 2 powi e / 2 ^ 16)"
    using r [OF ag'] r [OF agrees_refl] by simp
  moreover have "\<bar>fval F32 (fpack neg' (k * 2 ^ 23 + P) :: u32)\<bar> * 2 ^ 133 = of_nat P * 2 powi e / 2 ^ 16"
    using v unfolding k by simp
  moreover have "\<bar>of_int i\<bar> * 2 ^ 133 = s / 2 ^ 7 * 2 powi e / 2 ^ 16" using x unfolding k by simp
  moreover have B: "fbits BF16 = 7" "maxfin BF16 = max_code 7 0xFD" "ulp0 BF16 = 133" by (simp_all add: BF16_def)
  ultimately show ?thesis unfolding c fround_def B by (simp only:)
qed

lemma bf16_from_int:
  assumes fr: "\<And>st. (f st :: u32 \<times> sf_state) = ieee_from_int F32 i st"
    and p: "i \<noteq> 0 \<Longrightarrow> \<exists>e n s. int_parts i e n s \<and> (\<forall>st. f st = packed (i < 0) e n st)"
  shows "fst (let origin_rounding_mode = softfloat_roundingMode st;
          st = st\<lparr>softfloat_roundingMode := softfloat_round_odd\<rparr>;
          (tmp_val, st) = f st;
          st = st\<lparr>softfloat_roundingMode := origin_rounding_mode\<rparr>
      in f32_to_bf16 tmp_val st) = fround BF16 (sf_mode (softfloat_roundingMode st)) (i < 0) (of_int i)"
proof -
  define m where "m = sf_mode (softfloat_roundingMode st)"
  define odd where "odd = st\<lparr>softfloat_roundingMode := softfloat_round_odd\<rparr>"
  obtain z st' where z: "f odd = (z, st')" by fastforce
  have "sf_mode softfloat_round_odd = ROD" by (simp add: sf_mode_def sf_modes)
  moreover have "z = fst (f odd)" by (simp add: z)
  ultimately have zr: "z = fround F32 ROD (i < 0) (of_int i)" by (simp add: fr odd_def ieee_from_int_def Let_def)
  have c: "ffinite F32 z \<and> fneg z = (i < 0) \<and> fround BF16 m (i < 0) (fval F32 z) = (fround BF16 m (i < 0) (of_int i) :: u16)"
  proof (cases "i = 0")
    case True
    then have "z = 0" unfolding zr by (simp add: fpack_def)
    then show ?thesis using True by (simp add: ffinite_def fneg_def fmag_def fval_eq_0_iff [of F32 "0 :: u32", THEN iffD2])
  next
    case False
    then obtain e n s where ip: "int_parts i e n s" and pk: "\<And>st. f st = packed (i < 0) e n st" using p by blast
    have zp: "z = fpack (i < 0) (pack_code 23 7 0xFD ROD (i < 0) e n)"
      using \<open>z = fst (f odd)\<close> \<open>sf_mode softfloat_round_odd = ROD\<close> by (simp add: pk odd_def packed_def)
    have n: "2 ^ 30 \<le> n" "n < 2 ^ 31" and e: "0 \<le> e" "e < 0xFD" using ip by (simp_all add: int_parts_def)
    have P: "pack_sig ROD (i < 0) 7 n \<le> 2 ^ 24" using pack_sig_value [OF n] by simp
    have "nat e * 2 ^ 23 \<le> 252 * 2 ^ 23" using e by (intro mult_right_mono) simp_all
    then have lt: "pack_code 23 7 0xFD ROD (i < 0) e n \<le> 254 * 2 ^ 23" using P e by (simp add: pack_code_def)
    then have "pack_code 23 7 0xFD ROD (i < 0) e n < 2 ^ (LENGTH(32) - 1)" by simp
    then have "ffinite F32 z" "fneg z = (i < 0)" using lt unfolding zp by (simp_all add: ffinite_def F32_def)
    then show ?thesis unfolding zp using round_code_odd_narrow [OF ip, of m] by (simp add: m_def)
  qed
  show ?thesis
    using f32_to_bf16_finite [of z "st'\<lparr>softfloat_roundingMode := softfloat_roundingMode st\<rparr>"] c
    by (simp add: odd_def [symmetric] z Let_def m_def)
qed

section \<open>Properties\<close>

text \<open>
  C33: the conversions to binary32 return the integer rounded once in the selected mode,
  and raise the inexact flag exactly when that changed it; the conversions to bfloat16, which go
  through a binary32 number rounded to odd, also round the integer only once.
\<close>

theorem int_to_float_correct:
  "ui32_to_f32 a st = ieee_from_int F32 (int (unat a)) st \<and>
   i32_to_f32 a st = ieee_from_int F32 (sint a) st \<and>
   ui64_to_f32 b st = ieee_from_int F32 (int (unat b)) st \<and>
   i64_to_f32 b st = ieee_from_int F32 (sint b) st \<and>
   fst (ui32_to_bf16 a st) = fround BF16 (sf_mode (softfloat_roundingMode st)) False (of_int (int (unat a))) \<and>
   fst (i32_to_bf16 a st) = fround BF16 (sf_mode (softfloat_roundingMode st)) (sint a < 0) (of_int (sint a))"
proof (intro conjI ui32_to_f32_spec i32_to_f32_spec ui64_to_f32_spec i64_to_f32_spec)
  have "\<exists>e n s. int_parts (int (unat a)) e n s \<and> (\<forall>st. ui32_to_f32 a st = packed (int (unat a) < 0) e n st)" if "int (unat a) \<noteq> 0"
  proof -
    have "a \<noteq> 0" using that by auto
    then obtain e n s where "int_parts (int (unat a)) e n s" "\<And>st. ui32_to_f32 a st = packed False e n st" by (rule ui32_packed) blast
    then show ?thesis by auto
  qed
  from bf16_from_int [of "ui32_to_f32 a", OF ui32_to_f32_spec this]
  show "fst (ui32_to_bf16 a st) = fround BF16 (sf_mode (softfloat_roundingMode st)) False (of_int (int (unat a)))"
    unfolding ui32_to_bf16_def by simp
next
  have "\<exists>e n s. int_parts (sint a) e n s \<and> (\<forall>st. i32_to_f32 a st = packed (sint a < 0) e n st)" if "sint a \<noteq> 0"
  proof -
    have "a \<noteq> 0" using that by auto
    then obtain e n s where "int_parts (sint a) e n s" "\<And>st. i32_to_f32 a st = packed (sint a < 0) e n st" by (rule i32_packed) blast
    then show ?thesis by auto
  qed
  from bf16_from_int [of "i32_to_f32 a", OF i32_to_f32_spec this]
  show "fst (i32_to_bf16 a st) = fround BF16 (sf_mode (softfloat_roundingMode st)) (sint a < 0) (of_int (sint a))"
    unfolding i32_to_bf16_def .
qed

end
