(* ===== verification/Sf_Int.thy ===== *)
theory Sf_Int
  imports Sf_Pack
begin

text \<open>
  Rounding to integers in SoftFloat (\<open>s_roundToUI32.c\<close>, \<open>s_roundToI32.c\<close>, \<open>s_roundToUI64.c\<close>,
  \<open>s_roundToI64.c\<close>, \<open>primitives.h\<close>) and its specification: a number rounded to an integer in a
  rounding mode, with the result that an integer format gives for it.  A fixed-point number is
  a natural number with \<open>g\<close> fraction bits, 12 in the 32-bit routines and 64 in the 64-bit ones.
\<close>

section \<open>The code\<close>

definition ui32_fromPosOverflow :: u64 where "ui32_fromPosOverflow = 0xFFFFFFFF"
definition ui32_fromNegOverflow :: u64 where "ui32_fromNegOverflow = 0"
definition ui32_fromNaN :: u64 where "ui32_fromNaN = 0xFFFFFFFF"
definition i32_fromPosOverflow :: int where "i32_fromPosOverflow = 0x7FFFFFFF"
definition i32_fromNegOverflow :: int where "i32_fromNegOverflow = - 0x7FFFFFFF - 1"
definition i32_fromNaN :: int where "i32_fromNaN = 0x7FFFFFFF"
definition ui64_fromPosOverflow :: u64 where "ui64_fromPosOverflow = 0xFFFFFFFFFFFFFFFF"
definition ui64_fromNegOverflow :: u64 where "ui64_fromNegOverflow = 0"
definition ui64_fromNaN :: u64 where "ui64_fromNaN = 0xFFFFFFFFFFFFFFFF"

text \<open>The signed 64-bit constants are unsigned words converted to \<open>int_fast64_t\<close>.\<close>

definition i64_fromPosOverflow :: int where "i64_fromPosOverflow = sint (0x7FFFFFFFFFFFFFFF :: u64)"
definition i64_fromNegOverflow :: int where "i64_fromNegOverflow = sint (- 0x7FFFFFFFFFFFFFFF - 1 :: u64)"
definition i64_fromNaN :: int where "i64_fromNaN = sint (0x7FFFFFFFFFFFFFFF :: u64)"

definition softfloat_roundToUI32 :: "bool \<Rightarrow> u64 \<Rightarrow> u8 \<Rightarrow> bool \<Rightarrow> sf_state \<Rightarrow> u64 \<times> sf_state" where
  "softfloat_roundToUI32 sign sig roundingMode exact st =
     (let roundNearEven = (roundingMode = softfloat_round_near_even);
          roundIncrement =
            (if \<not> roundNearEven \<and> roundingMode \<noteq> softfloat_round_near_maxMag
             then (if roundingMode = (if sign then softfloat_round_min else softfloat_round_max) then 0xFFF else 0)
             else 0x800);
          roundBits = sig AND 0xFFF;
          sig = sig + roundIncrement;
          invalid = (if sign then ui32_fromNegOverflow else ui32_fromPosOverflow,
                     softfloat_raiseFlags softfloat_flag_invalid st)
      in if sig AND 0xFFFFF00000000000 \<noteq> 0 then invalid
         else let z = drop_bit 12 sig;
                  z = z AND NOT (of_bool (roundBits XOR 0x800 = 0 \<and> roundNearEven))
              in if sign \<and> z \<noteq> 0 then invalid
                 else (z, if exact \<and> roundBits \<noteq> 0 then softfloat_raiseFlags softfloat_flag_inexact st else st))"

definition softfloat_roundToI32 :: "bool \<Rightarrow> u64 \<Rightarrow> u8 \<Rightarrow> bool \<Rightarrow> sf_state \<Rightarrow> int \<times> sf_state" where
  "softfloat_roundToI32 sign sig roundingMode exact st =
     (let roundNearEven = (roundingMode = softfloat_round_near_even);
          roundIncrement =
            (if \<not> roundNearEven \<and> roundingMode \<noteq> softfloat_round_near_maxMag
             then (if roundingMode = (if sign then softfloat_round_min else softfloat_round_max) then 0xFFF else 0)
             else 0x800);
          roundBits = sig AND 0xFFF;
          sig = sig + roundIncrement;
          invalid = (if sign then i32_fromNegOverflow else i32_fromPosOverflow,
                     softfloat_raiseFlags softfloat_flag_invalid st)
      in if sig AND 0xFFFFF00000000000 \<noteq> 0 then invalid
         else let sig32 = drop_bit 12 sig;
                  sig32 = sig32 AND NOT (of_bool (roundBits XOR 0x800 = 0 \<and> roundNearEven));
                  z = sint (ucast (if sign then - sig32 else sig32) :: u32)
              in if z \<noteq> 0 \<and> (z < 0) \<noteq> sign then invalid
                 else (z, if exact \<and> roundBits \<noteq> 0 then softfloat_raiseFlags softfloat_flag_inexact st else st))"

definition softfloat_roundToUI64 :: "bool \<Rightarrow> u64 \<Rightarrow> u64 \<Rightarrow> u8 \<Rightarrow> bool \<Rightarrow> sf_state \<Rightarrow> u64 \<times> sf_state" where
  "softfloat_roundToUI64 sign sig sigExtra roundingMode exact st =
     (let roundNearEven = (roundingMode = softfloat_round_near_even);
          doIncrement =
            (if \<not> roundNearEven \<and> roundingMode \<noteq> softfloat_round_near_maxMag
             then roundingMode = (if sign then softfloat_round_min else softfloat_round_max) \<and> sigExtra \<noteq> 0
             else 0x8000000000000000 \<le> sigExtra);
          invalid = (if sign then ui64_fromNegOverflow else ui64_fromPosOverflow,
                     softfloat_raiseFlags softfloat_flag_invalid st)
      in if doIncrement \<and> sig + 1 = 0 then invalid
         else let sig = (if doIncrement
                         then (sig + 1) AND NOT (of_bool (sigExtra AND 0x7FFFFFFFFFFFFFFF = 0 \<and> roundNearEven))
                         else sig)
              in if sign \<and> sig \<noteq> 0 then invalid
                 else (sig, if exact \<and> sigExtra \<noteq> 0 then softfloat_raiseFlags softfloat_flag_inexact st else st))"

definition softfloat_roundToI64 :: "bool \<Rightarrow> u64 \<Rightarrow> u64 \<Rightarrow> u8 \<Rightarrow> bool \<Rightarrow> sf_state \<Rightarrow> int \<times> sf_state" where
  "softfloat_roundToI64 sign sig sigExtra roundingMode exact st =
     (let roundNearEven = (roundingMode = softfloat_round_near_even);
          doIncrement =
            (if \<not> roundNearEven \<and> roundingMode \<noteq> softfloat_round_near_maxMag
             then roundingMode = (if sign then softfloat_round_min else softfloat_round_max) \<and> sigExtra \<noteq> 0
             else 0x8000000000000000 \<le> sigExtra);
          invalid = (if sign then i64_fromNegOverflow else i64_fromPosOverflow,
                     softfloat_raiseFlags softfloat_flag_invalid st)
      in if doIncrement \<and> sig + 1 = 0 then invalid
         else let sig = (if doIncrement
                         then (sig + 1) AND NOT (of_bool (sigExtra AND 0x7FFFFFFFFFFFFFFF = 0 \<and> roundNearEven))
                         else sig);
                  z = sint (if sign then - sig else sig)
              in if z \<noteq> 0 \<and> (z < 0) \<noteq> sign then invalid
                 else (z, if exact \<and> sigExtra \<noteq> 0 then softfloat_raiseFlags softfloat_flag_inexact st else st))"

record uint64_extra =
  ue_v :: u64
  ue_extra :: u64

definition softfloat_shiftRightJam64Extra :: "u64 \<Rightarrow> u64 \<Rightarrow> u64 \<Rightarrow> uint64_extra" where
  "softfloat_shiftRightJam64Extra a extra dst =
     (let z = (if dst < 64
               then \<lparr>ue_v = drop_bit (unat dst) a, ue_extra = push_bit (unat (- dst AND 63)) a\<rparr>
               else \<lparr>ue_v = 0, ue_extra = if dst = 64 then a else of_bool (a \<noteq> 0)\<rparr>)
      in z\<lparr>ue_extra := ue_extra z OR of_bool (extra \<noteq> 0)\<rparr>)"

section \<open>The specification\<close>

text \<open>
  A magnitude rounded to an integer, and the result of an integer format: out of range gives the
  nearest bound and the invalid flag alone.  The conversions have no round-to-odd: that mode
  number truncates.
\<close>

definition round_nat :: "rmode \<Rightarrow> bool \<Rightarrow> 'a::floor_ceiling \<Rightarrow> nat" where
  "round_nat m neg y =
     (let q = nat \<lfloor>y\<rfloor>
      in q + of_bool (round_incr m neg (odd q) (of_nat q < y) (of_nat q + of_nat (Suc q) < 2 * y) (2 * y = of_nat q + of_nat (Suc q))))"

definition int_mode :: "u8 \<Rightarrow> rmode" where
  "int_mode r = (if r = softfloat_round_odd then RTZ else sf_mode r)"

definition int_result :: "int \<Rightarrow> int \<Rightarrow> bool \<Rightarrow> bool \<Rightarrow> nat \<Rightarrow> bool \<Rightarrow> sf_state \<Rightarrow> int \<times> sf_state" where
  "int_result lo hi exact neg n inexact st =
     (let i = (if neg then - int n else int n)
      in if i < lo then (lo, softfloat_raiseFlags softfloat_flag_invalid st)
         else if hi < i then (hi, softfloat_raiseFlags softfloat_flag_invalid st)
         else (i, if exact \<and> inexact then softfloat_raiseFlags softfloat_flag_inexact st else st))"

definition ieee_to_int :: "fmt \<Rightarrow> rmode \<Rightarrow> int \<Rightarrow> int \<Rightarrow> bool \<Rightarrow> 'a::len word \<Rightarrow> sf_state \<Rightarrow> int \<times> sf_state" where
  "ieee_to_int F m lo hi exact w st =
     (if fnan F w then (hi, softfloat_raiseFlags softfloat_flag_invalid st)
      else if finf F w then (if fneg w then lo else hi, softfloat_raiseFlags softfloat_flag_invalid st)
      else let n = round_nat m (fneg w) \<bar>fval F w\<bar>
           in int_result lo hi exact (fneg w) n (of_nat n \<noteq> \<bar>fval F w\<bar>) st)"

lemma int_mode_not [simp]: "int_mode r \<noteq> RNO" "int_mode r \<noteq> ROD"
  by (auto simp: int_mode_def sf_mode_def)

lemma int_mode_iff:
  "int_mode r = RNE \<longleftrightarrow> r = softfloat_round_near_even"
  "int_mode r = RDN \<longleftrightarrow> r = softfloat_round_min"
  "int_mode r = RUP \<longleftrightarrow> r = softfloat_round_max"
  "int_mode r = RMM \<longleftrightarrow> r = softfloat_round_near_maxMag"
  by (auto simp: int_mode_def sf_mode_def sf_modes)

text \<open>Rounding to an integer is rounding to a format wide enough.\<close>

lemma round_nat_code:
  fixes y :: "'a::floor_ceiling"
  assumes y: "0 \<le> y" "y < 2 ^ fb"
  shows "round_nat m neg y = round_code fb (2 ^ fb) m neg y"
proof -
  define q where "q = nat \<lfloor>y\<rfloor>"
  have f: "of_nat q \<le> y" "y < of_nat (Suc q)"
    using y(1) by (simp_all add: q_def) linarith
  have "(of_nat q :: 'a) < 2 ^ fb" using f(1) y(2) by (rule le_less_trans)
  then have q: "q < 2 ^ fb" by (metis of_nat_less_iff of_nat_numeral of_nat_power)
  have i: "ival fb q = q" "ival fb (Suc q) = Suc q" using q by (simp_all add: ival_small2)
  show ?thesis
    using round_codeI [of q "2 ^ fb" fb y m neg] q f unfolding i by (simp add: round_nat_def q_def [symmetric] Let_def)
qed

lemma round_nat_guard:
  fixes s :: "'a::floor_ceiling"
  assumes g: "0 < g" and ag: "agrees (2 ^ (g - 1)) s n" and m: "m \<noteq> RNO"
  shows "round_nat m neg (s / 2 ^ g) = pack_sig m neg g n"
proof -
  define fb where "fb = n + 1"
  have n: "n < 2 ^ fb" unfolding fb_def using less_exp [of "n + 1"] by linarith
  have d: "2 ^ (g - 1) dvd 2 ^ fb * (2::nat) ^ g" by (metis diff_le_self dvd_mult le_imp_power_dvd)
  have n': "n < 2 ^ fb * 2 ^ g" using n by (metis less_le_trans mult.right_neutral mult_le_mono2 one_le_numeral one_le_power)
  then have "s < of_nat (2 ^ fb * 2 ^ g)" using agreesD(2) [OF ag d] by simp
  then have up: "s / 2 ^ g < 2 ^ fb" by (simp add: divide_less_eq)
  have lo: "0 \<le> s / 2 ^ g" using agreesD(3) [OF ag, of 0] by simp
  have q: "n div 2 ^ g \<le> 2 ^ fb" using n' by (simp add: div_less_iff_less_mult less_imp_le)
  have "round_code fb (2 ^ fb) m neg (s * 2 ^ 0 / 2 ^ g) = 0 * 2 ^ fb + n div 2 ^ g + of_bool (guard_incr m neg g n)"
    by (rule round_code_guard [OF g _ ag]) (use n' q in \<open>simp_all add: fb_def power_add mult.commute\<close>)
  then show ?thesis
    unfolding round_nat_code [OF lo up] pack_sig_incr [OF g m] by simp
qed

section \<open>The interface of a rounding routine\<close>

text \<open>
  What the conversions rely on: the routine rounds the fixed-point number \<open>n\<close> and returns what an
  integer format of the range \<open>lo\<close> to \<open>hi\<close> gives.
\<close>

locale int_rounder =
  fixes g :: nat and lo hi :: int and lim :: nat
    and rnd :: "bool \<Rightarrow> nat \<Rightarrow> u8 \<Rightarrow> bool \<Rightarrow> sf_state \<Rightarrow> int \<times> sf_state"
  assumes g: "0 < g" and range: "lo \<le> 0" "0 < hi"
    and rnd: "n < lim \<Longrightarrow>
      rnd sign n r exact st = int_result lo hi exact sign (pack_sig (int_mode r) sign g n) (n mod 2 ^ g \<noteq> 0) st"
begin

lemma rnd_finite:
  assumes ag: "agrees (2 ^ (g - 1)) s n" and n: "n < lim" and w: "ffinite F w" "\<bar>fval F w\<bar> = s / 2 ^ g"
  shows "rnd (fneg w) n r exact st = ieee_to_int F (int_mode r) lo hi exact w st"
proof -
  have fin: "\<not> fnan F w" "\<not> finf F w" using w(1) by (simp_all add: ffinite_def fnan_def finf_def)
  have v: "round_nat (int_mode r) (fneg w) \<bar>fval F w\<bar> = pack_sig (int_mode r) (fneg w) g n"
    unfolding w(2) by (rule round_nat_guard [OF g ag]) simp
  have d: "2 ^ (g - 1) dvd k * (2::nat) ^ g" for k by (metis diff_le_self dvd_mult le_imp_power_dvd)
  have "n mod 2 ^ g \<noteq> 0 \<longleftrightarrow> of_nat (pack_sig (int_mode r) (fneg w) g n) \<noteq> \<bar>fval F w\<bar>"
  proof (cases "n mod 2 ^ g = 0")
    case True
    define q where "q = n div 2 ^ g"
    have nq: "n = q * 2 ^ g" using True by (simp add: q_def mod_0_imp_dvd)
    then have "s = of_nat (q * 2 ^ g)" using agreesD(5) [OF ag d] by metis
    moreover have "pack_sig (int_mode r) (fneg w) g n = q" unfolding nq by (rule pack_sig_exact [OF g]) simp
    ultimately show ?thesis using True w(2) by simp
  next
    case False
    have "of_nat k \<noteq> \<bar>fval F w\<bar>" for k
    proof
      assume "of_nat k = \<bar>fval F w\<bar>"
      then have "s = of_nat (k * 2 ^ g)" unfolding w(2) by (simp add: field_simps)
      then have "n = k * 2 ^ g" using agreesD(5) [OF ag d] by metis
      then show False using False by simp
    qed
    then show ?thesis using False by simp
  qed
  then show ?thesis unfolding rnd [OF n] ieee_to_int_def using fin v by (simp add: Let_def)
qed

text \<open>A number beyond the range, in particular the significand of a special operand.\<close>

lemma rnd_beyond:
  assumes n: "n < lim" and b: "hi < int (n div 2 ^ g)" "- int (n div 2 ^ g) < lo"
  shows "rnd sign n r exact st = (if sign then lo else hi, softfloat_raiseFlags softfloat_flag_invalid st)"
proof -
  have "n div 2 ^ g \<le> pack_sig (int_mode r) sign g n" by (simp add: pack_sig_incr [OF g])
  then have "hi < int (pack_sig (int_mode r) sign g n)" "- int (pack_sig (int_mode r) sign g n) < lo" using b by linarith+
  then show ?thesis unfolding rnd [OF n] int_result_def using range by (cases sign) (simp_all add: Let_def)
qed

end

section \<open>The four routines\<close>

lemma round_increment12:
  "unat (if \<not> r = softfloat_round_near_even \<and> r \<noteq> softfloat_round_near_maxMag
     then (if r = (if sign then softfloat_round_min else softfloat_round_max) then 0xFFF else 0)
     else 0x800 :: u64) = round_inc (int_mode r) sign 12"
  by (simp add: round_inc_def int_mode_def sf_mode_def sf_modes)

text \<open>The rounded significand of the 32-bit routines.\<close>

lemma sig32_rounded:
  fixes sig inc :: u64
  assumes n: "unat sig < 2 ^ 63" and inc: "unat inc = round_inc (int_mode r) sign 12"
  shows "(sig + inc) AND 0xFFFFF00000000000 = 0 \<longleftrightarrow> unat sig + round_inc (int_mode r) sign 12 < 2 ^ 44"
    and "unat (drop_bit 12 (sig + inc) AND NOT (of_bool ((sig AND 0xFFF) XOR 0x800 = 0 \<and> r = softfloat_round_near_even))) =
      pack_sig (int_mode r) sign 12 (unat sig)"
    and "sig AND 0xFFF = 0 \<longleftrightarrow> unat sig mod 2 ^ 12 = 0"
proof -
  have i: "round_inc (int_mode r) sign 12 < 2 ^ 12" by (auto simp: round_inc_def)
  have u: "unat (sig + inc) = unat sig + round_inc (int_mode r) sign 12"
    using n i by (subst unat_add_less) (simp_all add: inc)
  have "(0xFFFFF00000000000 :: u64) = NOT (mask 44)" by (simp add: mask_eq_exp_minus_1)
  then show "(sig + inc) AND 0xFFFFF00000000000 = 0 \<longleftrightarrow> unat sig + round_inc (int_mode r) sign 12 < 2 ^ 44"
    by (simp only: high_bits_zero u)
  have m: "(0xFFF :: u64) = mask 12" by (simp add: mask_eq_exp_minus_1)
  have rb: "unat (sig AND 0xFFF) = unat sig mod 2 ^ 12" by (simp only: m unat_and_mask)
  then show "sig AND 0xFFF = 0 \<longleftrightarrow> unat sig mod 2 ^ 12 = 0" by (metis unat_eq_0)
  have t: "(sig AND 0xFFF) XOR 0x800 = 0 \<longleftrightarrow> unat sig mod 2 ^ 12 = 2 ^ (12 - 1)"
    by (simp only: xor_eq_0_iff) (simp only: word_unat_eq_iff rb, simp)
  show "unat (drop_bit 12 (sig + inc) AND NOT (of_bool ((sig AND 0xFFF) XOR 0x800 = 0 \<and> r = softfloat_round_near_even))) =
      pack_sig (int_mode r) sign 12 (unat sig)"
    unfolding unat_andnot_bit t unat_drop_bit u pack_sig_def Let_def by (simp add: int_mode_iff conj_ac)
qed

lemma pack_sig_ge:
  assumes "2 ^ (k + g) \<le> n + round_inc m sign g" "0 < g" "0 < k" "m \<noteq> RNO" "m \<noteq> ROD"
  shows "2 ^ k \<le> pack_sig m sign g n"
proof -
  define q where "q = (n + round_inc m sign g) div 2 ^ g"
  have q: "2 ^ k \<le> q" using assms(1) by (simp add: q_def less_eq_div_iff_mult_less_eq power_add)
  have "even ((2::nat) ^ k)" using assms(3) by simp
  then have "2 ^ k < q" if "odd q" using q that by (metis le_neq_implies_less)
  then show ?thesis unfolding pack_sig_def Let_def q_def [symmetric] using q assms(5) by auto
qed

text \<open>The routines decide whether the result is out of range and return it otherwise.\<close>

lemma int_resultI:
  assumes "lo \<le> 0" "0 < hi" "i = (if sign then - int P else int P)"
    and "bad \<longleftrightarrow> i < lo \<or> hi < i" "\<not> bad \<Longrightarrow> z = i"
  shows "(if bad then (if sign then lo else hi, softfloat_raiseFlags softfloat_flag_invalid st)
      else (z, if exact \<and> inexact then softfloat_raiseFlags softfloat_flag_inexact st else st)) =
    int_result lo hi exact sign P inexact st"
  using assms by (cases sign) (auto simp: int_result_def Let_def)

interpretation u32r: int_rounder 12 0 "2 ^ 32 - 1" "2 ^ 63"
  "\<lambda>sign n r exact st. map_prod (int \<circ> unat) id (softfloat_roundToUI32 sign (word_of_nat n) r exact st)"
proof (unfold_locales, goal_cases)
  case (4 n sign r exact st)
  define sig :: u64 where "sig = word_of_nat n"
  have n: "unat sig = n" "unat sig < 2 ^ 63" using 4 by (simp_all add: sig_def unat_of_nat)
  note w = sig32_rounded [OF n(2) round_increment12 [of r sign], unfolded n(1)]
  define P where "P = pack_sig (int_mode r) sign 12 n"
  have out: "map_prod (int \<circ> unat) id (softfloat_roundToUI32 sign sig r exact st) =
      (if 2 ^ 44 \<le> n + round_inc (int_mode r) sign 12 \<or> sign \<and> P \<noteq> 0
       then (if sign then 0 else 2 ^ 32 - 1, softfloat_raiseFlags softfloat_flag_invalid st)
       else (int P, if exact \<and> n mod 2 ^ 12 \<noteq> 0 then softfloat_raiseFlags softfloat_flag_inexact st else st))"
    unfolding softfloat_roundToUI32_def Let_def w(1,3) not_less [symmetric]
    using w(2) by (simp add: P_def unat_eq_0 [symmetric] ui32_fromNegOverflow_def ui32_fromPosOverflow_def)
  have big: "2 ^ 32 \<le> P" if "2 ^ 44 \<le> n + round_inc (int_mode r) sign 12"
    unfolding P_def by (rule pack_sig_ge) (use that in simp_all)
  have small: "P < 2 ^ 32" if "n + round_inc (int_mode r) sign 12 < 2 ^ 44"
  proof -
    have "P \<le> (n + round_inc (int_mode r) sign 12) div 2 ^ 12" by (simp add: P_def pack_sig_def Let_def)
    also have "\<dots> < 2 ^ 32" using that by (intro less_mult_imp_div_less) simp
    finally show ?thesis .
  qed
  have bad: "2 ^ 44 \<le> n + round_inc (int_mode r) sign 12 \<or> sign \<and> P \<noteq> 0 \<longleftrightarrow>
      (if sign then - int P else int P) < 0 \<or> 2 ^ 32 - 1 < (if sign then - int P else int P)"
    using big small by (cases "2 ^ 44 \<le> n + round_inc (int_mode r) sign 12"; cases sign) (simp_all add: not_le)
  have z: "int P = (if sign then - int P else int P)" if "\<not> (2 ^ 44 \<le> n + round_inc (int_mode r) sign 12 \<or> sign \<and> P \<noteq> 0)"
    using that by auto
  show ?case unfolding sig_def [symmetric] out P_def [symmetric]
    by (rule int_resultI [OF _ _ refl bad z]) simp_all
qed simp_all

text \<open>The signed value of a word of \<open>w\<close> bits, and of its negation.\<close>

lemma sint_of_int_range:
  fixes k :: int
  assumes "LENGTH('a::len) = Suc w"
  shows "- (2 ^ w) \<le> k \<Longrightarrow> k < 2 ^ w \<Longrightarrow> sint (word_of_int k :: 'a word) = k"
    and "2 ^ w \<le> k \<Longrightarrow> k < 2 * 2 ^ w \<Longrightarrow> sint (word_of_int k :: 'a word) = k - 2 * 2 ^ w"
    and "- (2 * 2 ^ w) < k \<Longrightarrow> k < - (2 ^ w) \<Longrightarrow> sint (word_of_int k :: 'a word) = k + 2 * 2 ^ w"
proof -
  have r: "sint (word_of_int k :: 'a word) = k" if "- (2 ^ w) \<le> k" "k < 2 ^ w" for k
    using that assms by (simp add: signed_of_int signed_take_bit_int_eq_self)
  have p: "(word_of_int (2 * 2 ^ w) :: 'a word) = 0"
    using word_of_int_2p_len [where ?'a = 'a] by (simp add: assms)
  have s: "(word_of_int k :: 'a word) = word_of_int (k + 2 * 2 ^ w)" "(word_of_int k :: 'a word) = word_of_int (k - 2 * 2 ^ w)" for k
    by (simp_all only: of_int_add of_int_diff p add_0_right diff_zero)
  show "- (2 ^ w) \<le> k \<Longrightarrow> k < 2 ^ w \<Longrightarrow> sint (word_of_int k :: 'a word) = k" by (rule r)
  show "2 ^ w \<le> k \<Longrightarrow> k < 2 * 2 ^ w \<Longrightarrow> sint (word_of_int k :: 'a word) = k - 2 * 2 ^ w"
    by (subst s(2)) (rule r; simp)
  show "- (2 * 2 ^ w) < k \<Longrightarrow> k < - (2 ^ w) \<Longrightarrow> sint (word_of_int k :: 'a word) = k + 2 * 2 ^ w"
    by (subst s(1)) (rule r; simp)
qed

lemma ucast_down_of_int: "(ucast (word_of_int k :: u64) :: u32) = word_of_int k"
  by (rule bit_word_eqI) (simp add: bit_simps)

text \<open>The overflow test of the signed routines: the sign of the wrapped result is wrong.\<close>

lemma signed_wrap:
  fixes P :: nat and sign :: bool
  assumes len: "LENGTH('a::len) = Suc w" and P: "P < 2 * 2 ^ w"
  defines "z \<equiv> sint (word_of_int (if sign then - int P else int P) :: 'a word)" and "i \<equiv> if sign then - int P else int P"
  shows "(z \<noteq> 0 \<and> (z < 0) \<noteq> sign) \<longleftrightarrow> i < - (2 ^ w) \<or> 2 ^ w - 1 < i"
    and "\<not> (i < - (2 ^ w) \<or> 2 ^ w - 1 < i) \<Longrightarrow> z = i"
proof -
  have P': "int P < 2 * 2 ^ w" using P by (metis of_nat_less_iff of_nat_mult of_nat_numeral of_nat_power)
  have i: "- (2 * 2 ^ w) < i" "i < 2 * 2 ^ w" using P' by (auto simp: i_def)
  have s: "sign \<Longrightarrow> i \<le> 0" "\<not> sign \<Longrightarrow> 0 \<le> i" by (simp_all add: i_def)
  consider "- (2 ^ w) \<le> i" "i < 2 ^ w" "z = i" | "2 ^ w \<le> i" "z = i - 2 * 2 ^ w" | "i < - (2 ^ w)" "z = i + 2 * 2 ^ w"
    using sint_of_int_range [OF len, of i] i unfolding z_def i_def by linarith
  then have "((z \<noteq> 0 \<and> (z < 0) \<noteq> sign) \<longleftrightarrow> i < - (2 ^ w) \<or> 2 ^ w - 1 < i) \<and>
      (\<not> (i < - (2 ^ w) \<or> 2 ^ w - 1 < i) \<longrightarrow> z = i)"
  proof cases
    case 1
    then show ?thesis using s by (cases sign) auto
  next
    case 2
    then show ?thesis using s i by (cases sign) auto
  next
    case 3
    then show ?thesis using s i by (cases sign) auto
  qed
  then show "(z \<noteq> 0 \<and> (z < 0) \<noteq> sign) \<longleftrightarrow> i < - (2 ^ w) \<or> 2 ^ w - 1 < i"
    "\<not> (i < - (2 ^ w) \<or> 2 ^ w - 1 < i) \<Longrightarrow> z = i" by blast+
qed

interpretation i32r: int_rounder 12 "- (2 ^ 31)" "2 ^ 31 - 1" "2 ^ 63"
  "\<lambda>sign n r exact st. softfloat_roundToI32 sign (word_of_nat n) r exact st"
proof (unfold_locales, goal_cases)
  case (4 n sign r exact st)
  define sig :: u64 where "sig = word_of_nat n"
  have n: "unat sig = n" "unat sig < 2 ^ 63" using 4 by (simp_all add: sig_def unat_of_nat)
  note w = sig32_rounded [OF n(2) round_increment12 [of r sign], unfolded n(1)]
  define P where "P = pack_sig (int_mode r) sign 12 n"
  have u: "(ucast z :: u32) = word_of_int (int P) \<and> (ucast (- z) :: u32) = word_of_int (- int P)" if "unat z = P" for z :: u64
  proof -
    have "z = word_of_int (int P)" by (simp flip: that)
    then show ?thesis using ucast_down_of_int [of "int P"] ucast_down_of_int [of "- int P"] by simp
  qed
  define i where "i = (if sign then - int P else int P)"
  define z where "z = sint (word_of_int i :: u32)"
  have out: "softfloat_roundToI32 sign sig r exact st =
      (if 2 ^ 44 \<le> n + round_inc (int_mode r) sign 12 \<or> z \<noteq> 0 \<and> (z < 0) \<noteq> sign
       then (if sign then - (2 ^ 31) else 2 ^ 31 - 1, softfloat_raiseFlags softfloat_flag_invalid st)
       else (z, if exact \<and> n mod 2 ^ 12 \<noteq> 0 then softfloat_raiseFlags softfloat_flag_inexact st else st))"
    unfolding softfloat_roundToI32_def Let_def w(1,3) not_less [symmetric]
    using u [OF w(2) [folded P_def]] by (simp add: z_def i_def i32_fromNegOverflow_def i32_fromPosOverflow_def)
  have big: "2 ^ 32 \<le> P" if "2 ^ 44 \<le> n + round_inc (int_mode r) sign 12"
    unfolding P_def by (rule pack_sig_ge) (use that in simp_all)
  have small: "P < 2 * 2 ^ 31" if "n + round_inc (int_mode r) sign 12 < 2 ^ 44"
  proof -
    have "P \<le> (n + round_inc (int_mode r) sign 12) div 2 ^ 12" by (simp add: P_def pack_sig_def Let_def)
    also have "\<dots> < 2 ^ 32" using that by (intro less_mult_imp_div_less) simp
    finally show ?thesis by simp
  qed
  have bad: "2 ^ 44 \<le> n + round_inc (int_mode r) sign 12 \<or> z \<noteq> 0 \<and> (z < 0) \<noteq> sign \<longleftrightarrow> i < - (2 ^ 31) \<or> 2 ^ 31 - 1 < i"
    "\<not> (2 ^ 44 \<le> n + round_inc (int_mode r) sign 12 \<or> z \<noteq> 0 \<and> (z < 0) \<noteq> sign) \<Longrightarrow> z = i"
  proof (atomize (full), cases "2 ^ 44 \<le> n + round_inc (int_mode r) sign 12")
    case True
    then show "((2 ^ 44 \<le> n + round_inc (int_mode r) sign 12 \<or> z \<noteq> 0 \<and> (z < 0) \<noteq> sign) = (i < - (2 ^ 31) \<or> 2 ^ 31 - 1 < i)) \<and>
        (\<not> (2 ^ 44 \<le> n + round_inc (int_mode r) sign 12 \<or> z \<noteq> 0 \<and> (z < 0) \<noteq> sign) \<longrightarrow> z = i)"
      using big by (auto simp: i_def)
  next
    case False
    then have "P < 2 * 2 ^ 31" using small by simp
    note s = signed_wrap [where ?'a = 32 and w = 31, OF _ this, of sign, folded i_def, folded z_def]
    show "((2 ^ 44 \<le> n + round_inc (int_mode r) sign 12 \<or> z \<noteq> 0 \<and> (z < 0) \<noteq> sign) = (i < - (2 ^ 31) \<or> 2 ^ 31 - 1 < i)) \<and>
        (\<not> (2 ^ 44 \<le> n + round_inc (int_mode r) sign 12 \<or> z \<noteq> 0 \<and> (z < 0) \<noteq> sign) \<longrightarrow> z = i)"
      using False s by simp
  qed
  show ?case unfolding sig_def [symmetric] out P_def [symmetric]
    by (rule int_resultI [OF _ _ i_def bad]) simp_all
qed simp_all

text \<open>The rounded significand of the 64-bit routines.\<close>

lemma sig64_rounded:
  fixes sig extra :: u64 and r :: u8 and sign :: bool
  defines "P \<equiv> pack_sig (int_mode r) sign 64 (unat sig * 2 ^ 64 + unat extra)"
    and "d \<equiv> (if \<not> r = softfloat_round_near_even \<and> r \<noteq> softfloat_round_near_maxMag
       then r = (if sign then softfloat_round_min else softfloat_round_max) \<and> extra \<noteq> 0
       else 0x8000000000000000 \<le> extra)"
  defines "z \<equiv> (if d then (sig + 1) AND NOT (of_bool (extra AND 0x7FFFFFFFFFFFFFFF = 0 \<and> r = softfloat_round_near_even)) else sig)"
  shows "d \<and> sig + 1 = 0 \<Longrightarrow> P = 2 ^ 64" and "\<not> (d \<and> sig + 1 = 0) \<Longrightarrow> unat z = P"
proof -
  define e where "e = unat extra"
  define q where "q = unat sig"
  define m where "m = int_mode r"
  have e: "e < 2 ^ 64" and q: "q < 2 ^ 64" using unat_lt_64 [of extra] unat_lt_64 [of sig] by (simp_all add: e_def q_def)
  have P: "P = q + of_bool (round_incr m sign (odd q) (e \<noteq> 0) (2 ^ 64 < 2 * e) (2 * e = 2 ^ 64))"
    using e unfolding P_def m_def q_def e_def by (simp add: pack_sig_incr guard_incr_def)
  have ez: "extra \<noteq> 0 \<longleftrightarrow> e \<noteq> 0" by (simp add: e_def unat_eq_0)
  have d: "d \<longleftrightarrow> (if m = RNE \<or> m = RMM then 2 ^ 63 \<le> e else m = (if sign then RDN else RUP) \<and> e \<noteq> 0)"
    unfolding d_def ez by (simp add: m_def int_mode_iff word_le_nat_alt e_def)
  have "(0x7FFFFFFFFFFFFFFF :: u64) = mask 63" by (simp add: mask_eq_exp_minus_1)
  then have t: "extra AND 0x7FFFFFFFFFFFFFFF = 0 \<longleftrightarrow> e mod 2 ^ 63 = 0"
    by (metis e_def unat_and_mask unat_eq_0)
  have tie: "e mod 2 ^ 63 = 0 \<longleftrightarrow> e = 2 ^ 63" if "2 ^ 63 \<le> e" using that e by (auto simp: mod_if)
  have s0: "sig + 1 = 0 \<longleftrightarrow> q = 2 ^ 64 - 1"
  proof -
    have "sig + 1 = 0 \<longleftrightarrow> sig = - 1" by (metis add.commute add_eq_0_iff minus_minus)
    moreover have "unat (- 1 :: u64) = 2 ^ 64 - 1" by (simp add: unsigned_minus_1_eq_mask mask_eq_exp_minus_1)
    ultimately show ?thesis by (simp only: word_unat_eq_iff q_def)
  qed
  have inc: "2 * e = 2 ^ 64 \<longleftrightarrow> e = 2 ^ 63" "2 ^ 64 < 2 * e \<longleftrightarrow> 2 ^ 63 < e" by auto
  have M: "m \<noteq> RNO" "m \<noteq> ROD" by (simp_all add: m_def)
  show "d \<and> sig + 1 = 0 \<Longrightarrow> P = 2 ^ 64"
    unfolding s0 P inc d using M by (cases m; cases sign; auto)
  assume nz: "\<not> (d \<and> sig + 1 = 0)"
  show "unat z = P"
  proof (cases d)
    case True
    then have "q \<noteq> 2 ^ 64 - 1" using nz s0 by blast
    then have "q + 1 < 2 ^ 64" using q by simp
    then have "unat (sig + 1) = q + 1" by (subst unat_add_less) (simp_all add: q_def)
    then have "unat z = q + 1 - of_bool (e mod 2 ^ 63 = 0 \<and> m = RNE \<and> even q)"
      using True by (simp add: z_def unat_andnot_bit t m_def int_mode_iff)
    then show ?thesis unfolding P inc using True [unfolded d] M tie by (cases m; cases sign; auto)
  next
    case False
    then have "unat z = q" by (simp add: z_def q_def)
    then show ?thesis unfolding P inc using False [unfolded d] M by (cases m; cases sign; auto)
  qed
qed

lemma overflow64:
  "int (unat ui64_fromNegOverflow) = 0" "int (unat ui64_fromPosOverflow) = 2 ^ 64 - 1"
  "i64_fromNegOverflow = - (2 ^ 63)" "i64_fromPosOverflow = 2 ^ 63 - 1" "i64_fromNaN = 2 ^ 63 - 1"
  by (simp_all add: ui64_fromNegOverflow_def ui64_fromPosOverflow_def i64_fromNegOverflow_def i64_fromPosOverflow_def i64_fromNaN_def)

interpretation u64r: int_rounder 64 0 "2 ^ 64 - 1" "2 ^ 128"
  "\<lambda>sign n r exact st. map_prod (int \<circ> unat) id
     (softfloat_roundToUI64 sign (word_of_nat (n div 2 ^ 64)) (word_of_nat (n mod 2 ^ 64)) r exact st)"
proof (unfold_locales, goal_cases)
  case (4 n sign r exact st)
  define sig extra :: u64 where "sig = word_of_nat (n div 2 ^ 64)" and "extra = word_of_nat (n mod 2 ^ 64)"
  have "n div 2 ^ 64 < 2 ^ 64" using 4 by (intro less_mult_imp_div_less) simp
  then have u: "unat sig = n div 2 ^ 64" "unat extra = n mod 2 ^ 64" by (simp_all add: sig_def extra_def unat_of_nat)
  then have n: "unat sig * 2 ^ 64 + unat extra = n" by simp
  define P where "P = pack_sig (int_mode r) sign 64 n"
  define d where "d \<longleftrightarrow> (if \<not> r = softfloat_round_near_even \<and> r \<noteq> softfloat_round_near_maxMag
       then r = (if sign then softfloat_round_min else softfloat_round_max) \<and> extra \<noteq> 0
       else 0x8000000000000000 \<le> extra)"
  define z where "z = (if d then (sig + 1) AND NOT (of_bool (extra AND 0x7FFFFFFFFFFFFFFF = 0 \<and> r = softfloat_round_near_even)) else sig)"
  note w = sig64_rounded [where r = r and sign = sign and sig = sig and extra = extra, unfolded n, folded P_def, folded d_def, folded z_def]
  have ez: "extra \<noteq> 0 \<longleftrightarrow> n mod 2 ^ 64 \<noteq> 0" by (metis u(2) unat_eq_0)
  have out: "map_prod (int \<circ> unat) id (softfloat_roundToUI64 sign sig extra r exact st) =
      (if d \<and> sig + 1 = 0 \<or> sign \<and> z \<noteq> 0
       then (if sign then 0 else 2 ^ 64 - 1, softfloat_raiseFlags softfloat_flag_invalid st)
       else (int (unat z), if exact \<and> n mod 2 ^ 64 \<noteq> 0 then softfloat_raiseFlags softfloat_flag_inexact st else st))"
    unfolding softfloat_roundToUI64_def Let_def d_def [symmetric] z_def [symmetric] unfolding ez
    by (cases "d \<and> sig + 1 = 0"; cases "sign \<and> z \<noteq> 0"; cases sign)
      (simp_all only: if_True if_False simp_thms map_prod_simp id_apply o_apply overflow64)
  have zP: "z \<noteq> 0 \<longleftrightarrow> P \<noteq> 0" "P < 2 ^ 64" if "\<not> (d \<and> sig + 1 = 0)"
    using w(2) [OF that] unat_eq_0 [of z] unat_lt_64 [of z] by auto
  have bad: "d \<and> sig + 1 = 0 \<or> sign \<and> z \<noteq> 0 \<longleftrightarrow>
      (if sign then - int P else int P) < 0 \<or> 2 ^ 64 - 1 < (if sign then - int P else int P)"
    using w(1) zP by (cases "d \<and> sig + 1 = 0"; cases sign) auto
  have z: "int (unat z) = (if sign then - int P else int P)" if "\<not> (d \<and> sig + 1 = 0 \<or> sign \<and> z \<noteq> 0)"
    using that w(2) zP(1) by auto
  show ?case unfolding sig_def [symmetric] extra_def [symmetric] out P_def [symmetric]
    by (rule int_resultI [OF _ _ refl bad z]) simp_all
qed simp_all

interpretation i64r: int_rounder 64 "- (2 ^ 63)" "2 ^ 63 - 1" "2 ^ 128"
  "\<lambda>sign n r exact st.
     softfloat_roundToI64 sign (word_of_nat (n div 2 ^ 64)) (word_of_nat (n mod 2 ^ 64)) r exact st"
proof (unfold_locales, goal_cases)
  case (4 n sign r exact st)
  define sig extra :: u64 where "sig = word_of_nat (n div 2 ^ 64)" and "extra = word_of_nat (n mod 2 ^ 64)"
  have "n div 2 ^ 64 < 2 ^ 64" using 4 by (intro less_mult_imp_div_less) simp
  then have u: "unat sig = n div 2 ^ 64" "unat extra = n mod 2 ^ 64" by (simp_all add: sig_def extra_def unat_of_nat)
  then have n: "unat sig * 2 ^ 64 + unat extra = n" by simp
  define P where "P = pack_sig (int_mode r) sign 64 n"
  define d where "d \<longleftrightarrow> (if \<not> r = softfloat_round_near_even \<and> r \<noteq> softfloat_round_near_maxMag
       then r = (if sign then softfloat_round_min else softfloat_round_max) \<and> extra \<noteq> 0
       else 0x8000000000000000 \<le> extra)"
  define s where "s = (if d then (sig + 1) AND NOT (of_bool (extra AND 0x7FFFFFFFFFFFFFFF = 0 \<and> r = softfloat_round_near_even)) else sig)"
  note w = sig64_rounded [where r = r and sign = sign and sig = sig and extra = extra, unfolded n, folded P_def, folded d_def, folded s_def]
  have ez: "extra \<noteq> 0 \<longleftrightarrow> n mod 2 ^ 64 \<noteq> 0" by (metis u(2) unat_eq_0)
  define i where "i = (if sign then - int P else int P)"
  define z where "z = sint (if sign then - s else s)"
  have out: "softfloat_roundToI64 sign sig extra r exact st =
      (if d \<and> sig + 1 = 0 \<or> z \<noteq> 0 \<and> (z < 0) \<noteq> sign
       then (if sign then - (2 ^ 63) else 2 ^ 63 - 1, softfloat_raiseFlags softfloat_flag_invalid st)
       else (z, if exact \<and> n mod 2 ^ 64 \<noteq> 0 then softfloat_raiseFlags softfloat_flag_inexact st else st))"
    unfolding softfloat_roundToI64_def Let_def d_def [symmetric] s_def [symmetric] unfolding z_def [symmetric] ez
    by (cases "d \<and> sig + 1 = 0"; cases "z \<noteq> 0 \<and> (z < 0) \<noteq> sign"; cases sign)
      (simp_all only: if_True if_False simp_thms overflow64)
  have bad: "d \<and> sig + 1 = 0 \<or> z \<noteq> 0 \<and> (z < 0) \<noteq> sign \<longleftrightarrow> i < - (2 ^ 63) \<or> 2 ^ 63 - 1 < i"
    "\<not> (d \<and> sig + 1 = 0 \<or> z \<noteq> 0 \<and> (z < 0) \<noteq> sign) \<Longrightarrow> z = i"
  proof (atomize (full), cases "d \<and> sig + 1 = 0")
    case True
    then show "((d \<and> sig + 1 = 0 \<or> z \<noteq> 0 \<and> (z < 0) \<noteq> sign) = (i < - (2 ^ 63) \<or> 2 ^ 63 - 1 < i)) \<and>
        (\<not> (d \<and> sig + 1 = 0 \<or> z \<noteq> 0 \<and> (z < 0) \<noteq> sign) \<longrightarrow> z = i)"
      using w(1) by (auto simp: i_def)
  next
    case False
    have s: "s = word_of_int (int P)" by (simp flip: w(2) [OF False])
    then have z': "z = sint (word_of_int i :: u64)" by (simp add: z_def i_def)
    have Pb: "P < 2 * 2 ^ 63" using unat_lt_64 [of s] w(2) [OF False] by simp
    have l: "LENGTH(64) = Suc 63" by simp
    note v = signed_wrap [where ?'a = 64 and w = 63, OF l Pb, of sign, folded i_def, folded z']
    show "((d \<and> sig + 1 = 0 \<or> z \<noteq> 0 \<and> (z < 0) \<noteq> sign) = (i < - (2 ^ 63) \<or> 2 ^ 63 - 1 < i)) \<and>
        (\<not> (d \<and> sig + 1 = 0 \<or> z \<noteq> 0 \<and> (z < 0) \<noteq> sign) \<longrightarrow> z = i)"
      using False v by blast
  qed
  show ?case unfolding sig_def [symmetric] extra_def [symmetric] out P_def [symmetric]
    by (rule int_resultI [OF _ _ i_def bad]) simp_all
qed simp_all

end
