(* ===== verification/Sf_To_Int.thy ===== *)
theory Sf_To_Int
  imports Sf_Int Sf_F32_Arith
begin

text \<open>
  The conversions of binary32 numbers to integers (\<open>f32_to_i32.c\<close>, \<open>f32_to_ui32.c\<close>,
  \<open>f32_to_i64.c\<close>, \<open>f32_to_ui64.c\<close>, the \<open>_r_minMag\<close> variants, and the conversions to 8 and
  16 bits built on them), on the rounding routines of \<open>Sf_Int\<close>.
\<close>

section \<open>The code\<close>

definition f32_to_ui32 :: "u32 \<Rightarrow> u8 \<Rightarrow> bool \<Rightarrow> sf_state \<Rightarrow> u64 \<times> sf_state" where
  "f32_to_ui32 a roundingMode exact st =
     (let uiA = ucast a;
          sign = signF32UI uiA;
          e = expF32UI uiA;
          sig = fracF32UI uiA;
          sign = (if e = 0xFF \<and> sig \<noteq> 0 then False else sign);
          sig = (if e \<noteq> 0 then sig OR 0x00800000 else sig);
          sig64 = push_bit 32 sig;
          shiftDist = 0xAA - e;
          sig64 = (if 0 < shiftDist then softfloat_shiftRightJam64 sig64 (word_of_int shiftDist) else sig64)
      in softfloat_roundToUI32 sign sig64 roundingMode exact st)"

definition f32_to_i32 :: "u32 \<Rightarrow> u8 \<Rightarrow> bool \<Rightarrow> sf_state \<Rightarrow> int \<times> sf_state" where
  "f32_to_i32 a roundingMode exact st =
     (let uiA = ucast a;
          sign = signF32UI uiA;
          e = expF32UI uiA;
          sig = fracF32UI uiA;
          sign = (if e = 0xFF \<and> sig \<noteq> 0 then False else sign);
          sig = (if e \<noteq> 0 then sig OR 0x00800000 else sig);
          sig64 = push_bit 32 sig;
          shiftDist = 0xAA - e;
          sig64 = (if 0 < shiftDist then softfloat_shiftRightJam64 sig64 (word_of_int shiftDist) else sig64)
      in softfloat_roundToI32 sign sig64 roundingMode exact st)"

definition f32_to_ui64 :: "u32 \<Rightarrow> u8 \<Rightarrow> bool \<Rightarrow> sf_state \<Rightarrow> u64 \<times> sf_state" where
  "f32_to_ui64 a roundingMode exact st =
     (let uiA = ucast a;
          sign = signF32UI uiA;
          e = expF32UI uiA;
          sig = fracF32UI uiA;
          shiftDist = 0xBE - e
      in if shiftDist < 0
         then (if e = 0xFF \<and> sig \<noteq> 0 then ui64_fromNaN
               else if sign then ui64_fromNegOverflow else ui64_fromPosOverflow,
               softfloat_raiseFlags softfloat_flag_invalid st)
         else let sig = (if e \<noteq> 0 then sig OR 0x00800000 else sig);
                  sig64 = push_bit 40 sig;
                  (sig64, extra) =
                    (if shiftDist \<noteq> 0
                     then let sig64Extra = softfloat_shiftRightJam64Extra sig64 0 (word_of_int shiftDist)
                          in (ue_v sig64Extra, ue_extra sig64Extra)
                     else (sig64, 0))
              in softfloat_roundToUI64 sign sig64 extra roundingMode exact st)"

definition f32_to_i64 :: "u32 \<Rightarrow> u8 \<Rightarrow> bool \<Rightarrow> sf_state \<Rightarrow> int \<times> sf_state" where
  "f32_to_i64 a roundingMode exact st =
     (let uiA = ucast a;
          sign = signF32UI uiA;
          e = expF32UI uiA;
          sig = fracF32UI uiA;
          shiftDist = 0xBE - e
      in if shiftDist < 0
         then (if e = 0xFF \<and> sig \<noteq> 0 then i64_fromNaN
               else if sign then i64_fromNegOverflow else i64_fromPosOverflow,
               softfloat_raiseFlags softfloat_flag_invalid st)
         else let sig = (if e \<noteq> 0 then sig OR 0x00800000 else sig);
                  sig64 = push_bit 40 sig;
                  (sig64, extra) =
                    (if shiftDist \<noteq> 0
                     then let sig64Extra = softfloat_shiftRightJam64Extra sig64 0 (word_of_int shiftDist)
                          in (ue_v sig64Extra, ue_extra sig64Extra)
                     else (sig64, 0))
              in softfloat_roundToI64 sign sig64 extra roundingMode exact st)"

text \<open>The conversions that truncate.\<close>

definition f32_to_ui32_r_minMag :: "u32 \<Rightarrow> bool \<Rightarrow> sf_state \<Rightarrow> u64 \<times> sf_state" where
  "f32_to_ui32_r_minMag a exact st =
     (let uiA = ucast a;
          e = expF32UI uiA;
          sig = fracF32UI uiA;
          shiftDist = 0x9E - e
      in if 32 \<le> shiftDist
         then (0, if exact \<and> (e \<noteq> 0 \<or> sig \<noteq> 0) then softfloat_raiseFlags softfloat_flag_inexact st else st)
         else let sign = signF32UI uiA
              in if sign \<or> shiftDist < 0
                 then (if e = 0xFF \<and> sig \<noteq> 0 then ui32_fromNaN
                       else if sign then ui32_fromNegOverflow else ui32_fromPosOverflow,
                       softfloat_raiseFlags softfloat_flag_invalid st)
                 else let sig = push_bit 8 (sig OR 0x00800000);
                          z = drop_bit (nat shiftDist) sig
                      in (z, if exact \<and> push_bit (nat shiftDist) z \<noteq> sig
                             then softfloat_raiseFlags softfloat_flag_inexact st else st))"

definition f32_to_i32_r_minMag :: "u32 \<Rightarrow> bool \<Rightarrow> sf_state \<Rightarrow> int \<times> sf_state" where
  "f32_to_i32_r_minMag a exact st =
     (let uiA = ucast a;
          e = expF32UI uiA;
          sig = fracF32UI uiA;
          shiftDist = 0x9E - e
      in if 32 \<le> shiftDist
         then (0, if exact \<and> (e \<noteq> 0 \<or> sig \<noteq> 0) then softfloat_raiseFlags softfloat_flag_inexact st else st)
         else let sign = signF32UI uiA
              in if shiftDist \<le> 0
                 then if uiA = packToF32UI True 0x9E 0 then (- 0x7FFFFFFF - 1, st)
                      else (if e = 0xFF \<and> sig \<noteq> 0 then i32_fromNaN
                            else if sign then i32_fromNegOverflow else i32_fromPosOverflow,
                            softfloat_raiseFlags softfloat_flag_invalid st)
                 else let sig = push_bit 8 (sig OR 0x00800000);
                          absZ = sint (drop_bit (nat shiftDist) sig)
                      in (if sign then - absZ else absZ,
                          if exact \<and> push_bit (nat shiftDist) (word_of_int absZ) \<noteq> sig
                          then softfloat_raiseFlags softfloat_flag_inexact st else st))"

definition f32_to_ui64_r_minMag :: "u32 \<Rightarrow> bool \<Rightarrow> sf_state \<Rightarrow> u64 \<times> sf_state" where
  "f32_to_ui64_r_minMag a exact st =
     (let uiA = ucast a;
          e = expF32UI uiA;
          sig = fracF32UI uiA;
          shiftDist = 0xBE - e
      in if 64 \<le> shiftDist
         then (0, if exact \<and> (e \<noteq> 0 \<or> sig \<noteq> 0) then softfloat_raiseFlags softfloat_flag_inexact st else st)
         else let sign = signF32UI uiA
              in if sign \<or> shiftDist < 0
                 then (if e = 0xFF \<and> sig \<noteq> 0 then ui64_fromNaN
                       else if sign then ui64_fromNegOverflow else ui64_fromPosOverflow,
                       softfloat_raiseFlags softfloat_flag_invalid st)
                 else let sig = sig OR 0x00800000;
                          sig64 = push_bit 40 sig;
                          z = drop_bit (nat shiftDist) sig64;
                          shiftDist = 40 - shiftDist
                      in (z, if exact \<and> shiftDist < 0 \<and> (ucast (push_bit (nat (shiftDist mod 32)) sig) :: u32) \<noteq> 0
                             then softfloat_raiseFlags softfloat_flag_inexact st else st))"

definition f32_to_i64_r_minMag :: "u32 \<Rightarrow> bool \<Rightarrow> sf_state \<Rightarrow> int \<times> sf_state" where
  "f32_to_i64_r_minMag a exact st =
     (let uiA = ucast a;
          e = expF32UI uiA;
          sig = fracF32UI uiA;
          shiftDist = 0xBE - e
      in if 64 \<le> shiftDist
         then (0, if exact \<and> (e \<noteq> 0 \<or> sig \<noteq> 0) then softfloat_raiseFlags softfloat_flag_inexact st else st)
         else let sign = signF32UI uiA
              in if shiftDist \<le> 0
                 then if uiA = packToF32UI True 0xBE 0 then (- 0x7FFFFFFFFFFFFFFF - 1, st)
                      else (if e = 0xFF \<and> sig \<noteq> 0 then i64_fromNaN
                            else if sign then i64_fromNegOverflow else i64_fromPosOverflow,
                            softfloat_raiseFlags softfloat_flag_invalid st)
                 else let sig = sig OR 0x00800000;
                          sig64 = push_bit 40 sig;
                          absZ = sint (drop_bit (nat shiftDist) sig64);
                          shiftDist = 40 - shiftDist
                      in (if sign then - absZ else absZ,
                          if exact \<and> shiftDist < 0 \<and> (ucast (push_bit (nat (shiftDist mod 32)) sig) :: u32) \<noteq> 0
                          then softfloat_raiseFlags softfloat_flag_inexact st else st))"

text \<open>The narrow results restore the flags before they raise the invalid flag.\<close>

definition ui8_fromPosOverflow :: u64 where "ui8_fromPosOverflow = 0xFF"
definition i8_fromPosOverflow :: int where "i8_fromPosOverflow = 0x7F"
definition i8_fromNegOverflow :: int where "i8_fromNegOverflow = - 0x7F - 1"
definition ui16_fromPosOverflow :: u64 where "ui16_fromPosOverflow = 0xFFFF"
definition i16_fromPosOverflow :: int where "i16_fromPosOverflow = 0x7FFF"
definition i16_fromNegOverflow :: int where "i16_fromNegOverflow = - 0x7FFF - 1"

definition f32_to_i16 :: "u32 \<Rightarrow> u8 \<Rightarrow> bool \<Rightarrow> sf_state \<Rightarrow> int \<times> sf_state" where
  "f32_to_i16 a roundingMode exact st =
     (let old_flags = softfloat_exceptionFlags st;
          (sig32, st) = f32_to_i32 a roundingMode exact st
      in if 32767 < sig32
         then (i16_fromPosOverflow, st\<lparr>softfloat_exceptionFlags := old_flags OR softfloat_flag_invalid\<rparr>)
         else if sig32 < - 32768
         then (i16_fromNegOverflow, st\<lparr>softfloat_exceptionFlags := old_flags OR softfloat_flag_invalid\<rparr>)
         else (sig32, st))"

definition f32_to_ui16 :: "u32 \<Rightarrow> u8 \<Rightarrow> bool \<Rightarrow> sf_state \<Rightarrow> u64 \<times> sf_state" where
  "f32_to_ui16 a roundingMode exact st =
     (let old_flags = softfloat_exceptionFlags st;
          (sig32, st) = f32_to_ui32 a roundingMode exact st
      in if 65535 < sig32
         then (ui16_fromPosOverflow, st\<lparr>softfloat_exceptionFlags := old_flags OR softfloat_flag_invalid\<rparr>)
         else (sig32, st))"

definition f32_to_i8 :: "u32 \<Rightarrow> u8 \<Rightarrow> bool \<Rightarrow> sf_state \<Rightarrow> int \<times> sf_state" where
  "f32_to_i8 a roundingMode exact st =
     (let old_flags = softfloat_exceptionFlags st;
          (sig32, st) = f32_to_i32 a roundingMode exact st
      in if 127 < sig32
         then (i8_fromPosOverflow, st\<lparr>softfloat_exceptionFlags := old_flags OR softfloat_flag_invalid\<rparr>)
         else if sig32 < - 128
         then (i8_fromNegOverflow, st\<lparr>softfloat_exceptionFlags := old_flags OR softfloat_flag_invalid\<rparr>)
         else (sig32, st))"

definition f32_to_ui8 :: "u32 \<Rightarrow> u8 \<Rightarrow> bool \<Rightarrow> sf_state \<Rightarrow> u64 \<times> sf_state" where
  "f32_to_ui8 a roundingMode exact st =
     (let old_flags = softfloat_exceptionFlags st;
          (sig32, st) = f32_to_ui32 a roundingMode exact st
      in if 255 < sig32
         then (ui8_fromPosOverflow, st\<lparr>softfloat_exceptionFlags := old_flags OR softfloat_flag_invalid\<rparr>)
         else (sig32, st))"

section \<open>Any rounding routine on any operand\<close>

text \<open>The significand with its hidden bit, in any format.\<close>

definition imp_sig :: "nat \<Rightarrow> nat \<Rightarrow> nat" where
  "imp_sig fb c = (if c div 2 ^ fb = 0 then 0 else 2 ^ fb) + c mod 2 ^ fb"

lemma abs_fval_imp_sig:
  assumes "fbits F = fb"
  shows "\<bar>fval F w\<bar> = of_nat (imp_sig fb (fmag w) * 2 ^ (max 1 (fmag w div 2 ^ fb) - 1)) / 2 ^ ulp0 F"
  unfolding abs_fval assms
  by (cases "fmag w div 2 ^ fb") (simp_all add: imp_sig_def ival_def Let_def)

lemma imp_sig_less: "imp_sig fb c < 2 * 2 ^ fb"
  using mod_less_divisor [of "2 ^ fb" c] by (simp add: imp_sig_def del: mod_less_divisor)

lemma ieee_to_int_beyond:
  assumes w: "\<not> ffinite F w \<or> of_nat B \<le> \<bar>fval F w\<bar>" and B: "hi < int B" "- int B < lo"
    and range: "lo \<le> 0" "0 < hi"
  shows "ieee_to_int F m lo hi exact w st =
    (if fneg w \<and> \<not> fnan F w then lo else hi, softfloat_raiseFlags softfloat_flag_invalid st)"
proof (cases "ffinite F w")
  case False
  then show ?thesis by (auto simp: ieee_to_int_def ffinite_def finf_def fnan_def)
next
  case True
  then have fin: "\<not> fnan F w" "\<not> finf F w" by (simp_all add: ffinite_def fnan_def finf_def)
  have "int B \<le> \<lfloor>\<bar>fval F w\<bar>\<rfloor>" using w True by (simp add: le_floor_iff)
  then have "int B \<le> int (round_nat m (fneg w) \<bar>fval F w\<bar>)" by (simp add: round_nat_def Let_def)
  then have i: "fneg w \<Longrightarrow> - int (round_nat m (fneg w) \<bar>fval F w\<bar>) < lo"
    "\<not> fneg w \<Longrightarrow> hi < int (round_nat m (fneg w) \<bar>fval F w\<bar>)" using B by linarith+
  then show ?thesis using fin range unfolding ieee_to_int_def int_result_def Let_def
    by (cases "fneg w") (simp_all only: if_True if_False simp_thms, auto)
qed

context int_rounder
begin

lemma rnd_operand:
  fixes w :: "'b::len word"
  assumes F: "fbits F = fb" "maxfin F = E * 2 ^ fb - 1" "0 < E"
    and e: "e = fmag w div 2 ^ fb" and sig: "sig = imp_sig fb (fmag w)"
    and D: "D + g = sh + ulp0 F + 1" "0 < D" "D < E"
    and near: "e \<le> D \<Longrightarrow> agrees (2 ^ (g - 1)) (of_nat (sig * 2 ^ sh) / 2 ^ (D - max 1 e) :: rat) n"
    and far: "D < e \<Longrightarrow> n = sig * 2 ^ sh" and lim: "n < lim"
    and big': "D < e \<Longrightarrow> hi < int (2 ^ (fb + sh) div 2 ^ g)" "D < e \<Longrightarrow> - int (2 ^ (fb + sh) div 2 ^ g) < lo"
    and neg: "neg \<longleftrightarrow> fneg w \<and> \<not> fnan F w"
  shows "rnd neg n r exact st = ieee_to_int F (int_mode r) lo hi exact w st"
proof (cases "e \<le> D")
  case True
  have "fmag w < (e + 1) * 2 ^ fb"
    using dividend_less_div_times [of "2 ^ fb" "fmag w"] by (simp add: e)
  also have "\<dots> \<le> E * 2 ^ fb" using True D(3) by (intro mult_right_mono) simp_all
  finally have fin: "ffinite F w" using F(2) by (simp add: ffinite_def)
  then have "neg = fneg w" by (auto simp: neg ffinite_def fnan_def)
  moreover have "\<bar>fval F w\<bar> = of_nat (sig * 2 ^ sh) / 2 ^ (D - max 1 e) / 2 ^ g"
  proof -
    have "sh + ulp0 F = (max 1 e - 1) + (D - max 1 e) + g + sh - sh" "ulp0 F + sh = (max 1 e - 1) + (D - max 1 e) + g"
      using True D(1,2) by auto
    then have "(2::rat) ^ (ulp0 F + sh) = 2 ^ (max 1 e - 1) * 2 ^ (D - max 1 e) * 2 ^ g" by (simp only: power_add)
    then show ?thesis unfolding abs_fval_imp_sig [OF F(1)] e [symmetric] sig [symmetric]
      by (simp add: field_simps power_add)
  qed
  ultimately show ?thesis using rnd_finite [OF near [OF True] lim fin] by simp
next
  case False
  then have f: "D < e" "fmag w div 2 ^ fb \<noteq> 0" using e by auto
  note big = big' [OF f(1)]
  have s: "2 ^ fb \<le> sig" using f(2) by (simp add: sig imp_sig_def)
  have le: "2 ^ (fb + sh) div 2 ^ g \<le> n div 2 ^ g"
    unfolding far [OF f(1)] power_add by (rule div_le_mono) (use s in simp)
  have "of_nat (2 ^ (fb + sh) div 2 ^ g) \<le> \<bar>fval F w\<bar>"
  proof -
    have "2 ^ (fb + sh) div 2 ^ g * 2 ^ g \<le> (2::nat) ^ (fb + sh)" by simp
    then have "2 ^ (fb + sh) div 2 ^ g * 2 ^ (D + g) \<le> (2::nat) ^ (fb + sh) * 2 ^ D"
      by (simp add: power_add mult.commute mult.left_commute)
    also have "\<dots> \<le> 2 ^ sh * (sig * 2 ^ (max 1 e - 1))"
    proof -
      have "(2::nat) ^ D \<le> 2 ^ (max 1 e - 1)" using f(1) by (intro power_increasing) auto
      then show ?thesis using s by (simp add: power_add mult_le_mono mult.assoc mult.left_commute)
    qed
    finally have "2 ^ (fb + sh) div 2 ^ g * 2 ^ (ulp0 F + 1) \<le> sig * 2 ^ (max 1 e - 1)"
      unfolding D(1) by (simp add: power_add mult.left_commute)
    then have "2 ^ (fb + sh) div 2 ^ g * 2 ^ ulp0 F \<le> sig * 2 ^ (max 1 e - 1)" by simp
    then have "of_nat (2 ^ (fb + sh) div 2 ^ g * 2 ^ ulp0 F) \<le> (of_nat (sig * 2 ^ (max 1 e - 1)) :: rat)"
      by (rule of_nat_mono)
    then show ?thesis unfolding abs_fval_imp_sig [OF F(1)] e [symmetric] sig [symmetric]
      by (simp add: le_divide_eq)
  qed
  then have sp: "ieee_to_int F (int_mode r) lo hi exact w st =
      (if fneg w \<and> \<not> fnan F w then lo else hi, softfloat_raiseFlags softfloat_flag_invalid st)"
    by (intro ieee_to_int_beyond [where B = "2 ^ (fb + sh) div 2 ^ g"] disjI2 big range)
  show ?thesis unfolding sp neg by (rule rnd_beyond [OF lim]) (use le big in linarith)+
qed

end

section \<open>The operand of a binary32 conversion\<close>

lemma sig23:
  fixes a :: u32
  shows "unat (if expF32UI (ucast a) \<noteq> 0 then fracF32UI (ucast a) OR 0x00800000 else fracF32UI (ucast a)) = imp_sig 23 (fmag a)"
  using fmag32_bounds(2) [of a] by (simp add: expF32UI_ucast fracF32UI_ucast or_hidden23_add imp_sig_def)

lemma frac23_zero: "fracF32UI (ucast (a :: u32)) = 0 \<longleftrightarrow> fmag a mod 2 ^ 23 = 0"
  by (metis fracF32UI_ucast unat_eq_0)

lemma special32_iff:
  fixes a :: u32
  shows "fnan F32 a \<longleftrightarrow> fmag a div 2 ^ 23 = 255 \<and> fmag a mod 2 ^ 23 \<noteq> 0"
    and "finf F32 a \<longleftrightarrow> fmag a div 2 ^ 23 = 255 \<and> fmag a mod 2 ^ 23 = 0"
proof -
  define q r where "q = fmag a div 2 ^ 23" and "r = fmag a mod 2 ^ 23"
  have "fmag a = q * 2 ^ 23 + r" "r < 2 ^ 23" "q < 256"
    using fmag32_bounds [of a] by (simp_all add: q_def r_def)
  then have "(0x7F800000 < fmag a \<longleftrightarrow> q = 255 \<and> r \<noteq> 0) \<and> (fmag a = 0x7F800000 \<longleftrightarrow> q = 255 \<and> r = 0)"
    by (cases "q = 255"; cases "q < 255") (simp_all, linarith+)
  then show "fnan F32 a \<longleftrightarrow> fmag a div 2 ^ 23 = 255 \<and> fmag a mod 2 ^ 23 \<noteq> 0"
    "finf F32 a \<longleftrightarrow> fmag a div 2 ^ 23 = 255 \<and> fmag a mod 2 ^ 23 = 0"
    by (simp_all add: q_def r_def fnan_def finf_def F32_def)
qed

lemma jam_shift_below: "n < 2 ^ d \<Longrightarrow> jam_shift n d = of_bool (n \<noteq> 0)"
  by (simp add: jam_shift_def)

lemma jam32_operand:
  fixes a :: u32
  defines "sig64 \<equiv> push_bit 32 (if expF32UI (ucast a) \<noteq> 0 then fracF32UI (ucast a) OR 0x00800000 else fracF32UI (ucast a))"
    and "e \<equiv> fmag a div 2 ^ 23"
  defines "n \<equiv> unat (if 0 < 0xAA - expF32UI (ucast a) then softfloat_shiftRightJam64 sig64 (word_of_int (0xAA - expF32UI (ucast a))) else sig64)"
  shows "e \<le> 170 \<Longrightarrow> agrees (2 ^ 11) (of_nat (imp_sig 23 (fmag a) * 2 ^ 32) / 2 ^ (170 - max 1 e) :: rat) n"
    and "170 < e \<Longrightarrow> n = imp_sig 23 (fmag a) * 2 ^ 32" and "n < 2 ^ 63"
proof -
  define s where "s = imp_sig 23 (fmag a) * 2 ^ 32"
  have s: "s < 2 ^ 56" using imp_sig_less [of 23 "fmag a"] by (simp add: s_def)
  have u: "unat sig64 = s"
    unfolding sig64_def s_def using imp_sig_less [of 23 "fmag a"] by (subst unat_push_bit_less) (simp_all add: sig23)
  have n: "n = jam_shift s (170 - e)"
  proof (cases "e < 170")
    case True
    have "unat (word_of_int (0xAA - int e) :: u64) = nat (0xAA - int e)"
      by (rule unat_word_of_int_nonneg) (use True in simp_all)
    then show ?thesis using True unfolding n_def expF32UI_ucast e_def [symmetric]
      by (simp add: unat_shiftRightJam64 u nat_diff_distrib)
  next
    case False
    then show ?thesis unfolding n_def expF32UI_ucast e_def [symmetric] by (simp add: u)
  qed
  have "n = jam_shift s (170 - max 1 e)" if "e \<le> 170"
  proof (cases "e = 0")
    case True
    have "s < 2 ^ 170" "s < 2 ^ 169" using s by (auto elim: less_trans)
    then show ?thesis unfolding n using True jam_shift_below by simp
  next
    case False
    then show ?thesis by (simp add: n max_def)
  qed
  then show "e \<le> 170 \<Longrightarrow> agrees (2 ^ 11) (of_nat (imp_sig 23 (fmag a) * 2 ^ 32) / 2 ^ (170 - max 1 e) :: rat) n"
    unfolding s_def [symmetric] by (simp only:) (rule agrees_jam_shift; simp)
  show "170 < e \<Longrightarrow> n = imp_sig 23 (fmag a) * 2 ^ 32" by (simp add: n s_def)
  have "n < 2 ^ 56" unfolding n by (rule jam_shift_less [OF s]) simp
  then show "n < 2 ^ 63" by simp
qed

lemma nan_sign32: "(if expF32UI (ucast a) = 0xFF \<and> fracF32UI (ucast a) \<noteq> 0 then False else signF32UI (ucast a)) \<longleftrightarrow>
    fneg a \<and> \<not> fnan F32 a" for a :: u32
  by (auto simp: expF32UI_ucast frac23_zero special32_iff)

lemma f32_to_i32_spec: "f32_to_i32 a r exact st = ieee_to_int F32 (int_mode r) (- (2 ^ 31)) (2 ^ 31 - 1) exact a st"
proof -
  define sig64 where "sig64 = push_bit 32 (if expF32UI (ucast a) \<noteq> 0 then fracF32UI (ucast a) OR 0x00800000 else fracF32UI (ucast a))"
  define n where "n = (if 0 < 0xAA - expF32UI (ucast a) then softfloat_shiftRightJam64 sig64 (word_of_int (0xAA - expF32UI (ucast a))) else sig64)"
  note op = jam32_operand [of a, folded sig64_def, folded n_def]
  have "f32_to_i32 a r exact st = softfloat_roundToI32 (fneg a \<and> \<not> fnan F32 a) n r exact st"
    unfolding f32_to_i32_def Let_def sig64_def [symmetric] n_def [symmetric] nan_sign32 ..
  also have "\<dots> = softfloat_roundToI32 (fneg a \<and> \<not> fnan F32 a) (word_of_nat (unat n)) r exact st" by simp
  also have "\<dots> = ieee_to_int F32 (int_mode r) (- (2 ^ 31)) (2 ^ 31 - 1) exact a st"
    by (rule i32r.rnd_operand [where fb = 23 and E = 255 and D = 170 and sh = 32, OF _ _ _ refl refl _ _ _ _ op(2,3)])
       (use op(1) in \<open>simp_all add: F32_def\<close>)
  finally show ?thesis .
qed

lemma f32_to_ui32_spec:
  "map_prod (int \<circ> unat) id (f32_to_ui32 a r exact st) = ieee_to_int F32 (int_mode r) 0 (2 ^ 32 - 1) exact a st"
proof -
  define sig64 where "sig64 = push_bit 32 (if expF32UI (ucast a) \<noteq> 0 then fracF32UI (ucast a) OR 0x00800000 else fracF32UI (ucast a))"
  define n where "n = (if 0 < 0xAA - expF32UI (ucast a) then softfloat_shiftRightJam64 sig64 (word_of_int (0xAA - expF32UI (ucast a))) else sig64)"
  note op = jam32_operand [of a, folded sig64_def, folded n_def]
  have "f32_to_ui32 a r exact st = softfloat_roundToUI32 (fneg a \<and> \<not> fnan F32 a) n r exact st"
    unfolding f32_to_ui32_def Let_def sig64_def [symmetric] n_def [symmetric] nan_sign32 ..
  also have "\<dots> = softfloat_roundToUI32 (fneg a \<and> \<not> fnan F32 a) (word_of_nat (unat n)) r exact st" by simp
  also have "map_prod (int \<circ> unat) id \<dots> = ieee_to_int F32 (int_mode r) 0 (2 ^ 32 - 1) exact a st"
    by (rule u32r.rnd_operand [where fb = 23 and E = 255 and D = 170 and sh = 32, OF _ _ _ refl refl _ _ _ _ op(2,3)])
       (use op(1) in \<open>simp_all add: F32_def\<close>)
  finally show ?thesis .
qed

text \<open>The two words of the 64-bit conversions, as one fixed-point number.\<close>

lemma shiftRightJam64Extra_value:
  fixes a :: u64
  assumes d: "0 < d" "d < 2 ^ 64"
  defines "z \<equiv> softfloat_shiftRightJam64Extra a 0 (word_of_nat d)"
  shows "unat (ue_v z) * 2 ^ 64 + unat (ue_extra z) = (if d \<le> 64 then unat a * 2 ^ (64 - d) else of_bool (unat a \<noteq> 0))"
proof -
  have ud: "unat (word_of_nat d :: u64) = d" using d by (simp add: unat_of_nat)
  consider "d < 64" | "d = 64" | "64 < d" by linarith
  then show ?thesis
  proof cases
    case 1
    have "unat (- word_of_nat d AND 63 :: u64) = 64 - d"
    proof -
      have "unat (- word_of_nat d :: u64) = 2 ^ 64 - d"
        using d 1 by (simp add: unat_minus ud unat_eq_0 [symmetric])
      moreover have "(2 ^ 64 - d) mod 2 ^ 6 = 64 - d"
      proof -
        have "2 ^ 64 - d = (2 ^ 58 - 1) * 2 ^ 6 + (64 - d)" using 1 by simp
        moreover have "64 - d < 2 ^ 6" using d(1) by simp
        ultimately show ?thesis by (simp only: mod_radix)
      qed
      ultimately show ?thesis by (simp only: unat_ops)
    qed
    then have z: "unat (ue_v z) = unat a div 2 ^ d" "unat (ue_extra z) = unat a * 2 ^ (64 - d) mod 2 ^ 64"
      using 1 by (simp_all add: z_def softfloat_shiftRightJam64Extra_def Let_def ud word_less_nat_alt unat_drop_bit unat_push_bit)
    have p: "(2::nat) ^ 64 = 2 ^ d * 2 ^ (64 - d)" using 1 by (simp flip: power_add)
    have "unat a * 2 ^ (64 - d) mod 2 ^ 64 = unat a mod 2 ^ d * 2 ^ (64 - d)" unfolding p by (simp only: mult_mod_left)
    then have "unat (ue_v z) * 2 ^ 64 + unat (ue_extra z) = unat a * 2 ^ (64 - d)"
      unfolding z p by (metis (no_types, lifting) distrib_right div_mult_mod_eq mult.assoc)
    then show ?thesis using 1 by simp
  next
    case 2
    then show ?thesis by (simp add: z_def softfloat_shiftRightJam64Extra_def Let_def)
  next
    case 3
    have "\<not> (word_of_nat d :: u64) < 64" "(word_of_nat d :: u64) \<noteq> 64"
      using 3 ud by (auto simp: word_less_nat_alt word_unat_eq_iff)
    then show ?thesis using 3 by (simp add: z_def softfloat_shiftRightJam64Extra_def Let_def unat_eq_0)
  qed
qed

lemma agrees_sticky:
  assumes m: "m < 2 ^ 64" and d: "64 < d"
  shows "agrees (2 ^ 63) (of_nat (m * 2 ^ 64) / 2 ^ d :: rat) (of_bool (m \<noteq> 0))"
proof -
  define x where "x = (of_nat (m * 2 ^ 64) / 2 ^ d :: rat)"
  have x: "0 \<le> x" "0 < x \<longleftrightarrow> m \<noteq> 0" by (simp_all add: x_def zero_less_divide_iff)
  have "m * 2 ^ 64 < 2 ^ 63 * 2 ^ d" using power_increasing [of 65 d "2::nat"] d m by simp
  then have "(of_nat (m * 2 ^ 64) :: rat) < of_nat (2 ^ 63 * 2 ^ d)" by (simp only: of_nat_less_iff)
  then have "x < 2 ^ 63" by (simp add: x_def divide_less_eq)
  have k: "(of_nat (k * 2 ^ 63) < x \<longleftrightarrow> k * 2 ^ 63 < of_bool (m \<noteq> 0)) \<and> (x < of_nat (k * 2 ^ 63) \<longleftrightarrow> of_bool (m \<noteq> 0) < k * 2 ^ 63)" for k :: nat
  proof (cases "k = 0")
    case False
    then have "(2::rat) ^ 63 \<le> of_nat (k * 2 ^ 63)" "2 ^ 63 \<le> k * 2 ^ 63" by simp_all
    with False \<open>x < 2 ^ 63\<close> show ?thesis by (cases "m = 0") auto
  qed (use x in auto)
  then show ?thesis by (simp add: agrees_def x_def)
qed

lemma shiftRightJam64Extra_agrees:
  fixes a :: u64
  assumes d: "0 < d" "d < 2 ^ 64" and d': "d' = d \<or> 64 < d \<and> 64 < d'"
  defines "z \<equiv> softfloat_shiftRightJam64Extra a 0 (word_of_nat d)"
  shows "agrees (2 ^ 63) (of_nat (unat a * 2 ^ 64) / 2 ^ d' :: rat) (unat (ue_v z) * 2 ^ 64 + unat (ue_extra z))"
proof (cases "d \<le> 64")
  case True
  then have "(2::rat) ^ 64 = 2 ^ d' * 2 ^ (64 - d)" using d' by (simp flip: power_add)
  then have "(of_nat (unat a * 2 ^ 64) / 2 ^ d' :: rat) = of_nat (unat a) * (2 ^ d' * 2 ^ (64 - d)) / 2 ^ d'"
    by (simp only: of_nat_mult of_nat_power of_nat_numeral)
  then have "(of_nat (unat a * 2 ^ 64) / 2 ^ d' :: rat) = of_nat (unat a * 2 ^ (64 - d))" by simp
  then show ?thesis unfolding z_def using True by (simp only: shiftRightJam64Extra_value [OF d] if_True agrees_refl)
next
  case False
  then have "64 < d'" using d' by auto
  have "unat a < 2 ^ 64" by simp
  with False show ?thesis unfolding z_def
    by (simp only: shiftRightJam64Extra_value [OF d] if_False) (rule agrees_sticky [OF _ \<open>64 < d'\<close>])
qed

lemma jam64_operand:
  fixes a :: u32
  defines "sig64 \<equiv> push_bit 40 (if expF32UI (ucast a) \<noteq> 0 then fracF32UI (ucast a) OR 0x00800000 else fracF32UI (ucast a))"
    and "e \<equiv> fmag a div 2 ^ 23"
  defines "z \<equiv> (if 0xBE - expF32UI (ucast a) \<noteq> 0
      then let x = softfloat_shiftRightJam64Extra sig64 0 (word_of_int (0xBE - expF32UI (ucast a))) in (ue_v x, ue_extra x)
      else (sig64, 0))"
  defines "n \<equiv> unat (fst z) * 2 ^ 64 + unat (snd z)"
  assumes e: "e \<le> 190"
  shows "agrees (2 ^ 63) (of_nat (imp_sig 23 (fmag a) * 2 ^ 104) / 2 ^ (190 - max 1 e) :: rat) n"
    and "n < 2 ^ 128" "fst z = word_of_nat (n div 2 ^ 64)" "snd z = word_of_nat (n mod 2 ^ 64)"
proof -
  have u: "unat sig64 = imp_sig 23 (fmag a) * 2 ^ 40"
    unfolding sig64_def using imp_sig_less [of 23 "fmag a"] by (subst unat_push_bit_less) (simp_all add: sig23)
  have u2: "imp_sig 23 (fmag a) * 2 ^ 104 = unat sig64 * 2 ^ 64" by (simp add: u)
  have ex: "expF32UI (ucast a) = int e" by (simp add: expF32UI_ucast e_def)
  show "agrees (2 ^ 63) (of_nat (imp_sig 23 (fmag a) * 2 ^ 104) / 2 ^ (190 - max 1 e) :: rat) n"
  proof (cases "e = 190")
    case True
    then have "n = unat sig64 * 2 ^ 64" by (simp add: n_def z_def ex)
    then show ?thesis unfolding u2 using True by (simp del: of_nat_mult)
  next
    case False
    then have d: "0 < 190 - e" "190 - e < 2 ^ 64" "190 - max 1 e = 190 - e \<or> 64 < 190 - e \<and> 64 < 190 - max 1 e"
      using e by auto
    have "word_of_int (0xBE - int e) = (word_of_nat (190 - e) :: u64)" using e by (simp add: of_nat_diff)
    then have "n = (let x = softfloat_shiftRightJam64Extra sig64 0 (word_of_nat (190 - e)) in unat (ue_v x) * 2 ^ 64 + unat (ue_extra x))"
      using False e by (simp add: n_def z_def ex Let_def)
    then show ?thesis unfolding u2 using shiftRightJam64Extra_agrees [OF d, of sig64] by (simp only: Let_def)
  qed
  have lt: "unat (fst z) < 2 ^ 64" "unat (snd z) < 2 ^ 64" by simp_all
  then show "n < 2 ^ 128" unfolding n_def by (simp del: unat_lt_64)
  show "fst z = word_of_nat (n div 2 ^ 64)" "snd z = word_of_nat (n mod 2 ^ 64)"
    unfolding n_def div_radix [OF lt(2)] mod_radix [OF lt(2)] by simp_all
qed

lemma far32:
  fixes a :: u32
  assumes e: "150 + k < fmag a div 2 ^ 23" and B: "hi < 2 ^ (24 + k)" "- (2 ^ (24 + k)) < lo" "lo \<le> 0" "0 < hi"
  shows "ieee_to_int F32 m lo hi exact a st =
    (if fneg a \<and> \<not> fnan F32 a then lo else hi, softfloat_raiseFlags softfloat_flag_invalid st)"
proof (rule ieee_to_int_beyond [where B = "2 ^ (24 + k)"])
  define e where "e = fmag a div 2 ^ 23"
  have s: "2 ^ 23 \<le> imp_sig 23 (fmag a)" using e by (simp add: imp_sig_def)
  have "(2::nat) ^ (150 + k) \<le> 2 ^ (max 1 e - 1)" using e unfolding e_def [symmetric] by (intro power_increasing) auto
  then have "2 ^ 23 * 2 ^ (150 + k) \<le> imp_sig 23 (fmag a) * 2 ^ (max 1 e - 1)" using s by (rule mult_le_mono [rotated])
  then have "of_nat (2 ^ 23 * 2 ^ (150 + k)) \<le> (of_nat (imp_sig 23 (fmag a) * 2 ^ (max 1 e - 1)) :: rat)" by (rule of_nat_mono)
  then have "of_nat (2 ^ (24 + k)) \<le> \<bar>fval F32 a\<bar>"
    unfolding abs_fval_imp_sig [OF F32_fields(1)] F32_fields(3) e_def [symmetric] by (simp add: le_divide_eq power_add)
  then show "\<not> ffinite F32 a \<or> of_nat (2 ^ (24 + k)) \<le> \<bar>fval F32 a\<bar>" by simp
qed (use B in simp_all)

lemma f32_to_i64_spec: "f32_to_i64 a r exact st = ieee_to_int F32 (int_mode r) (- (2 ^ 63)) (2 ^ 63 - 1) exact a st"
proof (cases "fmag a div 2 ^ 23 \<le> 190")
  case True
  define sig64 where "sig64 = push_bit 40 (if expF32UI (ucast a) \<noteq> 0 then fracF32UI (ucast a) OR 0x00800000 else fracF32UI (ucast a))"
  define z where "z = (if 0xBE - expF32UI (ucast a) \<noteq> 0
      then (ue_v (softfloat_shiftRightJam64Extra sig64 0 (word_of_int (0xBE - expF32UI (ucast a)))),
            ue_extra (softfloat_shiftRightJam64Extra sig64 0 (word_of_int (0xBE - expF32UI (ucast a)))))
      else (sig64, 0))"
  define n where "n = unat (fst z) * 2 ^ 64 + unat (snd z)"
  note op = jam64_operand [OF True, unfolded Let_def, folded sig64_def, folded z_def, folded n_def]
  have neg: "fneg a \<longleftrightarrow> fneg a \<and> \<not> fnan F32 a" using True by (auto simp: special32_iff)
  have s: "\<not> 0xBE - expF32UI (ucast a) < 0" using True by (simp add: expF32UI_ucast)
  have "f32_to_i64 a r exact st = softfloat_roundToI64 (fneg a) (fst z) (snd z) r exact st"
    unfolding f32_to_i64_def Let_def if_not_P [OF s] signF32UI_ucast case_prod_beta sig64_def [symmetric] z_def [symmetric] ..
  then show ?thesis unfolding op(3,4)
    by (simp only:) (rule i64r.rnd_operand [where fb = 23 and E = 255 and D = 190 and sh = 104, OF _ _ _ refl refl _ _ _ _ _ _ _ _ neg];
       use op(1,2) True in \<open>simp add: F32_def\<close>)
next
  case False
  then have e: "190 < fmag a div 2 ^ 23" by simp
  have "f32_to_i64 a r exact st = (if fneg a \<and> \<not> fnan F32 a then - (2 ^ 63) else 2 ^ 63 - 1, softfloat_raiseFlags softfloat_flag_invalid st)"
    unfolding f32_to_i64_def Let_def expF32UI_ucast using e
    by (auto simp: special32_iff frac23_zero overflow64 signF32UI_ucast)
  then show ?thesis using far32 [of 40 a "2 ^ 63 - 1" "- (2 ^ 63)"] e by simp
qed

lemma f32_to_ui64_spec:
  "map_prod (int \<circ> unat) id (f32_to_ui64 a r exact st) = ieee_to_int F32 (int_mode r) 0 (2 ^ 64 - 1) exact a st"
proof (cases "fmag a div 2 ^ 23 \<le> 190")
  case True
  define sig64 where "sig64 = push_bit 40 (if expF32UI (ucast a) \<noteq> 0 then fracF32UI (ucast a) OR 0x00800000 else fracF32UI (ucast a))"
  define z where "z = (if 0xBE - expF32UI (ucast a) \<noteq> 0
      then (ue_v (softfloat_shiftRightJam64Extra sig64 0 (word_of_int (0xBE - expF32UI (ucast a)))),
            ue_extra (softfloat_shiftRightJam64Extra sig64 0 (word_of_int (0xBE - expF32UI (ucast a)))))
      else (sig64, 0))"
  define n where "n = unat (fst z) * 2 ^ 64 + unat (snd z)"
  note op = jam64_operand [OF True, unfolded Let_def, folded sig64_def, folded z_def, folded n_def]
  have neg: "fneg a \<longleftrightarrow> fneg a \<and> \<not> fnan F32 a" using True by (auto simp: special32_iff)
  have s: "\<not> 0xBE - expF32UI (ucast a) < 0" using True by (simp add: expF32UI_ucast)
  have "f32_to_ui64 a r exact st = softfloat_roundToUI64 (fneg a) (fst z) (snd z) r exact st"
    unfolding f32_to_ui64_def Let_def if_not_P [OF s] signF32UI_ucast case_prod_beta sig64_def [symmetric] z_def [symmetric] ..
  then show ?thesis unfolding op(3,4)
    by (simp only:) (rule u64r.rnd_operand [where fb = 23 and E = 255 and D = 190 and sh = 104, OF _ _ _ refl refl _ _ _ _ _ _ _ _ neg];
       use op(1,2) True in \<open>simp add: F32_def\<close>)
next
  case False
  then have e: "190 < fmag a div 2 ^ 23" by simp
  have "map_prod (int \<circ> unat) id (f32_to_ui64 a r exact st) =
      (if fneg a \<and> \<not> fnan F32 a then 0 else 2 ^ 64 - 1, softfloat_raiseFlags softfloat_flag_invalid st)"
    unfolding f32_to_ui64_def Let_def expF32UI_ucast using e
    by (auto simp: special32_iff frac23_zero ui64_fromNegOverflow_def ui64_fromPosOverflow_def ui64_fromNaN_def signF32UI_ucast)
  then show ?thesis using far32 [of 40 a "2 ^ 64 - 1" 0] e by simp
qed

section \<open>The truncating conversions\<close>

lemma ieee_to_int_trunc:
  assumes w: "ffinite F w" "\<bar>fval F w\<bar> = of_nat n / 2 ^ d"
  shows "ieee_to_int F RTZ lo hi exact w st = int_result lo hi exact (fneg w) (n div 2 ^ d) (n mod 2 ^ d \<noteq> 0) st"
proof -
  have fin: "\<not> fnan F w" "\<not> finf F w" using w(1) by (simp_all add: ffinite_def fnan_def finf_def)
  have q: "nat \<lfloor>of_nat n / 2 ^ d :: rat\<rfloor> = n div 2 ^ d"
    using floor_divide_of_nat_eq [of n "2 ^ d", where ?'a = rat] by simp
  have "(of_nat (n div 2 ^ d) :: rat) \<noteq> of_nat n / 2 ^ d \<longleftrightarrow> n mod 2 ^ d \<noteq> 0"
  proof -
    have "(of_nat (n div 2 ^ d) :: rat) = of_nat n / 2 ^ d \<longleftrightarrow> (of_nat (n div 2 ^ d * 2 ^ d) :: rat) = of_nat n"
      by (simp add: eq_divide_eq)
    also have "\<dots> \<longleftrightarrow> n div 2 ^ d * 2 ^ d = n" by (simp only: of_nat_eq_iff)
    also have "\<dots> \<longleftrightarrow> n mod 2 ^ d = 0" by (metis dvd_div_mult_self dvd_triv_right mod_0_imp_dvd dvd_imp_mod_0)
    finally show ?thesis by simp
  qed
  then show ?thesis using fin by (simp add: ieee_to_int_def round_nat_def w(2) q Let_def)
qed

lemma abs_fval32_shift:
  fixes a :: u32
  assumes "max 1 (fmag a div 2 ^ 23) \<le> 150 + k"
  shows "\<bar>fval F32 a\<bar> = of_nat (imp_sig 23 (fmag a) * 2 ^ k) / 2 ^ (150 + k - max 1 (fmag a div 2 ^ 23))"
proof -
  have "149 + k = (max 1 (fmag a div 2 ^ 23) - 1) + (150 + k - max 1 (fmag a div 2 ^ 23))" using assms by auto
  then have "(2::rat) ^ (149 + k) = 2 ^ (max 1 (fmag a div 2 ^ 23) - 1) * 2 ^ (150 + k - max 1 (fmag a div 2 ^ 23))"
    by (simp only: power_add)
  then show ?thesis
    unfolding abs_fval_imp_sig [OF F32_fields(1)] F32_fields(3) by (simp add: field_simps power_add)
qed

lemma trunc32:
  fixes a :: u32
  assumes e: "fmag a div 2 ^ 23 \<le> 150 + k" "k \<le> 100" "0 < fmag a div 2 ^ 23"
  shows "ieee_to_int F32 RTZ lo hi exact a st =
    int_result lo hi exact (fneg a) ((2 ^ 23 + fmag a mod 2 ^ 23) * 2 ^ k div 2 ^ (150 + k - fmag a div 2 ^ 23))
      ((2 ^ 23 + fmag a mod 2 ^ 23) * 2 ^ k mod 2 ^ (150 + k - fmag a div 2 ^ 23) \<noteq> 0) st"
proof -
  have m: "max 1 (fmag a div 2 ^ 23) = fmag a div 2 ^ 23" using e(3) by simp
  have f: "ffinite F32 a" using e by (simp add: finite32_iff)
  show ?thesis using ieee_to_int_trunc [OF f abs_fval32_shift [of a k]] e(1,3)
    unfolding m by (simp add: imp_sig_def)
qed

lemma trunc32_small:
  fixes a :: u32
  assumes e: "fmag a div 2 ^ 23 < 127" and range: "lo \<le> 0" "0 < hi"
  shows "ieee_to_int F32 RTZ lo hi exact a st = (0, if exact \<and> fmag a \<noteq> 0 then softfloat_raiseFlags softfloat_flag_inexact st else st)"
proof -
  define d where "d = 150 - max 1 (fmag a div 2 ^ 23)"
  have f: "ffinite F32 a" using e by (simp add: finite32_iff)
  have v: "\<bar>fval F32 a\<bar> = of_nat (imp_sig 23 (fmag a)) / 2 ^ d"
    using abs_fval32_shift [of a 0] e by (simp add: d_def)
  have "(2::nat) ^ 24 \<le> 2 ^ d" using e by (intro power_increasing) (auto simp: d_def)
  then have lt: "imp_sig 23 (fmag a) < 2 ^ d" using imp_sig_less [of 23 "fmag a"] by simp
  have "imp_sig 23 (fmag a) = 0 \<longleftrightarrow> fmag a = 0"
    using div_mult_mod_eq [of "fmag a" "2 ^ 23"] by (auto simp: imp_sig_def)
  then show ?thesis using range lt unfolding ieee_to_int_trunc [OF f v] by (simp add: int_result_def Let_def)
qed

lemma operand_zero32: "expF32UI (ucast a) \<noteq> 0 \<or> fracF32UI (ucast a) \<noteq> 0 \<longleftrightarrow> fmag a \<noteq> 0" for a :: u32
  using div_mult_mod_eq [of "fmag a" "2 ^ 23"] by (auto simp: expF32UI_ucast frac23_zero simp del: div_mult_mod_eq)

lemma push_drop_bit_neq: "push_bit n (drop_bit n w) \<noteq> w \<longleftrightarrow> unat w mod 2 ^ n \<noteq> 0" for w :: u64
proof -
  have le: "unat w div 2 ^ n * 2 ^ n \<le> unat w" by simp
  have "unat (drop_bit n w) * 2 ^ n < 2 ^ 64"
    unfolding unat_drop_bit by (rule le_less_trans [OF le]) simp
  then have "unat (push_bit n (drop_bit n w)) = unat w div 2 ^ n * 2 ^ n"
    by (simp add: unat_push_bit_less unat_drop_bit)
  moreover have "unat w div 2 ^ n * 2 ^ n \<noteq> unat w \<longleftrightarrow> unat w mod 2 ^ n \<noteq> 0"
    by (metis dvd_div_mult_self dvd_imp_mod_0 dvd_triv_right mod_0_imp_dvd)
  ultimately show ?thesis by (simp only: word_unat_eq_iff)
qed

lemma sint_small: "unat (w :: u64) < 2 ^ 63 \<Longrightarrow> sint w = int (unat w)"
proof -
  assume w: "unat w < 2 ^ 63"
  obtain m where m: "unat w = m" by blast
  have "sint (word_of_int (int m) :: u64) = int m"
    by (rule sint_of_int_range(1) [where w = 63]) (use w m in simp_all)
  moreover have "w = word_of_int (int m)" by (simp flip: m)
  ultimately show ?thesis by (metis m)
qed

lemma trunc_sig:
  fixes a :: u32
  assumes "k \<le> 40"
  shows "unat (push_bit k (fracF32UI (ucast a) OR 0x00800000)) = (2 ^ 23 + fmag a mod 2 ^ 23) * 2 ^ k"
proof -
  have u: "unat (fracF32UI (ucast a) OR 0x00800000) = 2 ^ 23 + fmag a mod 2 ^ 23"
    using fmag32_bounds(2) [of a] by (simp add: or_hidden23_add fracF32UI_ucast)
  have "(2::nat) ^ k \<le> 2 ^ 40" using assms by (intro power_increasing) simp_all
  then have "unat (fracF32UI (ucast a) OR 0x00800000) * 2 ^ k < 2 ^ 24 * 2 ^ 40"
    unfolding u using fmag32_bounds(2) [of a] by (intro mult_less_le_imp_less) simp_all
  then have l: "unat (fracF32UI (ucast a) OR 0x00800000) * 2 ^ k < 2 ^ LENGTH(64)" by simp
  show ?thesis by (rule trans [OF unat_push_bit_less [OF l]]) (simp only: u)
qed

lemma f32_to_ui32_r_minMag_spec:
  "map_prod (int \<circ> unat) id (f32_to_ui32_r_minMag a exact st) = ieee_to_int F32 RTZ 0 (2 ^ 32 - 1) exact a st"
proof -
  define e where "e = fmag a div 2 ^ 23"
  define S where "S = (2 ^ 23 + fmag a mod 2 ^ 23) * 2 ^ 8"
  note f = expF32UI_ucast [of a, folded e_def] signF32UI_ucast trunc_sig [of 8 a, folded S_def]
  have S: "2 ^ 31 \<le> S" "S < 2 ^ 32" using fmag32_bounds(2) [of a] by (simp_all add: S_def)
  consider "e < 127" | "127 \<le> e" "e \<le> 158" | "158 < e" by linarith
  then show ?thesis
  proof cases
    case 1
    then show ?thesis using trunc32_small [of a 0 "2 ^ 32 - 1" exact st] operand_zero32 [of a]
      unfolding e_def [symmetric] by (simp add: f32_to_ui32_r_minMag_def Let_def f)
  next
    case 2
    define d where "d = 158 - e"
    have d: "d < 32" "0x9E - int e = int d" using 2 by (simp_all add: d_def)
    have t: "ieee_to_int F32 RTZ 0 (2 ^ 32 - 1) exact a st =
        int_result 0 (2 ^ 32 - 1) exact (fneg a) (S div 2 ^ d) (S mod 2 ^ d \<noteq> 0) st"
      using trunc32 [of a 8] 2 unfolding e_def [symmetric] by (simp add: S_def d_def)
    have "(2::nat) ^ d \<le> 2 ^ 31" using d(1) by (intro power_increasing) simp_all
    then have q: "0 < S div 2 ^ d" using S by (simp add: div_greater_zero_iff)
    have q': "S div 2 ^ d < 2 ^ 32" using S(2) by (rule le_less_trans [OF div_le_dividend])
    have s: "\<not> 32 \<le> int d" "\<not> int d < 0" using d by simp_all
    define sig where "sig = push_bit 8 (fracF32UI (ucast a) OR 0x00800000)"
    have "f32_to_ui32_r_minMag a exact st =
        (if fneg a then (ui32_fromNegOverflow, softfloat_raiseFlags softfloat_flag_invalid st)
         else (drop_bit d sig, if exact \<and> S mod 2 ^ d \<noteq> 0 then softfloat_raiseFlags softfloat_flag_inexact st else st))"
      unfolding f32_to_ui32_r_minMag_def Let_def f d(2) sig_def [symmetric] push_drop_bit_neq nat_int
      using s 2 f(3) by (simp add: sig_def)
    then show ?thesis unfolding t using q q' f(3) [folded sig_def]
      by (simp add: int_result_def Let_def unat_drop_bit ui32_fromNegOverflow_def)
  next
    case 3
    then have "map_prod (int \<circ> unat) id (f32_to_ui32_r_minMag a exact st) =
        (if fneg a \<and> \<not> fnan F32 a then 0 else 2 ^ 32 - 1, softfloat_raiseFlags softfloat_flag_invalid st)"
      by (auto simp: f32_to_ui32_r_minMag_def Let_def f special32_iff e_def frac23_zero
          ui32_fromNegOverflow_def ui32_fromPosOverflow_def ui32_fromNaN_def)
    then show ?thesis using far32 [of 8 a "2 ^ 32 - 1" 0 RTZ exact st] 3 unfolding e_def [symmetric] by simp
  qed
qed

lemma f32_to_i32_r_minMag_spec:
  "f32_to_i32_r_minMag a exact st = ieee_to_int F32 RTZ (- (2 ^ 31)) (2 ^ 31 - 1) exact a st"
proof -
  define e where "e = fmag a div 2 ^ 23"
  define f where "f = fmag a mod 2 ^ 23"
  define S where "S = (2 ^ 23 + f) * 2 ^ 8"
  note op = expF32UI_ucast [of a, folded e_def] signF32UI_ucast trunc_sig [of 8 a, folded f_def, folded S_def]
  have S: "2 ^ 31 \<le> S" "S < 2 ^ 32" using fmag32_bounds(2) [of a] by (simp_all add: S_def f_def)
  have c: "ucast a = packToF32UI True 0x9E 0 \<longleftrightarrow> fneg a \<and> e = 158 \<and> f = 0"
  proof -
    have "unat (packToF32UI True 0x9E 0) = 2 ^ 31 + 158 * 2 ^ 23" by (subst unat_pack32(1)) simp_all
    then have "ucast a = packToF32UI True 0x9E 0 \<longleftrightarrow> of_bool (fneg a) * 2 ^ 31 + fmag a = 2 ^ 31 + 158 * 2 ^ 23"
      using unat_eq_fneg_fmag [of a] by (simp add: word_unat_eq_iff)
    moreover have "fmag a = 158 * 2 ^ 23 \<longleftrightarrow> e = 158 \<and> f = 0" "fmag a < 2 ^ 31"
      using div_mult_mod_eq [of "fmag a" "2 ^ 23"] fmag_less [of a] by (auto simp: e_def f_def)
    ultimately show ?thesis by (cases "fneg a") auto
  qed
  consider "e < 127" | "127 \<le> e" "e < 158" | "e = 158" | "158 < e" by linarith
  then show ?thesis
  proof cases
    case 1
    then show ?thesis using trunc32_small [of a "- (2 ^ 31)" "2 ^ 31 - 1" exact st] operand_zero32 [of a]
      unfolding e_def [symmetric] by (simp add: f32_to_i32_r_minMag_def Let_def op)
  next
    case 2
    define d where "d = 158 - e"
    have d: "d < 32" "0x9E - int e = int d" "0 < d" using 2 by (simp_all add: d_def)
    have t: "ieee_to_int F32 RTZ (- (2 ^ 31)) (2 ^ 31 - 1) exact a st =
        int_result (- (2 ^ 31)) (2 ^ 31 - 1) exact (fneg a) (S div 2 ^ d) (S mod 2 ^ d \<noteq> 0) st"
      using trunc32 [of a 8] 2 unfolding e_def [symmetric] f_def [symmetric] by (simp add: S_def d_def)
    have "(2::nat) ^ 1 \<le> 2 ^ d" using d(3) by (intro power_increasing) simp_all
    then have q: "S div 2 ^ d < 2 ^ 31" using S(2) by (simp add: div_less_iff_less_mult)
    have s: "\<not> 32 \<le> int d" "\<not> int d \<le> 0" using d by simp_all
    define sig where "sig = push_bit 8 (fracF32UI (ucast a) OR 0x00800000)"
    have us: "unat (drop_bit d sig) = S div 2 ^ d" using op(3) [folded sig_def] by (simp add: unat_drop_bit)
    have absZ: "sint (drop_bit d sig) = int (S div 2 ^ d)" using q by (simp add: sint_small us del: of_nat_div)
    have bk: "word_of_int (int (S div 2 ^ d)) = drop_bit d sig" unfolding us [symmetric] by simp
    show ?thesis
      unfolding f32_to_i32_r_minMag_def Let_def op d(2) sig_def [symmetric] nat_int if_not_P [OF s(1)] if_not_P [OF s(2)]
        absZ bk push_drop_bit_neq t int_result_def
      using q op(3) [folded sig_def] by (cases "fneg a") (simp_all del: of_nat_div)
  next
    case 3
    have t: "ieee_to_int F32 RTZ (- (2 ^ 31)) (2 ^ 31 - 1) exact a st = int_result (- (2 ^ 31)) (2 ^ 31 - 1) exact (fneg a) S False st"
      using trunc32 [of a 8] 3 unfolding e_def [symmetric] f_def [symmetric] by (simp add: S_def)
    have "S = 2 ^ 31 + f * 2 ^ 8" by (simp add: S_def)
    then show ?thesis unfolding f32_to_i32_r_minMag_def Let_def op c t int_result_def using 3
      by (cases "fneg a"; cases "f = 0") (simp_all add: i32_fromNegOverflow_def i32_fromPosOverflow_def)
  next
    case 4
    then have "f32_to_i32_r_minMag a exact st =
        (if fneg a \<and> \<not> fnan F32 a then - (2 ^ 31) else 2 ^ 31 - 1, softfloat_raiseFlags softfloat_flag_invalid st)"
      by (auto simp: f32_to_i32_r_minMag_def Let_def op c special32_iff e_def f_def frac23_zero
          i32_fromNegOverflow_def i32_fromPosOverflow_def i32_fromNaN_def)
    then show ?thesis using far32 [of 8 a "2 ^ 31 - 1" "- (2 ^ 31)" RTZ exact st] 4 unfolding e_def [symmetric] by simp
  qed
qed

text \<open>The 64-bit variants look for lost bits in the low part of the significand.\<close>

lemma lost_bits:
  fixes sig :: u64
  assumes sig: "unat sig < 2 ^ 24" and d: "d < 64"
  shows "(40 - int d < 0 \<and> (ucast (push_bit (nat ((40 - int d) mod 32)) sig) :: u32) \<noteq> 0) \<longleftrightarrow> unat sig * 2 ^ 40 mod 2 ^ d \<noteq> 0"
proof (cases "d \<le> 40")
  case True
  then have "(2::nat) ^ d dvd 2 ^ 40" by (rule le_imp_power_dvd)
  then have "unat sig * 2 ^ 40 mod 2 ^ d = 0" by (metis dvd_mult dvd_imp_mod_0)
  then show ?thesis using True by simp
next
  case False
  define t where "t = d - 40"
  have t: "0 < t" "t < 24" using False d by (simp_all add: t_def)
  have d': "d = t + 40" using False by (simp add: t_def)
  have "nat ((40 - int d) mod 32) = 32 - t"
  proof -
    have "40 - int d = - int t" by (simp add: d')
    then have "(40 - int d) mod 32 = (- int t + 32) mod 32" by (simp only: mod_add_self2)
    also have "\<dots> = - int t + 32" using t by (intro mod_pos_pos_trivial) simp_all
    finally show ?thesis using t by simp
  qed
  moreover have "unat (ucast (push_bit (32 - t) sig) :: u32) = unat sig mod 2 ^ t * 2 ^ (32 - t)"
  proof -
    have "(2::nat) ^ (32 - t) \<le> 2 ^ 32" by (intro power_increasing) simp_all
    then have "unat sig * 2 ^ (32 - t) < 2 ^ 24 * 2 ^ 32" using sig by (intro mult_less_le_imp_less) simp_all
    then have l: "unat sig * 2 ^ (32 - t) < 2 ^ LENGTH(64)" by simp
    have p: "(2::nat) ^ LENGTH(32) = 2 ^ t * 2 ^ (32 - t)" using t by (simp flip: power_add)
    show ?thesis unfolding unat_ucast unat_push_bit_less [OF l] p by (rule mult_mod_left [symmetric])
  qed
  moreover have "unat sig * 2 ^ 40 mod 2 ^ d = unat sig mod 2 ^ t * 2 ^ 40" unfolding d' power_add by (rule mult_mod_left [symmetric])
  ultimately show ?thesis using False by (simp add: word_unat_eq_iff)
qed

lemma f32_to_i64_r_minMag_spec:
  "f32_to_i64_r_minMag a exact st = ieee_to_int F32 RTZ (- (2 ^ 63)) (2 ^ 63 - 1) exact a st"
proof -
  define e where "e = fmag a div 2 ^ 23"
  define f where "f = fmag a mod 2 ^ 23"
  define S where "S = (2 ^ 23 + f) * 2 ^ 40"
  note op = expF32UI_ucast [of a, folded e_def] signF32UI_ucast trunc_sig [of 40 a, folded f_def, folded S_def]
  have f: "f < 2 ^ 23" using fmag32_bounds(2) [of a] by (simp add: f_def)
  then have S: "2 ^ 63 \<le> S" "S < 2 ^ 64" by (simp_all add: S_def)
  have c: "ucast a = packToF32UI True 0xBE 0 \<longleftrightarrow> fneg a \<and> e = 190 \<and> f = 0"
  proof -
    have "unat (packToF32UI True 0xBE 0) = 2 ^ 31 + 190 * 2 ^ 23" by (subst unat_pack32(1)) simp_all
    then have "ucast a = packToF32UI True 0xBE 0 \<longleftrightarrow> of_bool (fneg a) * 2 ^ 31 + fmag a = 2 ^ 31 + 190 * 2 ^ 23"
      using unat_eq_fneg_fmag [of a] by (simp add: word_unat_eq_iff)
    moreover have "fmag a = 190 * 2 ^ 23 \<longleftrightarrow> e = 190 \<and> f = 0" "fmag a < 2 ^ 31"
      using div_mult_mod_eq [of "fmag a" "2 ^ 23"] fmag_less [of a] by (auto simp: e_def f_def)
    ultimately show ?thesis by (cases "fneg a") auto
  qed
  consider "e < 127" | "127 \<le> e" "e < 190" | "e = 190" | "190 < e" by linarith
  then show ?thesis
  proof cases
    case 1
    then show ?thesis using trunc32_small [of a "- (2 ^ 63)" "2 ^ 63 - 1" exact st] operand_zero32 [of a]
      unfolding e_def [symmetric] by (simp add: f32_to_i64_r_minMag_def Let_def op)
  next
    case 2
    define d where "d = 190 - e"
    have d: "d < 64" "0xBE - int e = int d" "0 < d" using 2 by (simp_all add: d_def)
    have t: "ieee_to_int F32 RTZ (- (2 ^ 63)) (2 ^ 63 - 1) exact a st =
        int_result (- (2 ^ 63)) (2 ^ 63 - 1) exact (fneg a) (S div 2 ^ d) (S mod 2 ^ d \<noteq> 0) st"
      using trunc32 [of a 40] 2 unfolding e_def [symmetric] f_def [symmetric] by (simp add: S_def d_def)
    have "(2::nat) ^ 1 \<le> 2 ^ d" using d(3) by (intro power_increasing) simp_all
    then have q: "S div 2 ^ d < 2 ^ 63" using S(2) by (simp add: div_less_iff_less_mult)
    have s: "\<not> 64 \<le> int d" "\<not> int d \<le> 0" using d by simp_all
    define sig where "sig = fracF32UI (ucast a) OR 0x00800000"
    have us: "unat (drop_bit d (push_bit 40 sig)) = S div 2 ^ d" using op(3) [folded sig_def] by (simp add: unat_drop_bit)
    have absZ: "sint (drop_bit d (push_bit 40 sig)) = int (S div 2 ^ d)" using q by (simp add: sint_small us del: of_nat_div)
    have u0: "unat sig = 2 ^ 23 + f" unfolding sig_def using f by (simp add: or_hidden23_add fracF32UI_ucast f_def)
    have lost: "(40 - int d < 0 \<and> (ucast (push_bit (nat ((40 - int d) mod 32)) sig) :: u32) \<noteq> 0) \<longleftrightarrow> S mod 2 ^ d \<noteq> 0"
      using lost_bits [of sig d] d(1) u0 f by (simp add: S_def)
    show ?thesis
      unfolding f32_to_i64_r_minMag_def Let_def op d(2) sig_def [symmetric] nat_int if_not_P [OF s(1)] if_not_P [OF s(2)]
        absZ lost t int_result_def
      using q by (cases "fneg a") (simp_all del: of_nat_div)
  next
    case 3
    have t: "ieee_to_int F32 RTZ (- (2 ^ 63)) (2 ^ 63 - 1) exact a st = int_result (- (2 ^ 63)) (2 ^ 63 - 1) exact (fneg a) S False st"
      using trunc32 [of a 40] 3 unfolding e_def [symmetric] f_def [symmetric] by (simp add: S_def)
    have "S = 2 ^ 63 + f * 2 ^ 40" by (simp add: S_def)
    then show ?thesis unfolding f32_to_i64_r_minMag_def Let_def op c t int_result_def using 3
      by (cases "fneg a"; cases "f = 0") (simp_all add: overflow64)
  next
    case 4
    then have "f32_to_i64_r_minMag a exact st =
        (if fneg a \<and> \<not> fnan F32 a then - (2 ^ 63) else 2 ^ 63 - 1, softfloat_raiseFlags softfloat_flag_invalid st)"
      by (auto simp: f32_to_i64_r_minMag_def Let_def op c special32_iff e_def f_def frac23_zero overflow64)
    then show ?thesis using far32 [of 40 a "2 ^ 63 - 1" "- (2 ^ 63)" RTZ exact st] 4 unfolding e_def [symmetric] by simp
  qed
qed

lemma f32_to_ui64_r_minMag_spec:
  "map_prod (int \<circ> unat) id (f32_to_ui64_r_minMag a exact st) = ieee_to_int F32 RTZ 0 (2 ^ 64 - 1) exact a st"
proof -
  define e where "e = fmag a div 2 ^ 23"
  define f where "f = fmag a mod 2 ^ 23"
  define S where "S = (2 ^ 23 + f) * 2 ^ 40"
  note op = expF32UI_ucast [of a, folded e_def] signF32UI_ucast trunc_sig [of 40 a, folded f_def, folded S_def]
  have f: "f < 2 ^ 23" using fmag32_bounds(2) [of a] by (simp add: f_def)
  then have S: "2 ^ 63 \<le> S" "S < 2 ^ 64" by (simp_all add: S_def)
  consider "e < 127" | "127 \<le> e" "e \<le> 190" | "190 < e" by linarith
  then show ?thesis
  proof cases
    case 1
    then show ?thesis using trunc32_small [of a 0 "2 ^ 64 - 1" exact st] operand_zero32 [of a]
      unfolding e_def [symmetric] by (simp add: f32_to_ui64_r_minMag_def Let_def op)
  next
    case 2
    define d where "d = 190 - e"
    have d: "d < 64" "0xBE - int e = int d" using 2 by (simp_all add: d_def)
    have t: "ieee_to_int F32 RTZ 0 (2 ^ 64 - 1) exact a st =
        int_result 0 (2 ^ 64 - 1) exact (fneg a) (S div 2 ^ d) (S mod 2 ^ d \<noteq> 0) st"
      using trunc32 [of a 40] 2 unfolding e_def [symmetric] f_def [symmetric] by (simp add: S_def d_def)
    have "(2::nat) ^ d \<le> 2 ^ 63" using d(1) by (intro power_increasing) simp_all
    then have q: "0 < S div 2 ^ d" using S by (simp add: div_greater_zero_iff)
    have q': "S div 2 ^ d < 2 ^ 64" using S(2) by (rule le_less_trans [OF div_le_dividend])
    have s: "\<not> 64 \<le> int d" "\<not> int d < 0" using d by simp_all
    define sig where "sig = fracF32UI (ucast a) OR 0x00800000"
    have u0: "unat sig = 2 ^ 23 + f" unfolding sig_def using f by (simp add: or_hidden23_add fracF32UI_ucast f_def)
    have lost: "(40 - int d < 0 \<and> (ucast (push_bit (nat ((40 - int d) mod 32)) sig) :: u32) \<noteq> 0) \<longleftrightarrow> S mod 2 ^ d \<noteq> 0"
      using lost_bits [of sig d] d(1) u0 f by (simp add: S_def)
    have us: "unat (drop_bit d (push_bit 40 sig)) = S div 2 ^ d" using op(3) [folded sig_def] by (simp add: unat_drop_bit)
    have "f32_to_ui64_r_minMag a exact st =
        (if fneg a then (ui64_fromNegOverflow, softfloat_raiseFlags softfloat_flag_invalid st)
         else (drop_bit d (push_bit 40 sig), if exact \<and> S mod 2 ^ d \<noteq> 0 then softfloat_raiseFlags softfloat_flag_inexact st else st))"
      unfolding f32_to_ui64_r_minMag_def Let_def op d(2) sig_def [symmetric] nat_int if_not_P [OF s(1)] lost
      using s(2) 2 by simp
    then show ?thesis unfolding t using q q' us
      by (simp add: int_result_def Let_def ui64_fromNegOverflow_def)
  next
    case 3
    then have "map_prod (int \<circ> unat) id (f32_to_ui64_r_minMag a exact st) =
        (if fneg a \<and> \<not> fnan F32 a then 0 else 2 ^ 64 - 1, softfloat_raiseFlags softfloat_flag_invalid st)"
      by (auto simp: f32_to_ui64_r_minMag_def Let_def op special32_iff e_def f_def frac23_zero
          ui64_fromNegOverflow_def ui64_fromPosOverflow_def ui64_fromNaN_def)
    then show ?thesis using far32 [of 40 a "2 ^ 64 - 1" 0 RTZ exact st] 3 unfolding e_def [symmetric] by simp
  qed
qed

section \<open>The narrow results\<close>

lemma ieee_to_int_narrow:
  assumes "lo \<le> lo'" "lo' \<le> 0" "0 < hi'" "hi' < hi"
  shows "(let (z, s) = ieee_to_int F m lo hi exact w st
     in if hi' < z then (hi', s\<lparr>softfloat_exceptionFlags := softfloat_exceptionFlags st OR softfloat_flag_invalid\<rparr>)
        else if z < lo' then (lo', s\<lparr>softfloat_exceptionFlags := softfloat_exceptionFlags st OR softfloat_flag_invalid\<rparr>)
        else (z, s)) = ieee_to_int F m lo' hi' exact w st"
proof -
  have r: "(softfloat_raiseFlags f st)\<lparr>softfloat_exceptionFlags := softfloat_exceptionFlags st OR softfloat_flag_invalid\<rparr> =
      softfloat_raiseFlags softfloat_flag_invalid st"
    "st\<lparr>softfloat_exceptionFlags := softfloat_exceptionFlags st OR softfloat_flag_invalid\<rparr> =
      softfloat_raiseFlags softfloat_flag_invalid st" for f
    by (simp_all add: softfloat_raiseFlags_def)
  define n where "n = int (round_nat m (fneg w) \<bar>fval F w\<bar>)"
  show ?thesis using assms
    by (cases "fnan F w"; cases "finf F w"; cases "fneg w")
      (auto simp: ieee_to_int_def int_result_def Let_def r n_def [symmetric])
qed

lemma narrow_constants:
  "i16_fromPosOverflow = 32767" "i16_fromNegOverflow = - 32768" "i8_fromPosOverflow = 127" "i8_fromNegOverflow = - 128"
  by (simp_all add: i16_fromPosOverflow_def i16_fromNegOverflow_def i8_fromPosOverflow_def i8_fromNegOverflow_def)

lemma f32_to_i16_spec: "f32_to_i16 a r exact st = ieee_to_int F32 (int_mode r) (- (2 ^ 15)) (2 ^ 15 - 1) exact a st"
  using ieee_to_int_narrow [of "- (2 ^ 31)" "- 32768" "32767" "2 ^ 31 - 1" F32 "int_mode r" exact a st]
  unfolding f32_to_i16_def f32_to_i32_spec narrow_constants Let_def by simp

lemma f32_to_i8_spec: "f32_to_i8 a r exact st = ieee_to_int F32 (int_mode r) (- (2 ^ 7)) (2 ^ 7 - 1) exact a st"
  using ieee_to_int_narrow [of "- (2 ^ 31)" "- 128" "127" "2 ^ 31 - 1" F32 "int_mode r" exact a st]
  unfolding f32_to_i8_def f32_to_i32_spec narrow_constants Let_def by simp

lemma narrow_unsigned:
  fixes c :: u64
  assumes "map_prod (int \<circ> unat) id x = ieee_to_int F m 0 hi exact w st" and c: "0 < int (unat c)" "int (unat c) < hi"
  shows "map_prod (int \<circ> unat) id (let (sig32, s) = x
      in if c < sig32 then (c, s\<lparr>softfloat_exceptionFlags := softfloat_exceptionFlags st OR softfloat_flag_invalid\<rparr>)
         else (sig32, s)) = ieee_to_int F m 0 (int (unat c)) exact w st"
  unfolding ieee_to_int_narrow [OF order.refl order.refl c, symmetric] assms(1) [symmetric]
  by (cases x) (simp add: word_less_def)

lemma f32_to_ui16_spec:
  "map_prod (int \<circ> unat) id (f32_to_ui16 a r exact st) = ieee_to_int F32 (int_mode r) 0 (2 ^ 16 - 1) exact a st"
  using narrow_unsigned [OF f32_to_ui32_spec, of "0xFFFF"] unfolding f32_to_ui16_def ui16_fromPosOverflow_def Let_def by simp

lemma f32_to_ui8_spec:
  "map_prod (int \<circ> unat) id (f32_to_ui8 a r exact st) = ieee_to_int F32 (int_mode r) 0 (2 ^ 8 - 1) exact a st"
  using narrow_unsigned [OF f32_to_ui32_spec, of "0xFF"] unfolding f32_to_ui8_def ui8_fromPosOverflow_def Let_def by simp

section \<open>Properties\<close>

text \<open>
  C31: every conversion of a binary32 encoding rounds its value to an integer in the given
  mode, and outside the range of the result, at an infinity or a NaN returns the bound the code
  documents with the invalid flag alone; otherwise it raises the inexact flag exactly when asked
  to and the value is not an integer.
\<close>

theorem f32_to_int_correct:
  "f32_to_i32 a r exact st = ieee_to_int F32 (int_mode r) (- (2 ^ 31)) (2 ^ 31 - 1) exact a st \<and>
   map_prod (int \<circ> unat) id (f32_to_ui32 a r exact st) = ieee_to_int F32 (int_mode r) 0 (2 ^ 32 - 1) exact a st \<and>
   f32_to_i64 a r exact st = ieee_to_int F32 (int_mode r) (- (2 ^ 63)) (2 ^ 63 - 1) exact a st \<and>
   map_prod (int \<circ> unat) id (f32_to_ui64 a r exact st) = ieee_to_int F32 (int_mode r) 0 (2 ^ 64 - 1) exact a st \<and>
   f32_to_i16 a r exact st = ieee_to_int F32 (int_mode r) (- (2 ^ 15)) (2 ^ 15 - 1) exact a st \<and>
   map_prod (int \<circ> unat) id (f32_to_ui16 a r exact st) = ieee_to_int F32 (int_mode r) 0 (2 ^ 16 - 1) exact a st \<and>
   f32_to_i8 a r exact st = ieee_to_int F32 (int_mode r) (- (2 ^ 7)) (2 ^ 7 - 1) exact a st \<and>
   map_prod (int \<circ> unat) id (f32_to_ui8 a r exact st) = ieee_to_int F32 (int_mode r) 0 (2 ^ 8 - 1) exact a st"
  by (intro conjI f32_to_i32_spec f32_to_ui32_spec f32_to_i64_spec f32_to_ui64_spec f32_to_i16_spec f32_to_ui16_spec
      f32_to_i8_spec f32_to_ui8_spec)

lemma unsigned_pair_inject: "map_prod (int \<circ> unat) id x = map_prod (int \<circ> unat) id y \<longleftrightarrow> x = y" for x y :: "u64 \<times> sf_state"
  by (cases x; cases y) (simp add: word_uint_eq_iff)

lemma int_mode_minMag: "int_mode softfloat_round_minMag = RTZ"
  by (simp add: int_mode_def sf_mode_def sf_modes)

text \<open>
  The separate routines that truncate return on every encoding what the general conversions
  return in the mode that rounds toward zero, flags included.
\<close>

theorem f32_to_int_r_minMag_equivalent:
  "f32_to_i32_r_minMag a exact st = f32_to_i32 a softfloat_round_minMag exact st \<and>
   f32_to_ui32_r_minMag a exact st = f32_to_ui32 a softfloat_round_minMag exact st \<and>
   f32_to_i64_r_minMag a exact st = f32_to_i64 a softfloat_round_minMag exact st \<and>
   f32_to_ui64_r_minMag a exact st = f32_to_ui64 a softfloat_round_minMag exact st"
  unfolding unsigned_pair_inject [of "f32_to_ui32_r_minMag a exact st", symmetric] unsigned_pair_inject [of "f32_to_ui64_r_minMag a exact st", symmetric]
    f32_to_i32_r_minMag_spec f32_to_ui32_r_minMag_spec f32_to_i64_r_minMag_spec f32_to_ui64_r_minMag_spec
    f32_to_i32_spec f32_to_ui32_spec f32_to_i64_spec f32_to_ui64_spec int_mode_minMag
  by (intro conjI refl)

end
