(* ===== verification/Sf_Round_Int.thy ===== *)
theory Sf_Round_Int
  imports Sf_To_Int
begin

text \<open>
  Rounding a binary32 number to an integer in its own format (\<open>f32_roundToInt.c\<close>).  The
  \<open>switch\<close> on the rounding mode falls through from the even case to the one that rounds half away
  from zero; modes it does not name truncate.
\<close>

section \<open>The code\<close>

definition f32_roundToInt_small :: "u64 \<Rightarrow> u8 \<Rightarrow> u64" where
  "f32_roundToInt_small uiA roundingMode =
     (let uiZ = uiA AND packToF32UI True 0 0
      in if roundingMode = softfloat_round_near_even \<and> fracF32UI uiA = 0 then uiZ
         else if roundingMode = softfloat_round_near_even \<or> roundingMode = softfloat_round_near_maxMag
         then (if expF32UI uiA = 0x7E then uiZ OR packToF32UI False 0x7F 0 else uiZ)
         else if roundingMode = softfloat_round_min
         then (if uiZ \<noteq> 0 then packToF32UI True 0x7F 0 else uiZ)
         else if roundingMode = softfloat_round_max
         then (if uiZ = 0 then packToF32UI False 0x7F 0 else uiZ)
         else uiZ)"

definition f32_roundToInt :: "u32 \<Rightarrow> u8 \<Rightarrow> bool \<Rightarrow> sf_state \<Rightarrow> u32 \<times> sf_state" where
  "f32_roundToInt a roundingMode exact st =
     (let uiA = ucast a :: u64;
          e = expF32UI uiA
      in if e \<le> 0x7E
         then if (ucast (push_bit 1 uiA) :: u32) = 0 then (a, st)
              else (ucast (f32_roundToInt_small uiA roundingMode),
                    if exact then softfloat_raiseFlags softfloat_flag_inexact st else st)
         else if 0x96 \<le> e
         then if e = 0xFF \<and> fracF32UI uiA \<noteq> 0
              then let (uiZ, st) = softfloat_propagateNaNF32UI uiA 0 st in (ucast uiZ, st)
              else (a, st)
         else let uiZ = uiA;
                  lastBitMask = push_bit (nat (0x96 - e)) 1;
                  roundBitsMask = lastBitMask - 1;
                  uiZ = (if roundingMode = softfloat_round_near_maxMag then uiZ + drop_bit 1 lastBitMask
                         else if roundingMode = softfloat_round_near_even
                         then let uiZ = uiZ + drop_bit 1 lastBitMask
                              in if uiZ AND roundBitsMask = 0 then uiZ AND NOT lastBitMask else uiZ
                         else if roundingMode = (if signF32UI uiZ then softfloat_round_min else softfloat_round_max)
                         then uiZ + roundBitsMask else uiZ);
                  uiZ = uiZ AND NOT roundBitsMask
              in (ucast uiZ,
                  if exact \<and> uiZ \<noteq> uiA then softfloat_raiseFlags softfloat_flag_inexact st else st))"

section \<open>The specification\<close>

text \<open>
  The integer next to a finite value in the given mode, as the encoding of the operand's sign;
  infinities stay; a NaN gives the canonical NaN, a signaling one (class 8) with the invalid flag.
  The inexact flag only on request and when the value changed.  The integer is representable
  (\<open>code_of_int\<close>), so the mode of \<open>fround\<close> does not matter.
\<close>

definition ieee_round_to_int :: "fmt \<Rightarrow> rmode \<Rightarrow> bool \<Rightarrow> 'a::len word \<Rightarrow> sf_state \<Rightarrow> 'a word \<times> sf_state" where
  "ieee_round_to_int F m exact a st =
     (if fnan F a then (qnan F, if ieee_class F a = 8 then softfloat_raiseFlags softfloat_flag_invalid st else st)
      else if finf F a then (a, st)
      else let n = round_nat m (fneg a) \<bar>fval F a\<bar>
           in (fround F RTZ (fneg a) (of_nat n),
               if exact \<and> of_nat n \<noteq> \<bar>fval F a\<bar> then softfloat_raiseFlags softfloat_flag_inexact st else st))"

lemma code_of_int:
  assumes "127 \<le> e" "e < 150" "2 ^ (e - 127) \<le> R" "R \<le> 2 ^ (e - 126)"
  shows "ival 23 ((e - 1) * 2 ^ 23 + R * 2 ^ (150 - e)) = R * 2 ^ 149"
    and "(e - 1) * 2 ^ 23 + R * 2 ^ (150 - e) \<le> 150 * 2 ^ 23"
proof -
  define t where "t = 150 - e"
  have t: "e - 127 + t = 23" "e - 126 + t = 24" "t + (e - 1) = 149" using assms(1,2) by (simp_all add: t_def)
  have "2 ^ (e - 127) * 2 ^ t \<le> R * 2 ^ t" "R * 2 ^ t \<le> 2 ^ (e - 126) * 2 ^ t" using assms(3,4) by simp_all
  then have b: "2 ^ 23 \<le> R * 2 ^ t" "R * 2 ^ t \<le> 2 ^ 24" unfolding power_add [symmetric] t by simp_all
  have v: "R * 2 ^ t * 2 ^ (e - 1) = R * 2 ^ 149" unfolding mult.assoc power_add [symmetric] t ..
  show "ival 23 ((e - 1) * 2 ^ 23 + R * 2 ^ (150 - e)) = R * 2 ^ 149"
  proof (cases "R * 2 ^ t = 2 ^ 24")
    case True
    have "ival 23 (e * 2 ^ 23 + 2 ^ 23) = 2 ^ 23 * 2 ^ e" by (rule ival_pack) simp_all
    moreover have "(e - 1) * 2 ^ 23 + 2 ^ 24 = e * 2 ^ 23 + (2 :: nat) ^ 23" using assms(1) by (simp add: algebra_simps)
    moreover have "(2 :: nat) ^ 23 * 2 ^ e = 2 ^ 24 * 2 ^ (e - 1)" using assms(1) by (cases e) simp_all
    ultimately show ?thesis unfolding t_def [symmetric] v [symmetric] True by (simp only:)
  next
    case False
    then show ?thesis unfolding t_def [symmetric] v [symmetric] using b by (intro ival_pack) simp_all
  qed
  have "(e - 1) * 2 ^ 23 \<le> 148 * (2 :: nat) ^ 23" using assms(2) by (intro mult_right_mono) simp_all
  then show "(e - 1) * 2 ^ 23 + R * 2 ^ (150 - e) \<le> 150 * 2 ^ 23" unfolding t_def [symmetric] using b by simp
qed

text \<open>Rounding the code as a number rounds the significand.\<close>

lemma pack_sig_shift:
  assumes k: "even k" and g: "0 < g" and m: "m \<noteq> RNO"
  shows "pack_sig m neg g (k * 2 ^ g + n) = k + pack_sig m neg g n"
proof -
  have "(k * 2 ^ g + n) div 2 ^ g = k + n div 2 ^ g" "(k * 2 ^ g + n) mod 2 ^ g = n mod 2 ^ g" by simp_all
  then show ?thesis using k unfolding pack_sig_incr [OF g m] guard_incr_def by simp
qed

lemma unat_clear_low: "unat (x AND NOT (mask t)) = unat x div 2 ^ t * 2 ^ t" for x :: u64
proof -
  have "x AND NOT (mask t) = push_bit t (drop_bit t x)" by (rule bit_word_eqI) (auto simp: bit_simps)
  moreover have "unat x div 2 ^ t * 2 ^ t \<le> unat x" by simp
  then have "unat (drop_bit t x) * 2 ^ t < 2 ^ LENGTH(64)"
    unfolding unat_drop_bit by (rule le_less_trans) simp
  ultimately show ?thesis by (simp add: unat_push_bit_less unat_drop_bit)
qed

lemma clear_tie:
  fixes x :: u64
  assumes t: "t < 63"
  shows "unat ((if x AND mask t = 0 then x AND NOT (push_bit t 1) else x) AND NOT (mask t)) =
    (unat x div 2 ^ t - of_bool (unat x mod 2 ^ t = 0 \<and> odd (unat x div 2 ^ t))) * 2 ^ t"
proof -
  have z: "x AND mask t = 0 \<longleftrightarrow> unat x mod 2 ^ t = 0" by (metis unat_and_mask unat_eq_0)
  have "(x AND NOT (push_bit t 1)) AND NOT (mask t) = x AND NOT (mask (t + 1))"
    by (rule bit_word_eqI) (auto simp: bit_simps less_Suc_eq)
  then have "unat ((x AND NOT (push_bit t 1)) AND NOT (mask t)) = unat x div 2 ^ (t + 1) * 2 ^ (t + 1)"
    by (simp only: unat_clear_low)
  also have "unat x div 2 ^ (t + 1) = unat x div 2 ^ t div 2" by (metis div_mult2_eq power_Suc2 Suc_eq_plus1)
  also have "unat x div 2 ^ t div 2 * 2 ^ (t + 1) = (unat x div 2 ^ t div 2 * 2) * 2 ^ t" by simp
  also have "unat x div 2 ^ t div 2 * 2 = unat x div 2 ^ t - of_bool (odd (unat x div 2 ^ t))"
    by (cases "odd (unat x div 2 ^ t)") (simp_all add: odd_two_times_div_two_nat mult.commute)
  finally have c: "unat ((x AND NOT (push_bit t 1)) AND NOT (mask t)) = (unat x div 2 ^ t - of_bool (odd (unat x div 2 ^ t))) * 2 ^ t" .
  show ?thesis
  proof (cases "unat x mod 2 ^ t = 0")
    case True
    then show ?thesis unfolding z by (simp only: if_True c simp_thms True)
  next
    case False
    then show ?thesis unfolding z by (simp only: if_False unat_clear_low simp_thms of_bool_eq diff_zero)
  qed
qed

lemma roundToInt_word:
  fixes u :: u64 and r :: u8 and sign :: bool
  assumes t: "0 < t" "t < 24" and u: "unat u < 2 ^ 32"
  defines "L \<equiv> push_bit t 1 :: u64"
  defines "x \<equiv> (if r = softfloat_round_near_maxMag then u + drop_bit 1 L
      else if r = softfloat_round_near_even
      then (if u + drop_bit 1 L AND (L - 1) = 0 then u + drop_bit 1 L AND NOT L else u + drop_bit 1 L)
      else if r = (if sign then softfloat_round_min else softfloat_round_max) then u + (L - 1) else u)"
  shows "unat (x AND NOT (L - 1)) = pack_sig (int_mode r) sign t (unat u) * 2 ^ t"
proof -
  have uL: "unat L = 2 ^ t" unfolding L_def by (rule unat_push_1) (use t in simp)
  have m: "L - 1 = mask t" by (simp add: L_def mask_eq_exp_minus_1)
  have um: "unat (mask t :: u64) = 2 ^ t - 1" by (rule unat_mask) (use t in simp)
  obtain h where h: "(2::nat) ^ t = 2 * h" "2 ^ (t - 1) = h" "0 < h" using t by (cases t) auto
  note h' = h(2) [unfolded One_nat_def]
  have uh: "unat (drop_bit 1 L) = h" by (simp add: unat_drop_bit uL h)
  have "(2::nat) ^ t \<le> 2 ^ 23" using t by (intro power_increasing) simp_all
  then have ov: "unat u + h < 2 ^ LENGTH(64)" "unat u + (2 ^ t - 1) < 2 ^ LENGTH(64)" using u h by simp_all
  have s: "unat (u + drop_bit 1 L) = unat u + h" "unat (u + mask t) = unat u + (2 ^ t - 1)"
    by (rule trans [OF unat_add_less]; use ov in \<open>simp only: uh um\<close>)+
  have tie: "(unat u + h) mod 2 ^ t = 0 \<longleftrightarrow> unat u mod 2 ^ t = h"
  proof -
    define v where "v = unat u mod 2 ^ t"
    have "v < 2 * h" unfolding v_def h(1) by (rule mod_less_divisor) (use h in simp)
    moreover have "(unat u + h) mod 2 ^ t = (v + h) mod (2 * h)" unfolding v_def h(1) by (simp add: mod_add_left_eq)
    ultimately show ?thesis unfolding v_def [symmetric] using h(3) by (auto simp: mod_if)
  qed
  consider (mm) "r = softfloat_round_near_maxMag" | (ne) "r = softfloat_round_near_even"
    | (dir) "r \<noteq> softfloat_round_near_maxMag" "r \<noteq> softfloat_round_near_even" by blast
  then show ?thesis
  proof cases
    case mm
    then have "int_mode r = RMM" by (simp add: int_mode_iff)
    then show ?thesis unfolding m x_def if_P [OF mm] unat_clear_low s by (simp add: pack_sig_def round_inc_def h h')
  next
    case ne
    then have r: "int_mode r = RNE" "r \<noteq> softfloat_round_near_maxMag" by (simp_all add: int_mode_iff sf_modes)
    show ?thesis
      unfolding m x_def if_not_P [OF r(2)] if_P [OF ne] L_def [symmetric]
      using clear_tie [of t "u + drop_bit 1 L"] t tie unfolding L_def [symmetric] s
      by (simp add: pack_sig_def r(1) round_inc_def h h' Let_def)
  next
    case dir
    then have d: "r = (if sign then softfloat_round_min else softfloat_round_max) \<longleftrightarrow> int_mode r = (if sign then RDN else RUP)"
      by (auto simp: int_mode_iff)
    have nm: "int_mode r \<noteq> RMM" "int_mode r \<noteq> RNE" using dir by (simp_all add: int_mode_iff)
    show ?thesis
    proof (cases "int_mode r = (if sign then RDN else RUP)")
      case True
      then have "pack_sig (int_mode r) sign t (unat u) = (unat u + (2 ^ t - 1)) div 2 ^ t"
        using nm by (cases sign) (simp_all add: pack_sig_def round_inc_def Let_def)
      then show ?thesis unfolding m x_def if_not_P [OF dir(1)] if_not_P [OF dir(2)] d if_P [OF True] unat_clear_low s by simp
    next
      case False
      then have "pack_sig (int_mode r) sign t (unat u) = unat u div 2 ^ t"
        using nm by (simp add: pack_sig_def round_inc_def Let_def)
      then show ?thesis unfolding m x_def if_not_P [OF dir(1)] if_not_P [OF dir(2)] d if_not_P [OF False] unat_clear_low by simp
    qed
  qed
qed

section \<open>The operation\<close>

lemma fround_nat:
  assumes "ival 23 c = n * 2 ^ 149" "c \<le> maxfin F32"
  shows "fround F32 m neg (of_nat n) = (fpack neg c :: u32)"
  by (rule fround_exact) (use assms in \<open>simp_all add: F32_fields(1,3)\<close>)

lemma roundToInt_middle:
  fixes a :: u32
  assumes e: "127 \<le> fmag a div 2 ^ 23" "fmag a div 2 ^ 23 < 150"
  shows "f32_roundToInt a r exact st = ieee_round_to_int F32 (int_mode r) exact a st"
proof -
  define e where "e = fmag a div 2 ^ 23"
  define S where "S = 2 ^ 23 + fmag a mod 2 ^ 23"
  define t where "t = 150 - e"
  define m where "m = int_mode r"
  define R where "R = pack_sig m (fneg a) t S"
  define k where "k = of_bool (fneg a) * 2 ^ (31 - t) + (e - 1) * 2 ^ (23 - t)"
  have e': "127 \<le> e" "e < 150" "0 < t" "t < 24" "e = 150 - t" using e by (simp_all add: e_def t_def)
  have S: "2 ^ 23 \<le> S" "S < 2 ^ 24" using fmag32_bounds(2) [of a] by (simp_all add: S_def)
  have M: "m \<noteq> RNO" by (simp add: m_def)
  have ev: "even k"
  proof (cases "t = 23")
    case True
    then show ?thesis using e'(5) by (simp add: k_def)
  next
    case False
    then show ?thesis using e'(4) by (simp add: k_def)
  qed
  have p: "2 ^ (31 - t) * 2 ^ t = (2::nat) ^ 31" "2 ^ (23 - t) * 2 ^ t = (2::nat) ^ 23"
    using e'(4) by (simp_all flip: power_add)
  have kt: "k * 2 ^ t = of_bool (fneg a) * 2 ^ 31 + (e - 1) * 2 ^ 23"
    unfolding k_def distrib_right mult.assoc p ..
  have fm: "fmag a = (e - 1) * 2 ^ 23 + S" unfolding S_def e_def using e(1) div_mult_mod_eq [of "fmag a" "2 ^ 23"] by (simp add: algebra_simps diff_mult_distrib)
  have ua: "unat (ucast a :: u64) = k * 2 ^ t + S"
    using unat_eq_fneg_fmag [of a] by (simp add: kt fm)
  have "S div 2 ^ t + 1 \<le> 2 ^ (e - 126)" "2 ^ (e - 127) \<le> S div 2 ^ t"
  proof -
    have q: "2 ^ (e - 126) * 2 ^ t = (2::nat) ^ 24" "2 ^ (e - 127) * 2 ^ t = (2::nat) ^ 23"
      unfolding power_add [symmetric] using e'(1,2) by (simp_all add: t_def)
    show "2 ^ (e - 127) \<le> S div 2 ^ t" unfolding less_eq_div_iff_mult_less_eq [OF zero_less_power [OF zero_less_numeral]] q by (rule S)
    have "S div 2 ^ t < 2 ^ (e - 126)" unfolding div_less_iff_less_mult [OF zero_less_power [OF zero_less_numeral]] q by (rule S)
    then show "S div 2 ^ t + 1 \<le> 2 ^ (e - 126)" by simp
  qed
  then have R: "2 ^ (e - 127) \<le> R" "R \<le> 2 ^ (e - 126)"
    unfolding R_def pack_sig_incr [OF e'(3) M] by auto
  note c = code_of_int [OF e'(1,2) R, folded t_def]
  have fin: "\<not> fnan F32 a" "\<not> finf F32 a" using e'(2) by (simp_all add: special32_iff e_def)
  have v: "\<bar>fval F32 a\<bar> = of_nat S / 2 ^ t"
  proof -
    have m1: "max 1 (fmag a div 2 ^ 23) = e" using e(1) by (simp add: e_def)
    have "imp_sig 23 (fmag a) = S" using e(1) by (simp add: imp_sig_def S_def)
    then show ?thesis using abs_fval32_shift [of a 0] e'(2) unfolding m1 by (simp add: t_def)
  qed
  have rn: "round_nat m (fneg a) \<bar>fval F32 a\<bar> = R"
    unfolding v R_def by (rule round_nat_guard [OF e'(3) agrees_refl M])
  have z: "fround F32 RTZ (fneg a) (of_nat R) = (fpack (fneg a) ((e - 1) * 2 ^ 23 + R * 2 ^ t) :: u32)"
    by (rule fround_nat [OF c(1)]) (use c(2) in \<open>simp add: F32_fields(2)\<close>)
  have ch: "of_nat R \<noteq> \<bar>fval F32 a\<bar> \<longleftrightarrow> R * 2 ^ t \<noteq> S"
  proof -
    have "of_nat R = \<bar>fval F32 a\<bar> \<longleftrightarrow> (of_nat (R * 2 ^ t) :: rat) = of_nat S" unfolding v by (simp add: eq_divide_eq)
    then show ?thesis by (simp only: of_nat_eq_iff)
  qed
  define u where "u = (ucast a :: u64)"
  have ul: "unat u < 2 ^ 32" using unsigned_less [of a, where ?'a = nat] by (simp add: u_def)
  note w = roundToInt_word [OF e'(3,4) ul, where r = r and sign = "fneg a"]
  have uZ: "pack_sig (int_mode r) (fneg a) t (unat u) * 2 ^ t = of_bool (fneg a) * 2 ^ 31 + ((e - 1) * 2 ^ 23 + R * 2 ^ t)"
    using pack_sig_shift [OF ev e'(3) M, of "fneg a" S] kt unfolding u_def ua R_def m_def by (simp add: distrib_right)
  define Z where "Z = (let L = push_bit t 1 in (if r = softfloat_round_near_maxMag then u + drop_bit 1 L
      else if r = softfloat_round_near_even
      then (if u + drop_bit 1 L AND (L - 1) = 0 then u + drop_bit 1 L AND NOT L else u + drop_bit 1 L)
      else if r = (if fneg a then softfloat_round_min else softfloat_round_max) then u + (L - 1) else u) AND NOT (L - 1))"
  have Z: "unat Z = of_bool (fneg a) * 2 ^ 31 + ((e - 1) * 2 ^ 23 + R * 2 ^ t)"
    unfolding Z_def Let_def w uZ ..
  have zz: "(ucast Z :: u32) = fpack (fneg a) ((e - 1) * 2 ^ 23 + R * 2 ^ t)"
    by (rule word_eq_fpackI) (use Z c(2) in \<open>simp add: unat_ucast_less\<close>)
  have ne: "Z \<noteq> u \<longleftrightarrow> R * 2 ^ t \<noteq> S"
    unfolding word_unat_eq_iff Z using ua kt by (simp add: u_def)
  have x: "expF32UI u = int e" by (simp add: u_def expF32UI_ucast e_def)
  have n: "\<not> int e \<le> 0x7E" "\<not> 0x96 \<le> int e" "nat (0x96 - int e) = t" using e'(1,2) by (simp_all add: t_def)
  have "f32_roundToInt a r exact st = (ucast Z, if exact \<and> Z \<noteq> u then softfloat_raiseFlags softfloat_flag_inexact st else st)"
    unfolding f32_roundToInt_def u_def [symmetric] Let_def x if_not_P [OF n(1)] if_not_P [OF n(2)] n(3) Z_def
    by (simp only: u_def signF32UI_ucast)
  then show ?thesis
    unfolding ieee_round_to_int_def m_def [symmetric] Let_def rn ch if_not_P [OF fin(1)] if_not_P [OF fin(2)] z zz ne .
qed

lemma round_nat_nat: "round_nat m neg (of_nat n :: rat) = n"
  by (cases m) (simp_all add: round_nat_def Let_def)

lemma roundToInt_large:
  fixes a :: u32
  assumes e: "150 \<le> fmag a div 2 ^ 23" "fmag a div 2 ^ 23 < 255"
  shows "ieee_round_to_int F32 m exact a st = (a, st)"
proof -
  define e where "e = fmag a div 2 ^ 23"
  define N where "N = imp_sig 23 (fmag a) * 2 ^ (e - 150)"
  have e': "150 \<le> e" using e by (simp add: e_def)
  have "max 1 e - 1 = (e - 150) + 149" using e' by simp
  then have i: "imp_sig 23 (fmag a) * 2 ^ (max 1 e - 1) = N * 2 ^ 149" unfolding N_def mult.assoc power_add [symmetric] by (simp only:)
  have v: "\<bar>fval F32 a\<bar> = of_nat N"
    unfolding abs_fval_imp_sig [OF F32_fields(1)] F32_fields(3) e_def [symmetric] i by simp
  then have c: "ival 23 (fmag a) = N * 2 ^ 149"
  proof -
    have "(of_nat (ival 23 (fmag a)) :: rat) = of_nat (N * 2 ^ 149)" using v unfolding abs_fval F32_fields(1,3) by (simp add: divide_eq_eq)
    then show ?thesis by (simp only: of_nat_eq_iff)
  qed
  have fin: "\<not> fnan F32 a" "\<not> finf F32 a" using e(2) by (simp_all add: special32_iff)
  then have "fmag a \<le> maxfin F32" by (simp add: fnan_def finf_def)
  then have "fround F32 RTZ (fneg a) (of_nat N) = a" using fround_nat [OF c] by simp
  then show ?thesis unfolding ieee_round_to_int_def v round_nat_nat using fin by (simp add: Let_def)
qed

lemma fround_one: "fround F32 m neg 1 = (fpack neg (127 * 2 ^ 23) :: u32)"
proof -
  have "ival 23 (126 * 2 ^ 23 + 2 ^ 23) = 2 ^ 23 * 2 ^ 126" by (rule ival_pack) simp_all
  then show ?thesis using fround_nat [of "127 * 2 ^ 23" 1 m neg] by (simp add: F32_fields(2))
qed

lemma and_push_bit_1: "w AND push_bit k 1 = (if bit w k then push_bit k 1 else 0)" for w :: "'a::len word"
  by (rule bit_word_eqI) (auto simp: bit_simps)

lemma ucast_push_bit: "(ucast (push_bit k (ucast a :: u64)) :: u32) = push_bit k a" for a :: u32
  by (rule bit_word_eqI) (auto simp: bit_simps)

lemma sign_bit: "(ucast a :: u64) AND packToF32UI True 0 0 = (if fneg a then 0x80000000 else 0)" for a :: u32
proof -
  have "packToF32UI True 0 0 = push_bit 31 1" by (simp add: packToF32UI_def)
  then show ?thesis using and_push_bit_1 [of "ucast a :: u64" 31] unfolding fneg_top_bit by (simp add: bit_simps)
qed

lemma roundToInt_small:
  fixes a :: u32
  assumes e: "fmag a div 2 ^ 23 \<le> 126"
  shows "f32_roundToInt a r exact st = ieee_round_to_int F32 (int_mode r) exact a st"
proof -
  define e where "e = fmag a div 2 ^ 23"
  define f where "f = fmag a mod 2 ^ 23"
  define m where "m = int_mode r"
  have fin: "\<not> fnan F32 a" "\<not> finf F32 a" using e by (simp_all add: special32_iff)
  have z: "(ucast (push_bit 1 (ucast a :: u64)) :: u32) = 0 \<longleftrightarrow> fmag a = 0"
  proof -
    note ucast_push_bit [of 1 a]
    moreover have "unat (push_bit 1 a) = fmag a * 2" unfolding unat_push_bit fmag_def using mult_mod_left [of "unat a" "2 ^ 31" 2] by simp
    ultimately show ?thesis by (simp add: word_unat_eq_iff)
  qed
  have x: "expF32UI (ucast a) = int e" "fracF32UI (ucast a) = 0 \<longleftrightarrow> f = 0" "int e \<le> 0x7E"
    using e by (simp_all add: expF32UI_ucast e_def f_def frac23_zero)
  show ?thesis
  proof (cases "fmag a = 0")
    case True
    then have "fval F32 a = 0" by (simp add: fval_eq_0_iff)
    moreover have "round_nat (int_mode r) (fneg a) (0 :: rat) = 0" using round_nat_nat [of "int_mode r" "fneg a" 0] by simp
    moreover have "fround F32 RTZ (fneg a) 0 = a" using True fpack_fneg_fmag [of a] by simp
    ultimately show ?thesis
      unfolding f32_roundToInt_def Let_def x(1) if_P [OF x(3)] z if_P [OF True] ieee_round_to_int_def
        if_not_P [OF fin(1)] if_not_P [OF fin(2)] by simp
  next
    case False
    define d where "d = 150 - max 1 e"
    have v: "\<bar>fval F32 a\<bar> = of_nat (imp_sig 23 (fmag a)) / 2 ^ d"
      using abs_fval32_shift [of a 0] e by (simp add: d_def e_def)
    have sz: "0 < imp_sig 23 (fmag a)" using False div_mult_mod_eq [of "fmag a" "2 ^ 23"] by (auto simp: imp_sig_def)
    have sl: "imp_sig 23 (fmag a) < 2 ^ 24" using imp_sig_less [of 23 "fmag a"] by simp
    define y where "y = \<bar>fval F32 a\<bar>"
    have y: "0 < y" "y < 1" "1 < 2 * y \<longleftrightarrow> e = 126 \<and> f \<noteq> 0" "2 * y = 1 \<longleftrightarrow> e = 126 \<and> f = 0"
    proof -
      have s: "(0::rat) < of_nat (imp_sig 23 (fmag a))" using sz by simp
      show "0 < y" unfolding y_def v using s by simp
      have "y < 1 \<and> (1 < 2 * y \<longleftrightarrow> e = 126 \<and> f \<noteq> 0) \<and> (2 * y = 1 \<longleftrightarrow> e = 126 \<and> f = 0)"
      proof (cases "e = 126")
        case True
        then have d: "d = 24" and i: "imp_sig 23 (fmag a) = 2 ^ 23 + f" by (simp_all add: d_def imp_sig_def e_def f_def)
        have f: "f < 2 ^ 23" by (simp add: f_def)
        have "y = (2 ^ 23 + of_nat f) / 2 ^ 24" unfolding y_def v d i by simp
        moreover have "(of_nat f :: rat) < 2 ^ 23" using of_nat_less_iff [of f "2 ^ 23", where ?'a = rat] f by simp
        ultimately show ?thesis using True by auto
      next
        case False
        then have "25 \<le> d" using e by (auto simp: d_def e_def)
        then have "(2::rat) ^ 25 \<le> 2 ^ d" by (intro power_increasing) simp_all
        moreover have "(of_nat (imp_sig 23 (fmag a)) :: rat) < 2 ^ 24"
          using of_nat_less_iff [of "imp_sig 23 (fmag a)" "2 ^ 24", where ?'a = rat] sl by simp
        ultimately have "2 * of_nat (imp_sig 23 (fmag a)) < (2::rat) ^ d" by simp
        then have "2 * y < 1" unfolding y_def v by (simp add: divide_less_eq)
        then show ?thesis using False \<open>0 < y\<close> by auto
      qed
      then show "y < 1" "1 < 2 * y \<longleftrightarrow> e = 126 \<and> f \<noteq> 0" "2 * y = 1 \<longleftrightarrow> e = 126 \<and> f = 0" by blast+
    qed
    have "nat \<lfloor>y\<rfloor> = 0" using y(1,2) by (simp add: floor_eq_iff)
    then have rn: "round_nat m (fneg a) y = of_bool (round_incr m (fneg a) False True (e = 126 \<and> f \<noteq> 0) (e = 126 \<and> f = 0))"
      using y by (simp add: round_nat_def Let_def)
    have ne: "of_nat (round_nat m (fneg a) y) \<noteq> y" unfolding rn using y(1,2) by (simp add: of_bool_def)
    define w where "w = (if fneg a then 0x80000000 else 0 :: u64)"
    have one: "packToF32UI True 0x7F 0 = 0xBF800000" "packToF32UI False 0x7F 0 = 0x3F800000"
      by (simp_all add: packToF32UI_def)
    have o: "w OR 0x3F800000 = (if fneg a then 0xBF800000 else 0x3F800000)" by (simp add: w_def)
    have wz: "w = 0 \<longleftrightarrow> \<not> fneg a" by (simp add: w_def)
    have uw: "ucast w = (fpack (fneg a) 0 :: u32)" "(ucast (0x3F800000 :: u64) :: u32) = fpack False (127 * 2 ^ 23)"
      "(ucast (0xBF800000 :: u64) :: u32) = fpack True (127 * 2 ^ 23)"
      by (simp_all add: w_def fpack_def)
    have "ucast (f32_roundToInt_small (ucast a) r) = (fround F32 RTZ (fneg a) (of_nat (round_nat m (fneg a) y)) :: u32)"
      unfolding rn f32_roundToInt_small_def Let_def sign_bit w_def [symmetric] x one o wz
      using int_mode_iff [of r, folded m_def] int_mode_not [of r, folded m_def] uw
      by (cases m; cases "fneg a"; cases "e = 126"; cases "f = 0") (simp_all add: fround_one sf_modes)
    then show ?thesis using ne
      unfolding f32_roundToInt_def Let_def x(1) if_P [OF x(3)] z if_not_P [OF False] ieee_round_to_int_def
        if_not_P [OF fin(1)] if_not_P [OF fin(2)] y_def m_def by simp
  qed
qed

lemma f32_roundToInt_spec: "f32_roundToInt a r exact st = ieee_round_to_int F32 (int_mode r) exact a st"
proof -
  define e where "e = fmag a div 2 ^ 23"
  have x: "expF32UI (ucast a) = int e" by (simp add: expF32UI_ucast e_def)
  consider "e \<le> 126" | "127 \<le> e" "e < 150" | "150 \<le> e" "e < 255" | "e = 255"
    using fmag32_bounds(1) [of a] unfolding e_def [symmetric] by linarith
  then show ?thesis
  proof cases
    case 1
    then show ?thesis unfolding e_def by (rule roundToInt_small)
  next
    case 2
    then show ?thesis unfolding e_def by (rule roundToInt_middle)
  next
    case 3
    have n: "\<not> int e \<le> 0x7E" "0x96 \<le> int e" "\<not> (int e = 0xFF \<and> fracF32UI (ucast a) \<noteq> 0)" using 3 by simp_all
    show ?thesis
      unfolding roundToInt_large [OF 3 [unfolded e_def]] f32_roundToInt_def Let_def x if_not_P [OF n(1)] if_P [OF n(2)] if_not_P [OF n(3)] ..
  next
    case 4
    have n: "\<not> int e \<le> 0x7E" "0x96 \<le> int e" using 4 by simp_all
    have s: "\<not> softfloat_isSigNaNF32UI 0" by (simp add: softfloat_isSigNaNF32UI_def)
    have d: "ucast defaultNaNF32UI = (qnan F32 :: u32)" by (simp add: defaultNaNF32UI_def)
    show ?thesis
      unfolding f32_roundToInt_def Let_def x if_not_P [OF n(1)] if_P [OF n(2)] ieee_round_to_int_def
      using 4 [unfolded e_def] s d by (simp add: frac23_zero special32_iff e_def softfloat_propagateNaNF32UI_def sig_nan32)
  qed
qed

text \<open>
  C34: \<open>f32_roundToInt\<close> returns on every encoding the integer next to the operand in the given
  mode, with the sign of the operand, and raises the inexact flag exactly when asked to and the
  operand was not an integer; infinities and integers are returned unchanged, NaNs as the canonical one.
\<close>

theorem f32_roundToInt_correct:
  "f32_roundToInt a r exact st = ieee_round_to_int F32 (int_mode r) exact a st"
  by (rule f32_roundToInt_spec)

end
