(* ===== verification/Hart.thy ===== *)
theory Hart
  imports Sf_Compare Sf_From_Int Sf_Round_Int Sf_Mul_Add
begin

text \<open>
  The hart of the Spike simulator as its floating-point instructions see it: registers, the
  floating-point and status CSRs, and the access macros of the instruction bodies
  (\<open>riscv/decode.h\<close>, \<open>riscv/processor.h\<close>, \<open>riscv/csrs.cc\<close>, \<open>riscv/decode_macros.h\<close>).

  An instruction is a function of the state that returns a result or a C++ exception, and the
  state in either case: what was written before a \<open>throw\<close> stays written.  The commit log and the
  TLB, which no instruction reads, are left out.
\<close>

section \<open>Configuration and state\<close>

datatype isa_extension =
  EXT_F | EXT_S | EXT_U | EXT_H | EXT_ZFINX | EXT_ZFA | EXT_ZFHMIN | EXT_ZHINXMIN | EXT_ZFBFMIN
  | EXT_ZCA | EXT_SMSTATEEN | EXT_SMDBLTRP | EXT_SSDBLTRP | EXT_ZICFILP | EXT_ZVTBASE | EXT_SSPMP

text \<open>What does not change while the hart runs (\<open>misa\<close> is not written).\<close>

record processor =
  xlen :: nat
  rve :: bool
  extension_enabled :: "isa_extension \<Rightarrow> bool"
  has_mmu :: bool
  any_vector_extensions :: bool
  any_custom_extensions :: bool
  target_big_endian :: bool

record freg =
  fv0 :: u64
  fv1 :: u64

record state_t =
  pc :: u64
  XPR :: "u64 \<Rightarrow> u64"
  FPR :: "u64 \<Rightarrow> freg"
  prv :: u64
  virt :: bool
  serialized :: bool
  mstatus :: u64
  vsstatus :: u64
  menvcfg :: u64
  henvcfg :: u64
  mstateen0 :: u64
  hstateen0 :: u64
  sstateen0 :: u64
  fflags :: u64
  frm :: u64
  softfloat :: sf_state

text \<open>The exceptions; \<open>Abort\<close> is a call of \<open>abort\<close>.\<close>

datatype trap =
  trap_illegal_instruction u64
| trap_virtual_instruction u64
| Abort
| Unmodelled_csr u64

type_synonym 'a hart = "state_t \<Rightarrow> (trap + 'a) \<times> state_t"

definition hret :: "'a \<Rightarrow> 'a hart" where
  "hret x s = (Inr x, s)"

definition throw :: "trap \<Rightarrow> 'a hart" where
  "throw t s = (Inl t, s)"

definition hbind :: "'a hart \<Rightarrow> ('a \<Rightarrow> 'b hart) \<Rightarrow> 'b hart" where
  "hbind m f s = (case m s of (Inl t, s') \<Rightarrow> (Inl t, s') | (Inr x, s') \<Rightarrow> f x s')"

definition hget :: "(state_t \<Rightarrow> 'a) \<Rightarrow> 'a hart" where
  "hget f s = (Inr (f s), s)"

definition hput :: "(state_t \<Rightarrow> state_t) \<Rightarrow> unit hart" where
  "hput f s = (Inr (), f s)"

text \<open>The statements of a block, one after the other.\<close>

primrec steps :: "unit hart list \<Rightarrow> unit hart" where
  "steps [] = hret ()"
| "steps (m # ms) = hbind m (\<lambda>_. steps ms)"

definition hwhen :: "bool \<Rightarrow> unit hart \<Rightarrow> unit hart" where
  "hwhen c m = (if c then m else hret ())"

section \<open>Fields of an instruction\<close>

definition insn_x :: "nat \<Rightarrow> nat \<Rightarrow> u64 \<Rightarrow> u64" where
  "insn_x lo len b = drop_bit lo b AND (push_bit len 1 - 1)"

definition insn_rd :: "u64 \<Rightarrow> u64" where "insn_rd b = insn_x 7 5 b"
definition insn_rs1 :: "u64 \<Rightarrow> u64" where "insn_rs1 b = insn_x 15 5 b"
definition insn_rs2 :: "u64 \<Rightarrow> u64" where "insn_rs2 b = insn_x 20 5 b"
definition insn_rs3 :: "u64 \<Rightarrow> u64" where "insn_rs3 b = insn_x 27 5 b"
definition insn_rm :: "u64 \<Rightarrow> u64" where "insn_rm b = insn_x 12 3 b"
definition insn_csr :: "u64 \<Rightarrow> u64" where "insn_csr b = insn_x 20 12 b"

definition insn_length :: "u64 \<Rightarrow> u64" where
  "insn_length x =
     (if x AND 0x03 < 0x03 then 2 else if x AND 0x1f < 0x1f then 4 else if x AND 0x3f < 0x3f then 6 else 8)"

section \<open>Casts and register files\<close>

definition sext :: "u64 \<Rightarrow> nat \<Rightarrow> u64" where
  "sext x pos = signed_drop_bit (64 - pos) (push_bit (64 - pos) x)"

definition zext :: "u64 \<Rightarrow> nat \<Rightarrow> u64" where
  "zext x pos = drop_bit (64 - pos) (push_bit (64 - pos) x)"

definition sext32 :: "u32 \<Rightarrow> u64" where
  "sext32 x = scast x"

definition sext_xlen :: "processor \<Rightarrow> u64 \<Rightarrow> u64" where
  "sext_xlen p x = sext x (xlen p)"

definition zext_xlen :: "processor \<Rightarrow> u64 \<Rightarrow> u64" where
  "zext_xlen p x = zext x (xlen p)"

definition regfile_write :: "bool \<Rightarrow> u64 \<Rightarrow> 'a \<Rightarrow> (u64 \<Rightarrow> 'a) \<Rightarrow> u64 \<Rightarrow> 'a" where
  "regfile_write zero_reg i x data = (if \<not> zero_reg \<or> i \<noteq> 0 then data(i := x) else data)"

definition get_field :: "u64 \<Rightarrow> u64 \<Rightarrow> u64" where
  "get_field reg msk = (reg AND msk) div (msk AND NOT (push_bit 1 msk))"

definition set_field :: "u64 \<Rightarrow> u64 \<Rightarrow> u64 \<Rightarrow> u64" where
  "set_field reg msk x = (reg AND NOT msk) OR ((x * (msk AND NOT (push_bit 1 msk))) AND msk)"

section \<open>Status CSRs\<close>

definition MSTATUS_SIE :: u64 where "MSTATUS_SIE = 0x00000002"
definition MSTATUS_MIE :: u64 where "MSTATUS_MIE = 0x00000008"
definition MSTATUS_SPIE :: u64 where "MSTATUS_SPIE = 0x00000020"
definition MSTATUS_UBE :: u64 where "MSTATUS_UBE = 0x00000040"
definition MSTATUS_MPIE :: u64 where "MSTATUS_MPIE = 0x00000080"
definition MSTATUS_SPP :: u64 where "MSTATUS_SPP = 0x00000100"
definition MSTATUS_VS :: u64 where "MSTATUS_VS = 0x00000600"
definition MSTATUS_MPP :: u64 where "MSTATUS_MPP = 0x00001800"
definition MSTATUS_FS :: u64 where "MSTATUS_FS = 0x00006000"
definition MSTATUS_XS :: u64 where "MSTATUS_XS = 0x00018000"
definition MSTATUS_MPRV :: u64 where "MSTATUS_MPRV = 0x00020000"
definition MSTATUS_SUM :: u64 where "MSTATUS_SUM = 0x00040000"
definition MSTATUS_MXR :: u64 where "MSTATUS_MXR = 0x00080000"
definition MSTATUS_TVM :: u64 where "MSTATUS_TVM = 0x00100000"
definition MSTATUS_TW :: u64 where "MSTATUS_TW = 0x00200000"
definition MSTATUS_TSR :: u64 where "MSTATUS_TSR = 0x00400000"
definition MSTATUS_SPELP :: u64 where "MSTATUS_SPELP = 0x00800000"
definition MSTATUS_SDT :: u64 where "MSTATUS_SDT = 0x01000000"
definition MSTATUS_MS :: u64 where "MSTATUS_MS = 0x60000000"
definition MSTATUS_GVA :: u64 where "MSTATUS_GVA = 0x0000004000000000"
definition MSTATUS_MPV :: u64 where "MSTATUS_MPV = 0x0000008000000000"
definition MSTATUS_MPELP :: u64 where "MSTATUS_MPELP = 0x0000020000000000"
definition MSTATUS_MDT :: u64 where "MSTATUS_MDT = 0x0000040000000000"
definition MSTATUS_UXL :: u64 where "MSTATUS_UXL = 0x0000000300000000"
definition MSTATUS_SXL :: u64 where "MSTATUS_SXL = 0x0000000C00000000"
definition MSTATUS_SBE :: u64 where "MSTATUS_SBE = 0x0000001000000000"
definition MSTATUS_MBE :: u64 where "MSTATUS_MBE = 0x0000002000000000"
definition SSTATUS_UXL :: u64 where "SSTATUS_UXL = 0x0000000300000000"
definition SSTATUS32_SD :: u64 where "SSTATUS32_SD = 0x80000000"
definition SSTATUS64_SD :: u64 where "SSTATUS64_SD = 0x8000000000000000"
definition MENVCFG_DTE :: u64 where "MENVCFG_DTE = 0x0800000000000000"
definition STATEEN0_FCSR :: u64 where "STATEEN0_FCSR = 0x00000002"
definition PRV_U :: u64 where "PRV_U = 0"
definition PRV_S :: u64 where "PRV_S = 1"
definition PRV_HS :: u64 where "PRV_HS = 2"
definition PRV_M :: u64 where "PRV_M = 3"

lemmas status_masks = MSTATUS_SIE_def MSTATUS_MIE_def MSTATUS_SPIE_def MSTATUS_UBE_def MSTATUS_MPIE_def
  MSTATUS_SPP_def MSTATUS_VS_def MSTATUS_MPP_def MSTATUS_FS_def MSTATUS_XS_def MSTATUS_MPRV_def
  MSTATUS_SUM_def MSTATUS_MXR_def MSTATUS_TVM_def MSTATUS_TW_def MSTATUS_TSR_def MSTATUS_SPELP_def
  MSTATUS_SDT_def MSTATUS_MS_def MSTATUS_GVA_def MSTATUS_MPV_def MSTATUS_MPELP_def MSTATUS_MDT_def
  MSTATUS_UXL_def MSTATUS_SXL_def MSTATUS_SBE_def MSTATUS_MBE_def SSTATUS_UXL_def SSTATUS32_SD_def SSTATUS64_SD_def MENVCFG_DTE_def

text \<open>\<open>mask_if c m\<close> is C's \<open>(c ? m : 0)\<close>.\<close>

definition mask_if :: "bool \<Rightarrow> u64 \<Rightarrow> u64" where
  "mask_if c m = (if c then m else 0)"

definition has_page :: "processor \<Rightarrow> bool" where
  "has_page p = (extension_enabled p EXT_S \<and> has_mmu p)"

definition sstatus_write_mask :: "processor \<Rightarrow> u64" where
  "sstatus_write_mask p =
     (let has_fs = (extension_enabled p EXT_S \<or> extension_enabled p EXT_F) \<and> \<not> extension_enabled p EXT_ZFINX;
          has_vs = any_vector_extensions p
      in mask_if (extension_enabled p EXT_S) (MSTATUS_SIE OR (MSTATUS_SPIE OR MSTATUS_SPP))
         OR (mask_if (has_page p \<or> extension_enabled p EXT_SSPMP) (MSTATUS_SUM OR MSTATUS_MXR)
         OR (mask_if has_fs MSTATUS_FS
         OR (mask_if (any_custom_extensions p) MSTATUS_XS
         OR (mask_if has_vs MSTATUS_VS
         OR (mask_if (extension_enabled p EXT_ZVTBASE) MSTATUS_MS
         OR (mask_if (extension_enabled p EXT_S \<and> extension_enabled p EXT_ZICFILP) MSTATUS_SPELP
         OR mask_if (extension_enabled p EXT_SSDBLTRP) MSTATUS_SDT)))))))"

definition sstatus_read_mask :: "processor \<Rightarrow> u64" where
  "sstatus_read_mask p = sstatus_write_mask p OR (MSTATUS_UBE OR (SSTATUS_UXL
     OR (if xlen p = 32 then SSTATUS32_SD else SSTATUS64_SD)))"

definition adjust_sd :: "processor \<Rightarrow> u64 \<Rightarrow> u64" where
  "adjust_sd p x =
     (let sd_bit = (if xlen p = 64 then SSTATUS64_SD else SSTATUS32_SD)
      in if x AND MSTATUS_FS = MSTATUS_FS \<or> x AND MSTATUS_VS = MSTATUS_VS \<or>
           x AND MSTATUS_MS = MSTATUS_MS \<or> x AND MSTATUS_XS = MSTATUS_XS
         then x OR sd_bit else x AND NOT sd_bit)"

definition legalize_privilege :: "processor \<Rightarrow> u64 \<Rightarrow> u64" where
  "legalize_privilege p lvl =
     (if \<not> extension_enabled p EXT_U then PRV_M
      else if lvl = PRV_HS \<or> lvl = PRV_S \<and> \<not> extension_enabled p EXT_S then PRV_U
      else lvl)"

definition sdt_if :: "u64 \<Rightarrow> u64" where
  "sdt_if dte = (if dte \<noteq> 0 then 0 else MSTATUS_SDT)"

definition mstatus_read :: "state_t \<Rightarrow> u64" where
  "mstatus_read s = mstatus s AND NOT (sdt_if (menvcfg s AND MENVCFG_DTE))"

definition mstatus_write_mask :: "processor \<Rightarrow> state_t \<Rightarrow> u64" where
  "mstatus_write_mask p s =
     (let has_mpv = extension_enabled p EXT_H; has_gva = has_mpv;
          adj_write_mask = sstatus_write_mask p AND NOT (sdt_if (menvcfg s AND MENVCFG_DTE))
      in adj_write_mask
         OR (MSTATUS_MIE OR (MSTATUS_MPIE
         OR (mask_if (extension_enabled p EXT_U) MSTATUS_MPRV
         OR (MSTATUS_MPP
         OR (mask_if (extension_enabled p EXT_U) MSTATUS_TW
         OR (mask_if (extension_enabled p EXT_S) MSTATUS_TSR
         OR (mask_if (has_page p) MSTATUS_TVM
         OR (mask_if has_gva MSTATUS_GVA
         OR (mask_if has_mpv MSTATUS_MPV
         OR (mask_if (extension_enabled p EXT_SMDBLTRP) MSTATUS_MDT
         OR mask_if (extension_enabled p EXT_ZICFILP)
              (MSTATUS_MPELP OR mask_if (extension_enabled p EXT_S) MSTATUS_SPELP))))))))))))"

definition mstatus_write :: "processor \<Rightarrow> u64 \<Rightarrow> state_t \<Rightarrow> state_t" where
  "mstatus_write p x s =
     (let msk = mstatus_write_mask p s;
          requested_mpp = legalize_privilege p (get_field x MSTATUS_MPP);
          adjusted_val = set_field x MSTATUS_MPP requested_mpp;
          new_mstatus = (mstatus s AND NOT msk) OR (adjusted_val AND msk);
          new_mstatus = (if new_mstatus AND MSTATUS_MDT \<noteq> 0 then new_mstatus AND NOT MSTATUS_MIE else new_mstatus);
          new_mstatus = (if new_mstatus AND MSTATUS_SDT \<noteq> 0 then new_mstatus AND NOT MSTATUS_SIE else new_mstatus)
      in s\<lparr>mstatus := adjust_sd p new_mstatus\<rparr>)"

text \<open>\<open>sstatus_proxy_csr_t\<close>: the supervisor's view of \<open>mstatus\<close>.\<close>

definition sstatus_proxy_read :: "processor \<Rightarrow> state_t \<Rightarrow> u64" where
  "sstatus_proxy_read p s =
     mstatus_read s AND (sstatus_read_mask p AND NOT (sdt_if (menvcfg s AND MENVCFG_DTE)))"

definition sstatus_proxy_write :: "processor \<Rightarrow> u64 \<Rightarrow> state_t \<Rightarrow> state_t" where
  "sstatus_proxy_write p x s =
     (let mDTE = menvcfg s AND MENVCFG_DTE;
          adj_write_mask = sstatus_write_mask p AND NOT (sdt_if mDTE);
          new_mstatus = (mstatus_read s AND NOT adj_write_mask) OR (x AND adj_write_mask);
          new_mstatus = (if mDTE \<noteq> 0 \<and> new_mstatus AND MSTATUS_SDT \<noteq> 0
                         then new_mstatus AND NOT MSTATUS_SIE else new_mstatus)
      in mstatus_write p new_mstatus s)"

text \<open>\<open>henvcfg_csr_t\<close> hides what \<open>menvcfg\<close> disables; of its bits only \<open>DTE\<close> is used here.\<close>

definition henvcfg_dte :: "state_t \<Rightarrow> u64" where
  "henvcfg_dte s = ((menvcfg s OR NOT MENVCFG_DTE) AND henvcfg s) AND MENVCFG_DTE"

definition vsstatus_read :: "processor \<Rightarrow> state_t \<Rightarrow> u64" where
  "vsstatus_read p s = vsstatus s AND (sstatus_read_mask p AND NOT (sdt_if (henvcfg_dte s)))"

definition vsstatus_write :: "processor \<Rightarrow> u64 \<Rightarrow> state_t \<Rightarrow> state_t" where
  "vsstatus_write p x s =
     (let hDTE = henvcfg_dte s;
          adj_write_mask = sstatus_write_mask p AND NOT (sdt_if hDTE);
          newval = (vsstatus s AND NOT adj_write_mask) OR (x AND adj_write_mask);
          newval = (if hDTE \<noteq> 0 \<and> newval AND MSTATUS_SDT \<noteq> 0 then newval AND NOT MSTATUS_SIE else newval)
      in s\<lparr>vsstatus := adjust_sd p newval\<rparr>)"

definition sstatus_enabled :: "processor \<Rightarrow> u64 \<Rightarrow> state_t \<Rightarrow> bool" where
  "sstatus_enabled p which s =
     (sstatus_proxy_read p s AND which \<noteq> 0 \<and> (\<not> virt s \<or> vsstatus_read p s AND which \<noteq> 0))"

definition sstatus_dirty :: "processor \<Rightarrow> u64 \<Rightarrow> unit hart" where
  "sstatus_dirty p dirties s =
     (if sstatus_proxy_read p s AND dirties = dirties \<and>
         (\<not> virt s \<or> vsstatus_read p s AND dirties = dirties) then (Inr (), s)
      else if \<not> sstatus_enabled p dirties s then (Inl Abort, s)
      else
        (let s = sstatus_proxy_write p (sstatus_proxy_read p s OR dirties) s;
             s = (if virt s then vsstatus_write p (vsstatus_read p s OR dirties) s else s)
         in (Inr (), s)))"

section \<open>Floating-point CSRs\<close>

definition require :: "u64 \<Rightarrow> bool \<Rightarrow> unit hart" where
  "require insn c = (if c then hret () else throw (trap_illegal_instruction insn))"

text \<open>
  The CSRs of the model.  \<open>state_t.csrmap\<close> has others; an access to one of them leaves the model
  (\<open>Unmodelled_csr\<close>).
\<close>

datatype csr = CSR_FFLAGS | CSR_FRM | CSR_FCSR

definition csr_address :: "csr \<Rightarrow> u64" where
  "csr_address c = (case c of CSR_FFLAGS \<Rightarrow> 0x1 | CSR_FRM \<Rightarrow> 0x2 | CSR_FCSR \<Rightarrow> 0x3)"

definition csrmap_find :: "u64 \<Rightarrow> csr option" where
  "csrmap_find which =
     (if which = 0x1 then Some CSR_FFLAGS else if which = 0x2 then Some CSR_FRM
      else if which = 0x3 then Some CSR_FCSR else None)"

text \<open>\<open>csr_t::verify_permissions\<close>, from the privilege and read-only fields of the address.\<close>

definition csr_verify_permissions :: "processor \<Rightarrow> u64 \<Rightarrow> u64 \<Rightarrow> bool \<Rightarrow> unit hart" where
  "csr_verify_permissions p address insn wr s =
     (let csr_priv = get_field address 0x300; csr_read_only = (get_field address 0xC00 = 3);
          priv = (if prv s = PRV_S \<and> \<not> virt s then PRV_HS else prv s)
      in if csr_priv = PRV_S \<and> \<not> extension_enabled p EXT_S \<or> csr_priv = PRV_HS \<and> \<not> extension_enabled p EXT_H
         then throw (trap_illegal_instruction insn) s
         else if wr \<and> csr_read_only then throw (trap_illegal_instruction insn) s
         else if priv < csr_priv
         then if virt s \<and> csr_priv \<le> PRV_HS then throw (trap_virtual_instruction insn) s
              else throw (trap_illegal_instruction insn) s
         else hret () s)"

definition hstateen0_read :: "state_t \<Rightarrow> u64" where
  "hstateen0_read s = hstateen0 s AND mstateen0 s"

definition sstateen0_read :: "state_t \<Rightarrow> u64" where
  "sstateen0_read s =
     (if virt s then (sstateen0 s AND mstateen0 s) AND hstateen0_read s else sstateen0 s AND mstateen0 s)"

definition float_csr_verify_permissions :: "processor \<Rightarrow> u64 \<Rightarrow> u64 \<Rightarrow> bool \<Rightarrow> unit hart" where
  "float_csr_verify_permissions p address insn wr = steps
     [csr_verify_permissions p address insn wr,
      (\<lambda>s. if \<not> (extension_enabled p EXT_F \<and> sstatus_enabled p MSTATUS_FS s \<or> extension_enabled p EXT_ZFINX)
           then throw (trap_illegal_instruction insn) s
           else if extension_enabled p EXT_SMSTATEEN \<and> extension_enabled p EXT_ZFINX
           then if prv s < PRV_M \<and> mstateen0 s AND STATEEN0_FCSR = 0 then throw (trap_illegal_instruction insn) s
                else if virt s \<and> hstateen0_read s AND STATEEN0_FCSR = 0 then throw (trap_virtual_instruction insn) s
                else if (extension_enabled p EXT_S \<and> prv s < PRV_S) \<and> sstateen0_read s AND STATEEN0_FCSR = 0
                then if virt s then throw (trap_virtual_instruction insn) s
                     else throw (trap_illegal_instruction insn) s
                else hret () s
           else hret () s)]"

definition dirty_fp_state :: "processor \<Rightarrow> unit hart" where
  "dirty_fp_state p = sstatus_dirty p MSTATUS_FS"

text \<open>\<open>float_csr_t::unlogged_write\<close> on the masked register, for each of the two.\<close>

definition fflags_write :: "processor \<Rightarrow> u64 \<Rightarrow> unit hart" where
  "fflags_write p x = steps
     [hwhen (\<not> extension_enabled p EXT_ZFINX) (dirty_fp_state p),
      hput (\<lambda>s. s\<lparr>fflags := (fflags s AND NOT 0x1f) OR (x AND 0x1f)\<rparr>)]"

definition frm_write :: "processor \<Rightarrow> u64 \<Rightarrow> unit hart" where
  "frm_write p x = steps
     [hwhen (\<not> extension_enabled p EXT_ZFINX) (dirty_fp_state p),
      hput (\<lambda>s. s\<lparr>frm := (frm s AND NOT 0x7) OR (x AND 0x7)\<rparr>)]"

definition csr_read :: "csr \<Rightarrow> state_t \<Rightarrow> u64" where
  "csr_read c s =
     (case c of CSR_FFLAGS \<Rightarrow> fflags s | CSR_FRM \<Rightarrow> frm s | CSR_FCSR \<Rightarrow> push_bit 5 (frm s) OR fflags s)"

definition csr_write :: "processor \<Rightarrow> csr \<Rightarrow> u64 \<Rightarrow> unit hart" where
  "csr_write p c x =
     (case c of CSR_FFLAGS \<Rightarrow> fflags_write p x
      | CSR_FRM \<Rightarrow> frm_write p x
      | CSR_FCSR \<Rightarrow> steps [frm_write p (drop_bit 5 x), fflags_write p x])"

text \<open>The composite asks its upper half.\<close>

definition csr_verify :: "processor \<Rightarrow> csr \<Rightarrow> u64 \<Rightarrow> bool \<Rightarrow> unit hart" where
  "csr_verify p c insn wr =
     float_csr_verify_permissions p (case c of CSR_FFLAGS \<Rightarrow> 0x1 | CSR_FRM \<Rightarrow> 0x2 | CSR_FCSR \<Rightarrow> 0x2) insn wr"

definition get_csr :: "processor \<Rightarrow> u64 \<Rightarrow> u64 \<Rightarrow> bool \<Rightarrow> u64 hart" where
  "get_csr p which insn wr =
     (case csrmap_find which of
        Some c \<Rightarrow> hbind (csr_verify p c insn wr) (\<lambda>_. hget (csr_read c))
      | None \<Rightarrow> throw (Unmodelled_csr which))"

definition put_csr :: "processor \<Rightarrow> u64 \<Rightarrow> u64 \<Rightarrow> unit hart" where
  "put_csr p which x =
     (case csrmap_find which of
        Some c \<Rightarrow> csr_write p c (zext_xlen p x)
      | None \<Rightarrow> hret ())"

section \<open>Reset\<close>

definition xlen_to_uxl :: "nat \<Rightarrow> u64" where
  "xlen_to_uxl n = (if n = 32 then 1 else 2)"

definition mstatus_initial_value :: "processor \<Rightarrow> u64" where
  "mstatus_initial_value p =
     (let big_endian_bits = mask_if (extension_enabled p EXT_U) MSTATUS_UBE
            OR (mask_if (extension_enabled p EXT_S) MSTATUS_SBE OR MSTATUS_MBE)
      in set_field 0 MSTATUS_MPP (if extension_enabled p EXT_U then PRV_U else PRV_M)
         OR (mask_if (extension_enabled p EXT_U \<and> xlen p \<noteq> 32) (set_field 0 MSTATUS_UXL (xlen_to_uxl (xlen p)))
         OR (mask_if (extension_enabled p EXT_S \<and> xlen p \<noteq> 32) (set_field 0 MSTATUS_SXL (xlen_to_uxl (xlen p)))
         OR (mask_if (target_big_endian p) big_endian_bits
         OR mask_if (extension_enabled p EXT_SMDBLTRP) MSTATUS_MDT))))"

text \<open>
  \<open>state_t::reset\<close> with the initial values of \<open>csr_init\<close>, and SoftFloat's thread-local variables as
  the program starts with them.
\<close>

definition hart_reset :: "processor \<Rightarrow> state_t" where
  "hart_reset p =
     \<lparr>pc = 0x1000, XPR = (\<lambda>_. 0), FPR = (\<lambda>_. \<lparr>fv0 = 0, fv1 = 0\<rparr>), prv = PRV_M, virt = False, serialized = False,
      mstatus = mstatus_initial_value p,
      vsstatus = (mstatus_initial_value p AND NOT MSTATUS_SDT) AND sstatus_read_mask p,
      menvcfg = 0, henvcfg = 0, mstateen0 = 0, hstateen0 = 0, sstateen0 = 0, fflags = 0, frm = 0,
      softfloat = softfloat_init\<rparr>"

end
