(* ===== verification/Hart_Insns.thy ===== *)
theory Hart_Insns
  imports Hart
begin

text \<open>
  The access macros of \<open>riscv/decode_macros.h\<close> and the bodies of the single-precision
  instructions, the conversions between binary32, binary16 and bfloat16, the moves and the CSR
  instructions (\<open>riscv/insns/*.h\<close>), statement by statement.  Square root, whose arithmetic is not
  in the library, is left out, and so are the loads and stores, which need the memory.
\<close>

section \<open>NaN boxing\<close>

definition isBoxedF64 :: "freg \<Rightarrow> bool" where
  "isBoxedF64 r = (fv1 r + 1 = 0)"

definition isBoxedF32 :: "freg \<Rightarrow> bool" where
  "isBoxedF32 r = (isBoxedF64 r \<and> (ucast (drop_bit 32 (fv0 r) + 1) :: u32) = 0)"

definition isBoxedF16 :: "freg \<Rightarrow> bool" where
  "isBoxedF16 r = (isBoxedF32 r \<and> drop_bit 16 (fv0 r) + 1 = push_bit 48 1)"

definition unboxF32 :: "freg \<Rightarrow> u32" where
  "unboxF32 r = (if isBoxedF32 r then ucast (fv0 r) else ucast defaultNaNF32UI)"

definition unboxF16 :: "freg \<Rightarrow> u16" where
  "unboxF16 r = (if isBoxedF16 r then ucast (fv0 r) else ucast defaultNaNF16UI)"

definition unboxBF16 :: "freg \<Rightarrow> u16" where
  "unboxBF16 r = (if isBoxedF16 r then ucast (fv0 r) else ucast defaultNaNBF16UI)"

definition freg32 :: "u32 \<Rightarrow> freg" where
  "freg32 f = \<lparr>fv0 = push_bit 32 (- 1) OR ucast f, fv1 = - 1\<rparr>"

definition freg16 :: "u16 \<Rightarrow> freg" where
  "freg16 f = \<lparr>fv0 = push_bit 16 (- 1) OR ucast f, fv1 = - 1\<rparr>"

definition F32_SIGN :: u32 where "F32_SIGN = push_bit 31 1"

definition fsgnj32 :: "freg \<Rightarrow> freg \<Rightarrow> bool \<Rightarrow> bool \<Rightarrow> u32" where
  "fsgnj32 a b n x =
     (unboxF32 a AND NOT F32_SIGN)
     OR (((if x then unboxF32 a else if n then F32_SIGN else 0) XOR unboxF32 b) AND F32_SIGN)"

section \<open>Register access\<close>

definition check_reg :: "processor \<Rightarrow> u64 \<Rightarrow> u64 \<Rightarrow> unit hart" where
  "check_reg p insn reg = (if rve p then require insn (reg < 16) else hret ())"

definition READ_REG :: "processor \<Rightarrow> u64 \<Rightarrow> u64 \<Rightarrow> u64 hart" where
  "READ_REG p insn reg = hbind (check_reg p insn reg) (\<lambda>_. hget (\<lambda>s. XPR s reg))"

definition RS1 :: "processor \<Rightarrow> u64 \<Rightarrow> u64 hart" where
  "RS1 p insn = READ_REG p insn (insn_rs1 insn)"

definition WRITE_REG :: "processor \<Rightarrow> u64 \<Rightarrow> u64 \<Rightarrow> u64 hart \<Rightarrow> unit hart" where
  "WRITE_REG p insn reg val =
     hbind (check_reg p insn reg) (\<lambda>_. hbind val (\<lambda>wdata.
       hput (\<lambda>s. s\<lparr>XPR := regfile_write True reg wdata (XPR s)\<rparr>)))"

definition WRITE_RD :: "processor \<Rightarrow> u64 \<Rightarrow> u64 hart \<Rightarrow> unit hart" where
  "WRITE_RD p insn val = WRITE_REG p insn (insn_rd insn) val"

definition READ_FREG_F :: "processor \<Rightarrow> u64 \<Rightarrow> u32 hart" where
  "READ_FREG_F p reg = hget (\<lambda>s.
     if extension_enabled p EXT_ZFINX then ucast (XPR s reg AND 0xffffffff) else unboxF32 (FPR s reg))"

definition READ_FREG_H :: "processor \<Rightarrow> u64 \<Rightarrow> u16 hart" where
  "READ_FREG_H p reg = hget (\<lambda>s.
     if extension_enabled p EXT_ZFINX then ucast (XPR s reg AND 0xffff) else unboxF16 (FPR s reg))"

definition READ_FREG_BF :: "processor \<Rightarrow> u64 \<Rightarrow> u16 hart" where
  "READ_FREG_BF p reg = hget (\<lambda>s.
     if extension_enabled p EXT_ZFINX then ucast (XPR s reg AND 0xffff) else unboxBF16 (FPR s reg))"

definition FRS1_F :: "processor \<Rightarrow> u64 \<Rightarrow> u32 hart" where
  "FRS1_F p insn = READ_FREG_F p (insn_rs1 insn)"

definition FRS2_F :: "processor \<Rightarrow> u64 \<Rightarrow> u32 hart" where
  "FRS2_F p insn = READ_FREG_F p (insn_rs2 insn)"

definition FRS3_F :: "processor \<Rightarrow> u64 \<Rightarrow> u32 hart" where
  "FRS3_F p insn = READ_FREG_F p (insn_rs3 insn)"

definition FRS1_H :: "processor \<Rightarrow> u64 \<Rightarrow> u16 hart" where
  "FRS1_H p insn = READ_FREG_H p (insn_rs1 insn)"

definition FRS1_BF :: "processor \<Rightarrow> u64 \<Rightarrow> u16 hart" where
  "FRS1_BF p insn = READ_FREG_BF p (insn_rs1 insn)"

definition DO_WRITE_FREG :: "processor \<Rightarrow> u64 \<Rightarrow> freg \<Rightarrow> unit hart" where
  "DO_WRITE_FREG p reg x = steps
     [hput (\<lambda>s. s\<lparr>FPR := regfile_write False reg x (FPR s)\<rparr>),
      dirty_fp_state p]"

definition WRITE_FREG :: "processor \<Rightarrow> u64 \<Rightarrow> freg hart \<Rightarrow> unit hart" where
  "WRITE_FREG p reg val = hbind val (\<lambda>wdata. DO_WRITE_FREG p reg wdata)"

definition WRITE_FRD :: "processor \<Rightarrow> u64 \<Rightarrow> freg hart \<Rightarrow> unit hart" where
  "WRITE_FRD p insn val = WRITE_FREG p (insn_rd insn) val"

definition hmap :: "('a \<Rightarrow> 'b) \<Rightarrow> 'a hart \<Rightarrow> 'b hart" where
  "hmap f m = hbind m (\<lambda>x. hret (f x))"

definition WRITE_FRD_F :: "processor \<Rightarrow> u64 \<Rightarrow> u32 hart \<Rightarrow> unit hart" where
  "WRITE_FRD_F p insn val =
     (if extension_enabled p EXT_ZFINX then WRITE_REG p insn (insn_rd insn) (hmap sext32 val)
      else WRITE_FRD p insn (hmap freg32 val))"

definition WRITE_FRD_H :: "processor \<Rightarrow> u64 \<Rightarrow> u16 hart \<Rightarrow> unit hart" where
  "WRITE_FRD_H p insn val =
     (if extension_enabled p EXT_ZFINX
      then WRITE_REG p insn (insn_rd insn) (hmap (\<lambda>f. sext_xlen p (scast f)) val)
      else WRITE_FRD p insn (hmap freg16 val))"

section \<open>Rounding mode, guards and flags\<close>

definition validate_rm :: "u64 \<Rightarrow> u64 \<Rightarrow> u64 hart" where
  "validate_rm insn mode = hbind (require insn (mode < 5)) (\<lambda>_. hret mode)"

definition RM :: "u64 \<Rightarrow> u64 hart" where
  "RM insn = (if insn_rm insn = 7 then hbind (hget frm) (validate_rm insn) else validate_rm insn (insn_rm insn))"

definition set_roundingMode :: "u64 hart \<Rightarrow> unit hart" where
  "set_roundingMode m = hbind m (\<lambda>r. hput (\<lambda>s. s\<lparr>softfloat := (softfloat s)\<lparr>softfloat_roundingMode := ucast r\<rparr>\<rparr>))"

definition require_extension :: "processor \<Rightarrow> u64 \<Rightarrow> isa_extension \<Rightarrow> unit hart" where
  "require_extension p insn e = require insn (extension_enabled p e)"

definition require_either_extension :: "processor \<Rightarrow> u64 \<Rightarrow> isa_extension \<Rightarrow> isa_extension \<Rightarrow> unit hart" where
  "require_either_extension p insn e1 e2 = require insn (extension_enabled p e1 \<or> extension_enabled p e2)"

definition require_rv64 :: "processor \<Rightarrow> u64 \<Rightarrow> unit hart" where
  "require_rv64 p insn = require insn (xlen p = 64)"

definition require_fp :: "processor \<Rightarrow> u64 \<Rightarrow> unit hart" where
  "require_fp p insn = csr_verify p CSR_FFLAGS insn False"

definition raise_fp_exceptions :: "processor \<Rightarrow> u8 \<Rightarrow> unit hart" where
  "raise_fp_exceptions p flags =
     hwhen (flags \<noteq> 0) (hbind (hget fflags) (\<lambda>old. fflags_write p (old OR ucast flags)))"

definition set_fp_exceptions :: "processor \<Rightarrow> unit hart" where
  "set_fp_exceptions p = steps
     [hbind (hget (\<lambda>s. softfloat_exceptionFlags (softfloat s))) (raise_fp_exceptions p),
      hput (\<lambda>s. s\<lparr>softfloat := (softfloat s)\<lparr>softfloat_exceptionFlags := 0\<rparr>\<rparr>)]"

text \<open>A call of a SoftFloat function on the hart's SoftFloat state.\<close>

definition sf_call :: "(sf_state \<Rightarrow> 'a \<times> sf_state) \<Rightarrow> 'a hart" where
  "sf_call f s = (let (x, st) = f (softfloat s) in (Inr x, s\<lparr>softfloat := st\<rparr>))"

definition sf_call1 :: "('a \<Rightarrow> sf_state \<Rightarrow> 'b \<times> sf_state) \<Rightarrow> 'a hart \<Rightarrow> 'b hart" where
  "sf_call1 f a = hbind a (\<lambda>x. sf_call (f x))"

definition sf_call2 :: "('a \<Rightarrow> 'b \<Rightarrow> sf_state \<Rightarrow> 'c \<times> sf_state) \<Rightarrow> 'a hart \<Rightarrow> 'b hart \<Rightarrow> 'c hart" where
  "sf_call2 f a b = hbind a (\<lambda>x. hbind b (\<lambda>y. sf_call (f x y)))"

definition sf_call3 :: "('a \<Rightarrow> 'b \<Rightarrow> 'c \<Rightarrow> sf_state \<Rightarrow> 'd \<times> sf_state) \<Rightarrow> 'a hart \<Rightarrow> 'b hart \<Rightarrow> 'c hart \<Rightarrow> 'd hart" where
  "sf_call3 f a b c = hbind a (\<lambda>x. hbind b (\<lambda>y. hbind c (\<lambda>z. sf_call (f x y z))))"

text \<open>C's \<open>||\<close> and \<open>&&\<close>, which evaluate the right operand only when it is needed.\<close>

definition or_else :: "bool hart \<Rightarrow> bool hart \<Rightarrow> bool hart" where
  "or_else a b = hbind a (\<lambda>x. if x then hret True else b)"

definition and_then :: "bool hart \<Rightarrow> bool hart \<Rightarrow> bool hart" where
  "and_then a b = hbind a (\<lambda>x. if x then b else hret False)"

definition F_sign_set :: "u32 hart \<Rightarrow> bool hart" where
  "F_sign_set a = hmap (\<lambda>x. x AND F32_SIGN \<noteq> 0) a"

definition F_isNaN :: "u32 hart \<Rightarrow> bool hart" where
  "F_isNaN a = hmap (\<lambda>x. isNaNF32UI (ucast x)) a"

text \<open>\<open>f32(FRS1_F.v ^ F32_SIGN)\<close>.\<close>

definition flip_sign :: "u32 hart \<Rightarrow> u32 hart" where
  "flip_sign a = hmap (\<lambda>x. x XOR F32_SIGN) a"

definition hif :: "bool hart \<Rightarrow> 'a hart \<Rightarrow> 'a hart \<Rightarrow> 'a hart" where
  "hif c a b = hbind c (\<lambda>x. if x then a else b)"

section \<open>Instruction bodies\<close>

definition fadd_s :: "processor \<Rightarrow> u64 \<Rightarrow> unit hart" where
  "fadd_s p insn = steps
     [require_either_extension p insn EXT_F EXT_ZFINX,
      require_fp p insn,
      set_roundingMode (RM insn),
      WRITE_FRD_F p insn (sf_call2 f32_add (FRS1_F p insn) (FRS2_F p insn)),
      set_fp_exceptions p]"

definition fsub_s :: "processor \<Rightarrow> u64 \<Rightarrow> unit hart" where
  "fsub_s p insn = steps
     [require_either_extension p insn EXT_F EXT_ZFINX,
      require_fp p insn,
      set_roundingMode (RM insn),
      WRITE_FRD_F p insn (sf_call2 f32_sub (FRS1_F p insn) (FRS2_F p insn)),
      set_fp_exceptions p]"

definition fmul_s :: "processor \<Rightarrow> u64 \<Rightarrow> unit hart" where
  "fmul_s p insn = steps
     [require_either_extension p insn EXT_F EXT_ZFINX,
      require_fp p insn,
      set_roundingMode (RM insn),
      WRITE_FRD_F p insn (sf_call2 f32_mul (FRS1_F p insn) (FRS2_F p insn)),
      set_fp_exceptions p]"

definition fdiv_s :: "processor \<Rightarrow> u64 \<Rightarrow> unit hart" where
  "fdiv_s p insn = steps
     [require_either_extension p insn EXT_F EXT_ZFINX,
      require_fp p insn,
      set_roundingMode (RM insn),
      WRITE_FRD_F p insn (sf_call2 f32_div (FRS1_F p insn) (FRS2_F p insn)),
      set_fp_exceptions p]"

definition fmadd_s :: "processor \<Rightarrow> u64 \<Rightarrow> unit hart" where
  "fmadd_s p insn = steps
     [require_either_extension p insn EXT_F EXT_ZFINX,
      require_fp p insn,
      set_roundingMode (RM insn),
      WRITE_FRD_F p insn (sf_call3 f32_mulAdd (FRS1_F p insn) (FRS2_F p insn) (FRS3_F p insn)),
      set_fp_exceptions p]"

definition fmsub_s :: "processor \<Rightarrow> u64 \<Rightarrow> unit hart" where
  "fmsub_s p insn = steps
     [require_either_extension p insn EXT_F EXT_ZFINX,
      require_fp p insn,
      set_roundingMode (RM insn),
      WRITE_FRD_F p insn (sf_call3 f32_mulAdd (FRS1_F p insn) (FRS2_F p insn) (flip_sign (FRS3_F p insn))),
      set_fp_exceptions p]"

definition fnmsub_s :: "processor \<Rightarrow> u64 \<Rightarrow> unit hart" where
  "fnmsub_s p insn = steps
     [require_either_extension p insn EXT_F EXT_ZFINX,
      require_fp p insn,
      set_roundingMode (RM insn),
      WRITE_FRD_F p insn (sf_call3 f32_mulAdd (flip_sign (FRS1_F p insn)) (FRS2_F p insn) (FRS3_F p insn)),
      set_fp_exceptions p]"

definition fnmadd_s :: "processor \<Rightarrow> u64 \<Rightarrow> unit hart" where
  "fnmadd_s p insn = steps
     [require_either_extension p insn EXT_F EXT_ZFINX,
      require_fp p insn,
      set_roundingMode (RM insn),
      WRITE_FRD_F p insn (sf_call3 f32_mulAdd (flip_sign (FRS1_F p insn)) (FRS2_F p insn) (flip_sign (FRS3_F p insn))),
      set_fp_exceptions p]"

definition fsgnj_s :: "processor \<Rightarrow> u64 \<Rightarrow> unit hart" where
  "fsgnj_s p insn = steps
     [require_either_extension p insn EXT_F EXT_ZFINX,
      require_fp p insn,
      WRITE_FRD_F p insn (hbind (FRS1_F p insn) (\<lambda>a. hbind (FRS2_F p insn) (\<lambda>b.
        hret (fsgnj32 (freg32 a) (freg32 b) False False))))]"

definition fsgnjn_s :: "processor \<Rightarrow> u64 \<Rightarrow> unit hart" where
  "fsgnjn_s p insn = steps
     [require_either_extension p insn EXT_F EXT_ZFINX,
      require_fp p insn,
      WRITE_FRD_F p insn (hbind (FRS1_F p insn) (\<lambda>a. hbind (FRS2_F p insn) (\<lambda>b.
        hret (fsgnj32 (freg32 a) (freg32 b) True False))))]"

definition fsgnjx_s :: "processor \<Rightarrow> u64 \<Rightarrow> unit hart" where
  "fsgnjx_s p insn = steps
     [require_either_extension p insn EXT_F EXT_ZFINX,
      require_fp p insn,
      WRITE_FRD_F p insn (hbind (FRS1_F p insn) (\<lambda>a. hbind (FRS2_F p insn) (\<lambda>b.
        hret (fsgnj32 (freg32 a) (freg32 b) False True))))]"

definition fmin_s :: "processor \<Rightarrow> u64 \<Rightarrow> unit hart" where
  "fmin_s p insn = steps
     [require_either_extension p insn EXT_F EXT_ZFINX,
      require_fp p insn,
      hbind (or_else (sf_call2 f32_lt_quiet (FRS1_F p insn) (FRS2_F p insn))
              (and_then (sf_call2 f32_eq (FRS1_F p insn) (FRS2_F p insn)) (F_sign_set (FRS1_F p insn))))
       (\<lambda>less.
          hif (and_then (F_isNaN (FRS1_F p insn)) (F_isNaN (FRS2_F p insn)))
            (WRITE_FRD_F p insn (hret (ucast defaultNaNF32UI)))
            (WRITE_FRD_F p insn
              (hif (or_else (hret less) (F_isNaN (FRS2_F p insn))) (FRS1_F p insn) (FRS2_F p insn)))),
      set_fp_exceptions p]"

definition fmax_s :: "processor \<Rightarrow> u64 \<Rightarrow> unit hart" where
  "fmax_s p insn = steps
     [require_either_extension p insn EXT_F EXT_ZFINX,
      require_fp p insn,
      hbind (or_else (sf_call2 f32_lt_quiet (FRS2_F p insn) (FRS1_F p insn))
              (and_then (sf_call2 f32_eq (FRS2_F p insn) (FRS1_F p insn)) (F_sign_set (FRS2_F p insn))))
       (\<lambda>greater.
          hif (and_then (F_isNaN (FRS1_F p insn)) (F_isNaN (FRS2_F p insn)))
            (WRITE_FRD_F p insn (hret (ucast defaultNaNF32UI)))
            (WRITE_FRD_F p insn
              (hif (or_else (hret greater) (F_isNaN (FRS2_F p insn))) (FRS1_F p insn) (FRS2_F p insn)))),
      set_fp_exceptions p]"

definition fminm_s :: "processor \<Rightarrow> u64 \<Rightarrow> unit hart" where
  "fminm_s p insn = steps
     [require_extension p insn EXT_F,
      require_extension p insn EXT_ZFA,
      require_fp p insn,
      hbind (or_else (sf_call2 f32_lt_quiet (FRS1_F p insn) (FRS2_F p insn))
              (and_then (sf_call2 f32_eq (FRS2_F p insn) (FRS1_F p insn)) (F_sign_set (FRS1_F p insn))))
       (\<lambda>less.
          hif (or_else (F_isNaN (FRS1_F p insn)) (F_isNaN (FRS2_F p insn)))
            (WRITE_FRD_F p insn (hret (ucast defaultNaNF32UI)))
            (WRITE_FRD_F p insn (hif (hret less) (FRS1_F p insn) (FRS2_F p insn)))),
      set_fp_exceptions p]"

definition fmaxm_s :: "processor \<Rightarrow> u64 \<Rightarrow> unit hart" where
  "fmaxm_s p insn = steps
     [require_extension p insn EXT_F,
      require_extension p insn EXT_ZFA,
      require_fp p insn,
      hbind (or_else (sf_call2 f32_lt_quiet (FRS2_F p insn) (FRS1_F p insn))
              (and_then (sf_call2 f32_eq (FRS2_F p insn) (FRS1_F p insn)) (F_sign_set (FRS2_F p insn))))
       (\<lambda>greater.
          hif (or_else (F_isNaN (FRS1_F p insn)) (F_isNaN (FRS2_F p insn)))
            (WRITE_FRD_F p insn (hret (ucast defaultNaNF32UI)))
            (WRITE_FRD_F p insn (hif (hret greater) (FRS1_F p insn) (FRS2_F p insn)))),
      set_fp_exceptions p]"

definition feq_s :: "processor \<Rightarrow> u64 \<Rightarrow> unit hart" where
  "feq_s p insn = steps
     [require_either_extension p insn EXT_F EXT_ZFINX,
      require_fp p insn,
      WRITE_RD p insn (hmap of_bool (sf_call2 f32_eq (FRS1_F p insn) (FRS2_F p insn))),
      set_fp_exceptions p]"

definition flt_s :: "processor \<Rightarrow> u64 \<Rightarrow> unit hart" where
  "flt_s p insn = steps
     [require_either_extension p insn EXT_F EXT_ZFINX,
      require_fp p insn,
      WRITE_RD p insn (hmap of_bool (sf_call2 f32_lt (FRS1_F p insn) (FRS2_F p insn))),
      set_fp_exceptions p]"

definition fle_s :: "processor \<Rightarrow> u64 \<Rightarrow> unit hart" where
  "fle_s p insn = steps
     [require_either_extension p insn EXT_F EXT_ZFINX,
      require_fp p insn,
      WRITE_RD p insn (hmap of_bool (sf_call2 f32_le (FRS1_F p insn) (FRS2_F p insn))),
      set_fp_exceptions p]"

definition fltq_s :: "processor \<Rightarrow> u64 \<Rightarrow> unit hart" where
  "fltq_s p insn = steps
     [require_extension p insn EXT_F,
      require_extension p insn EXT_ZFA,
      require_fp p insn,
      WRITE_RD p insn (hmap of_bool (sf_call2 f32_lt_quiet (FRS1_F p insn) (FRS2_F p insn))),
      set_fp_exceptions p]"

definition fleq_s :: "processor \<Rightarrow> u64 \<Rightarrow> unit hart" where
  "fleq_s p insn = steps
     [require_extension p insn EXT_F,
      require_extension p insn EXT_ZFA,
      require_fp p insn,
      WRITE_RD p insn (hmap of_bool (sf_call2 f32_le_quiet (FRS1_F p insn) (FRS2_F p insn))),
      set_fp_exceptions p]"

definition fclass_s :: "processor \<Rightarrow> u64 \<Rightarrow> unit hart" where
  "fclass_s p insn = steps
     [require_either_extension p insn EXT_F EXT_ZFINX,
      require_fp p insn,
      WRITE_RD p insn (hmap f32_classify (FRS1_F p insn))]"

definition fli_s_bits :: "u32 list" where
  "fli_s_bits =
     [0xbf800000, 0x00800000, 0x37800000, 0x38000000, 0x3b800000, 0x3c000000, 0x3d800000, 0x3e000000,
      0x3e800000, 0x3ea00000, 0x3ec00000, 0x3ee00000, 0x3f000000, 0x3f200000, 0x3f400000, 0x3f600000,
      0x3f800000, 0x3fa00000, 0x3fc00000, 0x3fe00000, 0x40000000, 0x40200000, 0x40400000, 0x40800000,
      0x41000000, 0x41800000, 0x43000000, 0x43800000, 0x47000000, 0x47800000, 0x7f800000,
      ucast defaultNaNF32UI]"

definition fli_s :: "processor \<Rightarrow> u64 \<Rightarrow> unit hart" where
  "fli_s p insn = steps
     [require_extension p insn EXT_F,
      require_extension p insn EXT_ZFA,
      require_fp p insn,
      WRITE_FRD_F p insn (hret (fli_s_bits ! unat (insn_rs1 insn)))]"

definition fround_s :: "processor \<Rightarrow> u64 \<Rightarrow> unit hart" where
  "fround_s p insn = steps
     [require_extension p insn EXT_F,
      require_extension p insn EXT_ZFA,
      require_fp p insn,
      WRITE_FRD_F p insn (sf_call2 (\<lambda>a mode. f32_roundToInt a (ucast mode) False) (FRS1_F p insn) (RM insn)),
      set_fp_exceptions p]"

definition froundnx_s :: "processor \<Rightarrow> u64 \<Rightarrow> unit hart" where
  "froundnx_s p insn = steps
     [require_extension p insn EXT_F,
      require_extension p insn EXT_ZFA,
      require_fp p insn,
      WRITE_FRD_F p insn (sf_call2 (\<lambda>a mode. f32_roundToInt a (ucast mode) True) (FRS1_F p insn) (RM insn)),
      set_fp_exceptions p]"

definition fcvt_w_s :: "processor \<Rightarrow> u64 \<Rightarrow> unit hart" where
  "fcvt_w_s p insn = steps
     [require_either_extension p insn EXT_F EXT_ZFINX,
      require_fp p insn,
      set_roundingMode (RM insn),
      WRITE_RD p insn (hmap (\<lambda>i. sext32 (word_of_int i))
        (sf_call2 (\<lambda>a mode. f32_to_i32 a (ucast mode) True) (FRS1_F p insn) (RM insn))),
      set_fp_exceptions p]"

definition fcvt_wu_s :: "processor \<Rightarrow> u64 \<Rightarrow> unit hart" where
  "fcvt_wu_s p insn = steps
     [require_either_extension p insn EXT_F EXT_ZFINX,
      require_fp p insn,
      set_roundingMode (RM insn),
      WRITE_RD p insn (hmap (\<lambda>u. sext32 (ucast u))
        (sf_call2 (\<lambda>a mode. f32_to_ui32 a (ucast mode) True) (FRS1_F p insn) (RM insn))),
      set_fp_exceptions p]"

definition fcvt_l_s :: "processor \<Rightarrow> u64 \<Rightarrow> unit hart" where
  "fcvt_l_s p insn = steps
     [require_either_extension p insn EXT_F EXT_ZFINX,
      require_rv64 p insn,
      require_fp p insn,
      set_roundingMode (RM insn),
      WRITE_RD p insn (hmap word_of_int
        (sf_call2 (\<lambda>a mode. f32_to_i64 a (ucast mode) True) (FRS1_F p insn) (RM insn))),
      set_fp_exceptions p]"

definition fcvt_lu_s :: "processor \<Rightarrow> u64 \<Rightarrow> unit hart" where
  "fcvt_lu_s p insn = steps
     [require_either_extension p insn EXT_F EXT_ZFINX,
      require_rv64 p insn,
      require_fp p insn,
      set_roundingMode (RM insn),
      WRITE_RD p insn (sf_call2 (\<lambda>a mode. f32_to_ui64 a (ucast mode) True) (FRS1_F p insn) (RM insn)),
      set_fp_exceptions p]"

definition fcvt_s_w :: "processor \<Rightarrow> u64 \<Rightarrow> unit hart" where
  "fcvt_s_w p insn = steps
     [require_either_extension p insn EXT_F EXT_ZFINX,
      require_fp p insn,
      set_roundingMode (RM insn),
      WRITE_FRD_F p insn (sf_call1 (\<lambda>x. i32_to_f32 (ucast x)) (RS1 p insn)),
      set_fp_exceptions p]"

definition fcvt_s_wu :: "processor \<Rightarrow> u64 \<Rightarrow> unit hart" where
  "fcvt_s_wu p insn = steps
     [require_either_extension p insn EXT_F EXT_ZFINX,
      require_fp p insn,
      set_roundingMode (RM insn),
      WRITE_FRD_F p insn (sf_call1 (\<lambda>x. ui32_to_f32 (ucast x)) (RS1 p insn)),
      set_fp_exceptions p]"

definition fcvt_s_l :: "processor \<Rightarrow> u64 \<Rightarrow> unit hart" where
  "fcvt_s_l p insn = steps
     [require_either_extension p insn EXT_F EXT_ZFINX,
      require_rv64 p insn,
      require_fp p insn,
      set_roundingMode (RM insn),
      WRITE_FRD_F p insn (sf_call1 i64_to_f32 (RS1 p insn)),
      set_fp_exceptions p]"

definition fcvt_s_lu :: "processor \<Rightarrow> u64 \<Rightarrow> unit hart" where
  "fcvt_s_lu p insn = steps
     [require_either_extension p insn EXT_F EXT_ZFINX,
      require_rv64 p insn,
      require_fp p insn,
      set_roundingMode (RM insn),
      WRITE_FRD_F p insn (sf_call1 ui64_to_f32 (RS1 p insn)),
      set_fp_exceptions p]"

definition fcvt_h_s :: "processor \<Rightarrow> u64 \<Rightarrow> unit hart" where
  "fcvt_h_s p insn = steps
     [require_either_extension p insn EXT_ZFHMIN EXT_ZHINXMIN,
      require_fp p insn,
      set_roundingMode (RM insn),
      WRITE_FRD_H p insn (sf_call1 f32_to_f16 (FRS1_F p insn)),
      set_fp_exceptions p]"

definition fcvt_s_h :: "processor \<Rightarrow> u64 \<Rightarrow> unit hart" where
  "fcvt_s_h p insn = steps
     [require_either_extension p insn EXT_ZFHMIN EXT_ZHINXMIN,
      require_fp p insn,
      set_roundingMode (RM insn),
      WRITE_FRD_F p insn (sf_call1 f16_to_f32 (FRS1_H p insn)),
      set_fp_exceptions p]"

definition fcvt_bf16_s :: "processor \<Rightarrow> u64 \<Rightarrow> unit hart" where
  "fcvt_bf16_s p insn = steps
     [require_extension p insn EXT_ZFBFMIN,
      require_fp p insn,
      set_roundingMode (RM insn),
      WRITE_FRD_H p insn (sf_call1 f32_to_bf16 (FRS1_F p insn)),
      set_fp_exceptions p]"

definition fcvt_s_bf16 :: "processor \<Rightarrow> u64 \<Rightarrow> unit hart" where
  "fcvt_s_bf16 p insn = steps
     [require_extension p insn EXT_ZFBFMIN,
      require_fp p insn,
      set_roundingMode (RM insn),
      WRITE_FRD_F p insn (sf_call1 bf16_to_f32 (FRS1_BF p insn)),
      set_fp_exceptions p]"

definition fmv_x_w :: "processor \<Rightarrow> u64 \<Rightarrow> unit hart" where
  "fmv_x_w p insn = steps
     [require_extension p insn EXT_F,
      require_fp p insn,
      WRITE_RD p insn (hget (\<lambda>s. sext32 (ucast (fv0 (FPR s (insn_rs1 insn))))))]"

definition fmv_w_x :: "processor \<Rightarrow> u64 \<Rightarrow> unit hart" where
  "fmv_w_x p insn = steps
     [require_extension p insn EXT_F,
      require_fp p insn,
      WRITE_FRD p insn (hmap (\<lambda>x. freg32 (ucast x)) (RS1 p insn))]"

section \<open>CSR instructions\<close>

definition PC_SERIALIZE_BEFORE :: u64 where "PC_SERIALIZE_BEFORE = 3"
definition PC_SERIALIZE_AFTER :: u64 where "PC_SERIALIZE_AFTER = 5"

definition pc_alignment_mask :: "processor \<Rightarrow> u64" where
  "pc_alignment_mask p = NOT (if extension_enabled p EXT_ZCA then 0 else 2)"

text \<open>
  \<open>validate_csr\<close> returns early when the pipeline is not serialized, and \<open>serialize\<close> sets the program
  counter and returns the other sentinel.
\<close>

definition validated :: "u64 hart \<Rightarrow> u64 hart" where
  "validated rest s =
     (if \<not> serialized s then (Inr PC_SERIALIZE_BEFORE, s) else rest (s\<lparr>serialized := False\<rparr>))"

definition serialize :: "processor \<Rightarrow> u64 \<Rightarrow> u64 hart" where
  "serialize p npc = hbind (hput (\<lambda>s. s\<lparr>pc := npc AND pc_alignment_mask p\<rparr>)) (\<lambda>_. hret PC_SERIALIZE_AFTER)"

definition csrrw :: "processor \<Rightarrow> u64 \<Rightarrow> u64 \<Rightarrow> u64 hart" where
  "csrrw p insn npc = validated
     (hbind (get_csr p (insn_csr insn) insn True) (\<lambda>old.
      hbind (steps [hbind (RS1 p insn) (put_csr p (insn_csr insn)),
                    WRITE_RD p insn (hret (sext_xlen p old))])
      (\<lambda>_. serialize p npc)))"

definition csrrs :: "processor \<Rightarrow> u64 \<Rightarrow> u64 \<Rightarrow> u64 hart" where
  "csrrs p insn npc =
     (let wr = insn_rs1 insn \<noteq> 0 in validated
     (hbind (get_csr p (insn_csr insn) insn wr) (\<lambda>old.
      hbind (steps [hwhen wr (hbind (RS1 p insn) (\<lambda>x. put_csr p (insn_csr insn) (old OR x))),
                    WRITE_RD p insn (hret (sext_xlen p old))])
      (\<lambda>_. serialize p npc))))"

definition csrrc :: "processor \<Rightarrow> u64 \<Rightarrow> u64 \<Rightarrow> u64 hart" where
  "csrrc p insn npc =
     (let wr = insn_rs1 insn \<noteq> 0 in validated
     (hbind (get_csr p (insn_csr insn) insn wr) (\<lambda>old.
      hbind (steps [hwhen wr (hbind (RS1 p insn) (\<lambda>x. put_csr p (insn_csr insn) (old AND NOT x))),
                    WRITE_RD p insn (hret (sext_xlen p old))])
      (\<lambda>_. serialize p npc))))"

definition csrrwi :: "processor \<Rightarrow> u64 \<Rightarrow> u64 \<Rightarrow> u64 hart" where
  "csrrwi p insn npc = validated
     (hbind (get_csr p (insn_csr insn) insn True) (\<lambda>old.
      hbind (steps [put_csr p (insn_csr insn) (insn_rs1 insn),
                    WRITE_RD p insn (hret (sext_xlen p old))])
      (\<lambda>_. serialize p npc)))"

definition csrrsi :: "processor \<Rightarrow> u64 \<Rightarrow> u64 \<Rightarrow> u64 hart" where
  "csrrsi p insn npc =
     (let wr = insn_rs1 insn \<noteq> 0 in validated
     (hbind (get_csr p (insn_csr insn) insn wr) (\<lambda>old.
      hbind (steps [hwhen wr (put_csr p (insn_csr insn) (old OR insn_rs1 insn)),
                    WRITE_RD p insn (hret (sext_xlen p old))])
      (\<lambda>_. serialize p npc))))"

definition csrrci :: "processor \<Rightarrow> u64 \<Rightarrow> u64 \<Rightarrow> u64 hart" where
  "csrrci p insn npc =
     (let wr = insn_rs1 insn \<noteq> 0 in validated
     (hbind (get_csr p (insn_csr insn) insn wr) (\<lambda>old.
      hbind (steps [hwhen wr (put_csr p (insn_csr insn) (old AND NOT (insn_rs1 insn))),
                    WRITE_RD p insn (hret (sext_xlen p old))])
      (\<lambda>_. serialize p npc))))"

end
