(* ===== verification/Hart_Status.thy ===== *)
theory Hart_Status
  imports Hart
begin

text \<open>
  What marking the floating-point state dirty does: through two status registers, their write
  masks and legalisations, it comes down to setting the FS field and the summary bit.
\<close>

section \<open>Well-formed status registers\<close>

definition sd_bit :: "processor \<Rightarrow> u64" where
  "sd_bit p = (if xlen p = 64 then SSTATUS64_SD else SSTATUS32_SD)"

text \<open>
  What every write of the registers establishes: a legal MPP, interrupts off while the double-trap
  bits are set, and a summary bit that agrees with the fields it summarises.
\<close>

definition mstatus_ok :: "processor \<Rightarrow> u64 \<Rightarrow> bool" where
  "mstatus_ok p m =
     (legalize_privilege p (get_field m MSTATUS_MPP) = get_field m MSTATUS_MPP \<and>
      (m AND MSTATUS_MDT = 0 \<or> m AND MSTATUS_MIE = 0) \<and>
      (m AND MSTATUS_SDT = 0 \<or> m AND MSTATUS_SIE = 0) \<and> adjust_sd p m = m)"

definition vsstatus_ok :: "processor \<Rightarrow> state_t \<Rightarrow> bool" where
  "vsstatus_ok p s =
     ((henvcfg_dte s = 0 \<or> vsstatus s AND MSTATUS_SDT = 0 \<or> vsstatus s AND MSTATUS_SIE = 0) \<and>
      adjust_sd p (vsstatus s) = vsstatus s)"

definition status_ok :: "processor \<Rightarrow> state_t \<Rightarrow> bool" where
  "status_ok p s = (mstatus_ok p (mstatus s) \<and> vsstatus_ok p s)"

section \<open>Masks\<close>

lemma mask_if_and: "mask_if c m AND n = mask_if c (m AND n)"
  by (simp add: mask_if_def)

lemma mask_if_0 [simp]: "mask_if c 0 = 0"
  by (simp add: mask_if_def)

lemmas and_or = bit.conj_disj_distrib2

lemma disjoint_masks:
  "MSTATUS_FS AND MSTATUS_MDT = 0" "MSTATUS_FS AND MSTATUS_SDT = 0" "MSTATUS_FS AND MSTATUS_MIE = 0"
  "MSTATUS_FS AND MSTATUS_SIE = 0" "MSTATUS_FS AND MSTATUS_MPP = 0" "MSTATUS_SDT AND MSTATUS_MPP = 0"
  by (simp_all add: status_masks)

definition has_fs :: "processor \<Rightarrow> bool" where
  "has_fs p = ((extension_enabled p EXT_S \<or> extension_enabled p EXT_F) \<and> \<not> extension_enabled p EXT_ZFINX)"

lemma sstatus_write_mask_FS: "sstatus_write_mask p AND MSTATUS_FS = mask_if (has_fs p) MSTATUS_FS"
  by (simp add: sstatus_write_mask_def Let_def and_or mask_if_and status_masks has_fs_def)

lemma sstatus_read_mask_FS: "sstatus_read_mask p AND MSTATUS_FS = mask_if (has_fs p) MSTATUS_FS"
  by (simp add: sstatus_read_mask_def and_or sstatus_write_mask_FS) (simp add: status_masks)

lemma mstatus_write_mask_SDT:
  "mstatus_write_mask p s AND MSTATUS_SDT =
     (sstatus_write_mask p AND NOT (sdt_if (menvcfg s AND MENVCFG_DTE))) AND MSTATUS_SDT"
  by (simp add: mstatus_write_mask_def Let_def and_or mask_if_and status_masks)

lemma and_eq_0_bit: "x AND y = 0 \<Longrightarrow> bit x n \<Longrightarrow> \<not> bit y n" for x :: "'a::len word"
  by (metis bit_0_eq bit_and_iff bot_apply bot_bool_def)

lemma and_eq_bit: "x AND y = y \<Longrightarrow> bit y n \<Longrightarrow> bit x n" for x :: "'a::len word"
  by (metis bit_and_iff)

lemma and_not_absorb: "x AND y = 0 \<Longrightarrow> x AND NOT y = x" for x :: "'a::len word"
  by (rule bit_word_eqI) (auto simp: bit_simps dest: and_eq_0_bit)

text \<open>A field that is read and written back does not change.\<close>

lemma set_get_MPP: "set_field x MSTATUS_MPP (get_field x MSTATUS_MPP) = x"
proof -
  have "(x AND 0x1800) div 0x800 = drop_bit 11 (x AND 0x1800)"
    by (simp add: drop_bit_eq_div)
  moreover have "y * 0x800 = push_bit 11 y" for y :: u64
    by (simp add: push_bit_eq_mult)
  moreover have "push_bit 11 (drop_bit 11 (x AND 0x1800)) = x AND 0x1800"
  proof (rule bit_word_eqI)
    fix n assume "n < LENGTH(64)"
    have "\<not> bit (0x1800 :: u64) n" if "n < 11"
      using that by (auto simp: less_Suc_eq numeral_eq_Suc)
    then show "bit (push_bit 11 (drop_bit 11 (x AND 0x1800))) n = bit (x AND 0x1800) n"
      by (cases "n < 11") (auto simp: bit_simps)
  qed
  ultimately have "set_field x MSTATUS_MPP (get_field x MSTATUS_MPP) = (x AND NOT 0x1800) OR (x AND 0x1800)"
    by (simp add: set_field_def get_field_def MSTATUS_MPP_def and.assoc)
  then show ?thesis by (simp add: bit.conj_disj_distrib [symmetric] or.commute)
qed

lemma get_field_cong: "x AND m = y AND m \<Longrightarrow> get_field x m = get_field y m"
  by (simp add: get_field_def)

section \<open>Setting the FS field\<close>

lemma guard_FS:
  assumes "m AND a = 0 \<or> m AND b = 0" and "MSTATUS_FS AND a = 0" and "MSTATUS_FS AND b = 0"
    and "(m OR MSTATUS_FS) AND a \<noteq> 0"
  shows "(m OR MSTATUS_FS) AND NOT b = m OR MSTATUS_FS"
  by (rule and_not_absorb) (use assms in \<open>auto simp: and_or\<close>)

lemma adjust_sd_FS: "adjust_sd p (m OR MSTATUS_FS) = m OR (MSTATUS_FS OR sd_bit p)"
proof -
  have "(m OR MSTATUS_FS) AND MSTATUS_FS = MSTATUS_FS"
    by (rule bit_word_eqI) (auto simp: bit_simps)
  then show ?thesis by (simp add: adjust_sd_def sd_bit_def or.assoc Let_def)
qed

lemma proxy_write_dirty:
  assumes "mstatus_ok p (mstatus s)" and "has_fs p"
  shows "sstatus_proxy_write p (sstatus_proxy_read p s OR MSTATUS_FS) s
         = s\<lparr>mstatus := mstatus s OR (MSTATUS_FS OR sd_bit p)\<rparr>"
proof -
  define m z W0 W where "m = mstatus s" and "z = sdt_if (menvcfg s AND MENVCFG_DTE)"
    and "W0 = sstatus_write_mask p" and "W = mstatus_write_mask p s"
  define x where "x = (m AND NOT z) OR MSTATUS_FS"
  have ok: "legalize_privilege p (get_field m MSTATUS_MPP) = get_field m MSTATUS_MPP"
    "m AND MSTATUS_MDT = 0 \<or> m AND MSTATUS_MIE = 0" "m AND MSTATUS_SDT = 0 \<or> m AND MSTATUS_SIE = 0" "adjust_sd p m = m"
    using assms(1) by (auto simp: mstatus_ok_def m_def)
  have FS: "W0 AND MSTATUS_FS = MSTATUS_FS" using assms(2) by (simp add: W0_def sstatus_write_mask_FS mask_if_def)
  have z: "z = 0 \<or> z = MSTATUS_SDT" by (simp add: z_def sdt_if_def)
  then have zFS: "MSTATUS_FS AND z = 0" and zMPP: "z AND MSTATUS_MPP = 0" by (auto simp: disjoint_masks)
  have Wz: "W AND z = 0"
    using z mstatus_write_mask_SDT [of p s] by (auto simp: W_def z_def [symmetric] and.assoc)
  have WFS: "W AND MSTATUS_FS = MSTATUS_FS"
    by (rule bit_word_eqI) (auto simp: W_def mstatus_write_mask_def Let_def W0_def [symmetric] z_def [symmetric]
        bit_simps dest: and_eq_bit [OF FS] and_eq_0_bit [OF zFS])
  have new: "(mstatus_read s AND NOT (W0 AND NOT z)) OR
      ((sstatus_proxy_read p s OR MSTATUS_FS) AND (W0 AND NOT z)) = x"
    by (rule bit_word_eqI)
      (auto simp: mstatus_read_def sstatus_proxy_read_def sstatus_read_mask_def x_def m_def z_def [symmetric]
        W0_def [symmetric] bit_simps dest: and_eq_bit [OF FS] and_eq_0_bit [OF zFS])
  have xSDT: "(if menvcfg s AND MENVCFG_DTE \<noteq> 0 \<and> x AND MSTATUS_SDT \<noteq> 0 then x AND NOT MSTATUS_SIE else x) = x"
  proof (cases "menvcfg s AND MENVCFG_DTE \<noteq> 0 \<and> x AND MSTATUS_SDT \<noteq> 0")
    case True
    then have "x = m OR MSTATUS_FS" by (simp add: x_def z_def sdt_if_def)
    with True ok(3) have "x AND MSTATUS_SIE = 0" by (auto simp: and_or disjoint_masks)
    then show ?thesis by (simp add: and_not_absorb)
  qed auto
  have "x AND MSTATUS_MPP = m AND MSTATUS_MPP"
    by (rule bit_word_eqI) (auto simp: x_def bit_simps dest: and_eq_0_bit [OF zMPP] and_eq_0_bit [OF disjoint_masks(5)])
  then have "get_field x MSTATUS_MPP = get_field m MSTATUS_MPP" by (rule get_field_cong)
  then have adj: "set_field x MSTATUS_MPP (legalize_privilege p (get_field x MSTATUS_MPP)) = x"
    using ok(1) set_get_MPP [of x] by simp
  have nm: "(m AND NOT W) OR (x AND W) = m OR MSTATUS_FS"
    by (rule bit_word_eqI) (auto simp: x_def bit_simps dest: and_eq_bit [OF WFS] and_eq_0_bit [OF Wz])
  have guards: "(m OR MSTATUS_FS) AND MSTATUS_MDT \<noteq> 0 \<Longrightarrow> (m OR MSTATUS_FS) AND NOT MSTATUS_MIE = m OR MSTATUS_FS"
    "(m OR MSTATUS_FS) AND MSTATUS_SDT \<noteq> 0 \<Longrightarrow> (m OR MSTATUS_FS) AND NOT MSTATUS_SIE = m OR MSTATUS_FS"
    using guard_FS [OF ok(2)] guard_FS [OF ok(3)] by (simp_all add: disjoint_masks)
  then show ?thesis
    unfolding sstatus_proxy_write_def Let_def z_def [symmetric] W0_def [symmetric] new xSDT
    by (simp add: mstatus_write_def Let_def W_def [symmetric] m_def [symmetric] adj nm guards adjust_sd_FS)
qed

lemma vsstatus_write_dirty:
  assumes "vsstatus_ok p s" and "has_fs p"
  shows "vsstatus_write p (vsstatus_read p s OR MSTATUS_FS) s
         = s\<lparr>vsstatus := vsstatus s OR (MSTATUS_FS OR sd_bit p)\<rparr>"
proof -
  define m z W0 where "m = vsstatus s" and "z = sdt_if (henvcfg_dte s)" and "W0 = sstatus_write_mask p"
  have ok: "henvcfg_dte s = 0 \<or> m AND MSTATUS_SDT = 0 \<or> m AND MSTATUS_SIE = 0"
    using assms(1) by (auto simp: vsstatus_ok_def m_def)
  have FS: "W0 AND MSTATUS_FS = MSTATUS_FS" using assms(2) by (simp add: W0_def sstatus_write_mask_FS mask_if_def)
  have zFS: "MSTATUS_FS AND z = 0" by (simp add: z_def sdt_if_def disjoint_masks)
  have new: "(m AND NOT (W0 AND NOT z)) OR ((vsstatus_read p s OR MSTATUS_FS) AND (W0 AND NOT z)) = m OR MSTATUS_FS"
    by (rule bit_word_eqI)
      (auto simp: vsstatus_read_def sstatus_read_mask_def m_def z_def [symmetric]
        W0_def [symmetric] bit_simps dest: and_eq_bit [OF FS] and_eq_0_bit [OF zFS])
  have SDT: "(if henvcfg_dte s \<noteq> 0 \<and> (m OR MSTATUS_FS) AND MSTATUS_SDT \<noteq> 0
              then (m OR MSTATUS_FS) AND NOT MSTATUS_SIE else m OR MSTATUS_FS) = m OR MSTATUS_FS"
    using ok guard_FS [of m MSTATUS_SDT MSTATUS_SIE] by (auto simp: disjoint_masks)
  show ?thesis
    unfolding vsstatus_write_def Let_def z_def [symmetric] W0_def [symmetric] m_def [symmetric] new SDT
    by (simp add: adjust_sd_FS m_def)
qed

text \<open>The two registers after the FS field was marked dirty.\<close>

definition dirtied :: "processor \<Rightarrow> state_t \<Rightarrow> state_t" where
  "dirtied p s =
     s\<lparr>mstatus := mstatus s OR (MSTATUS_FS OR sd_bit p),
       vsstatus := (if virt s then vsstatus s OR (MSTATUS_FS OR sd_bit p) else vsstatus s)\<rparr>"

lemma proxy_read_FS: "sstatus_proxy_read p s AND MSTATUS_FS = (if has_fs p then mstatus s AND MSTATUS_FS else 0)"
proof -
  have "NOT (sdt_if d) AND MSTATUS_FS = MSTATUS_FS" for d by (simp add: sdt_if_def status_masks)
  then show ?thesis
    by (simp add: sstatus_proxy_read_def mstatus_read_def and.assoc sstatus_read_mask_FS
        and.left_commute [of "NOT _"] mask_if_def)
qed

lemma vsstatus_read_FS: "vsstatus_read p s AND MSTATUS_FS = (if has_fs p then vsstatus s AND MSTATUS_FS else 0)"
proof -
  have "NOT (sdt_if d) AND MSTATUS_FS = MSTATUS_FS" for d by (simp add: sdt_if_def status_masks)
  then show ?thesis
    by (simp add: vsstatus_read_def and.assoc sstatus_read_mask_FS mask_if_def)
qed

lemma fs_enabled:
  "sstatus_enabled p MSTATUS_FS s =
     (has_fs p \<and> mstatus s AND MSTATUS_FS \<noteq> 0 \<and> (virt s \<longrightarrow> vsstatus s AND MSTATUS_FS \<noteq> 0))"
  by (auto simp: sstatus_enabled_def proxy_read_FS vsstatus_read_FS)

lemma dirty_absorb:
  assumes "adjust_sd p m = m" and "m AND MSTATUS_FS = MSTATUS_FS"
  shows "m OR (MSTATUS_FS OR sd_bit p) = m"
proof -
  have "m OR MSTATUS_FS = m"
    by (rule bit_word_eqI) (auto simp: bit_simps dest: and_eq_bit [OF assms(2)])
  with adjust_sd_FS [of p m] assms(1) show ?thesis by simp
qed

lemma vsstatus_mstatus [simp]:
  "vsstatus_read p (s\<lparr>mstatus := m\<rparr>) = vsstatus_read p s"
  "vsstatus_ok p (s\<lparr>mstatus := m\<rparr>) = vsstatus_ok p s"
  by (simp_all add: vsstatus_read_def vsstatus_ok_def henvcfg_dte_def)

lemma dirty_fp_state_eq:
  assumes "status_ok p s" and "sstatus_enabled p MSTATUS_FS s"
  shows "dirty_fp_state p s = (Inr (), dirtied p s)"
proof -
  have "has_fs p" using assms(2) by (simp add: fs_enabled)
  have ok: "mstatus_ok p (mstatus s)" "vsstatus_ok p s" using assms(1) by (simp_all add: status_ok_def)
  have m: "adjust_sd p (mstatus s) = mstatus s" and v: "adjust_sd p (vsstatus s) = vsstatus s"
    using ok by (auto simp: mstatus_ok_def vsstatus_ok_def)
  let ?s = "s\<lparr>mstatus := mstatus s OR (MSTATUS_FS OR sd_bit p)\<rparr>"
  have vs: "vsstatus_write p (vsstatus_read p s OR MSTATUS_FS) ?s = ?s\<lparr>vsstatus := vsstatus s OR (MSTATUS_FS OR sd_bit p)\<rparr>"
    using vsstatus_write_dirty [of p ?s] ok(2) \<open>has_fs p\<close> by simp
  show ?thesis
  proof (cases "mstatus s AND MSTATUS_FS = MSTATUS_FS \<and> (virt s \<longrightarrow> vsstatus s AND MSTATUS_FS = MSTATUS_FS)")
    case True
    then have "dirtied p s = s"
      using dirty_absorb [OF m] dirty_absorb [OF v] by (cases s) (auto simp: dirtied_def)
    with True \<open>has_fs p\<close> show ?thesis
      by (auto simp: dirty_fp_state_def sstatus_dirty_def proxy_read_FS vsstatus_read_FS)
  next
    case False
    then show ?thesis
      using assms(2) \<open>has_fs p\<close> proxy_write_dirty [OF ok(1) \<open>has_fs p\<close>] vs
      by (auto simp: dirty_fp_state_def sstatus_dirty_def proxy_read_FS vsstatus_read_FS dirtied_def Let_def)
  qed
qed

text \<open>Dirtying keeps the registers well-formed and the FS field on.\<close>

lemma mstatus_ok_dirty: "mstatus_ok p m \<Longrightarrow> mstatus_ok p (m OR (MSTATUS_FS OR sd_bit p))"
proof -
  have sd: "sd_bit p AND MSTATUS_MDT = 0" "sd_bit p AND MSTATUS_MIE = 0" "sd_bit p AND MSTATUS_SDT = 0"
    "sd_bit p AND MSTATUS_SIE = 0" "sd_bit p AND MSTATUS_MPP = 0"
    by (simp_all add: sd_bit_def status_masks)
  have "get_field (m OR (MSTATUS_FS OR sd_bit p)) MSTATUS_MPP = get_field m MSTATUS_MPP"
    by (rule get_field_cong) (simp add: and_or sd disjoint_masks)
  moreover have "adjust_sd p (m OR (MSTATUS_FS OR sd_bit p)) = m OR (MSTATUS_FS OR sd_bit p)"
    using adjust_sd_FS [of p "m OR (MSTATUS_FS OR sd_bit p)"] by (simp add: ac_simps)
  ultimately show "mstatus_ok p m \<Longrightarrow> mstatus_ok p (m OR (MSTATUS_FS OR sd_bit p))"
    by (simp add: mstatus_ok_def and_or sd disjoint_masks)
qed

lemma dirtied_sel [simp]:
  "pc (dirtied p s) = pc s" "XPR (dirtied p s) = XPR s" "FPR (dirtied p s) = FPR s"
  "prv (dirtied p s) = prv s" "virt (dirtied p s) = virt s" "serialized (dirtied p s) = serialized s"
  "menvcfg (dirtied p s) = menvcfg s" "henvcfg (dirtied p s) = henvcfg s"
  "mstateen0 (dirtied p s) = mstateen0 s" "hstateen0 (dirtied p s) = hstateen0 s"
  "sstateen0 (dirtied p s) = sstateen0 s" "fflags (dirtied p s) = fflags s" "frm (dirtied p s) = frm s"
  "softfloat (dirtied p s) = softfloat s"
  by (simp_all add: dirtied_def)

lemma status_ok_dirtied: "status_ok p s \<Longrightarrow> status_ok p (dirtied p s)"
proof -
  have sd: "sd_bit p AND MSTATUS_SDT = 0" "sd_bit p AND MSTATUS_SIE = 0"
    by (simp_all add: sd_bit_def status_masks)
  have "adjust_sd p (m OR (MSTATUS_FS OR sd_bit p)) = m OR (MSTATUS_FS OR sd_bit p)" for m
    using adjust_sd_FS [of p "m OR (MSTATUS_FS OR sd_bit p)"] by (simp add: ac_simps)
  then show "status_ok p s \<Longrightarrow> status_ok p (dirtied p s)"
    by (auto simp: status_ok_def vsstatus_ok_def henvcfg_dte_def dirtied_def mstatus_ok_dirty and_or sd disjoint_masks)
qed

lemma or_dirty_FS: "(m OR (MSTATUS_FS OR x)) AND MSTATUS_FS \<noteq> 0"
proof
  assume "(m OR (MSTATUS_FS OR x)) AND MSTATUS_FS = 0"
  moreover have "bit ((m OR (MSTATUS_FS OR x)) AND MSTATUS_FS) 13"
    by (simp add: bit_simps) (simp add: MSTATUS_FS_def)
  ultimately show False by simp
qed

lemma fs_enabled_dirtied: "sstatus_enabled p MSTATUS_FS s \<Longrightarrow> sstatus_enabled p MSTATUS_FS (dirtied p s)"
  by (auto simp: fs_enabled or_dirty_FS) (simp_all add: dirtied_def or_dirty_FS)

lemma dirtied_idem [simp]: "dirtied p (dirtied p s) = dirtied p s"
  by (cases s) (simp add: dirtied_def or.assoc or.left_commute)

section \<open>Every write leaves the registers well-formed\<close>

lemma legalize_idem: "legalize_privilege p (legalize_privilege p l) = legalize_privilege p l"
  by (simp add: legalize_privilege_def PRV_U_def PRV_S_def PRV_HS_def PRV_M_def)

lemma get_field_MPP: "get_field x MSTATUS_MPP = take_bit 2 (drop_bit 11 x)"
proof -
  have "(x AND 0x1800) div 0x800 = drop_bit 11 (x AND 0x1800)" by (simp add: drop_bit_eq_div)
  also have "\<dots> = drop_bit 11 x AND 3" by (simp add: drop_bit_and)
  also have "\<dots> = take_bit 2 (drop_bit 11 x)" by (simp add: take_bit_eq_mask mask_eq_exp_minus_1)
  finally show ?thesis by (simp add: get_field_def MSTATUS_MPP_def)
qed

lemma get_set_MPP:
  assumes "take_bit 2 r = r"
  shows "get_field (set_field x MSTATUS_MPP r) MSTATUS_MPP = r"
proof -
  have "set_field x MSTATUS_MPP r = (x AND NOT (push_bit 11 3)) OR (push_bit 11 r AND push_bit 11 3)"
    by (simp add: set_field_def MSTATUS_MPP_def push_bit_eq_mult)
  then have "get_field (set_field x MSTATUS_MPP r) MSTATUS_MPP
      = take_bit 2 (drop_bit 11 ((x AND NOT (push_bit 11 3)) OR (push_bit 11 r AND push_bit 11 3)))"
    by (simp only: get_field_MPP)
  also have "\<dots> = take_bit 2 r"
    by (rule bit_word_eqI) (auto simp: bit_simps less_2_cases_iff)
  finally show ?thesis using assms by simp
qed

lemma adjust_sd_idem: "adjust_sd p (adjust_sd p m) = adjust_sd p m"
  and adjust_sd_and: "sd_bit p AND k = 0 \<Longrightarrow> adjust_sd p m AND k = m AND k"
proof -
  have sd: "sd_bit p AND MSTATUS_FS = 0" "sd_bit p AND MSTATUS_VS = 0" "sd_bit p AND MSTATUS_MS = 0" "sd_bit p AND MSTATUS_XS = 0"
    by (simp_all add: sd_bit_def status_masks)
  show k: "adjust_sd p m AND k = m AND k" if "sd_bit p AND k = 0" for k
    unfolding adjust_sd_def sd_bit_def [symmetric] Let_def
    by (rule bit_word_eqI) (auto simp: bit_simps dest: and_eq_0_bit [OF that])
  show "adjust_sd p (adjust_sd p m) = adjust_sd p m"
    using k [OF sd(1)] k [OF sd(2)] k [OF sd(3)] k [OF sd(4)]
    by (simp add: adjust_sd_def sd_bit_def [symmetric] Let_def and.assoc)
qed

lemma mstatus_write_ok: "mstatus_ok p (mstatus (mstatus_write p x s))"
proof -
  define W adj nm where "W = mstatus_write_mask p s"
    and "adj = set_field x MSTATUS_MPP (legalize_privilege p (get_field x MSTATUS_MPP))"
    and "nm = (mstatus s AND NOT W) OR (adj AND W)"
  define nm1 where "nm1 = (if nm AND MSTATUS_MDT \<noteq> 0 then nm AND NOT MSTATUS_MIE else nm)"
  define nm2 where "nm2 = (if nm1 AND MSTATUS_SDT \<noteq> 0 then nm1 AND NOT MSTATUS_SIE else nm1)"
  have WM: "W AND MSTATUS_MPP = MSTATUS_MPP"
    by (rule bit_word_eqI) (auto simp: W_def mstatus_write_mask_def Let_def bit_simps)
  have clear: "(y AND NOT MSTATUS_MIE) AND MSTATUS_MPP = y AND MSTATUS_MPP" "(y AND NOT MSTATUS_SIE) AND MSTATUS_MPP = y AND MSTATUS_MPP"
    "(y AND NOT MSTATUS_SIE) AND MSTATUS_MDT = y AND MSTATUS_MDT" "(y AND NOT MSTATUS_SIE) AND MSTATUS_MIE = y AND MSTATUS_MIE"
    "(y AND NOT MSTATUS_MIE) AND MSTATUS_MIE = 0" "(y AND NOT MSTATUS_SIE) AND MSTATUS_SIE = 0"
    "(y AND NOT MSTATUS_MIE) AND MSTATUS_MDT = y AND MSTATUS_MDT" "(y AND NOT MSTATUS_SIE) AND MSTATUS_SDT = y AND MSTATUS_SDT" for y
    by (simp_all add: and.assoc) (simp_all add: status_masks)
  have sd: "sd_bit p AND MSTATUS_MDT = 0" "sd_bit p AND MSTATUS_MIE = 0" "sd_bit p AND MSTATUS_SDT = 0"
    "sd_bit p AND MSTATUS_SIE = 0" "sd_bit p AND MSTATUS_MPP = 0"
    by (simp_all add: sd_bit_def status_masks)
  have "nm AND MSTATUS_MPP = adj AND MSTATUS_MPP"
    by (rule bit_word_eqI) (auto simp: nm_def bit_simps dest: and_eq_bit [OF WM])
  then have "nm2 AND MSTATUS_MPP = adj AND MSTATUS_MPP" by (simp add: nm1_def nm2_def clear)
  then have "get_field (adjust_sd p nm2) MSTATUS_MPP = get_field adj MSTATUS_MPP"
    by (intro get_field_cong) (simp add: adjust_sd_and sd)
  also have "\<dots> = legalize_privilege p (get_field x MSTATUS_MPP)"
    unfolding adj_def by (rule get_set_MPP) (simp add: legalize_privilege_def get_field_MPP PRV_M_def PRV_U_def)
  finally have mpp: "legalize_privilege p (get_field (adjust_sd p nm2) MSTATUS_MPP) = get_field (adjust_sd p nm2) MSTATUS_MPP"
    by (simp add: legalize_idem)
  have "adjust_sd p nm2 AND MSTATUS_MDT = 0 \<or> adjust_sd p nm2 AND MSTATUS_MIE = 0"
    "adjust_sd p nm2 AND MSTATUS_SDT = 0 \<or> adjust_sd p nm2 AND MSTATUS_SIE = 0"
    by (simp_all add: adjust_sd_and sd) (simp_all add: nm1_def nm2_def clear)
  with mpp have "mstatus_ok p (adjust_sd p nm2)" by (simp add: mstatus_ok_def adjust_sd_idem)
  moreover have "mstatus (mstatus_write p x s) = adjust_sd p nm2"
    by (simp add: mstatus_write_def Let_def nm2_def nm1_def nm_def adj_def W_def)
  ultimately show ?thesis by simp
qed

lemma vsstatus_write_ok: "vsstatus_ok p (vsstatus_write p x s)"
proof -
  have clear: "(y AND NOT MSTATUS_SIE) AND MSTATUS_SIE = 0" "(y AND NOT MSTATUS_SIE) AND MSTATUS_SDT = y AND MSTATUS_SDT" for y
    by (simp_all add: and.assoc) (simp_all add: status_masks)
  have sd: "sd_bit p AND MSTATUS_SDT = 0" "sd_bit p AND MSTATUS_SIE = 0"
    by (simp_all add: sd_bit_def status_masks)
  show ?thesis
    by (simp add: vsstatus_ok_def vsstatus_write_def Let_def henvcfg_dte_def adjust_sd_idem adjust_sd_and sd clear)
qed

section \<open>Properties\<close>

text \<open>
  C23: whatever value is written to \<open>mstatus\<close>, to \<open>sstatus\<close> or to \<open>vsstatus\<close>, the register that results is
  well-formed: MPP holds a privilege level of the hart, no interrupt-enable bit is set together with
  its double-trap bit, and the SD bit is the summary of the dirty fields.
\<close>

theorem status_writes_well_formed:
  "mstatus_ok p (mstatus (mstatus_write p x s)) \<and> mstatus_ok p (mstatus (sstatus_proxy_write p x s)) \<and>
   vsstatus_ok p (vsstatus_write p x s)"
  by (simp add: mstatus_write_ok vsstatus_write_ok sstatus_proxy_write_def Let_def)

text \<open>
  C15: marking the floating-point unit dirty, by way of the read and write views of \<open>sstatus\<close> and
  \<open>vsstatus\<close> with their masks and legalization, sets exactly the FS field and the SD bit of
  \<open>mstatus\<close>, and in a virtual machine of \<open>vsstatus\<close>.
\<close>

theorem dirty_fp_state_correct:
  assumes "status_ok p s" and "sstatus_enabled p MSTATUS_FS s"
  shows "dirty_fp_state p s =
    (Inr (), s\<lparr>mstatus := mstatus s OR (MSTATUS_FS OR sd_bit p),
               vsstatus := (if virt s then vsstatus s OR (MSTATUS_FS OR sd_bit p) else vsstatus s)\<rparr>)"
  using dirty_fp_state_eq [OF assms] by (simp add: dirtied_def)

end
