(* ===== verification/Hart_Fp.thy ===== *)
theory Hart_Fp
  imports Hart_Insns Hart_Status
begin

text \<open>
  What the instruction bodies do, as equations over the whole state: the guards and the trap each
  raises, the operands, the value written, the flags accrued.  Each building block of the bodies
  has one equation; a body is evaluated by rewriting with them.
\<close>

named_theorems hart_eval

section \<open>Sequencing\<close>

lemma hbind_eval [hart_eval]:
  "hbind m f s = (case fst (m s) of Inl t \<Rightarrow> (Inl t, snd (m s)) | Inr x \<Rightarrow> f x (snd (m s)))"
  by (simp add: hbind_def split: prod.split sum.split)

lemma basic_eval [hart_eval]:
  "hret x s = (Inr x, s)" "throw t s = (Inl t, s)" "hget g s = (Inr (g s), s)" "hput h s = (Inr (), h s)"
  "hwhen c m s = (if c then m s else (Inr (), s))"
  by (simp_all add: hret_def throw_def hget_def hput_def hwhen_def)

lemma require_eval [hart_eval]:
  "require insn c s = (if c then Inr () else Inl (trap_illegal_instruction insn), s)"
  by (simp add: require_def hret_def throw_def)

section \<open>Permission to use the floating-point unit\<close>

definition fp_permitted :: "processor \<Rightarrow> state_t \<Rightarrow> bool" where
  "fp_permitted p s =
     ((extension_enabled p EXT_F \<and> sstatus_enabled p MSTATUS_FS s \<or> extension_enabled p EXT_ZFINX) \<and>
      (extension_enabled p EXT_SMSTATEEN \<and> extension_enabled p EXT_ZFINX \<longrightarrow>
        (prv s < PRV_M \<longrightarrow> mstateen0 s AND STATEEN0_FCSR \<noteq> 0) \<and>
        (virt s \<longrightarrow> hstateen0_read s AND STATEEN0_FCSR \<noteq> 0) \<and>
        (extension_enabled p EXT_S \<and> prv s < PRV_S \<longrightarrow> sstateen0_read s AND STATEEN0_FCSR \<noteq> 0)))"

text \<open>
  The exception otherwise: virtual-instruction when the machine level permits the access and a
  less privileged level, of a virtual machine, does not.
\<close>

definition fp_trap :: "processor \<Rightarrow> state_t \<Rightarrow> u64 \<Rightarrow> trap" where
  "fp_trap p s insn =
     (if (extension_enabled p EXT_F \<and> sstatus_enabled p MSTATUS_FS s \<or> extension_enabled p EXT_ZFINX) \<and>
         \<not> (prv s < PRV_M \<and> mstateen0 s AND STATEEN0_FCSR = 0) \<and> virt s
      then trap_virtual_instruction insn else trap_illegal_instruction insn)"

lemma csr_verify_eval [hart_eval]:
  "csr_verify p c insn wr s = (if fp_permitted p s then Inr () else Inl (fp_trap p s insn), s)"
proof -
  have "get_field (0x1 :: u64) 0x300 = 0" "get_field (0x2 :: u64) 0x300 = 0"
    "get_field (0x1 :: u64) 0xC00 = 0" "get_field (0x2 :: u64) 0xC00 = 0"
    by (simp_all add: get_field_def)
  moreover have "address = 0x1 \<or> address = 0x2 \<Longrightarrow> csr_verify_permissions p address insn wr s = (Inr (), s)" for address
    using calculation by (auto simp: csr_verify_permissions_def hart_eval PRV_S_def PRV_HS_def)
  ultimately have "float_csr_verify_permissions p address insn wr s
      = (if fp_permitted p s then Inr () else Inl (fp_trap p s insn), s)"
    if "address = 0x1 \<or> address = 0x2" for address
    using that by (auto simp: float_csr_verify_permissions_def hart_eval fp_permitted_def fp_trap_def)
  then show ?thesis by (simp add: csr_verify_def split: csr.split)
qed

lemma require_fp_eval [hart_eval]:
  "require_fp p insn s = (if fp_permitted p s then Inr () else Inl (fp_trap p s insn), s)"
  by (simp add: require_fp_def csr_verify_eval)

text \<open>Nothing an instruction body writes takes the permission away.\<close>

lemma sstatus_enabled_frame [simp]:
  "sstatus_enabled p w (s\<lparr>XPR := x\<rparr>) = sstatus_enabled p w s" "sstatus_enabled p w (s\<lparr>FPR := f\<rparr>) = sstatus_enabled p w s"
  "sstatus_enabled p w (s\<lparr>fflags := u\<rparr>) = sstatus_enabled p w s" "sstatus_enabled p w (s\<lparr>frm := u\<rparr>) = sstatus_enabled p w s"
  "sstatus_enabled p w (s\<lparr>softfloat := st\<rparr>) = sstatus_enabled p w s" "sstatus_enabled p w (s\<lparr>pc := u\<rparr>) = sstatus_enabled p w s"
  "sstatus_enabled p w (s\<lparr>serialized := b\<rparr>) = sstatus_enabled p w s"
  by (simp_all add: sstatus_enabled_def sstatus_proxy_read_def mstatus_read_def vsstatus_read_def henvcfg_dte_def)

lemma status_ok_frame [simp]:
  "status_ok p (s\<lparr>XPR := x\<rparr>) = status_ok p s" "status_ok p (s\<lparr>FPR := f\<rparr>) = status_ok p s"
  "status_ok p (s\<lparr>fflags := u\<rparr>) = status_ok p s" "status_ok p (s\<lparr>frm := u\<rparr>) = status_ok p s"
  "status_ok p (s\<lparr>softfloat := st\<rparr>) = status_ok p s" "status_ok p (s\<lparr>pc := u\<rparr>) = status_ok p s"
  "status_ok p (s\<lparr>serialized := b\<rparr>) = status_ok p s"
  by (simp_all add: status_ok_def vsstatus_ok_def henvcfg_dte_def)

lemma fp_permitted_frame [simp]:
  "fp_permitted p (s\<lparr>XPR := x\<rparr>) = fp_permitted p s" "fp_permitted p (s\<lparr>FPR := f\<rparr>) = fp_permitted p s"
  "fp_permitted p (s\<lparr>fflags := u\<rparr>) = fp_permitted p s" "fp_permitted p (s\<lparr>frm := u\<rparr>) = fp_permitted p s"
  "fp_permitted p (s\<lparr>softfloat := st\<rparr>) = fp_permitted p s" "fp_permitted p (s\<lparr>pc := u\<rparr>) = fp_permitted p s"
  "fp_permitted p (s\<lparr>serialized := b\<rparr>) = fp_permitted p s"
  by (simp_all add: fp_permitted_def hstateen0_read_def sstateen0_read_def)

lemma fp_permitted_dirtied: "fp_permitted p s \<Longrightarrow> fp_permitted p (dirtied p s)"
  by (auto simp: fp_permitted_def hstateen0_read_def sstateen0_read_def intro: fs_enabled_dirtied)

lemma dirtied_frame [simp]:
  "dirtied p (s\<lparr>XPR := x\<rparr>) = (dirtied p s)\<lparr>XPR := x\<rparr>" "dirtied p (s\<lparr>FPR := f\<rparr>) = (dirtied p s)\<lparr>FPR := f\<rparr>"
  "dirtied p (s\<lparr>fflags := u\<rparr>) = (dirtied p s)\<lparr>fflags := u\<rparr>" "dirtied p (s\<lparr>frm := u\<rparr>) = (dirtied p s)\<lparr>frm := u\<rparr>"
  "dirtied p (s\<lparr>softfloat := st\<rparr>) = (dirtied p s)\<lparr>softfloat := st\<rparr>" "dirtied p (s\<lparr>pc := u\<rparr>) = (dirtied p s)\<lparr>pc := u\<rparr>"
  "dirtied p (s\<lparr>serialized := b\<rparr>) = (dirtied p s)\<lparr>serialized := b\<rparr>"
  by (simp_all add: dirtied_def)

text \<open>The hypothesis under which a body runs: the state is well-formed and the unit may be used.\<close>

definition fp_ready :: "processor \<Rightarrow> state_t \<Rightarrow> bool" where
  "fp_ready p s = (status_ok p s \<and> fp_permitted p s)"

lemma fp_ready_frame [simp]:
  "fp_ready p (s\<lparr>XPR := x\<rparr>) = fp_ready p s" "fp_ready p (s\<lparr>FPR := f\<rparr>) = fp_ready p s"
  "fp_ready p (s\<lparr>fflags := u\<rparr>) = fp_ready p s" "fp_ready p (s\<lparr>frm := u\<rparr>) = fp_ready p s"
  "fp_ready p (s\<lparr>softfloat := st\<rparr>) = fp_ready p s" "fp_ready p (s\<lparr>pc := u\<rparr>) = fp_ready p s"
  "fp_ready p (s\<lparr>serialized := b\<rparr>) = fp_ready p s"
  by (simp_all add: fp_ready_def)

lemma fp_ready_dirtied: "fp_ready p s \<Longrightarrow> fp_ready p (dirtied p s)"
  by (simp add: fp_ready_def fp_permitted_dirtied status_ok_dirtied)

lemma fp_ready_permitted: "fp_ready p s \<Longrightarrow> fp_permitted p s"
  by (simp add: fp_ready_def)

lemma dirty_ready: "fp_ready p s \<Longrightarrow> \<not> extension_enabled p EXT_ZFINX \<Longrightarrow> dirty_fp_state p s = (Inr (), dirtied p s)"
  by (rule dirty_fp_state_eq) (auto simp: fp_ready_def fp_permitted_def)

text \<open>Where the registers are in the integer file, nothing is marked dirty.\<close>

definition touched :: "processor \<Rightarrow> state_t \<Rightarrow> state_t" where
  "touched p s = (if extension_enabled p EXT_ZFINX then s else dirtied p s)"

lemma touched_sel [simp]:
  "pc (touched p s) = pc s" "XPR (touched p s) = XPR s" "FPR (touched p s) = FPR s"
  "prv (touched p s) = prv s" "virt (touched p s) = virt s" "serialized (touched p s) = serialized s"
  "menvcfg (touched p s) = menvcfg s" "henvcfg (touched p s) = henvcfg s"
  "mstateen0 (touched p s) = mstateen0 s" "hstateen0 (touched p s) = hstateen0 s"
  "sstateen0 (touched p s) = sstateen0 s" "fflags (touched p s) = fflags s" "frm (touched p s) = frm s"
  "softfloat (touched p s) = softfloat s" "fp_ready p s \<Longrightarrow> fp_ready p (touched p s)"
  by (simp_all add: touched_def fp_ready_dirtied)

lemma touched_idem [simp]: "touched p (touched p s) = touched p s"
  by (simp add: touched_def)

lemma touched_frame [simp]:
  "touched p (s\<lparr>XPR := x\<rparr>) = (touched p s)\<lparr>XPR := x\<rparr>" "touched p (s\<lparr>FPR := f\<rparr>) = (touched p s)\<lparr>FPR := f\<rparr>"
  "touched p (s\<lparr>fflags := u\<rparr>) = (touched p s)\<lparr>fflags := u\<rparr>" "touched p (s\<lparr>frm := u\<rparr>) = (touched p s)\<lparr>frm := u\<rparr>"
  "touched p (s\<lparr>softfloat := st\<rparr>) = (touched p s)\<lparr>softfloat := st\<rparr>" "touched p (s\<lparr>pc := u\<rparr>) = (touched p s)\<lparr>pc := u\<rparr>"
  "touched p (s\<lparr>serialized := b\<rparr>) = (touched p s)\<lparr>serialized := b\<rparr>"
  by (simp_all add: touched_def)

section \<open>Floating-point CSRs and flags\<close>

lemma fflags_write_eval [hart_eval]:
  "fp_ready p s \<Longrightarrow> fflags_write p x s = (Inr (), (touched p s)\<lparr>fflags := (fflags s AND NOT 0x1f) OR (x AND 0x1f)\<rparr>)"
  by (simp add: fflags_write_def hart_eval touched_def dirty_ready)

lemma frm_write_eval [hart_eval]:
  "fp_ready p s \<Longrightarrow> frm_write p x s = (Inr (), (touched p s)\<lparr>frm := (frm s AND NOT 0x7) OR (x AND 0x7)\<rparr>)"
  by (simp add: frm_write_def hart_eval touched_def dirty_ready)

text \<open>\<open>accrue\<close> ORs the SoftFloat flags into \<open>fflags\<close> and clears them.\<close>

definition sf_raised :: "state_t \<Rightarrow> u8" where
  "sf_raised s = softfloat_exceptionFlags (softfloat s)"

definition accrue :: "processor \<Rightarrow> state_t \<Rightarrow> state_t" where
  "accrue p s =
     (if sf_raised s = 0 then s else touched p s)
       \<lparr>fflags := fflags s OR (ucast (sf_raised s) AND 0x1f),
        softfloat := (softfloat s)\<lparr>softfloat_exceptionFlags := 0\<rparr>\<rparr>"

lemma or_into_mask: "(x AND NOT m) OR ((x OR y) AND m) = x OR (y AND m)" for x :: "'a::len word"
  by (rule bit_word_eqI) (auto simp: bit_simps)

lemma or_into_fflags: "(x AND - 32) OR ((x OR y) AND 31) = x OR (y AND 31)" for x :: u64
  using or_into_mask [of x "0x1f" y] by simp

lemma set_fp_exceptions_eval [hart_eval]:
  "fp_ready p s \<Longrightarrow> set_fp_exceptions p s = (Inr (), accrue p s)"
  by (cases s) (simp add: set_fp_exceptions_def hart_eval raise_fp_exceptions_def accrue_def or_into_fflags sf_raised_def)

lemma accrue_sel [simp]:
  "pc (accrue p s) = pc s" "XPR (accrue p s) = XPR s" "FPR (accrue p s) = FPR s"
  "prv (accrue p s) = prv s" "virt (accrue p s) = virt s" "serialized (accrue p s) = serialized s"
  "frm (accrue p s) = frm s" "fflags (accrue p s) = fflags s OR (ucast (sf_raised s) AND 0x1f)"
  "sf_raised (accrue p s) = 0" "fp_ready p s \<Longrightarrow> fp_ready p (accrue p s)"
  by (simp_all add: accrue_def sf_raised_def)

section \<open>Operands, rounding mode and destination\<close>

definition fsrc :: "processor \<Rightarrow> state_t \<Rightarrow> u64 \<Rightarrow> u32" where
  "fsrc p s r = (if extension_enabled p EXT_ZFINX then ucast (XPR s r) else unboxF32 (FPR s r))"

definition hsrc :: "processor \<Rightarrow> state_t \<Rightarrow> u64 \<Rightarrow> u16" where
  "hsrc p s r = (if extension_enabled p EXT_ZFINX then ucast (XPR s r) else unboxF16 (FPR s r))"

definition bsrc :: "processor \<Rightarrow> state_t \<Rightarrow> u64 \<Rightarrow> u16" where
  "bsrc p s r = (if extension_enabled p EXT_ZFINX then ucast (XPR s r) else unboxBF16 (FPR s r))"

lemma ucast_and_ones:
  "(ucast (x AND 0xffffffff) :: u32) = ucast x" "(ucast (x AND 0xffff) :: u16) = ucast x" for x :: u64
proof -
  have ones: "(0xffffffff :: u64) = mask 32" "(0xffff :: u64) = mask 16" by (simp_all add: mask_eq_exp_minus_1)
  show "(ucast (x AND 0xffffffff) :: u32) = ucast x" "(ucast (x AND 0xffff) :: u16) = ucast x"
    unfolding ones by (rule bit_word_eqI, auto simp: bit_simps)+
qed

lemma read_eval [hart_eval]:
  "FRS1_F p insn s = (Inr (fsrc p s (insn_rs1 insn)), s)" "FRS2_F p insn s = (Inr (fsrc p s (insn_rs2 insn)), s)"
  "FRS3_F p insn s = (Inr (fsrc p s (insn_rs3 insn)), s)"
  "FRS1_H p insn s = (Inr (hsrc p s (insn_rs1 insn)), s)" "FRS1_BF p insn s = (Inr (bsrc p s (insn_rs1 insn)), s)"
  by (simp_all add: FRS1_F_def FRS2_F_def FRS3_F_def FRS1_H_def FRS1_BF_def READ_FREG_F_def READ_FREG_H_def READ_FREG_BF_def
      fsrc_def hsrc_def bsrc_def hget_def ucast_and_ones)

text \<open>With the E base ISA the integer registers from 16 up do not exist.\<close>

definition xreg_ok :: "processor \<Rightarrow> u64 \<Rightarrow> bool" where
  "xreg_ok p r = (rve p \<longrightarrow> r < 16)"

definition freg_ok :: "processor \<Rightarrow> u64 \<Rightarrow> bool" where
  "freg_ok p r = (extension_enabled p EXT_ZFINX \<longrightarrow> xreg_ok p r)"

lemma check_reg_eval [hart_eval]:
  "check_reg p insn r s = (if xreg_ok p r then Inr () else Inl (trap_illegal_instruction insn), s)"
  by (simp add: check_reg_def xreg_ok_def hart_eval)

lemma RS1_eval [hart_eval]:
  "RS1 p insn s = (if xreg_ok p (insn_rs1 insn) then Inr (XPR s (insn_rs1 insn)) else Inl (trap_illegal_instruction insn), s)"
  by (simp add: RS1_def READ_REG_def hart_eval)

definition rm_value :: "u64 \<Rightarrow> state_t \<Rightarrow> u64 option" where
  "rm_value insn s =
     (let m = (if insn_rm insn = 7 then frm s else insn_rm insn) in if m < 5 then Some m else None)"

lemma RM_eval [hart_eval]:
  "RM insn s = (case rm_value insn s of None \<Rightarrow> Inl (trap_illegal_instruction insn) | Some m \<Rightarrow> Inr m, s)"
  by (simp add: RM_def validate_rm_def rm_value_def hart_eval Let_def)

lemma rm_value_frame [simp]:
  "rm_value insn (s\<lparr>softfloat := st\<rparr>) = rm_value insn s"
  by (simp add: rm_value_def)

definition armed :: "u64 \<Rightarrow> state_t \<Rightarrow> sf_state" where
  "armed m s = (softfloat s)\<lparr>softfloat_roundingMode := ucast m\<rparr>"

lemma set_roundingMode_eval [hart_eval]:
  "set_roundingMode (RM insn) s =
     (case rm_value insn s of None \<Rightarrow> (Inl (trap_illegal_instruction insn), s)
      | Some m \<Rightarrow> (Inr (), s\<lparr>softfloat := armed m s\<rparr>))"
  by (simp add: set_roundingMode_def hart_eval armed_def split: option.split)

lemma sf_call_eval [hart_eval]:
  "sf_call g s = (Inr (fst (g (softfloat s))), s\<lparr>softfloat := snd (g (softfloat s))\<rparr>)"
  by (simp add: sf_call_def split: prod.split)

definition write_x :: "u64 \<Rightarrow> u64 \<Rightarrow> state_t \<Rightarrow> state_t" where
  "write_x r w s = s\<lparr>XPR := regfile_write True r w (XPR s)\<rparr>"

definition write_f :: "processor \<Rightarrow> u64 \<Rightarrow> u32 \<Rightarrow> state_t \<Rightarrow> state_t" where
  "write_f p r x s =
     (if extension_enabled p EXT_ZFINX then write_x r (sext32 x) s
      else dirtied p (s\<lparr>FPR := (FPR s)(r := freg32 x)\<rparr>))"

definition write_h :: "processor \<Rightarrow> u64 \<Rightarrow> u16 \<Rightarrow> state_t \<Rightarrow> state_t" where
  "write_h p r x s =
     (if extension_enabled p EXT_ZFINX then write_x r (sext_xlen p (scast x)) s
      else dirtied p (s\<lparr>FPR := (FPR s)(r := freg16 x)\<rparr>))"

lemma fp_ready_write [simp]:
  "fp_ready p (write_x r w s) = fp_ready p s" "fp_ready p s \<Longrightarrow> fp_ready p (write_f p r x s)"
  "fp_ready p s \<Longrightarrow> fp_ready p (write_h p r h s)"
  by (simp_all add: write_x_def write_f_def write_h_def fp_ready_dirtied del: dirtied_frame)

lemma WRITE_RD_eval [hart_eval]:
  "WRITE_RD p insn val s =
     (if xreg_ok p (insn_rd insn)
      then case fst (val s) of Inl t \<Rightarrow> (Inl t, snd (val s)) | Inr w \<Rightarrow> (Inr (), write_x (insn_rd insn) w (snd (val s)))
      else (Inl (trap_illegal_instruction insn), s))"
  by (cases "fst (val s)") (simp_all add: WRITE_RD_def WRITE_REG_def hbind_eval basic_eval check_reg_eval write_x_def)

lemma DO_WRITE_FREG_eval [hart_eval]:
  "fp_ready p s \<Longrightarrow> \<not> extension_enabled p EXT_ZFINX \<Longrightarrow>
   DO_WRITE_FREG p r x s = (Inr (), dirtied p (s\<lparr>FPR := (FPR s)(r := x)\<rparr>))"
  by (simp add: DO_WRITE_FREG_def hart_eval dirty_ready regfile_write_def)

lemma WRITE_FRD_F_eval [hart_eval]:
  "fp_ready p (snd (val s)) \<Longrightarrow> WRITE_FRD_F p insn val s =
     (if freg_ok p (insn_rd insn)
      then case fst (val s) of Inl t \<Rightarrow> (Inl t, snd (val s)) | Inr x \<Rightarrow> (Inr (), write_f p (insn_rd insn) x (snd (val s)))
      else (Inl (trap_illegal_instruction insn), s))"
  by (cases "fst (val s)") (simp_all add: WRITE_FRD_F_def WRITE_REG_def WRITE_FRD_def WRITE_FREG_def hmap_def hbind_eval
      basic_eval check_reg_eval DO_WRITE_FREG_eval freg_ok_def write_f_def write_x_def del: dirtied_frame)

lemma WRITE_FRD_H_eval [hart_eval]:
  "fp_ready p (snd (val s)) \<Longrightarrow> WRITE_FRD_H p insn val s =
     (if freg_ok p (insn_rd insn)
      then case fst (val s) of Inl t \<Rightarrow> (Inl t, snd (val s)) | Inr x \<Rightarrow> (Inr (), write_h p (insn_rd insn) x (snd (val s)))
      else (Inl (trap_illegal_instruction insn), s))"
  by (cases "fst (val s)") (simp_all add: WRITE_FRD_H_def WRITE_REG_def WRITE_FRD_def WRITE_FREG_def hmap_def hbind_eval
      basic_eval check_reg_eval DO_WRITE_FREG_eval freg_ok_def write_h_def write_x_def del: dirtied_frame)

section \<open>NaN boxing\<close>

lemma boxed_fields:
  "isBoxedF64 (freg32 a)" "isBoxedF64 (freg16 h)" "isBoxedF32 (freg32 a)" "isBoxedF32 (freg16 h)" "isBoxedF16 (freg16 h)"
  "(ucast (fv0 (freg32 a)) :: u32) = a" "(ucast (fv0 (freg16 h)) :: u16) = h"
proof -
  have d32: "drop_bit 32 (push_bit 32 (- 1) OR ucast a) = (mask 32 :: u64)" for a :: u32
    by (rule bit_word_eqI) (auto simp: bit_simps)
  have d16: "drop_bit 32 (push_bit 16 (- 1) OR ucast h) = (mask 32 :: u64)"
    "drop_bit 16 (push_bit 16 (- 1) OR ucast h) = (mask 48 :: u64)" for h :: u16
    by (rule bit_word_eqI, auto simp: bit_simps)+
  show "isBoxedF64 (freg32 a)" "isBoxedF64 (freg16 h)" "isBoxedF32 (freg32 a)" "isBoxedF32 (freg16 h)" "isBoxedF16 (freg16 h)"
    by (simp_all only: isBoxedF64_def isBoxedF32_def isBoxedF16_def freg32_def freg16_def freg.simps d32 d16)
      (simp_all add: mask_eq_exp_minus_1)
  show "(ucast (fv0 (freg32 a)) :: u32) = a" "(ucast (fv0 (freg16 h)) :: u16) = h"
    by (rule bit_word_eqI, auto simp: freg32_def freg16_def bit_simps)+
qed

lemma unbox_box [simp]:
  "unboxF32 (freg32 a) = a" "unboxF16 (freg16 h) = h" "unboxBF16 (freg16 h) = h"
  by (simp_all add: unboxF32_def unboxF16_def unboxBF16_def boxed_fields)

lemma freg_eqI: "fv0 r = fv0 r' \<Longrightarrow> fv1 r = fv1 r' \<Longrightarrow> r = r'" for r r' :: freg
  by (cases r; cases r') simp

lemma boxed32_eq:
  assumes "isBoxedF32 r"
  shows "freg32 (ucast (fv0 r)) = r"
proof (rule freg_eqI)
  from assms have upper: "(ucast (drop_bit 32 (fv0 r) + 1) :: u32) = 0" and "fv1 r = - 1"
    by (auto simp: isBoxedF32_def isBoxedF64_def eq_neg_iff_add_eq_0)
  then show "fv1 (freg32 (ucast (fv0 r))) = fv1 r" by (simp add: freg32_def)
  have mod_eqs: "take_bit LENGTH(32) (take_bit LENGTH(64) (y + 1)) = take_bit LENGTH(32) (take_bit LENGTH(64) y + 1)" for y :: int
    using mod_add_left_eq [of "y mod 2 ^ 64" "2 ^ 32" 1] mod_add_left_eq [of y "2 ^ 32" 1]
    by (simp add: take_bit_eq_mod mod_mod_cancel)
  have "(ucast (y + 1) :: u32) = ucast y + 1" for y :: u64
    by transfer (rule mod_eqs)
  with upper have "(ucast (drop_bit 32 (fv0 r)) :: u32) + 1 = 0" by simp
  then have ones: "(ucast (drop_bit 32 (fv0 r)) :: u32) = - 1" by (simp add: eq_neg_iff_add_eq_0)
  have "bit (fv0 r) n" if "32 \<le> n" "n < 64" for n
  proof -
    have "n - 32 < 32" using that by simp
    with arg_cong [OF ones, of "\<lambda>w. bit w (n - 32)"] that show ?thesis by (simp add: bit_simps)
  qed
  then show "fv0 (freg32 (ucast (fv0 r))) = fv0 r"
    by (intro bit_word_eqI) (auto simp: freg32_def bit_simps not_le)
qed

text \<open>
  Boxing a binary32 or a 16-bit value in a register of the F file and unboxing it gives it back;
  unboxing as binary32 and boxing again restores a properly boxed register and makes any other the
  canonical NaN.
\<close>

theorem nan_boxing_round_trip:
  "unboxF32 (freg32 a) = a \<and> unboxF16 (freg16 h) = h \<and> unboxBF16 (freg16 h) = h \<and>
   freg32 (unboxF32 r) = (if isBoxedF32 r then r else freg32 0x7FC00000)"
  by (simp add: unboxF32_def [of r] boxed32_eq defaultNaNF32UI_def)

end
