(* ===== verification/Hart_Spec.thy ===== *)
theory Hart_Spec
  imports Hart_Fp
begin

text \<open>
  One specification for all instruction bodies: the guards in their order, the use of the rounding
  mode, and the write of the result with the accrual of its flags.  Each body is an instance
  (the equations \<open>insn_specs\<close>); what all bodies share is proved of the specification.
\<close>

section \<open>The specification\<close>

text \<open>Whether a body ignores the rounding mode, validates it, or passes it to SoftFloat.\<close>

datatype mode_use = Ignores | Validates | Sets

definition fp_spec ::
  "bool \<Rightarrow> mode_use \<Rightarrow> bool \<Rightarrow> processor \<Rightarrow> u64 \<Rightarrow> ('a \<Rightarrow> state_t \<Rightarrow> state_t) \<Rightarrow>
   (u64 \<Rightarrow> state_t \<Rightarrow> 'a \<times> sf_state) \<Rightarrow> state_t \<Rightarrow> (trap + unit) \<times> state_t" where
  "fp_spec present use ok p insn wr val s =
     (if \<not> present then (Inl (trap_illegal_instruction insn), s)
      else if \<not> fp_permitted p s then (Inl (fp_trap p s insn), s)
      else case (if use = Ignores then Some 0 else rm_value insn s) of
        None \<Rightarrow> (Inl (trap_illegal_instruction insn), s)
      | Some m \<Rightarrow>
          let s1 = (if use = Sets then s\<lparr>softfloat := armed m s\<rparr> else s)
          in if \<not> ok then (Inl (trap_illegal_instruction insn), s1)
             else (Inr (), accrue p (wr (fst (val m s1)) (s1\<lparr>softfloat := snd (val m s1)\<rparr>))))"

text \<open>The extension conditions of the bodies.\<close>

abbreviation has_F :: "processor \<Rightarrow> bool" where
  "has_F p \<equiv> extension_enabled p EXT_F \<or> extension_enabled p EXT_ZFINX"

abbreviation has_Zfa :: "processor \<Rightarrow> bool" where
  "has_Zfa p \<equiv> extension_enabled p EXT_F \<and> extension_enabled p EXT_ZFA"

abbreviation has_Zfhmin :: "processor \<Rightarrow> bool" where
  "has_Zfhmin p \<equiv> extension_enabled p EXT_ZFHMIN \<or> extension_enabled p EXT_ZHINXMIN"

abbreviation frs1 :: "processor \<Rightarrow> u64 \<Rightarrow> state_t \<Rightarrow> u32" where
  "frs1 p insn s \<equiv> fsrc p s (insn_rs1 insn)"

abbreviation frs2 :: "processor \<Rightarrow> u64 \<Rightarrow> state_t \<Rightarrow> u32" where
  "frs2 p insn s \<equiv> fsrc p s (insn_rs2 insn)"

abbreviation frs3 :: "processor \<Rightarrow> u64 \<Rightarrow> state_t \<Rightarrow> u32" where
  "frs3 p insn s \<equiv> fsrc p s (insn_rs3 insn)"

section \<open>Arithmetic and conversions\<close>

lemmas guard_defs = fp_spec_def require_either_extension_def require_extension_def require_rv64_def

lemmas value_defs = sf_call1_def sf_call2_def sf_call3_def flip_sign_def hmap_def or_else_def and_then_def hif_def

lemma fsrc_frame [simp]:
  "fsrc p (s\<lparr>softfloat := st\<rparr>) = fsrc p s" "hsrc p (s\<lparr>softfloat := st\<rparr>) = hsrc p s" "bsrc p (s\<lparr>softfloat := st\<rparr>) = bsrc p s"
  by (simp_all add: fsrc_def hsrc_def bsrc_def fun_eq_iff)

lemma fp_readyI: "status_ok p s \<Longrightarrow> fp_permitted p s \<Longrightarrow> fp_ready p s"
  by (simp add: fp_ready_def)

lemmas body_eval = fp_readyI guard_defs value_defs hart_eval Let_def

lemmas arith_defs = fadd_s_def fsub_s_def fmul_s_def fdiv_s_def

lemma arith_specs:
  fixes insn
  assumes "status_ok p s"
  defines "spec \<equiv> \<lambda>op. fp_spec (has_F p) Sets (freg_ok p (insn_rd insn)) p insn (write_f p (insn_rd insn))
    (\<lambda>m s. op (frs1 p insn s) (frs2 p insn s) (softfloat s)) s"
  shows "fadd_s p insn s = spec f32_add" "fsub_s p insn s = spec f32_sub"
    "fmul_s p insn s = spec f32_mul" "fdiv_s p insn s = spec f32_div"
  using assms(1) unfolding spec_def
  by (cases "fp_permitted p s"; simp add: arith_defs body_eval split: option.split)+

text \<open>The fused multiply-adds: which of the product and the third operand is negated.\<close>

lemma fused_specs:
  fixes insn
  assumes "status_ok p s"
  defines "spec \<equiv> \<lambda>f g. fp_spec (has_F p) Sets (freg_ok p (insn_rd insn)) p insn (write_f p (insn_rd insn))
    (\<lambda>m s. f32_mulAdd (f (frs1 p insn s)) (frs2 p insn s) (g (frs3 p insn s)) (softfloat s)) s"
  shows "fmadd_s p insn s = spec (\<lambda>x. x) (\<lambda>x. x)" "fmsub_s p insn s = spec (\<lambda>x. x) (\<lambda>x. x XOR F32_SIGN)"
    "fnmsub_s p insn s = spec (\<lambda>x. x XOR F32_SIGN) (\<lambda>x. x)"
    "fnmadd_s p insn s = spec (\<lambda>x. x XOR F32_SIGN) (\<lambda>x. x XOR F32_SIGN)"
  using assms(1) unfolding spec_def
  by (cases "fp_permitted p s"; simp add: fmadd_s_def fmsub_s_def fnmsub_s_def fnmadd_s_def body_eval split: option.split)+

text \<open>Integers to binary32: the source is an integer register.\<close>

lemma fcvt_s_int_specs:
  fixes insn
  assumes "status_ok p s"
  defines "spec \<equiv> \<lambda>present op. fp_spec present Sets (xreg_ok p (insn_rs1 insn) \<and> freg_ok p (insn_rd insn)) p insn
    (write_f p (insn_rd insn)) (\<lambda>m s. op (XPR s (insn_rs1 insn)) (softfloat s)) s"
  shows "fcvt_s_w p insn s = spec (has_F p) (\<lambda>x. i32_to_f32 (ucast x))"
    "fcvt_s_wu p insn s = spec (has_F p) (\<lambda>x. ui32_to_f32 (ucast x))"
    "fcvt_s_l p insn s = spec (has_F p \<and> xlen p = 64) i64_to_f32"
    "fcvt_s_lu p insn s = spec (has_F p \<and> xlen p = 64) ui64_to_f32"
  using assms(1) unfolding spec_def
  by (cases "fp_permitted p s"; cases "rm_value insn s"; cases "xreg_ok p (insn_rs1 insn)";
      simp add: fcvt_s_w_def fcvt_s_wu_def fcvt_s_l_def fcvt_s_lu_def body_eval)+

text \<open>Binary32 to integers: the result goes to an integer register, sign-extended from 32 bits.\<close>

lemma fcvt_int_s_specs:
  fixes insn
  assumes "status_ok p s"
  defines "spec \<equiv> \<lambda>present val. fp_spec present Sets (xreg_ok p (insn_rd insn)) p insn (write_x (insn_rd insn)) val s"
  shows "fcvt_w_s p insn s = spec (has_F p)
      (\<lambda>m s. apfst (\<lambda>i. sext32 (word_of_int i)) (f32_to_i32 (frs1 p insn s) (ucast m) True (softfloat s)))"
    "fcvt_wu_s p insn s = spec (has_F p)
      (\<lambda>m s. apfst (\<lambda>u. sext32 (ucast u)) (f32_to_ui32 (frs1 p insn s) (ucast m) True (softfloat s)))"
    "fcvt_l_s p insn s = spec (has_F p \<and> xlen p = 64)
      (\<lambda>m s. apfst word_of_int (f32_to_i64 (frs1 p insn s) (ucast m) True (softfloat s)))"
    "fcvt_lu_s p insn s = spec (has_F p \<and> xlen p = 64)
      (\<lambda>m s. f32_to_ui64 (frs1 p insn s) (ucast m) True (softfloat s))"
  using assms(1) unfolding spec_def
  by (cases "fp_permitted p s"; cases "rm_value insn s";
      simp add: fcvt_w_s_def fcvt_wu_s_def fcvt_l_s_def fcvt_lu_s_def body_eval)+

text \<open>Between the floating-point formats, and to an integral value.\<close>

lemma fcvt_format_specs:
  fixes insn
  assumes "status_ok p s"
  defines "rd \<equiv> insn_rd insn"
  shows "fcvt_h_s p insn s = fp_spec (has_Zfhmin p) Sets (freg_ok p rd) p insn (write_h p rd)
      (\<lambda>m s. f32_to_f16 (frs1 p insn s) (softfloat s)) s"
    "fcvt_s_h p insn s = fp_spec (has_Zfhmin p) Sets (freg_ok p rd) p insn (write_f p rd)
      (\<lambda>m s. f16_to_f32 (hsrc p s (insn_rs1 insn)) (softfloat s)) s"
    "fcvt_bf16_s p insn s = fp_spec (extension_enabled p EXT_ZFBFMIN) Sets (freg_ok p rd) p insn (write_h p rd)
      (\<lambda>m s. f32_to_bf16 (frs1 p insn s) (softfloat s)) s"
    "fcvt_s_bf16 p insn s = fp_spec (extension_enabled p EXT_ZFBFMIN) Sets (freg_ok p rd) p insn (write_f p rd)
      (\<lambda>m s. bf16_to_f32 (bsrc p s (insn_rs1 insn)) (softfloat s)) s"
    "fround_s p insn s = fp_spec (has_Zfa p) Validates (freg_ok p rd) p insn (write_f p rd)
      (\<lambda>m s. f32_roundToInt (frs1 p insn s) (ucast m) False (softfloat s)) s"
    "froundnx_s p insn s = fp_spec (has_Zfa p) Validates (freg_ok p rd) p insn (write_f p rd)
      (\<lambda>m s. f32_roundToInt (frs1 p insn s) (ucast m) True (softfloat s)) s"
  using assms(1) unfolding rd_def
  by (cases "fp_permitted p s"; simp add: fcvt_h_s_def fcvt_s_h_def fcvt_bf16_s_def fcvt_s_bf16_def fround_s_def
      froundnx_s_def body_eval split: option.split)+

section \<open>Comparison, minimum and maximum\<close>

lemma compare_insn_specs:
  fixes insn
  assumes "status_ok p s"
  defines "spec \<equiv> \<lambda>present op. fp_spec present Ignores (xreg_ok p (insn_rd insn)) p insn (write_x (insn_rd insn))
    (\<lambda>m s. apfst of_bool (op (frs1 p insn s) (frs2 p insn s) (softfloat s))) s"
  shows "feq_s p insn s = spec (has_F p) f32_eq" "flt_s p insn s = spec (has_F p) f32_lt"
    "fle_s p insn s = spec (has_F p) f32_le" "fltq_s p insn s = spec (has_Zfa p) f32_lt_quiet"
    "fleq_s p insn s = spec (has_Zfa p) f32_le_quiet"
  using assms(1) unfolding spec_def
  by (cases "fp_permitted p s"; simp add: feq_s_def flt_s_def fle_s_def fltq_s_def fleq_s_def body_eval)+

text \<open>
  The minimum and maximum of \<open>fmin_s.h\<close> and \<open>fmax_s.h\<close> ignore one NaN operand, those of Zfa return the
  canonical NaN; both order -0 below +0.
\<close>

definition ieee_minimum :: "fmt \<Rightarrow> 'a::len word \<Rightarrow> 'a word \<Rightarrow> 'a word" where
  "ieee_minimum F a b = (if fnan F a \<or> fnan F b then qnan F else if tkey a < tkey b then a else b)"

definition ieee_maximum :: "fmt \<Rightarrow> 'a::len word \<Rightarrow> 'a word \<Rightarrow> 'a word" where
  "ieee_maximum F a b = (if fnan F a \<or> fnan F b then qnan F else if tkey a < tkey b then b else a)"

lemma sign_bit_F32: "(x AND F32_SIGN \<noteq> 0) = fneg x"
proof -
  have "(x AND F32_SIGN \<noteq> 0) = bit x 31"
    by (simp add: F32_SIGN_def push_bit_eq_mult and_exp_eq_0_iff_not_bit [of x 31, simplified])
  then show ?thesis by (simp add: fneg_top_bit)
qed

lemma same_key: "fkey a = fkey b \<Longrightarrow> fneg a = fneg b \<Longrightarrow> a = b"
  by (simp add: eq_same_sign fkey_def split: if_splits)

text \<open>The test of the bodies, with its short-circuit evaluation, and the choices they make with it.\<close>

lemma ieee_eq_commute: "ieee_eq F a b = ieee_eq F b a"
  by (auto simp: ieee_eq_def)

lemma order_test:
  "or_else (sf_call2 f32_lt_quiet (FRS1_F p insn) (FRS2_F p insn))
      (and_then (sf_call2 f32_eq (FRS1_F p insn) (FRS2_F p insn)) (F_sign_set (FRS1_F p insn))) s
    = (Inr (ieee_less F32 (frs1 p insn s) (frs2 p insn s) \<or>
         ieee_eq F32 (frs1 p insn s) (frs2 p insn s) \<and> fneg (frs1 p insn s)),
       s\<lparr>softfloat := quiet_flags F32 (frs1 p insn s) (frs2 p insn s) (softfloat s)\<rparr>)"
    "or_else (sf_call2 f32_lt_quiet (FRS1_F p insn) (FRS2_F p insn))
      (and_then (sf_call2 f32_eq (FRS2_F p insn) (FRS1_F p insn)) (F_sign_set (FRS1_F p insn))) s
    = (Inr (ieee_less F32 (frs1 p insn s) (frs2 p insn s) \<or>
         ieee_eq F32 (frs1 p insn s) (frs2 p insn s) \<and> fneg (frs1 p insn s)),
       s\<lparr>softfloat := quiet_flags F32 (frs1 p insn s) (frs2 p insn s) (softfloat s)\<rparr>)"
    "or_else (sf_call2 f32_lt_quiet (FRS2_F p insn) (FRS1_F p insn))
      (and_then (sf_call2 f32_eq (FRS2_F p insn) (FRS1_F p insn)) (F_sign_set (FRS2_F p insn))) s
    = (Inr (ieee_less F32 (frs2 p insn s) (frs1 p insn s) \<or>
         ieee_eq F32 (frs2 p insn s) (frs1 p insn s) \<and> fneg (frs2 p insn s)),
       s\<lparr>softfloat := quiet_flags F32 (frs1 p insn s) (frs2 p insn s) (softfloat s)\<rparr>)"
  by (simp_all add: value_defs F_sign_set_def hart_eval f32_lt_quiet_spec f32_eq_spec sign_bit_F32 quiet_flags_twice
      quiet_flags_commute [of F32 "frs2 p insn s" "frs1 p insn s"] ieee_eq_commute [of F32 "frs2 p insn s" "frs1 p insn s"])

lemma nan_tests:
  "and_then (F_isNaN (FRS1_F p insn)) (F_isNaN (FRS2_F p insn)) s = (Inr (fnan F32 (frs1 p insn s) \<and> fnan F32 (frs2 p insn s)), s)"
  "or_else (F_isNaN (FRS1_F p insn)) (F_isNaN (FRS2_F p insn)) s = (Inr (fnan F32 (frs1 p insn s) \<or> fnan F32 (frs2 p insn s)), s)"
  "or_else (hret l) (F_isNaN (FRS2_F p insn)) s = (Inr (l \<or> fnan F32 (frs2 p insn s)), s)"
  by (simp_all add: value_defs F_isNaN_def hart_eval f32m.nan_eq)

definition pick_number :: "bool \<Rightarrow> 'a::len word \<Rightarrow> 'a word \<Rightarrow> fmt \<Rightarrow> 'a word" where
  "pick_number first a b F = (if fnan F a \<and> fnan F b then qnan F else if first \<or> fnan F b then a else b)"

definition pick_propagate :: "bool \<Rightarrow> 'a::len word \<Rightarrow> 'a word \<Rightarrow> fmt \<Rightarrow> 'a word" where
  "pick_propagate first a b F = (if fnan F a \<or> fnan F b then qnan F else if first then a else b)"

lemma order_choice:
  "pick_number (ieee_less F a b \<or> ieee_eq F a b \<and> fneg a) a b F = ieee_min F a b"
  "pick_number (ieee_less F b a \<or> ieee_eq F b a \<and> fneg b) a b F = ieee_max F a b"
  "pick_propagate (ieee_less F a b \<or> ieee_eq F a b \<and> fneg a) a b F = ieee_minimum F a b"
  "pick_propagate (ieee_less F b a \<or> ieee_eq F b a \<and> fneg b) a b F = ieee_maximum F a b"
  using same_key [of a b]
  by (auto simp: pick_number_def pick_propagate_def ieee_min_def ieee_max_def ieee_minimum_def ieee_maximum_def
      tkey_less ieee_less_def ieee_eq_def)

lemma minmax_write:
  assumes "fp_ready p s"
  shows "hif (and_then (F_isNaN (FRS1_F p insn)) (F_isNaN (FRS2_F p insn)))
      (WRITE_FRD_F p insn (hret (ucast defaultNaNF32UI)))
      (WRITE_FRD_F p insn (hif (or_else (hret l) (F_isNaN (FRS2_F p insn))) (FRS1_F p insn) (FRS2_F p insn))) s
    = (if freg_ok p (insn_rd insn) then (Inr (), write_f p (insn_rd insn)
          (pick_number l (frs1 p insn s) (frs2 p insn s) F32) s)
       else (Inl (trap_illegal_instruction insn), s))"
    "hif (or_else (F_isNaN (FRS1_F p insn)) (F_isNaN (FRS2_F p insn)))
      (WRITE_FRD_F p insn (hret (ucast defaultNaNF32UI)))
      (WRITE_FRD_F p insn (hif (hret l) (FRS1_F p insn) (FRS2_F p insn))) s
    = (if freg_ok p (insn_rd insn) then (Inr (), write_f p (insn_rd insn)
          (pick_propagate l (frs1 p insn s) (frs2 p insn s) F32) s)
       else (Inl (trap_illegal_instruction insn), s))"
  using assms by (simp_all add: hif_def nan_tests hart_eval f32m.defNaN pick_number_def pick_propagate_def)

text \<open>
  The destination of these four is checked only after SoftFloat was called, so the equations need
  it to exist: a trap would leave the flags of the comparison behind.
\<close>

lemma minmax_insn_specs:
  fixes insn
  assumes "status_ok p s" and "freg_ok p (insn_rd insn)"
  defines "spec \<equiv> \<lambda>present op. fp_spec present Ignores (freg_ok p (insn_rd insn)) p insn (write_f p (insn_rd insn))
    (\<lambda>m s. (op F32 (frs1 p insn s) (frs2 p insn s), quiet_flags F32 (frs1 p insn s) (frs2 p insn s) (softfloat s))) s"
  shows "fmin_s p insn s = spec (has_F p) ieee_min" "fmax_s p insn s = spec (has_F p) ieee_max"
    "fminm_s p insn s = spec (has_Zfa p) ieee_minimum" "fmaxm_s p insn s = spec (has_Zfa p) ieee_maximum"
  using assms(1,2) unfolding spec_def fmin_s_def fmax_s_def fminm_s_def fmaxm_s_def
  by (cases "fp_permitted p s"; cases "extension_enabled p EXT_F"; cases "extension_enabled p EXT_ZFINX";
      cases "extension_enabled p EXT_ZFA";
      simp add: order_test minmax_write order_choice guard_defs fp_readyI hart_eval Let_def)+

section \<open>Bodies that raise no flags\<close>

lemma accrue_none: "sf_raised s = 0 \<Longrightarrow> accrue p s = s"
  by (cases s) (simp add: accrue_def sf_raised_def)

lemma sf_raised_write [simp]:
  "sf_raised (write_f p r x s) = sf_raised s" "sf_raised (write_h p r h s) = sf_raised s" "sf_raised (write_x r w s) = sf_raised s"
  by (simp_all add: sf_raised_def write_f_def write_h_def write_x_def)

text \<open>\<open>fsgnj\<close> in terms of the magnitude of one operand and a sign.\<close>

definition with_sign :: "bool \<Rightarrow> u32 \<Rightarrow> u32" where
  "with_sign neg x = (if neg then set_bit 31 x else unset_bit 31 x)"

lemma F32_SIGN_bit: "bit F32_SIGN n \<longleftrightarrow> n = 31"
  unfolding F32_SIGN_def bit_push_bit_iff bit_1_iff by auto

lemma fsgnj32_sign:
  "fsgnj32 (freg32 a) (freg32 b) n x = with_sign (if x then fneg a \<noteq> fneg b else if n then \<not> fneg b else fneg b) a"
  by (rule bit_word_eqI) (auto simp: fsgnj32_def with_sign_def fneg_top_bit F32_SIGN_bit bit_simps)

lemma plain_insn_specs:
  fixes insn
  assumes "status_ok p s" and "sf_raised s = 0"
  defines "spec \<equiv> \<lambda>present val. fp_spec present Ignores (freg_ok p (insn_rd insn)) p insn (write_f p (insn_rd insn))
    (\<lambda>m s. (val (frs1 p insn s) (frs2 p insn s), softfloat s)) s"
  shows "fsgnj_s p insn s = spec (has_F p) (\<lambda>a b. with_sign (fneg b) a)"
    "fsgnjn_s p insn s = spec (has_F p) (\<lambda>a b. with_sign (\<not> fneg b) a)"
    "fsgnjx_s p insn s = spec (has_F p) (\<lambda>a b. with_sign (fneg a \<noteq> fneg b) a)"
    "fli_s p insn s = spec (has_Zfa p) (\<lambda>a b. fli_s_bits ! unat (insn_rs1 insn))"
    "fclass_s p insn s = fp_spec (has_F p) Ignores (xreg_ok p (insn_rd insn)) p insn (write_x (insn_rd insn))
      (\<lambda>m s. (f32_classify (frs1 p insn s), softfloat s)) s"
  using assms(1,2) unfolding spec_def
  by (cases "fp_permitted p s"; simp add: fsgnj_s_def fsgnjn_s_def fsgnjx_s_def fli_s_def fclass_s_def body_eval
      fsgnj32_sign accrue_none)+

text \<open>
  The moves exist only with the F registers, which no hart has together with Zfinx
  (\<open>isa_parser_t\<close> rejects the combination).
\<close>

definition isa_ok :: "processor \<Rightarrow> bool" where
  "isa_ok p = (\<not> (extension_enabled p EXT_F \<and> extension_enabled p EXT_ZFINX))"

lemma move_insn_specs:
  fixes insn
  assumes "status_ok p s" and "sf_raised s = 0" and "isa_ok p"
  shows "fmv_x_w p insn s = fp_spec (extension_enabled p EXT_F) Ignores (xreg_ok p (insn_rd insn)) p insn
      (write_x (insn_rd insn)) (\<lambda>m s. (sext32 (ucast (fv0 (FPR s (insn_rs1 insn)))), softfloat s)) s"
    "fmv_w_x p insn s = fp_spec (extension_enabled p EXT_F) Ignores (xreg_ok p (insn_rs1 insn)) p insn
      (write_f p (insn_rd insn)) (\<lambda>m s. (ucast (XPR s (insn_rs1 insn)), softfloat s)) s"
proof -
  show "fmv_x_w p insn s = fp_spec (extension_enabled p EXT_F) Ignores (xreg_ok p (insn_rd insn)) p insn
      (write_x (insn_rd insn)) (\<lambda>m s. (sext32 (ucast (fv0 (FPR s (insn_rs1 insn)))), softfloat s)) s"
    using assms(1,2) by (cases "fp_permitted p s"; simp add: fmv_x_w_def body_eval accrue_none)
  have "fmv_w_x p insn s = fp_spec (extension_enabled p EXT_F) Ignores (xreg_ok p (insn_rs1 insn)) p insn
      (write_f p (insn_rd insn)) (\<lambda>m s. (ucast (XPR s (insn_rs1 insn)), softfloat s)) s" if "extension_enabled p EXT_F"
  proof -
    from that assms(3) have "\<not> extension_enabled p EXT_ZFINX" by (simp add: isa_ok_def)
    moreover have "hmap (\<lambda>x. freg32 (ucast x)) m = hmap freg32 (hmap ucast m)" for m :: "u64 hart"
      by (rule ext) (simp add: hmap_def hart_eval split: sum.split)
    ultimately have "WRITE_FRD p insn (hmap (\<lambda>x. freg32 (ucast x)) m) = WRITE_FRD_F p insn (hmap ucast m)" for m :: "u64 hart"
      by (simp add: WRITE_FRD_F_def)
    with that assms(1,2) \<open>\<not> extension_enabled p EXT_ZFINX\<close> show ?thesis
      by (cases "fp_permitted p s"; cases "xreg_ok p (insn_rs1 insn)"; simp add: fmv_w_x_def freg_ok_def accrue_none body_eval)
  qed
  moreover have "fmv_w_x p insn s = (Inl (trap_illegal_instruction insn), s)" if "\<not> extension_enabled p EXT_F"
    using that by (simp add: fmv_w_x_def body_eval)
  ultimately show "fmv_w_x p insn s = fp_spec (extension_enabled p EXT_F) Ignores (xreg_ok p (insn_rs1 insn)) p insn
      (write_f p (insn_rd insn)) (\<lambda>m s. (ucast (XPR s (insn_rs1 insn)), softfloat s)) s"
    by (cases "extension_enabled p EXT_F") (simp_all add: fp_spec_def)
qed

end
