(* ===== verification/Hart_Decode.thy ===== *)
theory Hart_Decode
  imports Hart_Insns
begin

text \<open>
  Decoding (\<open>riscv/processor.cc\<close>): the list of instruction descriptors, the opcode map that
  \<open>build_opcode_map\<close> hashes it into, and \<open>decode_insn\<close>, which searches one bucket.  The map is
  polymorphic in the instruction functions.  The lemmas show that the search of a bucket finds
  what a search of the whole list would, whatever the descriptors.
\<close>

section \<open>The opcode map\<close>

record 'f insn_desc =
  desc_match :: u64
  desc_mask :: u64
  desc_func :: 'f

text \<open>\<open>ctz\<close> of \<open>riscv/arith.h\<close>: six halvings.\<close>

definition ctz_step :: "nat \<Rightarrow> nat \<Rightarrow> nat \<times> u64 \<Rightarrow> nat \<times> u64" where
  "ctz_step sh k rv =
     (case rv of (res, val) \<Rightarrow> if push_bit sh val = 0 then (res + k, drop_bit k val) else (res, val))"

definition ctz :: "u64 \<Rightarrow> nat" where
  "ctz val =
     (if val = 0 then 0
      else fst (ctz_step 63 1 (ctz_step 62 2 (ctz_step 60 4 (ctz_step 56 8 (ctz_step 48 16
             (ctz_step 32 32 (0, val))))))))"

text \<open>The number of buckets, \<open>std::size(opcode_map)\<close>.\<close>

definition opcode_map_size :: nat where "opcode_map_size = 128"

definition desc_stride :: "u64 \<Rightarrow> nat" where
  "desc_stride msk = min opcode_map_size (2 ^ ctz (NOT msk))"

text \<open>
  \<open>for (i = start; i < N; i += stride)\<close>; the stride is a power of two and so never zero, which the
  recursion needs to know.
\<close>

function strided :: "nat \<Rightarrow> nat \<Rightarrow> (nat \<Rightarrow> 'a \<Rightarrow> 'a) \<Rightarrow> 'a \<Rightarrow> 'a" where
  "strided stride i body x =
     (if i < opcode_map_size \<and> 0 < stride then strided stride (i + stride) body (body i x) else x)"
  by auto

termination by (relation "measure (\<lambda>(stride, i, _, _). opcode_map_size - i)") auto

declare strided.simps [simp del]

definition build_one :: "bool \<Rightarrow> 'f \<Rightarrow> 'f insn_desc \<Rightarrow> 'f insn_desc list list \<Rightarrow> 'f insn_desc list list" where
  "build_one zca illegal desc opcode_map =
     (let func = (if \<not> zca \<and> insn_length (desc_match desc) mod 4 \<noteq> 0 then illegal else desc_func desc);
          stride = desc_stride (desc_mask desc)
      in strided stride (unat (desc_match desc AND of_nat (stride - 1)))
           (\<lambda>i m. if desc_match desc mod of_nat opcode_map_size = of_nat i AND desc_mask desc
                  then m[i := m ! i @ [desc\<lparr>desc_func := func\<rparr>]] else m)
           opcode_map)"

definition build_opcode_map :: "bool \<Rightarrow> 'f \<Rightarrow> 'f insn_desc list \<Rightarrow> 'f insn_desc list \<Rightarrow> 'f insn_desc list list" where
  "build_opcode_map zca illegal custom_instructions instructions =
     fold (build_one zca illegal) instructions
       (fold (build_one zca illegal) custom_instructions (replicate opcode_map_size []))"

text \<open>
  The loop over the bucket has no end test: running past the last entry is undefined
  behaviour, \<open>None\<close>.
\<close>

primrec find_insn :: "u64 \<Rightarrow> 'f insn_desc list \<Rightarrow> 'f option" where
  "find_insn bits [] = None"
| "find_insn bits (d # pool) =
     (if bits AND desc_mask d = desc_match d then Some (desc_func d) else find_insn bits pool)"

definition decode_insn :: "'f insn_desc list list \<Rightarrow> u64 \<Rightarrow> 'f option" where
  "decode_insn opcode_map bits = find_insn bits (opcode_map ! unat (bits mod of_nat opcode_map_size))"

section \<open>The hashed search is the linear search\<close>

text \<open>The reference: the first descriptor of the list that matches, with the substitution for \<open>Zca\<close>.\<close>

definition patch_desc :: "bool \<Rightarrow> 'f \<Rightarrow> 'f insn_desc \<Rightarrow> 'f insn_desc" where
  "patch_desc zca illegal d =
     (if \<not> zca \<and> insn_length (desc_match d) mod 4 \<noteq> 0 then d\<lparr>desc_func := illegal\<rparr> else d)"

definition linear_decode :: "bool \<Rightarrow> 'f \<Rightarrow> 'f insn_desc list \<Rightarrow> u64 \<Rightarrow> 'f option" where
  "linear_decode zca illegal descs bits = find_insn bits (map (patch_desc zca illegal) descs)"

lemma find_insn_append:
  "find_insn bits (xs @ ys) = (case find_insn bits xs of None \<Rightarrow> find_insn bits ys | Some f \<Rightarrow> Some f)"
  by (induction xs) auto

text \<open>\<open>ctz\<close> counts only bits that are zero, and at most 63 of them.\<close>

definition ctz_inv :: "nat \<Rightarrow> u64 \<Rightarrow> nat \<times> u64 \<Rightarrow> bool" where
  "ctz_inv w val rv = (fst rv < w \<and> (\<forall>n<fst rv. \<not> bit val n) \<and> snd rv = drop_bit (fst rv) val)"

lemma ctz_step_inv:
  assumes "ctz_inv w val rv" and "sh + k = 64" and "w + k \<le> 64"
  shows "ctz_inv (w + k) val (ctz_step sh k rv)"
proof -
  obtain res x where rv: "rv = (res, x)" by (cases rv)
  with assms(1) have inv: "res < w" "\<And>n. n < res \<Longrightarrow> \<not> bit val n" "x = drop_bit res val"
    by (auto simp: ctz_inv_def)
  have "\<not> bit val n" if "push_bit sh x = 0" "n < res + k" for n
  proof (cases "n < res")
    case False
    with that(2) have "n - res < k" by simp
    from that(1) have "\<not> bit (push_bit sh x) (n - res + sh)" by simp
    with \<open>n - res < k\<close> assms(2) False show ?thesis by (simp add: bit_simps inv(3))
  qed (rule inv(2))
  with inv assms(3) show ?thesis by (auto simp: rv ctz_inv_def ctz_step_def ac_simps)
qed

lemma ctz_zero_bits: "n < ctz val \<Longrightarrow> \<not> bit val n"
  and ctz_less: "ctz val < 64"
proof -
  have "ctz_inv 1 val (0, val)" by (simp add: ctz_inv_def)
  from ctz_step_inv [OF this, of 32 32] have "ctz_inv 33 val (ctz_step 32 32 (0, val))" by simp
  from ctz_step_inv [OF this, of 48 16] have "ctz_inv 49 val (ctz_step 48 16 (ctz_step 32 32 (0, val)))" by simp
  from ctz_step_inv [OF this, of 56 8] have "ctz_inv 57 val (ctz_step 56 8 (ctz_step 48 16 (ctz_step 32 32 (0, val))))"
    by simp
  from ctz_step_inv [OF this, of 60 4] ctz_step_inv [where w = 61 and sh = 62 and k = 2 and val = val]
    ctz_step_inv [where w = 63 and sh = 63 and k = 1 and val = val]
  have "ctz_inv 64 val (ctz_step 63 1 (ctz_step 62 2 (ctz_step 60 4 (ctz_step 56 8 (ctz_step 48 16
             (ctz_step 32 32 (0, val)))))))" by (simp del: One_nat_def)
  then show "n < ctz val \<Longrightarrow> \<not> bit val n" "ctz val < 64"
    by (auto simp: ctz_def ctz_inv_def split: if_splits)
qed

text \<open>The stride is a power of two below whose exponent the mask has only ones.\<close>

lemma desc_stride_power:
  obtains k where "desc_stride msk = 2 ^ k" and "k \<le> 7" and "\<And>n. n < k \<Longrightarrow> bit msk n"
proof
  show "desc_stride msk = 2 ^ min 7 (ctz (NOT msk))"
    using power_increasing [of "ctz (NOT msk)" 7 "2::nat"] power_increasing [of 7 "ctz (NOT msk)" "2::nat"]
    by (cases "ctz (NOT msk) \<le> 7") (auto simp: desc_stride_def opcode_map_size_def min_def)
  show "min 7 (ctz (NOT msk)) \<le> 7" by simp
  show "bit msk n" if "n < min 7 (ctz (NOT msk))" for n
    using that ctz_zero_bits [of n "NOT msk"] ctz_less [of "NOT msk"] by (simp add: bit_simps)
qed

text \<open>What the loop over the buckets appends where.\<close>

lemma strided_append:
  assumes "0 < stride" and "length m = opcode_map_size" and "j < opcode_map_size"
  shows "strided stride i (\<lambda>i m. if C i then m[i := m ! i @ [e]] else m) m ! j
         = m ! j @ (if C j \<and> i \<le> j \<and> stride dvd (j - i) then [e] else [])"
  using assms
proof (induction stride i "\<lambda>i m. if C i then m[i := m ! i @ [e]] else m" m rule: strided.induct)
  case (1 stride i x)
  show ?case
  proof (cases "i < opcode_map_size")
    case True
    have dv: "stride dvd j - i \<longleftrightarrow> j = i \<or> i + stride \<le> j \<and> stride dvd j - (i + stride)" if "i \<le> j"
    proof (cases "i + stride \<le> j")
      case True
      then obtain d where "j = i + stride + d" using le_Suc_ex by blast
      then show ?thesis using "1.prems"(1) by (simp add: add.commute [of stride] add.assoc)
    next
      case False
      with that "1.prems"(1) show ?thesis using dvd_imp_le [of stride "j - i"] by (cases "j = i") auto
    qed
    have le: "i + stride \<le> j \<Longrightarrow> i \<le> j" by simp
    show ?thesis
      using True 1 dv le by (subst strided.simps) (auto simp: nth_list_update)
  next
    case False
    with "1.prems" show ?thesis by (subst strided.simps) auto
  qed
qed

lemma strided_length:
  "(\<And>i m. length (body i m) = length m) \<Longrightarrow> length (strided stride i body m) = length m"
  by (induction stride i body m rule: strided.induct) (subst strided.simps, auto)

text \<open>Which buckets a descriptor goes to, and that it goes to that of every word it matches.\<close>

definition desc_visits :: "'f insn_desc \<Rightarrow> nat \<Rightarrow> bool" where
  "desc_visits d j =
     (let stride = desc_stride (desc_mask d); start = unat (desc_match d AND of_nat (stride - 1))
      in desc_match d mod of_nat opcode_map_size = of_nat j AND desc_mask d \<and> start \<le> j \<and> stride dvd (j - start))"

lemma desc_stride_pos: "0 < desc_stride msk"
  using desc_stride_power [of msk] by (metis zero_less_numeral zero_less_power)

lemma build_one_nth:
  assumes "length m = opcode_map_size" and "j < opcode_map_size"
  shows "build_one zca illegal d m ! j = m ! j @ (if desc_visits d j then [patch_desc zca illegal d] else [])"
proof -
  have "patch_desc zca illegal d =
      d\<lparr>desc_func := if \<not> zca \<and> insn_length (desc_match d) mod 4 \<noteq> 0 then illegal else desc_func d\<rparr>"
    by (simp add: patch_desc_def)
  then show ?thesis
    unfolding build_one_def desc_visits_def Let_def
    by (simp only:) (rule strided_append [OF desc_stride_pos assms])
qed

lemma build_one_length [simp]: "length (build_one zca illegal d m) = length m"
  by (simp add: build_one_def Let_def strided_length)

lemma word_bucket:
  "of_nat (unat (bits mod of_nat opcode_map_size :: u64)) = (take_bit 7 bits :: u64)"
  "unat (bits mod of_nat opcode_map_size :: u64) < opcode_map_size"
  by (simp add: opcode_map_size_def take_bit_eq_mod)
    (simp add: opcode_map_size_def unat_mod_distrib)

lemma desc_visits_match:
  assumes "bits AND desc_mask d = desc_match d"
  shows "desc_visits d (unat (bits mod of_nat opcode_map_size))"
proof -
  let ?j = "unat (bits mod of_nat opcode_map_size :: u64)"
  obtain k where k: "desc_stride (desc_mask d) = 2 ^ k" "k \<le> 7" "\<And>n. n < k \<Longrightarrow> bit (desc_mask d) n"
    by (rule desc_stride_power [of "desc_mask d"]) blast
  have "desc_match d AND of_nat (2 ^ k - 1) = take_bit k (desc_match d)"
    by (simp add: take_bit_eq_mask mask_eq_exp_minus_1 of_nat_diff)
  also have "\<dots> = take_bit k (take_bit 7 bits)"
    unfolding assms [symmetric] using k(2,3) by (intro bit_word_eqI) (auto simp: bit_simps)
  finally have "desc_match d AND of_nat (2 ^ k - 1) = take_bit k (bits mod of_nat opcode_map_size)"
    by (simp add: opcode_map_size_def take_bit_eq_mod [of 7])
  moreover have "unat (take_bit k w) = take_bit k (unat w)" for w :: u64
    by (rule unsigned_take_bit_eq)
  ultimately have start: "unat (desc_match d AND of_nat (2 ^ k - 1)) = ?j mod 2 ^ k"
    by (simp only: take_bit_eq_mod [where 'a = nat])
  have "take_bit 7 (desc_match d) = take_bit 7 bits AND desc_mask d"
    unfolding assms [symmetric] by (intro bit_word_eqI) (auto simp: bit_simps)
  then have "desc_match d mod of_nat opcode_map_size = of_nat ?j AND desc_mask d"
    by (simp add: word_bucket opcode_map_size_def take_bit_eq_mod)
  moreover have "2 ^ k dvd (?j - ?j mod 2 ^ k)" by (simp add: minus_mod_eq_mult_div)
  ultimately show ?thesis
    unfolding desc_visits_def k(1) Let_def start by simp
qed

lemma opcode_map_fold:
  assumes "length m = opcode_map_size"
  shows "length (fold (build_one zca illegal) ds m) = opcode_map_size \<and>
    find_insn bits (fold (build_one zca illegal) ds m ! unat (bits mod of_nat opcode_map_size))
      = find_insn bits (m ! unat (bits mod of_nat opcode_map_size) @ map (patch_desc zca illegal) ds)"
  using assms
proof (induction ds arbitrary: m)
  case (Cons d ds)
  let ?j = "unat (bits mod of_nat opcode_map_size :: u64)"
  have "find_insn bits (build_one zca illegal d m ! ?j @ xs) = find_insn bits (m ! ?j @ patch_desc zca illegal d # xs)" for xs
    using desc_visits_match [of bits d]
    by (auto simp: build_one_nth [OF Cons.prems word_bucket(2)] find_insn_append patch_desc_def split: option.split)
  with Cons.IH [of "build_one zca illegal d m"] Cons.prems show ?case by simp
qed simp

lemma decode_eq_linear:
  "decode_insn (build_opcode_map zca illegal custom base) bits = linear_decode zca illegal (custom @ base) bits"
proof -
  let ?e = "replicate opcode_map_size [] :: 'a insn_desc list list"
  let ?m = "fold (build_one zca illegal) custom ?e"
  have "length ?m = opcode_map_size"
    and "find_insn bits (?m ! unat (bits mod of_nat opcode_map_size)) = find_insn bits (map (patch_desc zca illegal) custom)"
    using opcode_map_fold [of ?e zca illegal custom bits] by (simp_all add: word_bucket(2))
  with opcode_map_fold [of ?m zca illegal base bits] show ?thesis
    by (simp add: decode_insn_def build_opcode_map_def linear_decode_def find_insn_append)
qed

text \<open>
  C8: decoding by the opcode map, which puts each descriptor in the buckets its mask leaves possible
  and searches the one bucket the low bits of the word select, finds the same instruction as a
  search of the whole list in order (custom instructions first), for any descriptors, and fails to
  find one exactly when that does.
\<close>

theorem opcode_map_equivalent:
  "decode_insn (build_opcode_map zca illegal custom base) bits = linear_decode zca illegal (custom @ base) bits"
  by (rule decode_eq_linear)

end
