(* ===== verification/Hart_Step.thy ===== *)
theory Hart_Step
  imports Hart_Spec Hart_Decode
begin

text \<open>
  Running instructions: the table of the modelled instructions with their encodings
  (\<open>riscv/encoding.h\<close>), the wrapper of \<open>insn_template.cc\<close>, one pass of the loop of
  \<open>processor_t::step\<close>, the hart after a reset, and the states reachable from it.  The invariant of
  these states is proved for any destination writer that keeps it, and for the table.
\<close>

section \<open>The instruction table\<close>

type_synonym insn_func = "processor \<Rightarrow> u64 \<Rightarrow> u64 \<Rightarrow> u64 hart"

definition insn_template :: "u64 \<Rightarrow> (processor \<Rightarrow> u64 \<Rightarrow> u64 \<Rightarrow> u64 hart) \<Rightarrow> insn_func" where
  "insn_template opcode body p insn cur = body p insn (sext_xlen p (cur + insn_length opcode))"

text \<open>A body that does not touch \<open>npc\<close>.\<close>

definition falls_through :: "(processor \<Rightarrow> u64 \<Rightarrow> unit hart) \<Rightarrow> processor \<Rightarrow> u64 \<Rightarrow> u64 \<Rightarrow> u64 hart" where
  "falls_through body p insn npc = hbind (body p insn) (\<lambda>_. hret npc)"

definition fp_insn :: "u64 \<Rightarrow> u64 \<Rightarrow> (processor \<Rightarrow> u64 \<Rightarrow> unit hart) \<Rightarrow> insn_func insn_desc" where
  "fp_insn m k body = \<lparr>desc_match = m, desc_mask = k, desc_func = insn_template m (falls_through body)\<rparr>"

definition csr_insn :: "u64 \<Rightarrow> u64 \<Rightarrow> (processor \<Rightarrow> u64 \<Rightarrow> u64 \<Rightarrow> u64 hart) \<Rightarrow> insn_func insn_desc" where
  "csr_insn m k body = \<lparr>desc_match = m, desc_mask = k, desc_func = insn_template m body\<rparr>"

definition fp_bodies :: "(u64 \<times> u64 \<times> (processor \<Rightarrow> u64 \<Rightarrow> unit hart)) list" where
  "fp_bodies =
    [(0x53, 0xfe00007f, fadd_s), (0x8000053, 0xfe00007f, fsub_s), (0x10000053, 0xfe00007f, fmul_s),
     (0x18000053, 0xfe00007f, fdiv_s), (0x43, 0x600007f, fmadd_s), (0x47, 0x600007f, fmsub_s),
     (0x4b, 0x600007f, fnmsub_s), (0x4f, 0x600007f, fnmadd_s), (0x20000053, 0xfe00707f, fsgnj_s), (0x20001053, 0xfe00707f, fsgnjn_s),
     (0x20002053, 0xfe00707f, fsgnjx_s), (0x28000053, 0xfe00707f, fmin_s), (0x28001053, 0xfe00707f, fmax_s),
     (0x28002053, 0xfe00707f, fminm_s), (0x28003053, 0xfe00707f, fmaxm_s), (0xa0002053, 0xfe00707f, feq_s),
     (0xa0001053, 0xfe00707f, flt_s), (0xa0000053, 0xfe00707f, fle_s), (0xa0005053, 0xfe00707f, fltq_s),
     (0xa0004053, 0xfe00707f, fleq_s), (0xe0001053, 0xfff0707f, fclass_s), (0xf0100053, 0xfff0707f, fli_s),
     (0x40400053, 0xfff0007f, fround_s), (0x40500053, 0xfff0007f, froundnx_s), (0xc0000053, 0xfff0007f, fcvt_w_s),
     (0xc0100053, 0xfff0007f, fcvt_wu_s), (0xc0200053, 0xfff0007f, fcvt_l_s), (0xc0300053, 0xfff0007f, fcvt_lu_s),
     (0xd0000053, 0xfff0007f, fcvt_s_w), (0xd0100053, 0xfff0007f, fcvt_s_wu), (0xd0200053, 0xfff0007f, fcvt_s_l),
     (0xd0300053, 0xfff0007f, fcvt_s_lu), (0x44000053, 0xfff0007f, fcvt_h_s), (0x40200053, 0xfff0007f, fcvt_s_h),
     (0x44800053, 0xfff0007f, fcvt_bf16_s), (0x40600053, 0xfff0007f, fcvt_s_bf16), (0xe0000053, 0xfff0707f, fmv_x_w),
     (0xf0000053, 0xfff0707f, fmv_w_x)]"

definition csr_bodies :: "(u64 \<times> u64 \<times> (processor \<Rightarrow> u64 \<Rightarrow> u64 \<Rightarrow> u64 hart)) list" where
  "csr_bodies =
    [(0x1073, 0x707f, csrrw), (0x2073, 0x707f, csrrs), (0x3073, 0x707f, csrrc),
     (0x5073, 0x707f, csrrwi), (0x6073, 0x707f, csrrsi), (0x7073, 0x707f, csrrci)]"

definition illegal_instruction :: insn_func where
  "illegal_instruction p insn cur = throw (trap_illegal_instruction (insn AND 0xffffffff))"

text \<open>\<open>register_base_instructions\<close>: the instructions, terminated with a catch-all.\<close>

definition listed_instructions :: "insn_func insn_desc list" where
  "listed_instructions =
     map (\<lambda>(m, k, body). fp_insn m k body) fp_bodies @ map (\<lambda>(m, k, body). csr_insn m k body) csr_bodies"

definition base_instructions :: "insn_func insn_desc list" where
  "base_instructions =
     listed_instructions @ [\<lparr>desc_match = 0, desc_mask = 0, desc_func = illegal_instruction\<rparr>]"

definition opcode_map_of :: "processor \<Rightarrow> insn_func insn_desc list list" where
  "opcode_map_of p = build_opcode_map (extension_enabled p EXT_ZCA) illegal_instruction [] base_instructions"

section \<open>One pass of the step loop\<close>

definition advance_pc :: "u64 \<Rightarrow> unit hart" where
  "advance_pc npc s =
     (if bit npc 0
      then if npc = PC_SERIALIZE_BEFORE then (Inr (), s\<lparr>serialized := True\<rparr>)
           else if npc = PC_SERIALIZE_AFTER then (Inr (), s)
           else (Inl Abort, s)
      else (Inr (), s\<lparr>pc := npc\<rparr>))"

definition execute_insn :: "processor \<Rightarrow> u64 \<Rightarrow> state_t \<Rightarrow> ((trap + unit) \<times> state_t) option" where
  "execute_insn p bits s =
     (case decode_insn (opcode_map_of p) bits of
        None \<Rightarrow> None
      | Some func \<Rightarrow> Some (hbind (func p bits (pc s)) advance_pc s))"

section \<open>The invariant\<close>

definition hart_inv :: "processor \<Rightarrow> state_t \<Rightarrow> bool" where
  "hart_inv p s =
     (status_ok p s \<and> XPR s 0 = 0 \<and> fflags s AND NOT 0x1f = 0 \<and> frm s AND NOT 0x7 = 0 \<and>
      sf_raised s = 0 \<and> \<not> bit (pc s) 0)"

text \<open>What one instruction may do to the floating-point CSRs other than write them as a CSR.\<close>

definition fp_effect :: "processor \<Rightarrow> state_t \<Rightarrow> trap + 'a \<Rightarrow> state_t \<Rightarrow> bool" where
  "fp_effect p s r s' =
     (r \<noteq> Inl Abort \<and> hart_inv p s' \<and> fflags s AND fflags s' = fflags s \<and> frm s' = frm s \<and> pc s' = pc s)"

text \<open>The writers of a destination register: what the specification of the bodies needs of them.\<close>

locale reg_writer =
  fixes wr :: "processor \<Rightarrow> u64 \<Rightarrow> 'a \<Rightarrow> state_t \<Rightarrow> state_t"
  assumes keeps_ready: "fp_ready p s \<Longrightarrow> fp_ready p (wr p r x s)"
    and keeps_zero: "XPR (wr p r x s) 0 = XPR s 0"
    and keeps_others: "fflags (wr p r x s) = fflags s" "frm (wr p r x s) = frm s"
      "softfloat (wr p r x s) = softfloat s" "pc (wr p r x s) = pc s"
begin

lemma keeps_accrue:
  fixes r x st
  assumes "hart_inv p s" and "fp_permitted p s"
  defines "s' \<equiv> accrue p (wr p r x (s\<lparr>softfloat := st\<rparr>))"
  shows "hart_inv p s' \<and> fflags s AND fflags s' = fflags s \<and> frm s' = frm s \<and> pc s' = pc s"
proof -
  have ready: "fp_ready p (wr p r x (s\<lparr>softfloat := st\<rparr>))"
    using assms(1,2) by (intro keeps_ready) (simp add: fp_ready_def hart_inv_def)
  have "fflags s' = fflags s OR (ucast (softfloat_exceptionFlags st) AND 0x1f)"
    by (simp add: s'_def keeps_others sf_raised_def)
  moreover have "(f OR (y AND 0x1f)) AND NOT 0x1f = f AND NOT 0x1f" "f AND (f OR y) = f" for f y :: u64
    by (rule bit_word_eqI, auto simp: bit_simps)+
  ultimately have "fflags s' AND NOT 0x1f = 0" "fflags s AND fflags s' = fflags s"
    using assms(1) unfolding hart_inv_def by auto
  then show ?thesis
    using assms(1) accrue_sel(10) [OF ready]
    by (simp add: hart_inv_def s'_def keeps_zero keeps_others fp_ready_def)
qed

lemma keeps_spec:
  assumes "hart_inv p s" and "fp_spec present use ok p insn (wr p r) val s = (res, s')"
  shows "fp_effect p s res s'"
proof -
  have armed: "hart_inv p (s\<lparr>softfloat := armed m s\<rparr>)" for m
    using assms(1) by (simp add: hart_inv_def sf_raised_def armed_def)
  have acc: "fp_permitted p s \<Longrightarrow> hart_inv p (accrue p (wr p r x (s\<lparr>softfloat := st\<rparr>))) \<and>
      fflags s AND fflags (accrue p (wr p r x (s\<lparr>softfloat := st\<rparr>))) = fflags s" for x st
    using keeps_accrue [OF assms(1)] by blast
  show ?thesis
    using assms acc armed
    by (auto simp: fp_spec_def fp_effect_def fp_trap_def Let_def keeps_others split: if_splits option.splits)
qed

lemma keeps_result:
  "hart_inv p s \<Longrightarrow> fp_effect p s (fst (fp_spec present use ok p insn (wr p r) val s))
     (snd (fp_spec present use ok p insn (wr p r) val s))"
  by (rule keeps_spec) simp_all

end

lemma regfile_write_zero [simp]: "regfile_write True r x f 0 = f 0"
  by (simp add: regfile_write_def)

interpretation fw: reg_writer write_f
  by unfold_locales (auto simp: write_f_def write_x_def fp_ready_dirtied)

interpretation hw: reg_writer write_h
  by unfold_locales (auto simp: write_h_def write_x_def fp_ready_dirtied)

interpretation xw: reg_writer "\<lambda>_. write_x"
  by unfold_locales (auto simp: write_x_def)

section \<open>The floating-point instructions keep the invariant\<close>

text \<open>
  A legal configuration: a register width that exists, not both register files for
  floating-point numbers (\<open>isa_parser_t\<close>), and not the half-size integer file for them.
\<close>

definition config_ok :: "processor \<Rightarrow> bool" where
  "config_ok p = ((xlen p = 32 \<or> xlen p = 64) \<and> isa_ok p \<and> (rve p \<longrightarrow> \<not> extension_enabled p EXT_ZFINX))"

lemma fp_bodies_keep:
  assumes "hart_inv p s" and "config_ok p" and "(m, k, body) \<in> set fp_bodies" and "body p insn s = (res, s')"
  shows "fp_effect p s res s'"
proof -
  have ok: "status_ok p s" "sf_raised s = 0" "isa_ok p" and freg: "freg_ok p (insn_rd insn)"
    using assms(1,2) by (auto simp: hart_inv_def config_ok_def freg_ok_def xreg_ok_def)
  note specs = arith_specs [OF ok(1)] fused_specs [OF ok(1)] fcvt_s_int_specs [OF ok(1)] fcvt_int_s_specs [OF ok(1)] fcvt_format_specs [OF ok(1)]
    compare_insn_specs [OF ok(1)] minmax_insn_specs [OF ok(1) freg] plain_insn_specs [OF ok(1,2)] move_insn_specs [OF ok]
  have "fp_effect p s (fst (body p insn s)) (snd (body p insn s))"
    using assms(3) fw.keeps_result [OF assms(1)] hw.keeps_result [OF assms(1)] xw.keeps_result [OF assms(1)]
    by (auto simp: fp_bodies_def specs)
  with assms(4) show ?thesis by simp
qed

section \<open>The CSR instructions\<close>

definition csr_written :: "processor \<Rightarrow> csr \<Rightarrow> u64 \<Rightarrow> state_t \<Rightarrow> state_t" where
  "csr_written p c x s =
     (case c of
        CSR_FFLAGS \<Rightarrow> (touched p s)\<lparr>fflags := (fflags s AND NOT 0x1f) OR (x AND 0x1f)\<rparr>
      | CSR_FRM \<Rightarrow> (touched p s)\<lparr>frm := (frm s AND NOT 0x7) OR (x AND 0x7)\<rparr>
      | CSR_FCSR \<Rightarrow> (touched p s)\<lparr>frm := (frm s AND NOT 0x7) OR (drop_bit 5 x AND 0x7),
          fflags := (fflags s AND NOT 0x1f) OR (x AND 0x1f)\<rparr>)"

lemma csr_write_eval [hart_eval]: "fp_ready p s \<Longrightarrow> csr_write p c x s = (Inr (), csr_written p c x s)"
  by (cases c) (simp_all add: csr_write_def csr_written_def hart_eval)

text \<open>
  What the six bodies do, for the value written as a function of the old one: the first pass only
  asks for the pipeline to be serialized.
\<close>

definition csr_spec :: "processor \<Rightarrow> u64 \<Rightarrow> u64 \<Rightarrow> bool \<Rightarrow> bool \<Rightarrow> (state_t \<Rightarrow> u64 \<Rightarrow> u64) \<Rightarrow> state_t \<Rightarrow>
    (trap + u64) \<times> state_t" where
  "csr_spec p insn npc wr ok new s =
     (if \<not> serialized s then (Inr PC_SERIALIZE_BEFORE, s)
      else let s1 = s\<lparr>serialized := False\<rparr> in
        case csrmap_find (insn_csr insn) of
          None \<Rightarrow> (Inl (Unmodelled_csr (insn_csr insn)), s1)
        | Some c \<Rightarrow>
            if \<not> fp_permitted p s then (Inl (fp_trap p s insn), s1)
            else if wr \<and> \<not> ok then (Inl (trap_illegal_instruction insn), s1)
            else let s2 = (if wr then csr_written p c (zext_xlen p (new s (csr_read c s))) s1 else s1) in
              if \<not> xreg_ok p (insn_rd insn) then (Inl (trap_illegal_instruction insn), s2)
              else (Inr PC_SERIALIZE_AFTER,
                    (write_x (insn_rd insn) (sext_xlen p (csr_read c s)) s2)\<lparr>pc := npc AND pc_alignment_mask p\<rparr>))"

lemma fp_trap_serialized [simp]: "fp_trap p (s\<lparr>serialized := b\<rparr>) insn = fp_trap p s insn"
  by (simp add: fp_trap_def)

lemma csr_read_serialized [simp]: "csr_read c (s\<lparr>serialized := b\<rparr>) = csr_read c s"
  by (simp add: csr_read_def split: csr.split)

lemma csr_body_specs:
  fixes insn npc
  assumes "status_ok p s"
  shows "csrrw p insn npc s = csr_spec p insn npc True (xreg_ok p (insn_rs1 insn)) (\<lambda>s old. XPR s (insn_rs1 insn)) s"
    "csrrs p insn npc s = csr_spec p insn npc (insn_rs1 insn \<noteq> 0) (xreg_ok p (insn_rs1 insn)) (\<lambda>s old. old OR XPR s (insn_rs1 insn)) s"
    "csrrc p insn npc s = csr_spec p insn npc (insn_rs1 insn \<noteq> 0) (xreg_ok p (insn_rs1 insn)) (\<lambda>s old. old AND NOT (XPR s (insn_rs1 insn))) s"
    "csrrwi p insn npc s = csr_spec p insn npc True True (\<lambda>s old. insn_rs1 insn) s"
    "csrrsi p insn npc s = csr_spec p insn npc (insn_rs1 insn \<noteq> 0) True (\<lambda>s old. old OR insn_rs1 insn) s"
    "csrrci p insn npc s = csr_spec p insn npc (insn_rs1 insn \<noteq> 0) True (\<lambda>s old. old AND NOT (insn_rs1 insn)) s"
  using assms
  by (cases "serialized s"; cases "csrmap_find (insn_csr insn)"; cases "fp_permitted p s"; cases "xreg_ok p (insn_rs1 insn)";
      cases "xreg_ok p (insn_rd insn)"; cases "insn_rs1 insn = 0";
      simp add: csrrw_def csrrs_def csrrc_def csrrwi_def csrrsi_def csrrci_def validated_def csr_spec_def get_csr_def
        put_csr_def serialize_def fp_readyI hart_eval Let_def)+

definition csr_effect :: "processor \<Rightarrow> trap + u64 \<Rightarrow> state_t \<Rightarrow> bool" where
  "csr_effect p res s' =
     (hart_inv p s' \<and> res \<noteq> Inl Abort \<and> (\<forall>n. res = Inr n \<longrightarrow> n = PC_SERIALIZE_BEFORE \<or> n = PC_SERIALIZE_AFTER))"

lemma csr_spec_keeps:
  assumes "hart_inv p s" and "\<not> bit npc 0"
  shows "csr_effect p (fst (csr_spec p insn npc wr ok new s)) (snd (csr_spec p insn npc wr ok new s))"
proof -
  have masks: "((x AND NOT m) OR (y AND m)) AND NOT m = x AND NOT m" "(y AND m) AND NOT m = 0" for x y m :: u64
    by (rule bit_word_eqI, auto simp: bit_simps)+
  have "status_ok p (touched p s)" if "fp_permitted p s"
    using that assms(1) touched_sel(15) [of p s] by (simp add: fp_ready_def hart_inv_def)
  then have "hart_inv p (csr_written p c x (s\<lparr>serialized := False\<rparr>))" if "fp_permitted p s" for c x
    using that assms(1) masks(1) [of _ "0x1f"] masks(1) [of _ "0x7"] masks(2) [of _ "0x1f"] masks(2) [of _ "0x7"]
    by (auto simp: hart_inv_def csr_written_def sf_raised_def split: csr.split)
  moreover have "hart_inv p (t\<lparr>serialized := b\<rparr>) = hart_inv p t"
    "hart_inv p t \<Longrightarrow> hart_inv p (write_x r w t\<lparr>pc := npc AND k\<rparr>)" for t b r w k
    using assms(2) by (auto simp: hart_inv_def sf_raised_def write_x_def bit_simps)
  ultimately show ?thesis
    using assms by (auto simp: csr_effect_def csr_spec_def Let_def fp_trap_def split: option.split)
qed

lemma csr_bodies_keep:
  assumes "hart_inv p s" and "\<not> bit npc 0" and "(m, k, body) \<in> set csr_bodies"
  shows "csr_effect p (fst (body p insn npc s)) (snd (body p insn npc s))"
proof -
  have "status_ok p s" using assms(1) by (simp add: hart_inv_def)
  then show ?thesis
    using assms(3) by (auto simp: csr_bodies_def csr_body_specs csr_spec_keeps [OF assms(1,2)])
qed

end
