(* ===== verification/Hart_Run.thy ===== *)
theory Hart_Run
  imports Hart_Step
begin

text \<open>
  Execution as a whole: decoding always finds an instruction and the encodings do not overlap, an
  instruction word runs the body it encodes, and the states a hart can reach keep the invariant
  and never reach a call of \<open>abort\<close>.
\<close>

section \<open>Decoding\<close>

lemma find_insn_in:
  "find_insn bits ds = Some f \<Longrightarrow> \<exists>d\<in>set ds. bits AND desc_mask d = desc_match d \<and> f = desc_func d"
  by (induction ds) (auto split: if_splits)

lemma find_insn_last:
  "\<exists>f. find_insn bits (ds @ [\<lparr>desc_match = 0, desc_mask = 0, desc_func = g\<rparr>]) = Some f"
  by (induction ds) auto

lemma decode_linear: "decode_insn (opcode_map_of p) bits = linear_decode (extension_enabled p EXT_ZCA) illegal_instruction base_instructions bits"
  by (simp add: opcode_map_of_def decode_eq_linear)

lemma four_byte_entries:
  "\<forall>d\<in>set base_instructions. insn_length (desc_match d) mod 4 = 0 \<or> desc_func d = illegal_instruction"
  by (simp add: base_instructions_def listed_instructions_def fp_bodies_def csr_bodies_def fp_insn_def csr_insn_def
      insn_length_def)

lemma patch_base: "map (patch_desc zca illegal_instruction) base_instructions = base_instructions"
  by (rule map_idI) (use four_byte_entries in \<open>auto simp: patch_desc_def\<close>)

lemma decode_base: "decode_insn (opcode_map_of p) bits = find_insn bits base_instructions"
  by (simp add: decode_linear linear_decode_def patch_base)

text \<open>Two entries overlap when some word matches both.\<close>

definition overlap :: "u64 \<times> u64 \<Rightarrow> u64 \<times> u64 \<Rightarrow> bool" where
  "overlap = (\<lambda>(m, k) (m', k'). (m XOR m') AND (k AND k') = 0)"

fun pairwise_disjoint :: "(u64 \<times> u64) list \<Rightarrow> bool" where
  "pairwise_disjoint [] = True"
| "pairwise_disjoint (e # es) = (list_all (\<lambda>e'. \<not> overlap e e') es \<and> pairwise_disjoint es)"

definition insn_codes :: "(u64 \<times> u64) list" where
  "insn_codes = map (\<lambda>(m, k, _). (m, k)) fp_bodies @ map (\<lambda>(m, k, _). (m, k)) csr_bodies"

lemma insn_codes_disjoint: "pairwise_disjoint insn_codes"
  by (simp add: insn_codes_def fp_bodies_def csr_bodies_def overlap_def)

lemma disjoint_match:
  assumes "\<not> overlap (m, k) (m', k')" and "bits AND k = m" and "bits AND k' = m'"
  shows False
proof -
  have "(m XOR m') AND (k AND k') = 0"
    unfolding assms(2,3) [symmetric] by (rule bit_word_eqI) (auto simp: bit_simps)
  with assms(1) show False by (simp add: overlap_def)
qed

lemma find_insn_disjoint:
  assumes "pairwise_disjoint (map (\<lambda>d. (desc_match d, desc_mask d)) ds)" and "d \<in> set ds"
    and "bits AND desc_mask d = desc_match d"
  shows "find_insn bits (ds @ rest) = Some (desc_func d)"
  using assms
proof (induction ds)
  case (Cons e ds)
  show ?case
  proof (cases "d = e")
    case False
    with Cons.prems have "d \<in> set ds" by simp
    moreover from this Cons.prems(1) have "\<not> overlap (desc_match e, desc_mask e) (desc_match d, desc_mask d)"
      by (auto simp: list_all_iff)
    ultimately show ?thesis
      using Cons disjoint_match [of "desc_match e" "desc_mask e" "desc_match d" "desc_mask d" bits] by auto
  qed (use Cons.prems(3) in simp)
qed simp

lemma listed_codes: "map (\<lambda>d. (desc_match d, desc_mask d)) listed_instructions = insn_codes"
  by (simp add: listed_instructions_def insn_codes_def fp_insn_def csr_insn_def o_def case_prod_beta)

lemma decode_listed:
  assumes "d \<in> set listed_instructions" and "bits AND desc_mask d = desc_match d"
  shows "decode_insn (opcode_map_of p) bits = Some (desc_func d)"
  unfolding decode_base base_instructions_def
  by (rule find_insn_disjoint [OF _ assms]) (simp add: listed_codes insn_codes_disjoint)

lemma decode_fp:
  assumes "(m, k, body) \<in> set fp_bodies" and "bits AND k = m"
  shows "decode_insn (opcode_map_of p) bits = Some (insn_template m (falls_through body))"
  using decode_listed [of "fp_insn m k body" bits p] assms by (force simp: listed_instructions_def fp_insn_def)

lemma decode_csr:
  assumes "(m, k, body) \<in> set csr_bodies" and "bits AND k = m"
  shows "decode_insn (opcode_map_of p) bits = Some (insn_template m body)"
  using decode_listed [of "csr_insn m k body" bits p] assms by (force simp: listed_instructions_def csr_insn_def)

lemma execute_total: "\<exists>r. execute_insn p bits s = Some r"
  using find_insn_last [of bits listed_instructions illegal_instruction]
  by (auto simp: execute_insn_def decode_base base_instructions_def)

section \<open>Instruction words\<close>

lemma next_pc_even:
  assumes "config_ok p" and "\<not> bit cur 0"
  shows "\<not> bit (sext_xlen p (cur + 4)) 0"
proof -
  have "bit (sext_xlen p x) 0 = bit x 0" for x
    using assms(1) by (auto simp: config_ok_def sext_xlen_def sext_def bit_simps)
  moreover have "bit (cur + 4) 0 = bit cur 0" by (simp add: bit_0)
  ultimately show ?thesis using assms(2) by simp
qed

lemma four_bytes:
  "(m, k, body) \<in> set fp_bodies \<Longrightarrow> insn_length m = 4" "(m, k, body') \<in> set csr_bodies \<Longrightarrow> insn_length m = 4"
  by (auto simp: fp_bodies_def csr_bodies_def insn_length_def)

lemma execute_fp:
  assumes "(m, k, body) \<in> set fp_bodies" and "bits AND k = m"
  shows "execute_insn p bits s = Some (hbind (body p bits) (\<lambda>_. advance_pc (sext_xlen p (pc s + 4))) s)"
  using decode_fp [OF assms, of p] four_bytes(1) [OF assms(1)]
  by (simp add: execute_insn_def insn_template_def falls_through_def hart_eval split: sum.split)

lemma execute_csr:
  assumes "(m, k, body) \<in> set csr_bodies" and "bits AND k = m"
  shows "execute_insn p bits s = Some (hbind (body p bits (sext_xlen p (pc s + 4))) advance_pc s)"
  using decode_csr [OF assms, of p] four_bytes(2) [OF assms(1)]
  by (simp add: execute_insn_def insn_template_def)

section \<open>Every instruction keeps the invariant\<close>

lemma advance_keeps:
  assumes "hart_inv p s" and "\<not> bit npc 0 \<or> npc = PC_SERIALIZE_BEFORE \<or> npc = PC_SERIALIZE_AFTER"
    and "advance_pc npc s = (res, s')"
  shows "hart_inv p s' \<and> res = Inr ()"
  using assms by (auto simp: advance_pc_def hart_inv_def sf_raised_def PC_SERIALIZE_BEFORE_def PC_SERIALIZE_AFTER_def
      split: if_splits)

lemma execute_keeps:
  assumes "hart_inv p s" and "config_ok p" and "execute_insn p bits s = Some (res, s')"
  shows "hart_inv p s' \<and> res \<noteq> Inl Abort"
proof -
  obtain d where d: "d \<in> set base_instructions" "bits AND desc_mask d = desc_match d"
    and run: "hbind (desc_func d p bits (pc s)) advance_pc s = (res, s')"
    using assms(3) find_insn_in [of bits base_instructions]
    by (fastforce simp: execute_insn_def decode_base split: option.splits)
  have even_pc: "\<not> bit (pc s) 0" using assms(1) by (simp add: hart_inv_def)
  note npc = next_pc_even [OF assms(2) even_pc]
  consider (fp) m k body where "(m, k, body) \<in> set fp_bodies" "d = fp_insn m k body"
    | (csr) m k body where "(m, k, body) \<in> set csr_bodies" "d = csr_insn m k body"
    | (illegal) "desc_func d = illegal_instruction"
    using d(1) by (auto simp: base_instructions_def listed_instructions_def)
  then show ?thesis
  proof cases
    case fp
    obtain r t where body: "body p bits s = (r, t)" by (cases "body p bits s")
    have "fp_effect p s r t" by (rule fp_bodies_keep [OF assms(1,2) fp(1) body])
    then show ?thesis
      using run advance_keeps [of p t] npc four_bytes(1) [OF fp(1)] body
      by (cases r) (auto simp: fp(2) fp_insn_def insn_template_def falls_through_def hart_eval fp_effect_def)
  next
    case csr
    obtain r t where body: "body p bits (sext_xlen p (pc s + 4)) s = (r, t)" by (cases "body p bits (sext_xlen p (pc s + 4)) s")
    then have "csr_effect p r t" using csr_bodies_keep [OF assms(1) npc csr(1), of bits] by simp
    then show ?thesis
      using run advance_keeps [of p t] four_bytes(2) [OF csr(1)] body
      by (cases r) (auto simp: csr(2) csr_insn_def insn_template_def hart_eval csr_effect_def)
  next
    case illegal
    with run assms(1) show ?thesis by (auto simp: illegal_instruction_def hart_eval)
  qed
qed

section \<open>Reachable states\<close>

text \<open>
  A step is an instruction of the table, retired or trapped, or anything else that the rest of the
  simulator does: the handler of a trap, an instruction that is not modelled, a debugger.  Of these
  the model assumes what the code of every other instruction respects: \<open>x0\<close> is not written,
  \<open>fflags\<close> changes only by accruing, \<open>frm\<close> not at all, SoftFloat's flags are collected before the next
  instruction, the program counter is even and the status registers are well-formed.
\<close>

inductive hart_step :: "processor \<Rightarrow> state_t \<Rightarrow> state_t \<Rightarrow> bool" for p where
  insn: "execute_insn p bits s = Some (res, s') \<Longrightarrow> hart_step p s s'"
| other: "status_ok p s' \<Longrightarrow> XPR s' 0 = XPR s 0 \<Longrightarrow> fflags s' = fflags s OR (x AND 0x1f) \<Longrightarrow> frm s' = frm s \<Longrightarrow>
    sf_raised s' = sf_raised s \<Longrightarrow> \<not> bit (pc s') 0 \<Longrightarrow> hart_step p s s'"

inductive reachable :: "processor \<Rightarrow> state_t \<Rightarrow> bool" for p where
  reset: "reachable p (hart_reset p)"
| step: "reachable p s \<Longrightarrow> hart_step p s s' \<Longrightarrow> reachable p s'"

inductive_cases hart_stepE: "hart_step p s s'"

lemma hart_reset_inv: "hart_inv p (hart_reset p)"
proof -
  have "mstatus_ok p (mstatus_initial_value p)"
    by (cases "extension_enabled p EXT_U"; cases "extension_enabled p EXT_S"; cases "xlen p = 32"; cases "target_big_endian p";
        cases "extension_enabled p EXT_SMDBLTRP";
        simp add: mstatus_ok_def mstatus_initial_value_def mask_if_def set_field_def get_field_def adjust_sd_def Let_def
          legalize_privilege_def xlen_to_uxl_def status_masks PRV_U_def PRV_M_def PRV_HS_def PRV_S_def)
  moreover have "adjust_sd p (mstatus_initial_value p AND y) = mstatus_initial_value p AND y" for y
  proof -
    have free: "mstatus_initial_value p AND k = 0" if "k \<in> {MSTATUS_FS, MSTATUS_VS, MSTATUS_MS, MSTATUS_XS, SSTATUS64_SD, SSTATUS32_SD}" for k
      using that by (auto simp: mstatus_initial_value_def Let_def and_or mask_if_and set_field_def xlen_to_uxl_def
          status_masks PRV_U_def PRV_M_def)
    have z: "(mstatus_initial_value p AND y) AND k = 0"
      if "k \<in> {MSTATUS_FS, MSTATUS_VS, MSTATUS_MS, MSTATUS_XS, SSTATUS64_SD, SSTATUS32_SD}" for k
    proof -
      have "(mstatus_initial_value p AND y) AND k = (mstatus_initial_value p AND k) AND y" by (simp only: ac_simps)
      with that free [of k] show ?thesis by simp
    qed
    have nonzero: "MSTATUS_FS \<noteq> 0" "MSTATUS_VS \<noteq> 0" "MSTATUS_MS \<noteq> 0" "MSTATUS_XS \<noteq> 0" by (simp_all add: status_masks)
    show ?thesis
      using z [of MSTATUS_FS] z [of MSTATUS_VS] z [of MSTATUS_MS] z [of MSTATUS_XS] z [of SSTATUS64_SD] z [of SSTATUS32_SD] nonzero
      by (simp add: adjust_sd_def Let_def and_not_absorb)
  qed
  ultimately show ?thesis
    by (simp add: hart_inv_def hart_reset_def status_ok_def vsstatus_ok_def henvcfg_dte_def sf_raised_def softfloat_init_def
        and.assoc)
qed

lemma hart_step_inv: "hart_step p s s' \<Longrightarrow> config_ok p \<Longrightarrow> hart_inv p s \<Longrightarrow> hart_inv p s'"
proof (induction rule: hart_step.induct)
  case (insn bits s res s')
  then show ?case using execute_keeps by blast
next
  case (other s' s x)
  have "(f OR (x AND 0x1f)) AND NOT 0x1f = f AND NOT 0x1f" for f :: u64
    by (rule bit_word_eqI) (auto simp: bit_simps)
  with other show ?case by (simp add: hart_inv_def)
qed

lemma reachable_hart_inv: "reachable p s \<Longrightarrow> config_ok p \<Longrightarrow> hart_inv p s"
  by (induction rule: reachable.induct) (auto intro: hart_reset_inv hart_step_inv)

section \<open>Properties\<close>

text \<open>
  C24: the search of \<open>decode_insn\<close> has no end test, yet on the map of the base instructions it always
  stops at a matching descriptor inside the bucket, for every word.
\<close>

theorem decode_insn_stops: "\<exists>func. decode_insn (opcode_map_of p) bits = Some func"
  using find_insn_last [of bits listed_instructions illegal_instruction]
  by (simp add: decode_base base_instructions_def)

text \<open>
  C26: the encodings of the modelled instructions do not overlap, so a word that matches one of them
  is decoded to it, whatever the order of the table and with or without compressed instructions.
\<close>

theorem decode_insn_unambiguous:
  assumes "d \<in> set listed_instructions" and "bits AND desc_mask d = desc_match d"
  shows "decode_insn (opcode_map_of p) bits = Some (desc_func d)"
  by (rule decode_listed [OF assms])



end
