(* ===== verification/Hart_Correct.thy ===== *)
theory Hart_Correct
  imports Hart_Run
begin

text \<open>
  What an instruction word does to the hart: the arithmetic, comparison, minimum, maximum and
  conversion instructions against their IEEE 754 specifications, their permission to run, the
  accrual of flags, the CSR instructions, and the reachable states.  The examples at the end apply
  the properties to two harts, one with F registers and one with Zfinx.
\<close>

section \<open>Retiring an instruction\<close>

text \<open>The rounding modes as the instruction set numbers them.\<close>

definition riscv_rmode :: "u64 \<Rightarrow> rmode" where
  "riscv_rmode m = [RNE, RTZ, RDN, RUP, RMM] ! unat m"

lemma rm_value_less: "rm_value bits s = Some m \<Longrightarrow> m = 0 \<or> m = 1 \<or> m = 2 \<or> m = 3 \<or> m = 4"
proof -
  assume "rm_value bits s = Some m"
  then have "m < 5" by (auto simp: rm_value_def Let_def split: if_splits)
  then have "unat m < 5" by (simp add: word_less_nat_alt)
  then show ?thesis by (simp add: word_unat_eq_iff) arith
qed

lemma rm_value_mode:
  assumes "rm_value bits s = Some m"
  shows "sf_mode (ucast m) = riscv_rmode m" "int_mode (ucast m) = riscv_rmode m"
  using rm_value_less [OF assms] by (elim disjE; simp add: sf_mode_def int_mode_def riscv_rmode_def sf_modes)+

lemma fp_retires:
  assumes "hart_inv p s" and "config_ok p" and "(m, k, body) \<in> set fp_bodies" and "bits AND k = m"
    and "body p bits s = (Inr (), t)"
  shows "execute_insn p bits s = Some (Inr (), t\<lparr>pc := sext_xlen p (pc s + 4)\<rparr>)"
proof -
  have "\<not> bit (sext_xlen p (pc s + 4)) 0"
    using assms(1) by (intro next_pc_even [OF assms(2)]) (simp add: hart_inv_def)
  then show ?thesis by (simp add: execute_fp [OF assms(3,4)] assms(5) hart_eval advance_pc_def)
qed

lemma fp_traps:
  assumes "(m, k, body) \<in> set fp_bodies" and "bits AND k = m" and "body p bits s = (Inl e, t)"
  shows "execute_insn p bits s = Some (Inl e, t)"
  by (simp add: execute_fp [OF assms(1,2)] assms(3) hart_eval)

lemma fp_spec_retires:
  assumes "present" and "fp_permitted p s" and "ok" and "use = Ignores \<and> mode = 0 \<or> use \<noteq> Ignores \<and> rm_value insn s = Some mode"
  shows "fp_spec present use ok p insn wr val s =
    (let s1 = (if use = Sets then s\<lparr>softfloat := armed mode s\<rparr> else s); (x, st) = val mode s1
     in (Inr (), accrue p (wr x (s1\<lparr>softfloat := st\<rparr>))))"
  using assms by (auto simp: fp_spec_def Let_def split: prod.split)

lemma config_freg_ok: "config_ok p \<Longrightarrow> freg_ok p r"
  by (auto simp: config_ok_def freg_ok_def xreg_ok_def)

lemma inv_parts: "hart_inv p s \<Longrightarrow> status_ok p s" "hart_inv p s \<Longrightarrow> sf_raised s = 0" "hart_inv p s \<Longrightarrow> XPR s 0 = 0"
  by (simp_all add: hart_inv_def)

lemma write_x_sel [simp]:
  "FPR (write_x r x s) = FPR s" "fflags (write_x r x s) = fflags s" "frm (write_x r x s) = frm s"
  "XPR (write_x r x s) = (if r = 0 then XPR s else (XPR s)(r := x))" "pc (write_x r x s) = pc s"
  by (simp_all add: write_x_def regfile_write_def)

lemma write_f_sel [simp]:
  "FPR (write_f p r x s) = (if extension_enabled p EXT_ZFINX then FPR s else (FPR s)(r := freg32 x))"
  "XPR (write_f p r x s) = (if extension_enabled p EXT_ZFINX \<and> r \<noteq> 0 then (XPR s)(r := sext32 x) else XPR s)"
  "fflags (write_f p r x s) = fflags s" "frm (write_f p r x s) = frm s" "pc (write_f p r x s) = pc s"
  by (simp_all add: write_f_def)

lemma sf_raised_set [simp]: "sf_raised (s\<lparr>softfloat := st\<rparr>) = softfloat_exceptionFlags st"
  by (simp add: sf_raised_def)

lemma raised_invalid:
  "sf_raised s = 0 \<Longrightarrow> softfloat_exceptionFlags (quiet_flags F a b (softfloat s)) =
    (if ieee_class F a = 8 \<or> ieee_class F b = 8 then 0x10 else 0)"
  "sf_raised s = 0 \<Longrightarrow> softfloat_exceptionFlags (signaling_flags F a b (softfloat s)) =
    (if fnan F a \<or> fnan F b then 0x10 else 0)"
  by (simp_all add: sf_raised_def quiet_flags_def signaling_flags_def softfloat_raiseFlags_def softfloat_flag_invalid_def)

lemma F32_SIGN_flip: "x XOR F32_SIGN = fneg_of x"
  using fneg_of_flip [of x] by (simp add: F32_SIGN_def)

section \<open>Arithmetic instructions\<close>

text \<open>
  C5: an instruction word of \<open>fadd.s\<close>, \<open>fsub.s\<close>, \<open>fmul.s\<close> or \<open>fdiv.s\<close> writes the IEEE 754 result of
  its operands, rounded in the mode of the word or of \<open>frm\<close>, to the destination (NaN-boxed, or with
  Zfinx sign-extended in the integer register), accrues exactly the flags SoftFloat raised, and
  moves to the next word; every other register and \<open>frm\<close> are unchanged.  With a reserved rounding
  mode it raises the illegal-instruction exception and changes nothing.
\<close>

theorem fp_arith_insn_correct:
  assumes "hart_inv p s" and "config_ok p" and "has_F p" and "fp_permitted p s"
    and "(m, op, spec) \<in> {(0x53, f32_add, ieee_add F32), (0x8000053, f32_sub, ieee_sub F32),
                           (0x10000053, f32_mul, ieee_mul F32), (0x18000053, f32_div, ieee_div F32)}"
    and "bits AND 0xfe00007f = m"
  shows "case rm_value bits s of
      None \<Rightarrow> execute_insn p bits s = Some (Inl (trap_illegal_instruction bits), s)
    | Some mode \<Rightarrow>
        \<exists>s'. execute_insn p bits s = Some (Inr (), s') \<and>
          (let a = fsrc p s (insn_rs1 bits); b = fsrc p s (insn_rs2 bits); rd = insn_rd bits;
               x = spec (riscv_rmode mode) a b
           in FPR s' = (if extension_enabled p EXT_ZFINX then FPR s else (FPR s)(rd := freg32 x)) \<and>
              XPR s' = (if extension_enabled p EXT_ZFINX \<and> rd \<noteq> 0 then (XPR s)(rd := sext32 x) else XPR s) \<and>
              fflags s' = fflags s OR (ucast (softfloat_exceptionFlags (snd (op a b (armed mode s)))) AND 0x1f) \<and>
              frm s' = frm s \<and> pc s' = sext_xlen p (pc s + 4))"
proof -
  obtain body where table: "(m, 0xfe00007f, body) \<in> set fp_bodies"
    and body: "body p bits s = fp_spec (has_F p) Sets (freg_ok p (insn_rd bits)) p bits (write_f p (insn_rd bits))
      (\<lambda>m s. op (frs1 p bits s) (frs2 p bits s) (softfloat s)) s"
    and ieee: "\<And>a b st. fst (op a b st) = spec (sf_mode (softfloat_roundingMode st)) a b"
    using assms(5) arith_specs [OF inv_parts(1) [OF assms(1)], of bits] f32_add_ieee f32_sub_ieee f32_mul_ieee f32_div_ieee
    by (auto simp: fp_bodies_def)
  show ?thesis
  proof (cases "rm_value bits s")
    case None
    then have "body p bits s = (Inl (trap_illegal_instruction bits), s)"
      using assms(3,4) by (simp add: body fp_spec_def)
    from fp_traps [OF table assms(6) this] None show ?thesis by simp
  next
    case (Some mode)
    from Some have run: "body p bits s = (Inr (), accrue p (write_f p (insn_rd bits)
        (fst (op (frs1 p bits s) (frs2 p bits s) (armed mode s)))
        (s\<lparr>softfloat := snd (op (frs1 p bits s) (frs2 p bits s) (armed mode s))\<rparr>)))"
      using assms(3,4) config_freg_ok [OF assms(2)] by (simp add: body fp_spec_def)
    have "softfloat_roundingMode (armed mode s) = ucast mode" by (simp add: armed_def)
    with fp_retires [OF assms(1,2) table assms(6) run] Some show ?thesis
      by (simp add: ieee rm_value_mode [OF Some] Let_def)
  qed
qed

text \<open>
  C17: an instruction word of \<open>fmadd.s\<close>, \<open>fmsub.s\<close>, \<open>fnmsub.s\<close> or \<open>fnmadd.s\<close> writes the IEEE 754
  fused multiply-add of its three operands, the product and the third operand negated as the
  instruction says (exact negation of the encodings, before the single rounding), in the mode of
  the word or of \<open>frm\<close>, accrues exactly the flags SoftFloat raised and moves to the next word; with a
  reserved rounding mode it raises the illegal-instruction exception and changes nothing.
\<close>

theorem fp_fused_insn_correct:
  assumes "hart_inv p s" and "config_ok p" and "has_F p" and "fp_permitted p s"
    and "(m, f, g) \<in> {(0x43, \<lambda>x. x, \<lambda>x. x), (0x47, \<lambda>x. x, fneg_of), (0x4b, fneg_of, \<lambda>x. x), (0x4f, fneg_of, fneg_of)}"
    and "bits AND 0x600007f = m"
  shows "case rm_value bits s of
      None \<Rightarrow> execute_insn p bits s = Some (Inl (trap_illegal_instruction bits), s)
    | Some mode \<Rightarrow>
        \<exists>s'. execute_insn p bits s = Some (Inr (), s') \<and>
          (let a = f (fsrc p s (insn_rs1 bits)); b = fsrc p s (insn_rs2 bits); c = g (fsrc p s (insn_rs3 bits));
               rd = insn_rd bits; x = ieee_fma F32 (riscv_rmode mode) a b c
           in FPR s' = (if extension_enabled p EXT_ZFINX then FPR s else (FPR s)(rd := freg32 x)) \<and>
              XPR s' = (if extension_enabled p EXT_ZFINX \<and> rd \<noteq> 0 then (XPR s)(rd := sext32 x) else XPR s) \<and>
              fflags s' = fflags s OR (ucast (softfloat_exceptionFlags (snd (f32_mulAdd a b c (armed mode s)))) AND 0x1f) \<and>
              frm s' = frm s \<and> pc s' = sext_xlen p (pc s + 4))"
proof -
  let ?a = "f (frs1 p bits s)" and ?b = "frs2 p bits s" and ?c = "g (frs3 p bits s)"
  obtain body where table: "(m, 0x600007f, body) \<in> set fp_bodies"
    and body: "body p bits s = fp_spec (has_F p) Sets (freg_ok p (insn_rd bits)) p bits (write_f p (insn_rd bits))
      (\<lambda>m s. f32_mulAdd (f (frs1 p bits s)) (frs2 p bits s) (g (frs3 p bits s)) (softfloat s)) s"
    using assms(5) fused_specs [OF inv_parts(1) [OF assms(1)], of bits, unfolded F32_SIGN_flip]
    by (elim insertE emptyE; simp add: fp_bodies_def)
  show ?thesis
  proof (cases "rm_value bits s")
    case None
    then have "body p bits s = (Inl (trap_illegal_instruction bits), s)"
      using assms(3,4) by (simp add: body fp_spec_def)
    from fp_traps [OF table assms(6) this] None show ?thesis by simp
  next
    case (Some mode)
    from Some have run: "body p bits s = (Inr (), accrue p (write_f p (insn_rd bits)
        (fst (f32_mulAdd ?a ?b ?c (armed mode s))) (s\<lparr>softfloat := snd (f32_mulAdd ?a ?b ?c (armed mode s))\<rparr>)))"
      using assms(3,4) config_freg_ok [OF assms(2)] by (simp add: body fp_spec_def)
    have "softfloat_roundingMode (armed mode s) = ucast mode" by (simp add: armed_def)
    with fp_retires [OF assms(1,2) table assms(6) run] Some show ?thesis
      by (simp add: f32_mulAdd_ieee rm_value_mode [OF Some] Let_def)
  qed
qed

section \<open>Minimum, maximum and comparison\<close>

lemma fp_executes:
  assumes "hart_inv p s" and "config_ok p" and "(m, k, body) \<in> set fp_bodies" and "bits AND k = m"
    and "fst (body p bits s) = Inr ()"
  shows "execute_insn p bits s = Some (Inr (), (snd (body p bits s))\<lparr>pc := sext_xlen p (pc s + 4)\<rparr>)"
  using fp_retires [OF assms(1-4), of "snd (body p bits s)"] assms(5) by (cases "body p bits s") simp

text \<open>
  C19: \<open>fmin.s\<close> and \<open>fmax.s\<close> return the IEEE 754-2019 minimumNumber and maximumNumber of their
  operands, \<open>fminm.s\<close> and \<open>fmaxm.s\<close> the minimum and maximum (a NaN operand gives the canonical
  NaN), all with -0 below +0; only a signalling NaN raises the invalid flag.
\<close>

theorem fp_minmax_insn_correct:
  assumes "hart_inv p s" and "config_ok p" and "fp_permitted p s"
    and "(m, present, pick) \<in> {(0x28000053, has_F p, ieee_min F32), (0x28001053, has_F p, ieee_max F32),
                                (0x28002053, has_Zfa p, ieee_minimum F32), (0x28003053, has_Zfa p, ieee_maximum F32)}"
    and "present" and "bits AND 0xfe00707f = m"
  shows "\<exists>s'. execute_insn p bits s = Some (Inr (), s') \<and>
    (let a = fsrc p s (insn_rs1 bits); b = fsrc p s (insn_rs2 bits); rd = insn_rd bits; x = pick a b
     in FPR s' = (if extension_enabled p EXT_ZFINX then FPR s else (FPR s)(rd := freg32 x)) \<and>
        XPR s' = (if extension_enabled p EXT_ZFINX \<and> rd \<noteq> 0 then (XPR s)(rd := sext32 x) else XPR s) \<and>
        fflags s' = (if ieee_class F32 a = 8 \<or> ieee_class F32 b = 8 then fflags s OR 0x10 else fflags s) \<and>
        frm s' = frm s \<and> pc s' = sext_xlen p (pc s + 4))"
proof -
  have freg: "freg_ok p (insn_rd bits)" by (rule config_freg_ok [OF assms(2)])
  obtain body where table: "(m, 0xfe00707f, body) \<in> set fp_bodies"
    and body: "body p bits s = fp_spec present Ignores (freg_ok p (insn_rd bits)) p bits (write_f p (insn_rd bits))
      (\<lambda>m s. (pick (frs1 p bits s) (frs2 p bits s), quiet_flags F32 (frs1 p bits s) (frs2 p bits s) (softfloat s))) s"
    using assms(4) minmax_insn_specs [OF inv_parts(1) [OF assms(1)] freg] by (auto simp: fp_bodies_def)
  have run: "body p bits s = (Inr (), accrue p (write_f p (insn_rd bits) (pick (frs1 p bits s) (frs2 p bits s))
      (s\<lparr>softfloat := quiet_flags F32 (frs1 p bits s) (frs2 p bits s) (softfloat s)\<rparr>)))"
    using assms(3,5) freg by (simp add: body fp_spec_def)
  from fp_retires [OF assms(1,2) table assms(6) run] inv_parts(2) [OF assms(1)] show ?thesis
    by (simp add: Let_def raised_invalid)
qed

definition compare_spec :: "processor \<Rightarrow> u64 \<Rightarrow> bool \<Rightarrow> (u32 \<Rightarrow> u32 \<Rightarrow> bool) \<Rightarrow> (u32 \<Rightarrow> u32 \<Rightarrow> sf_state \<Rightarrow> sf_state) \<Rightarrow>
    state_t \<Rightarrow> (trap + unit) \<times> state_t" where
  "compare_spec p insn present rel flags s =
     fp_spec present Ignores (xreg_ok p (insn_rd insn)) p insn (write_x (insn_rd insn))
       (\<lambda>m s. (of_bool (rel (frs1 p insn s) (frs2 p insn s)), flags (frs1 p insn s) (frs2 p insn s) (softfloat s))) s"

lemma compare_rel_specs:
  assumes "status_ok p s"
  shows "feq_s p insn s = compare_spec p insn (has_F p) (ieee_eq F32) (quiet_flags F32) s"
    "flt_s p insn s = compare_spec p insn (has_F p) (ieee_less F32) (signaling_flags F32) s"
    "fle_s p insn s = compare_spec p insn (has_F p) (ieee_le F32) (signaling_flags F32) s"
    "fltq_s p insn s = compare_spec p insn (has_Zfa p) (ieee_less F32) (quiet_flags F32) s"
    "fleq_s p insn s = compare_spec p insn (has_Zfa p) (ieee_le F32) (quiet_flags F32) s"
  by (simp_all add: compare_insn_specs [OF assms] compare_spec_def f32_eq_spec f32_lt_spec f32_le_spec
      f32_lt_quiet_spec f32_le_quiet_spec)

text \<open>
  C27: \<open>feq.s\<close>, \<open>flt.s\<close>, \<open>fle.s\<close> and the quiet \<open>fltq.s\<close> and \<open>fleq.s\<close> write 1 to the integer destination
  when the IEEE 754 relation holds between their operands and 0 otherwise; the quiet ones and
  \<open>feq.s\<close> raise the invalid flag for a signalling NaN, the others for any NaN.
\<close>

theorem fp_compare_insn_correct:
  assumes "hart_inv p s" and "config_ok p" and "fp_permitted p s" and "xreg_ok p (insn_rd bits)"
    and "(m, body, present, rel, quiet) \<in>
          {(0xa0002053, feq_s, has_F p, ieee_eq F32, True), (0xa0001053, flt_s, has_F p, ieee_less F32, False),
           (0xa0000053, fle_s, has_F p, ieee_le F32, False), (0xa0005053, fltq_s, has_Zfa p, ieee_less F32, True),
           (0xa0004053, fleq_s, has_Zfa p, ieee_le F32, True)}"
    and "present" and "bits AND 0xfe00707f = m"
  shows "\<exists>s'. execute_insn p bits s = Some (Inr (), s') \<and>
    (let a = fsrc p s (insn_rs1 bits); b = fsrc p s (insn_rs2 bits); rd = insn_rd bits
     in XPR s' = (if rd = 0 then XPR s else (XPR s)(rd := (if rel a b then 1 else 0))) \<and> FPR s' = FPR s \<and>
        fflags s' = (if (if quiet then ieee_class F32 a = 8 \<or> ieee_class F32 b = 8 else fnan F32 a \<or> fnan F32 b)
                     then fflags s OR 0x10 else fflags s) \<and>
        frm s' = frm s \<and> pc s' = sext_xlen p (pc s + 4))"
proof -
  have table: "(m, 0xfe00707f, body) \<in> set fp_bodies"
    using assms(5) by (elim insertE emptyE; simp add: fp_bodies_def)
  have body: "body p bits s = compare_spec p bits present rel (if quiet then quiet_flags F32 else signaling_flags F32) s"
    using assms(5) by (elim insertE emptyE; simp add: compare_rel_specs [OF inv_parts(1) [OF assms(1)]])
  have run: "body p bits s = (Inr (), accrue p (write_x (insn_rd bits) (of_bool (rel (frs1 p bits s) (frs2 p bits s)))
      (s\<lparr>softfloat := (if quiet then quiet_flags F32 else signaling_flags F32) (frs1 p bits s) (frs2 p bits s) (softfloat s)\<rparr>)))"
    using assms(3,4,6) by (simp add: body compare_spec_def fp_spec_def)
  from fp_retires [OF assms(1,2) table assms(7) run] inv_parts(2) [OF assms(1)] show ?thesis
    by (cases quiet) (simp_all add: Let_def raised_invalid)
qed

section \<open>Conversions to integers\<close>

lemma to_int_specs:
  fixes insn
  assumes "status_ok p s" and "rm_value insn s = Some mode"
  defines "spec \<equiv> \<lambda>present wide f. fp_spec present Sets (xreg_ok p (insn_rd insn)) p insn (write_x (insn_rd insn))
    (\<lambda>m s. apfst (\<lambda>n. if wide then word_of_int n else sext32 (word_of_int n)) (f (frs1 p insn s) (softfloat s))) s"
  shows "fcvt_w_s p insn s = spec (has_F p) False (ieee_to_int F32 (riscv_rmode mode) (- (2 ^ 31)) (2 ^ 31 - 1) True)"
    "fcvt_wu_s p insn s = spec (has_F p) False (ieee_to_int F32 (riscv_rmode mode) 0 (2 ^ 32 - 1) True)"
    "fcvt_l_s p insn s = spec (has_F p \<and> xlen p = 64) True (ieee_to_int F32 (riscv_rmode mode) (- (2 ^ 63)) (2 ^ 63 - 1) True)"
    "fcvt_lu_s p insn s = spec (has_F p \<and> xlen p = 64) True (ieee_to_int F32 (riscv_rmode mode) 0 (2 ^ 64 - 1) True)"
proof -
  have word: "(word_of_int (int (unat u)) :: 'a::len word) = ucast u" for u :: u64
    by (rule bit_word_eqI) (simp add: bit_simps flip: uint_nat)
  have mode: "int_mode (ucast mode) = riscv_rmode mode" by (rule rm_value_mode(2) [OF assms(2)])
  have at_mode: "fp_spec present Sets ok p insn wr val s = fp_spec present Sets ok p insn wr val' s"
    if "\<And>s'. val mode s' = val' mode s'" for present ok wr val val'
    using that assms(2) by (simp add: fp_spec_def Let_def)
  have unsigned: "apfst f r = apfst (\<lambda>n. g (word_of_int n)) (map_prod (int \<circ> unat) id r)"
    if "\<And>u. f u = g (ucast u)" for f :: "u64 \<Rightarrow> u64" and g :: "'a::len word \<Rightarrow> u64" and r :: "u64 \<times> sf_state"
    using that by (cases r) (simp add: word)
  note specs = fcvt_int_s_specs [OF assms(1), of insn]
  show "fcvt_w_s p insn s = spec (has_F p) False (ieee_to_int F32 (riscv_rmode mode) (- (2 ^ 31)) (2 ^ 31 - 1) True)"
    unfolding specs spec_def by (rule at_mode) (simp add: f32_to_i32_spec mode)
  show "fcvt_wu_s p insn s = spec (has_F p) False (ieee_to_int F32 (riscv_rmode mode) 0 (2 ^ 32 - 1) True)"
    unfolding specs spec_def
    by (rule at_mode) (simp add: unsigned [of "\<lambda>u. sext32 (ucast u)" sext32] f32_to_ui32_spec mode del: map_prod_ident)
  show "fcvt_l_s p insn s = spec (has_F p \<and> xlen p = 64) True (ieee_to_int F32 (riscv_rmode mode) (- (2 ^ 63)) (2 ^ 63 - 1) True)"
    unfolding specs spec_def by (rule at_mode) (simp add: f32_to_i64_spec mode)
  have "r = apfst (\<lambda>n. word_of_int n) (map_prod (int \<circ> unat) id r)" for r :: "u64 \<times> sf_state"
    by (cases r) (simp add: word)
  then have "f32_to_ui64 a r True st = apfst word_of_int (ieee_to_int F32 (int_mode r) 0 (2 ^ 64 - 1) True a st)" for a r st
    by (metis f32_to_ui64_spec)
  then show "fcvt_lu_s p insn s = spec (has_F p \<and> xlen p = 64) True (ieee_to_int F32 (riscv_rmode mode) 0 (2 ^ 64 - 1) True)"
    unfolding specs spec_def by (intro at_mode) (simp add: mode)
qed

text \<open>
  C28: \<open>fcvt.w.s\<close>, \<open>fcvt.wu.s\<close>, \<open>fcvt.l.s\<close> and \<open>fcvt.lu.s\<close> write the operand rounded to an integer in
  the mode of the instruction, saturated to the range of the type (a NaN to its upper bound); the
  two 32-bit conversions sign-extend the result, the unsigned one too.  The flags are invalid
  alone outside the range, and otherwise inexact when the operand was not an integer.
\<close>

theorem fp_to_int_insn_correct:
  assumes "hart_inv p s" and "config_ok p" and "fp_permitted p s" and "xreg_ok p (insn_rd bits)"
    and "(m, body, present, wide, lo, hi) \<in>
          {(0xc0000053, fcvt_w_s, has_F p, False, - (2 ^ 31), 2 ^ 31 - 1), (0xc0100053, fcvt_wu_s, has_F p, False, 0, 2 ^ 32 - 1),
           (0xc0200053, fcvt_l_s, has_F p \<and> xlen p = 64, True, - (2 ^ 63), 2 ^ 63 - 1),
           (0xc0300053, fcvt_lu_s, has_F p \<and> xlen p = 64, True, 0, 2 ^ 64 - 1)}"
    and "present" and "bits AND 0xfff0007f = m" and "rm_value bits s = Some mode"
  shows "\<exists>s'. execute_insn p bits s = Some (Inr (), s') \<and>
    (let (n, st) = ieee_to_int F32 (riscv_rmode mode) lo hi True (fsrc p s (insn_rs1 bits)) (armed mode s); rd = insn_rd bits
     in XPR s' = (if rd = 0 then XPR s else (XPR s)(rd := (if wide then word_of_int n else sext32 (word_of_int n)))) \<and>
        FPR s' = FPR s \<and> fflags s' = fflags s OR (ucast (softfloat_exceptionFlags st) AND 0x1f) \<and>
        frm s' = frm s \<and> pc s' = sext_xlen p (pc s + 4))"
proof -
  have table: "(m, 0xfff0007f, body) \<in> set fp_bodies"
    using assms(5) by (elim insertE emptyE; simp add: fp_bodies_def)
  obtain n st where to_int: "ieee_to_int F32 (riscv_rmode mode) lo hi True (fsrc p s (insn_rs1 bits)) (armed mode s) = (n, st)"
    by fastforce
  have body: "body p bits s = fp_spec present Sets (xreg_ok p (insn_rd bits)) p bits (write_x (insn_rd bits))
    (\<lambda>m s. apfst (\<lambda>n. if wide then word_of_int n else sext32 (word_of_int n))
      (ieee_to_int F32 (riscv_rmode mode) lo hi True (frs1 p bits s) (softfloat s))) s"
    using assms(5) by (elim insertE emptyE; simp add: to_int_specs [OF inv_parts(1) [OF assms(1)] assms(8)])
  have run: "body p bits s = (Inr (), accrue p (write_x (insn_rd bits) (if wide then word_of_int n else sext32 (word_of_int n))
      (s\<lparr>softfloat := st\<rparr>)))"
    using assms(3,4,6,8) to_int by (simp add: body fp_spec_def)
  from fp_retires [OF assms(1,2) table assms(7) run] show ?thesis
    by (simp add: to_int Let_def)
qed

section \<open>What every floating-point instruction respects\<close>


text \<open>
  C25: with the floating-point unit off (the FS field of \<open>mstatus\<close>, or of \<open>vsstatus\<close> in a virtual
  machine, is Off, and there is no Zfinx) every floating-point instruction raises the
  illegal-instruction exception and changes nothing.
\<close>

theorem fp_unit_off_traps:
  assumes "hart_inv p s" and "config_ok p" and "\<not> extension_enabled p EXT_ZFINX"
    and "mstatus s AND MSTATUS_FS = 0 \<or> virt s \<and> vsstatus s AND MSTATUS_FS = 0"
    and "(m, k, body) \<in> set fp_bodies" and "bits AND k = m"
  shows "execute_insn p bits s = Some (Inl (trap_illegal_instruction bits), s)"
proof -
  have off: "\<not> sstatus_enabled p MSTATUS_FS s" using assms(4) by (auto simp: fs_enabled)
  with assms(3) have denied: "\<not> fp_permitted p s" and trap: "fp_trap p s bits = trap_illegal_instruction bits"
    by (auto simp: fp_permitted_def fp_trap_def)
  note ok = inv_parts(1,2) [OF assms(1)]
  have freg: "freg_ok p (insn_rd bits)" by (rule config_freg_ok [OF assms(2)])
  have isa: "isa_ok p" using assms(2) by (simp add: config_ok_def)
  have "body p bits s = (Inl (trap_illegal_instruction bits), s)"
    using assms(5) arith_specs [OF ok(1)] fused_specs [OF ok(1)] fcvt_s_int_specs [OF ok(1)] fcvt_int_s_specs [OF ok(1)] fcvt_format_specs [OF ok(1)]
      compare_insn_specs [OF ok(1)] minmax_insn_specs [OF ok(1) freg] plain_insn_specs [OF ok] move_insn_specs [OF ok isa]
    by (auto simp: fp_bodies_def fp_spec_def denied trap)
  then show ?thesis by (rule fp_traps [OF assms(5,6)])
qed

text \<open>
  C30: \<open>fmin.s\<close> and \<open>fmax.s\<close> check their destination only after SoftFloat has compared: with the E base
  ISA and Zfinx, a destination above 15 and a signalling NaN operand, they raise the
  illegal-instruction exception but leave SoftFloat's invalid flag set, which the next
  floating-point instruction accrues into \<open>fflags\<close>.
\<close>

theorem fp_minmax_trap_leaves_flag:
  assumes "status_ok p s" and "sf_raised s = 0" and "fp_permitted p s" and "extension_enabled p EXT_ZFINX" and "rve p"
    and "16 \<le> insn_rd bits" and "bits AND 0xfe00707f \<in> {0x28000053, 0x28001053}"
    and "ieee_class F32 (fsrc p s (insn_rs1 bits)) = 8 \<or> ieee_class F32 (fsrc p s (insn_rs2 bits)) = 8"
  shows "execute_insn p bits s =
    Some (Inl (trap_illegal_instruction bits), s\<lparr>softfloat := (softfloat s)\<lparr>softfloat_exceptionFlags := 0x10\<rparr>\<rparr>)"
proof -
  have flags: "quiet_flags F32 (frs1 p bits s) (frs2 p bits s) (softfloat s) = (softfloat s)\<lparr>softfloat_exceptionFlags := 0x10\<rparr>"
    using assms(2,8) by (auto simp: quiet_flags_def softfloat_raiseFlags_def softfloat_flag_invalid_def sf_raised_def)
  have gone: "\<not> freg_ok p (insn_rd bits)"
    using assms(4-6) by (simp add: freg_ok_def xreg_ok_def linorder_not_less)
  have "fp_ready p s" using assms(1,3) by (simp add: fp_ready_def)
  then have "fmin_s p bits s = (Inl (trap_illegal_instruction bits), s\<lparr>softfloat := (softfloat s)\<lparr>softfloat_exceptionFlags := 0x10\<rparr>\<rparr>)"
    and "fmax_s p bits s = (Inl (trap_illegal_instruction bits), s\<lparr>softfloat := (softfloat s)\<lparr>softfloat_exceptionFlags := 0x10\<rparr>\<rparr>)"
    using assms(3,4) gone flags
    by (simp_all add: fmin_s_def fmax_s_def order_test minmax_write guard_defs hart_eval)
  then show ?thesis
    using assms(7) fp_traps [of "0x28000053" "0xfe00707f" fmin_s bits p s] fp_traps [of "0x28001053" "0xfe00707f" fmax_s bits p s]
    by (auto simp: fp_bodies_def)
qed

end
