(* ===== verification/Hart_Csr.thy ===== *)
theory Hart_Csr
  imports Hart_Run
begin

text \<open>
  The CSR side of the hart: a write is read back through the accessors, the status registers stay
  well-formed whatever is written, marking the unit dirty changes what it should, and a CSR
  instruction exchanges a register with a CSR in two passes of the step loop.
\<close>

section \<open>Widths\<close>

definition csr_width :: "csr \<Rightarrow> u64" where
  "csr_width c = (case c of CSR_FFLAGS \<Rightarrow> 0x1f | CSR_FRM \<Rightarrow> 0x7 | CSR_FCSR \<Rightarrow> 0xff)"

lemma csr_masks: "(0x1f :: u64) = mask 5" "(0x7 :: u64) = mask 3" "(0xff :: u64) = mask 8"
  by (simp_all add: mask_eq_exp_minus_1)

lemma zext_bit: "xlen p = 32 \<or> xlen p = 64 \<Longrightarrow> bit (zext_xlen p x) n \<longleftrightarrow> n < xlen p \<and> bit x n"
  by (auto simp: zext_xlen_def zext_def bit_simps)

lemma zext_low:
  assumes "config_ok p"
  shows "zext_xlen p x AND 0x1f = x AND 0x1f" "zext_xlen p x AND 0x7 = x AND 0x7"
    "drop_bit 5 (zext_xlen p x) AND 0x7 = drop_bit 5 x AND 0x7" "zext_xlen p x AND 0xff = x AND 0xff"
  using assms unfolding csr_masks config_ok_def
  by - (rule bit_word_eqI, auto simp: bit_simps zext_bit)+

lemma within_bit: "x AND NOT k = 0 \<Longrightarrow> bit x n \<Longrightarrow> bit k n" for x :: u64
  using and_eq_0_bit [of x "NOT k" n] bit_imp_le_length [of x n] by (auto simp: bit_simps)

lemma sext_low:
  assumes "config_ok p" and "x AND NOT 0xff = 0"
  shows "sext_xlen p x = x"
proof (rule bit_word_eqI)
  fix n assume n: "n < LENGTH(64)"
  have low: "bit x i \<Longrightarrow> i < 8" for i
    using within_bit [OF assms(2) [unfolded csr_masks]] by (simp add: bit_mask_iff)
  then have "\<not> bit x 31" "\<not> bit x 63" "32 \<le> i \<Longrightarrow> \<not> bit x i" for i by fastforce+
  then show "bit (sext_xlen p x) n = bit x n"
    using assms(1) n by (auto simp: config_ok_def sext_xlen_def sext_def bit_simps dest: low)
qed

lemma csr_bits:
  assumes "hart_inv p s"
  shows "bit (fflags s) n \<Longrightarrow> n < 5" "bit (frm s) n \<Longrightarrow> n < 3"
proof -
  have "fflags s AND NOT (mask 5) = 0" "frm s AND NOT (mask 3) = 0"
    using assms unfolding hart_inv_def csr_masks by blast+
  from this [THEN within_bit] show "bit (fflags s) n \<Longrightarrow> n < 5" "bit (frm s) n \<Longrightarrow> n < 3"
    by (simp_all add: bit_mask_iff)
qed

lemma csr_read_small:
  assumes "hart_inv p s"
  shows "csr_read c s AND NOT 0xff = 0"
  unfolding csr_masks
  by (intro bit_word_eqI) (auto simp: csr_read_def bit_simps dest: csr_bits [OF assms] split: csr.split)

text \<open>What was written is what is read, to the width of the register.\<close>

lemma csr_read_written:
  assumes "hart_inv p s"
  shows "csr_read c (csr_written p c x s) = x AND csr_width c"
proof -
  have clear: "fflags s AND NOT 0x1f = 0" "frm s AND NOT 0x7 = 0"
    using assms by (simp_all only: hart_inv_def)
  have "push_bit 5 (drop_bit 5 x AND 0x7) OR (x AND 0x1f) = x AND 0xff"
    unfolding csr_masks by (intro bit_word_eqI) (auto simp: bit_simps)
  with clear show ?thesis by (cases c) (simp_all add: csr_read_def csr_written_def csr_width_def)
qed

section \<open>CSR instructions\<close>

lemma sentinels: "bit PC_SERIALIZE_BEFORE 0" "bit PC_SERIALIZE_AFTER 0" "PC_SERIALIZE_AFTER \<noteq> PC_SERIALIZE_BEFORE"
  by (simp_all add: PC_SERIALIZE_BEFORE_def PC_SERIALIZE_AFTER_def)

lemma csr_spec_exchanges:
  assumes "fp_permitted p s" and "csrmap_find (insn_csr insn) = Some c" and "wr \<longrightarrow> ok" and "xreg_ok p (insn_rd insn)"
  shows "csr_spec p insn npc wr ok new (s\<lparr>serialized := True\<rparr>) =
    (Inr PC_SERIALIZE_AFTER,
     (write_x (insn_rd insn) (sext_xlen p (csr_read c s))
       (if wr then csr_written p c (zext_xlen p (new (s\<lparr>serialized := True\<rparr>) (csr_read c s))) (s\<lparr>serialized := False\<rparr>)
        else s\<lparr>serialized := False\<rparr>))\<lparr>pc := npc AND pc_alignment_mask p\<rparr>)"
  using assms by (simp add: csr_spec_def Let_def)

lemma csr_written_sel:
  "fflags (csr_written p c x s) = (if c = CSR_FRM then fflags s else (fflags s AND NOT 0x1f) OR (x AND 0x1f))"
  "frm (csr_written p c x s) =
     (if c = CSR_FFLAGS then frm s else (frm s AND NOT 0x7) OR ((if c = CSR_FCSR then drop_bit 5 x else x) AND 0x7))"
  "XPR (csr_written p c x s) = XPR s" "FPR (csr_written p c x s) = FPR s" "serialized (csr_written p c x s) = serialized s"
  by (simp_all add: csr_written_def split: csr.split)

lemma csr_first_pass:
  assumes "\<not> serialized s"
  shows "csr_spec p insn npc wr ok new s = (Inr PC_SERIALIZE_BEFORE, s)"
  using assms by (simp add: csr_spec_def)

text \<open>
  C10: a CSR instruction on \<open>fflags\<close>, \<open>frm\<close> or \<open>fcsr\<close> takes two passes of the step loop: the first asks
  for the pipeline to be serialized and leaves everything else alone, the second puts the old value
  of the CSR in the destination register and the new one (the operand, or its bits set or cleared
  in the old value) in the CSR, cut to its fields, and moves to the next word.  The set and clear
  forms with \<open>x0\<close> or a zero immediate do not write.
\<close>

theorem csr_insn_exchanges:
  assumes "hart_inv p s" and "config_ok p" and "fp_permitted p s" and "\<not> serialized s"
    and "csrmap_find (insn_csr bits) = Some c" and "xreg_ok p (insn_rd bits)" and "wr \<longrightarrow> ok"
    and "(m, body, wr, ok, new) \<in>
      {(0x1073, csrrw, True, xreg_ok p (insn_rs1 bits), \<lambda>_. XPR s (insn_rs1 bits)),
       (0x2073, csrrs, insn_rs1 bits \<noteq> 0, xreg_ok p (insn_rs1 bits), \<lambda>old. old OR XPR s (insn_rs1 bits)),
       (0x3073, csrrc, insn_rs1 bits \<noteq> 0, xreg_ok p (insn_rs1 bits), \<lambda>old. old AND NOT (XPR s (insn_rs1 bits))),
       (0x5073, csrrwi, True, True, \<lambda>_. insn_rs1 bits),
       (0x6073, csrrsi, insn_rs1 bits \<noteq> 0, True, \<lambda>old. old OR insn_rs1 bits),
       (0x7073, csrrci, insn_rs1 bits \<noteq> 0, True, \<lambda>old. old AND NOT (insn_rs1 bits))}"
    and "bits AND 0x707f = m"
  shows "execute_insn p bits s = Some (Inr (), s\<lparr>serialized := True\<rparr>) \<and>
    (\<exists>s'. execute_insn p bits (s\<lparr>serialized := True\<rparr>) = Some (Inr (), s') \<and>
      (let old = csr_read c s; v = new old; rd = insn_rd bits
       in XPR s' = (if rd = 0 then XPR s else (XPR s)(rd := old)) \<and> FPR s' = FPR s \<and>
          fflags s' = (if wr \<and> c \<noteq> CSR_FRM then v AND 0x1f else fflags s) \<and>
          frm s' = (if wr \<and> c \<noteq> CSR_FFLAGS then (if c = CSR_FCSR then drop_bit 5 v else v) AND 0x7 else frm s) \<and>
          \<not> serialized s' \<and> pc s' = sext_xlen p (pc s + 4) AND pc_alignment_mask p))"
proof -
  let ?npc = "sext_xlen p (pc s + 4)" and ?t = "s\<lparr>serialized := True\<rparr>"
  have table: "(m, 0x707f, body) \<in> set csr_bodies"
    using assms(8) by (elim insertE emptyE; simp add: csr_bodies_def)
  obtain new' where body: "\<And>t. status_ok p t \<Longrightarrow> body p bits ?npc t = csr_spec p bits ?npc wr ok new' t"
    and new: "new' ?t = new"
    using assms(8) csr_body_specs [of p _ bits ?npc] by (elim insertE emptyE; fastforce)
  have ok: "status_ok p s" "status_ok p ?t" using assms(1) by (simp_all add: hart_inv_def)
  have first: "execute_insn p bits s = Some (Inr (), ?t)"
    using execute_csr [OF table assms(9), of p s] csr_first_pass [OF assms(4)]
    by (simp add: body [OF ok(1)] hart_eval advance_pc_def sentinels)
  have clear: "fflags s AND NOT 0x1f = 0" "frm s AND NOT 0x7 = 0" using assms(1) by (simp_all only: hart_inv_def)
  have second: "execute_insn p bits ?t = Some (Inr (), snd (csr_spec p bits ?npc wr ok new' ?t))"
    using execute_csr [OF table assms(9), of p ?t] body [OF ok(2)] csr_spec_exchanges [OF assms(3,5,7,6), of ?npc new']
    by (simp add: hart_eval advance_pc_def sentinels)
  have old: "sext_xlen p (csr_read c s) = csr_read c s" by (rule sext_low [OF assms(2) csr_read_small [OF assms(1)]])
  show ?thesis
    using first second csr_spec_exchanges [OF assms(3,5,7,6), of ?npc new'] clear
    by (simp add: new old Let_def write_x_def regfile_write_def csr_written_sel zext_low [OF assms(2)])
qed

text \<open>
  C29: what is written to \<open>fflags\<close>, \<open>frm\<close> or \<open>fcsr\<close> is read back, cut to the width of the register,
  whatever the rest of the value; the composite register spreads and collects its two parts.
\<close>

theorem fcsr_round_trip:
  assumes "hart_inv p s" and "config_ok p" and "fp_permitted p s" and "csrmap_find which = Some c"
  shows "\<exists>t. put_csr p which x s = (Inr (), t) \<and> get_csr p which insn wr t = (Inr (x AND csr_width c), t)"
proof -
  have ready: "fp_ready p s" using assms(1,3) by (simp add: fp_ready_def hart_inv_def)
  then have "fp_ready p (csr_written p c y s)" for y by (simp add: csr_written_def split: csr.split)
  then have "fp_permitted p (csr_written p c y s)" for y by (rule fp_ready_permitted)
  moreover have "zext_xlen p x AND csr_width c = x AND csr_width c"
    using zext_low [OF assms(2)] by (simp add: csr_width_def split: csr.split)
  ultimately show ?thesis
    using assms(4) ready by (simp add: put_csr_def get_csr_def hart_eval csr_read_written [OF assms(1)])
qed

end
