(* ===== verification/Hart_Examples.thy ===== *)
theory Hart_Examples
  imports Hart_Correct Hart_Csr
begin

text \<open>
  The properties of the instruction layer applied to two harts: an RV64 hart with F registers, in
  machine mode with the unit enabled (FS Initial), and an RV32E hart with Zfinx.
\<close>

section \<open>A hart with F registers\<close>

definition demo :: processor where
  "demo = \<lparr>xlen = 64, rve = False, extension_enabled = (\<lambda>e. e \<in> {EXT_F, EXT_S, EXT_U, EXT_ZFA}), has_mmu = True,
     any_vector_extensions = True, any_custom_extensions = False, target_big_endian = False\<rparr>"

definition demo_state :: state_t where
  "demo_state = (hart_reset demo)
     \<lparr>mstatus := 0xA00002000,
      FPR := (\<lambda>_. freg32 0)(1 := freg32 0x3F800000, 2 := freg32 0x40200000, 4 := freg32 0x7F800001),
      XPR := (\<lambda>_. 0)(5 := 0xE5)\<rparr>"

lemma demo_isa [simp]:
  "extension_enabled demo e = (e = EXT_F \<or> e = EXT_S \<or> e = EXT_U \<or> e = EXT_ZFA)"
  "xlen demo = 64" "\<not> rve demo" "\<not> target_big_endian demo"
  by (simp_all add: demo_def)

lemma demo_config: "config_ok demo"
  by (simp add: config_ok_def isa_ok_def)

lemma demo_sel [simp]:
  "pc demo_state = 0x1000" "frm demo_state = 0" "fflags demo_state = 0" "\<not> serialized demo_state" "\<not> virt demo_state"
  "mstatus demo_state = 0xA00002000" "XPR demo_state = (\<lambda>_. 0)(5 := 0xE5)" "softfloat demo_state = softfloat_init"
  "FPR demo_state = (\<lambda>_. freg32 0)(1 := freg32 0x3F800000, 2 := freg32 0x40200000, 4 := freg32 0x7F800001)"
  by (simp_all add: demo_state_def hart_reset_def)

lemma demo_inv: "hart_inv demo demo_state"
proof -
  have "mstatus_ok demo 0xA00002000"
    by (simp add: mstatus_ok_def get_field_def legalize_privilege_def adjust_sd_def status_masks PRV_U_def PRV_HS_def PRV_S_def)
  moreover have "vsstatus_ok demo demo_state"
    using hart_reset_inv [of demo] by (simp add: hart_inv_def status_ok_def vsstatus_ok_def henvcfg_dte_def demo_state_def)
  ultimately show ?thesis
    by (simp add: hart_inv_def status_ok_def sf_raised_def softfloat_init_def bit_numeral_rec(1))
qed

lemma demo_permitted: "fp_permitted demo demo_state"
  by (simp add: fp_permitted_def fs_enabled has_fs_def) (simp add: status_masks)

lemma demo_fields:
  "insn_rd 0x20F1D3 = 3" "insn_rs1 0x20F1D3 = 1" "insn_rs2 0x20F1D3 = 2" "insn_rm 0x20F1D3 = 7"
  by (simp_all add: insn_rd_def insn_rs1_def insn_rs2_def insn_rm_def insn_x_def)

lemma demo_src:
  "fsrc demo demo_state 1 = 0x3F800000" "fsrc demo demo_state 2 = 0x40200000" "fsrc demo demo_state 4 = 0x7F800001"
  by (simp_all add: fsrc_def)

lemma demo_next_pc: "sext_xlen demo 0x1004 = 0x1004"
  by (simp add: sext_xlen_def sext_def)

text \<open>\<open>fadd.s f3, f1, f2\<close> on 1.0 and 2.5, with the dynamic rounding mode.\<close>

lemma demo_sum: "ieee_add F32 RNE 0x3F800000 0x40200000 = (0x40600000 :: u32)"
proof -
  have "fst (f32_add 0x3F800000 0x40200000 softfloat_init) = 0x40600000" by code_simp
  then show ?thesis by (simp add: f32_add_ieee softfloat_init_def sf_mode_def sf_modes)
qed

lemma fp_arith_insn_correct_witness:
  "\<exists>s'. execute_insn demo 0x20F1D3 demo_state = Some (Inr (), s') \<and> FPR s' 3 = freg32 0x40600000 \<and> frm s' = 0 \<and> pc s' = 0x1004"
proof -
  have "rm_value 0x20F1D3 demo_state = Some 0" by (simp add: rm_value_def demo_fields)
  then show ?thesis
    using fp_arith_insn_correct [OF demo_inv demo_config _ demo_permitted insertI1, of "0x20F1D3"]
    by (simp add: demo_fields demo_src demo_next_pc demo_sum riscv_rmode_def Let_def) auto
qed

text \<open>\<open>fmsub.s f3, f2, f2, f1\<close>: 2.5 times 2.5 minus 1.0 is 5.25.\<close>

lemma fp_fused_insn_correct_witness:
  "\<exists>s'. execute_insn demo 0x082171C7 demo_state = Some (Inr (), s') \<and> FPR s' 3 = freg32 0x40A80000 \<and> pc s' = 0x1004"
proof -
  have fields: "insn_rd 0x082171C7 = 3" "insn_rs1 0x082171C7 = 2" "insn_rs2 0x082171C7 = 2" "insn_rs3 0x082171C7 = 1"
    "rm_value 0x082171C7 demo_state = Some 0"
    by (simp_all add: insn_rd_def insn_rs1_def insn_rs2_def insn_rs3_def insn_rm_def insn_x_def rm_value_def demo_fields)
  have neg: "fneg_of 0x3F800000 = (0xBF800000 :: u32)" using fneg_of_flip [of "0x3F800000 :: u32"] by simp
  have "fst (f32_mulAdd 0x40200000 0x40200000 0xBF800000 softfloat_init) = 0x40A80000" by code_simp
  then have "ieee_fma F32 RNE 0x40200000 0x40200000 (0xBF800000 :: u32) = 0x40A80000"
    by (simp add: f32_mulAdd_ieee softfloat_init_def sf_mode_def sf_modes)
  then show ?thesis
    using fp_fused_insn_correct [OF demo_inv demo_config _ demo_permitted insertI2 [OF insertI1], of "0x082171C7"] fields
    by (simp add: demo_fields demo_src demo_next_pc neg riscv_rmode_def Let_def) auto
qed

text \<open>\<open>fmin.s f3, f1, f4\<close> on 1.0 and a signalling NaN.\<close>

lemma demo_snan: "fnan F32 (0x7F800001 :: u32)" "\<not> fnan F32 (0x3F800000 :: u32)" "ieee_class F32 (0x7F800001 :: u32) = 8"
  by (simp_all add: fnan_def fmag_def F32_def ieee_class_def)

lemma fp_minmax_insn_correct_witness:
  "\<exists>s'. execute_insn demo 0x284081D3 demo_state = Some (Inr (), s') \<and> FPR s' 3 = freg32 0x3F800000 \<and> fflags s' = 0x10"
proof -
  have "insn_rd 0x284081D3 = 3" "insn_rs1 0x284081D3 = 1" "insn_rs2 0x284081D3 = 4"
    by (simp_all add: insn_rd_def insn_rs1_def insn_rs2_def insn_x_def)
  then show ?thesis
    using fp_minmax_insn_correct [OF demo_inv demo_config demo_permitted insertI1, of "0x284081D3"]
    by (simp add: demo_src demo_snan ieee_min_def Let_def) auto
qed

text \<open>\<open>feq.s x6, f1, f1\<close>.\<close>

lemma fp_compare_insn_correct_witness:
  "\<exists>s'. execute_insn demo 0xA010A353 demo_state = Some (Inr (), s') \<and> XPR s' 6 = 1 \<and> fflags s' = 0"
proof -
  have "insn_rd 0xA010A353 = 6" "insn_rs1 0xA010A353 = 1" "insn_rs2 0xA010A353 = 1"
    by (simp_all add: insn_rd_def insn_rs1_def insn_rs2_def insn_x_def)
  moreover have "ieee_class F32 (0x3F800000 :: u32) \<noteq> 8" "ieee_eq F32 (0x3F800000 :: u32) 0x3F800000"
    by (simp_all add: fnan_def finf_def fmag_def F32_def ieee_class_def ieee_eq_def)
  ultimately show ?thesis
    using fp_compare_insn_correct [OF demo_inv demo_config demo_permitted _ insertI1, of "0xA010A353"]
    by (simp add: demo_src xreg_ok_def Let_def) auto
qed

text \<open>\<open>fcvt.w.s x6, f2, rtz\<close> on 2.5: the result is 2, inexact.\<close>

lemma fp_to_int_insn_correct_witness:
  "\<exists>s'. execute_insn demo 0xC0011353 demo_state = Some (Inr (), s') \<and> XPR s' 6 = 2 \<and> fflags s' = 1"
proof -
  have fields: "insn_rd 0xC0011353 = 6" "insn_rs1 0xC0011353 = 2" "rm_value 0xC0011353 demo_state = Some 1"
    by (simp_all add: insn_rd_def insn_rs1_def insn_rm_def insn_x_def rm_value_def)
  let ?r = "f32_to_i32 0x40200000 1 True (softfloat_init\<lparr>softfloat_roundingMode := 1\<rparr>)"
  have r: "fst ?r = 2" "softfloat_exceptionFlags (snd ?r) = 1" by code_simp+
  moreover have "?r = ieee_to_int F32 RTZ (- (2 ^ 31)) (2 ^ 31 - 1) True (0x40200000 :: u32) (softfloat_init\<lparr>softfloat_roundingMode := 1\<rparr>)"
    by (simp add: f32_to_i32_spec int_mode_def sf_mode_def sf_modes)
  moreover have "armed 1 demo_state = softfloat_init\<lparr>softfloat_roundingMode := 1\<rparr>" by (simp add: armed_def)
  ultimately show ?thesis
    using fp_to_int_insn_correct [OF demo_inv demo_config demo_permitted _ insertI1, of "0xC0011353" 1] fields
    by (simp add: demo_src xreg_ok_def riscv_rmode_def sext32_def Let_def split_beta) auto
qed

section \<open>Effects, permission, CSRs and reachable states\<close>

lemma in_fp_bodies: "(0x53, 0xfe00007f, fadd_s) \<in> set fp_bodies"
  by (simp add: fp_bodies_def)


text \<open>The same word with the unit off.\<close>

lemma fp_unit_off_traps_witness:
  "execute_insn demo 0x20F1D3 (demo_state\<lparr>mstatus := 0xA00000000\<rparr>)
     = Some (Inl (trap_illegal_instruction 0x20F1D3), demo_state\<lparr>mstatus := 0xA00000000\<rparr>)"
proof (rule fp_unit_off_traps [OF _ demo_config _ _ in_fp_bodies])
  have "mstatus_ok demo 0xA00000000"
    by (simp add: mstatus_ok_def get_field_def legalize_privilege_def adjust_sd_def status_masks PRV_U_def PRV_HS_def PRV_S_def)
  with demo_inv show "hart_inv demo (demo_state\<lparr>mstatus := 0xA00000000\<rparr>)"
    by (simp add: hart_inv_def status_ok_def sf_raised_def)
qed (simp_all add: status_masks)

lemma dirty_fp_state_correct_witness: "\<exists>t. dirty_fp_state demo demo_state = (Inr (), t) \<and> mstatus t = 0x8000000A00006000"
proof -
  have "sstatus_enabled demo MSTATUS_FS demo_state" by (simp add: fs_enabled has_fs_def) (simp add: status_masks)
  from dirty_fp_state_correct [OF inv_parts(1) [OF demo_inv] this] show ?thesis
    by (simp add: sd_bit_def status_masks)
qed

text \<open>\<open>csrrw x6, fcsr, x5\<close> with 0xE5 in \<open>x5\<close>: rounding mode 7, flags 5.\<close>

lemma csr_insn_exchanges_witness:
  "\<exists>s'. execute_insn demo 0x329373 demo_state = Some (Inr (), demo_state\<lparr>serialized := True\<rparr>) \<and>
     execute_insn demo 0x329373 (demo_state\<lparr>serialized := True\<rparr>) = Some (Inr (), s') \<and> fflags s' = 5 \<and> frm s' = 7 \<and> XPR s' 6 = 0"
proof -
  have fields: "insn_rd 0x329373 = 6" "insn_rs1 0x329373 = 5" "insn_csr 0x329373 = 3"
    by (simp_all add: insn_rd_def insn_rs1_def insn_csr_def insn_x_def)
  then have "csrmap_find (insn_csr 0x329373) = Some CSR_FCSR" by (simp add: csrmap_find_def)
  from csr_insn_exchanges [OF demo_inv demo_config demo_permitted demo_sel(4) this _ _ insertI1] fields show ?thesis
    by (simp add: xreg_ok_def Let_def csr_read_def) auto
qed

lemma fcsr_round_trip_witness:
  "\<exists>t. put_csr demo 3 0x1FF demo_state = (Inr (), t) \<and> get_csr demo 3 0 False t = (Inr 0xFF, t)"
  using fcsr_round_trip [OF demo_inv demo_config demo_permitted, of 3 CSR_FCSR "0x1FF" 0 False]
  by (simp add: csrmap_find_def csr_width_def)

lemma decode_insn_unambiguous_witness:
  "decode_insn (opcode_map_of demo) 0x20F1D3 = Some (insn_template 0x53 (falls_through fadd_s))"
  using decode_insn_unambiguous [of "fp_insn 0x53 0xfe00007f fadd_s" "0x20F1D3" demo] in_fp_bodies
  by (force simp: listed_instructions_def fp_insn_def)



section \<open>A hart with Zfinx and sixteen registers\<close>

definition demo_E :: processor where
  "demo_E = \<lparr>xlen = 32, rve = True, extension_enabled = (\<lambda>e. e = EXT_ZFINX), has_mmu = False,
     any_vector_extensions = False, any_custom_extensions = False, target_big_endian = False\<rparr>"

text \<open>\<open>fmin.s x16, x1, x2\<close> with a signalling NaN in \<open>x1\<close>.\<close>

lemma fp_minmax_trap_leaves_flag_witness:
  "\<exists>s'. execute_insn demo_E 0x28208853 ((hart_reset demo_E)\<lparr>XPR := (\<lambda>_. 0)(1 := 0x7F800001)\<rparr>)
      = Some (Inl (trap_illegal_instruction 0x28208853), s') \<and> sf_raised s' = 0x10"
proof -
  let ?s = "(hart_reset demo_E)\<lparr>XPR := (\<lambda>_. 0)(1 := 0x7F800001)\<rparr>"
  have fields: "insn_rd 0x28208853 = 16" "insn_rs1 0x28208853 = 1"
    by (simp_all add: insn_rd_def insn_rs1_def insn_x_def)
  have ok: "status_ok demo_E ?s" using hart_reset_inv [of demo_E] by (simp add: hart_inv_def)
  have zfinx: "extension_enabled demo_E EXT_ZFINX" "rve demo_E" by (simp_all add: demo_E_def)
  moreover have "\<not> extension_enabled demo_E EXT_SMSTATEEN" by (simp add: demo_E_def)
  ultimately have permitted: "fp_permitted demo_E ?s" by (simp add: fp_permitted_def)
  have "fsrc demo_E ?s 1 = 0x7F800001" by (simp add: fsrc_def zfinx)
  moreover have "sf_raised ?s = 0" by (simp add: sf_raised_def hart_reset_def softfloat_init_def)
  ultimately show ?thesis
    using fp_minmax_trap_leaves_flag [OF ok _ permitted zfinx, of "0x28208853"]
    by (simp add: fields demo_snan sf_raised_def)
qed

end
