(* ===== verification/Spec2Isabelle.thy ===== *)
theory Spec2Isabelle
  imports Vu_Fp8 Vu_Examples Hart_Examples
begin

text \<open>
  \<^bold>\<open>Verification library of the floating-point reference models.\<close>

  The repository is the verification environment of a RISC-V core with a vector unit.  The results a
  device under test is compared with come from two C models of floating-point arithmetic:

    \<^item> the vector unit's model, \<open>st/core_ref/uvm_tb/vu_inst_lib/dpi/vu_math.c\<close>, written for this
      repository and called from SystemVerilog through DPI: bfloat16, FP8 and MXFP8 conversions,
      comparisons, arithmetic and elementary functions in binary32 and bfloat16 by way of the
      multiple-precision library MPFR, and a reduction accumulator;
    \<^item> SoftFloat, \<open>verify_tools/vip/vector_rm/spike/riscv-isa-sim/softfloat/\<close>, the arithmetic of the
      Spike simulator, with the repository's bfloat16 and FP8 extensions.

  SoftFloat reaches the comparison by way of Spike's instructions (\<open>riscv-isa-sim/riscv/\<close>), which
  decode a word, check that the unit may be used, read and write the registers and accrue the flags.

  The library gives both models and that instruction layer as executable definitions, specifies them
  by one account of the IEEE 754 operations, proves that each implements the specification, and
  concludes here that the two agree bit for bit where both define a result.

  \<^bold>\<open>Conventions.\<close>  A \<open>float32_t\<close>, a \<open>float\<close> and their bits are the same word; the C unions that
  reinterpret them are the identity.  The fast unsigned integers of SoftFloat are the 64-bit words
  the platform file makes them, its signed fast integers are \<open>int\<close> (no operation leaves 32 or 64
  bits; the casts to unsigned are written out).  The thread-local rounding mode, tininess mode and
  exception flags of SoftFloat are the record \<open>sf_state\<close>, passed to and returned by every
  operation.  Assertions and undefined behaviour of the C code (a conversion of an
  out-of-range float to an integer) are \<open>None\<close>.  C's \<open>float\<close> arithmetic is the correctly rounded
  arithmetic of \<open>Vu_Float\<close>.  \<open>log2f\<close> and \<open>exp2f\<close> of the C library and all of MPFR are not in the repository:
  they are arguments of the definitions, with their documented behaviour as named hypotheses.

  \<^bold>\<open>Specification.\<close>
    \<^item> \<open>Prelude\<close>: words as numbers (\<open>unat_ops\<close>), bit lengths.
    \<^item> \<open>Float_Spec\<close>: formats (\<open>fmt\<close>), the value of an encoding (\<open>fval\<close>), rounding a
      rational to an encoding in seven modes (\<open>round_code\<close>, \<open>fround\<close>), and the notion that a
      significand with a sticky bit agrees with a real one (\<open>agrees\<close>), on which every rounding
      proof rests.
    \<^item> \<open>Ieee_Ops\<close>: sum, difference, product, quotient, fused multiply-add, order, class, maximum and minimum.

  \<^bold>\<open>SoftFloat.\<close>
    \<^item> \<open>Sf_Base\<close>: state, flags, modes, shifts that jam, leading-zero counts
      (\<open>softfloat_state.c\<close>, \<open>s_shiftRightJam*.c\<close>, \<open>s_countLeadingZeros*.c\<close>).
    \<^item> \<open>Sf_Pack\<close>: the arithmetic of the \<open>roundPackTo\<close> routines once, on natural numbers, with its
      rounding theorem; \<open>Sf_Packer\<close>: what the operations rely on as the locale \<open>round_packer\<close> and the
      common shape of the C bodies as \<open>word_packer\<close>, a \<open>sublocale\<close> of it; interpreted on
      every format's routine in \<open>Sf_F32\<close>, \<open>Sf_Small\<close>.
    \<^item> \<open>Sf_F32\<close>, \<open>Sf_F32_Arith\<close>: binary32 addition, subtraction, multiplication, division
      (\<open>f32_*.c\<close>, \<open>s_addMagsF32.c\<close>, \<open>s_subMagsF32.c\<close>, \<open>s_roundPackToF32.c\<close>, ...).
    \<^item> \<open>Sf_Mul_Add\<close>: the binary32 fused multiply-add (\<open>f32_mulAdd.c\<close>, \<open>s_mulAddF32.c\<close>).
    \<^item> \<open>Sf_Formats\<close>, \<open>Sf_Compare\<close>: fields of the formats, comparisons, classification, maximum
      and minimum in binary16, binary32, binary64 and bfloat16.
    \<^item> \<open>Sf_Small\<close>, \<open>Sf_Convert\<close>, \<open>Sf_Widen\<close>: binary16, bfloat16, E5M2 and E4M3 packing and the
      conversions among them and binary32; three conversions that do not do what they are for are
      proved wrong on concrete encodings.
    \<^item> \<open>Sf_Int\<close>: the four integer rounding routines (\<open>s_roundToUI32.c\<close>, ...) and their common
      contract, the locale \<open>int_rounder\<close>; \<open>Sf_To_Int\<close>: binary32 to integers of 8 to 64 bits, and
      the truncating variants; \<open>Sf_From_Int\<close>: integers to binary32 and bfloat16;
      \<open>Sf_Round_Int\<close>: \<open>f32_roundToInt\<close>.

  \<^bold>\<open>The vector unit's model.\<close>
    \<^item> \<open>Vu_Float\<close>: C's \<open>float\<close> operations; \<open>Vu_Convert\<close>, \<open>Vu_Fp8\<close>: the conversions.
    \<^item> \<open>Mpfr\<close>: the functions of MPFR the code calls as a record, and the behaviour its
      documentation promises (\<open>mpfr_ok\<close>): values, precisions, correct directed rounding, ternary values.
      \<open>Mpfr_Model\<close>: a concrete number type that satisfies all of it, used by every witness.
    \<^item> \<open>Vu_Mpfr\<close>: \<open>vu_mpfr_to_value\<close>, the final rounding, and what its \<open>side\<close> argument means;
      \<open>Vu_Alu\<close>: comparisons, classification, minimum and maximum.
    \<^item> \<open>Vu_Math\<close>: \<open>vu_mpfr_evaluate\<close>, the precision-doubling loop and the opcode dispatch;
      \<open>Vu_Result\<close>, \<open>Vu_Correct\<close>: what the loop returns is the exact result rounded once;
      \<open>Vu_Total\<close>: it does return; \<open>Vu_Ieee\<close>: the arithmetic opcodes are the IEEE operations.
    \<^item> \<open>Vu_Sum\<close>: the accumulator; \<open>Vu_Examples\<close>: the witnesses.

  \<^bold>\<open>The instruction layer.\<close>  A hart is the record \<open>state_t\<close>, with SoftFloat's thread-local state
  as a field; its configuration, which does not change, is the record \<open>processor\<close>.  An instruction is a
  function from the state to a result or an exception and the state in either case: what was written
  before a \<open>throw\<close> stays written.  The macros of the code are definitions of the same name.
    \<^item> \<open>Hart\<close>: registers, the status registers with their masks and legalization, the floating-point
      CSRs with their permissions, reset (\<open>decode.h\<close>, \<open>processor.cc\<close>, \<open>csrs.cc\<close>, \<open>csr_init.cc\<close>).
    \<^item> \<open>Hart_Insns\<close>: the register macros and 44 instruction bodies (\<open>decode_macros.h\<close>, \<open>insns/*.h\<close>);
      \<open>Hart_Decode\<close>: the opcode map and its search, equal to a search of the list
      (\<open>build_opcode_map\<close>, \<open>decode_insn\<close>); \<open>Hart_Step\<close>: the table of instructions, the wrapper of
      \<open>insn_template.cc\<close>, one fetched word through the step loop (\<open>execute.cc\<close>).
    \<^item> \<open>Hart_Status\<close>: well-formed status registers, marking the unit dirty; \<open>Hart_Fp\<close>: one equation per
      macro (\<open>hart_eval\<close>), NaN boxing; \<open>Hart_Spec\<close>: every body as an instance of one
      specification (\<open>fp_spec\<close>); \<open>Hart_Step\<close> also has the locale \<open>reg_writer\<close>, what the
      invariant needs of a destination, interpreted on the three writers.
    \<^item> \<open>Hart_Run\<close>: decoding finds one instruction for every word, every instruction keeps the
      invariant, and the states reachable from reset; \<open>Hart_Csr\<close>: CSR instructions and accessors;
      \<open>Hart_Correct\<close>: arithmetic, order and conversion instructions against IEEE 754, traps and
      flags; \<open>Hart_Examples\<close>: the witnesses.
  In the step relation \<open>hart_step\<close> the rule \<open>other\<close> stands for whatever else the simulator does between
  modelled instructions (trap entry, other instructions, other CSRs); it may change everything but
  what the rule lists.  \<open>config_ok\<close> leaves out the E base ISA with Zfinx, where \<open>fmin.s\<close> and \<open>fmax.s\<close> break
  the invariant: their trap leaves a SoftFloat flag behind, which is proved separately.

  \<^bold>\<open>Bounds and fuel.\<close>  The loop of \<open>vu_math_result\<close> doubles the precision without a limit, so it takes
  fuel and returns an option.  Whatever it returns is right for every fuel; for every operation but the
  sigmoid of a moderate argument one round is proved to suffice, since one correctly rounded
  evaluation in each direction brackets the result between neighbours that the rounding
  tells apart.  Statements on MPFR precisions assume at most 23 rounds (2 to the 28 bits), below MPFR's
  limit.  The accumulator has 512 bits, which is exact for up to 2 to the 200 terms.

  \<^bold>\<open>Not modelled.\<close>  Of SoftFloat: binary64, binary128 and 80-bit arithmetic, square roots, remainders,
  fused multiply-adds other than binary32's, and the multi-word primitives (the binary32 operations show the
  same routines at work).  Of \<open>vu_math.c\<close>: the allocation of the accumulator and the DPI wrapper types.
  Of Spike: the instructions other than the 44 (\<open>fsqrt.s\<close> needs a SoftFloat routine that is not modelled,
  loads and stores the memory system), CSRs other than \<open>fflags\<close>, \<open>frm\<close>, \<open>fcsr\<close> and the
  status registers (an access is the outcome \<open>Unmodelled_csr\<close>), fetching and address translation, trap
  entry, triggers, the commit log, which no instruction reads.  The rest of the repository is outside
  the language or the purpose of this library: the vector unit of Spike, its disassembler, debug module
  and device tree (third party), the vector test generator (third party), generated register and bus
  models, and the SystemVerilog test benches.
\<close>

section \<open>The two reference models agree\<close>

lemma vu_alu_ieee32:
  assumes "mpfr_ok M sem" "0 < fuel"
  shows "vu_fp_alu M fuel 0x01 a b c 0 rm = Some (ieee_add F32 (math_mode rm) a b)"
    "vu_fp_alu M fuel 0x03 a b c 0 rm = Some (ieee_sub F32 (math_mode rm) b a)"
    "vu_fp_alu M fuel 0x05 a b c 0 rm = Some (ieee_sub F32 (math_mode rm) a b)"
    "vu_fp_alu M fuel 0x06 a b c 0 rm = Some (ieee_mul F32 (math_mode rm) a b)"
    "vu_fp_alu M fuel 0x08 a b c 0 rm = Some (ieee_div F32 (math_mode rm) b a)"
    "vu_fp_alu M fuel 0x30 a b c 0 rm = Some (ieee_fma F32 (math_mode rm) a b c)"
    "vu_fp_alu M fuel 0x32 a b c 0 rm = Some (ieee_fma F32 (math_mode rm) (a XOR 0x80000000) b (c XOR 0x80000000))"
    "vu_fp_alu M fuel 0x34 a b c 0 rm = Some (ieee_fma F32 (math_mode rm) a b (c XOR 0x80000000))"
    "vu_fp_alu M fuel 0x36 a b c 0 rm = Some (ieee_fma F32 (math_mode rm) (a XOR 0x80000000) b c)"
  by (simp_all add: vu_fp_alu_def Let_def vu_value_to_fp32_def vu_math_ieee32 [OF assms])

text \<open>
  C4: The binary32 arithmetic of the vector unit's model and SoftFloat's agree bit for bit: the
  add, subtract, reverse-subtract, multiply, reverse-divide and the four fused multiply-add opcodes
  of \<open>vu_fp_alu\<close> return what \<open>f32_add\<close>, \<open>f32_sub\<close>, \<open>f32_mul\<close>, \<open>f32_div\<close> and \<open>f32_mulAdd\<close> return in the
  same rounding mode, for all encodings of the operands.
\<close>

theorem vu_fp_alu_softfloat:
  assumes "mpfr_ok M sem" and "0 < fuel" and "math_mode rm = sf_mode (softfloat_roundingMode st)"
  shows "vu_fp_alu M fuel 0x01 a b c 0 rm = Some (fst (f32_add a b st)) \<and>
    vu_fp_alu M fuel 0x03 a b c 0 rm = Some (fst (f32_sub b a st)) \<and>
    vu_fp_alu M fuel 0x05 a b c 0 rm = Some (fst (f32_sub a b st)) \<and>
    vu_fp_alu M fuel 0x06 a b c 0 rm = Some (fst (f32_mul a b st)) \<and>
    vu_fp_alu M fuel 0x08 a b c 0 rm = Some (fst (f32_div b a st)) \<and>
    vu_fp_alu M fuel 0x30 a b c 0 rm = Some (fst (f32_mulAdd a b c st)) \<and>
    vu_fp_alu M fuel 0x32 a b c 0 rm = Some (fst (f32_mulAdd (a XOR 0x80000000) b (c XOR 0x80000000) st)) \<and>
    vu_fp_alu M fuel 0x34 a b c 0 rm = Some (fst (f32_mulAdd a b (c XOR 0x80000000) st)) \<and>
    vu_fp_alu M fuel 0x36 a b c 0 rm = Some (fst (f32_mulAdd (a XOR 0x80000000) b c st))"
  by (simp only: vu_alu_ieee32 [OF assms(1,2)] assms(3) f32_add_ieee f32_sub_ieee f32_mul_ieee f32_div_ieee f32_mulAdd_ieee
      simp_thms)

theorem vu_fp_alu_softfloat_witness:
  "vu_fp_alu mpfr_model 1 0x08 0x40400000 0x3F800000 0 0 0 = Some (fst (f32_div 0x3F800000 0x40400000 softfloat_init))"
  using vu_fp_alu_softfloat [OF mpfr_model_ok, of 1 0 softfloat_init "0x40400000" "0x3F800000" 0]
  by (simp add: math_mode_def softfloat_init_def sf_mode_def softfloat_round_near_even_def)

lemma mask_bit: "k < 32 \<Longrightarrow> (2 ^ k AND ucast class_mask \<noteq> (0 :: u64)) = bit (class_mask :: u32) k"
proof -
  assume "k < 32"
  then have "bit (ucast class_mask :: u64) k = bit class_mask k" by (simp add: bit_simps)
  then show ?thesis by (simp add: and.commute [of "2 ^ k"] and_exp_eq_0_iff_not_bit)
qed

lemma ieee_class_less: "ieee_class F a < 32"
  by (simp add: ieee_class_def)

text \<open>
  C32: The comparisons, the classification, the minimum and the maximum of the vector unit's model
  agree with SoftFloat's on every pair of binary32 encodings, NaNs and signed zeros included.
\<close>

theorem vu_compare_softfloat:
  "vu_fp_compare 0x50 a b 0 = of_bool (fst (f32_eq b a st)) \<and>
   vu_fp_compare 0x54 a b 0 = of_bool (fst (f32_lt_quiet b a st)) \<and>
   vu_fp_compare 0x56 a b 0 = of_bool (fst (f32_le_quiet b a st)) \<and>
   vu_fp_compare 0x58 a b 0 = of_bool (fst (f32_lt_quiet a b st)) \<and>
   vu_fp_compare 0x59 a b 0 = of_bool (fst (f32_le_quiet a b st)) \<and>
   vu_minmax a b 0 1 rm = fst (f32_max a b st) \<and> vu_minmax a b 0 0 rm = fst (f32_min a b st) \<and>
   vu_fp_class a 0 class_mask = of_bool (f32_classify a AND ucast class_mask \<noteq> 0)"
  by (simp add: compare_orders minmax_ieee vu_class_ieee maxmin_ieee classify_ieee mask_bit ieee_class_less
      f32_eq_spec f32_lt_quiet_spec f32_le_quiet_spec)

text \<open>
  The two narrowings to bfloat16 agree: on every encoding that is not a NaN, \<open>vu_fp32_to_bf16\<close>
  returns what \<open>f32_to_bf16\<close> returns in the same rounding mode.
\<close>

theorem vu_fp32_to_bf16_softfloat:
  assumes "\<not> fnan F32 a" and "vu_mode rm = sf_mode (softfloat_roundingMode st)"
  shows "vu_fp32_to_bf16 a rm = ucast (fst (f32_to_bf16 a st))"
  using assms fmt_cases [of F32 a] special_conversions(4) [of a st] f32_to_bf16_finite [of a st]
  by (auto simp: fp32_to_bf16_ieee fnan_def finf_def ffinite_def)

theorem vu_fp32_to_bf16_softfloat_witness:
  "vu_fp32_to_bf16 0x3F80C000 0 = ucast (fst (f32_to_bf16 0x3F80C000 softfloat_init))"
  by (rule vu_fp32_to_bf16_softfloat)
    (simp_all add: fnan_def fmag_def F32_def vu_mode_def softfloat_init_def sf_mode_def softfloat_round_near_even_def)

end
